(* ===== verification/Prelude.thy ===== *)
theory Prelude
  imports Main "HOL-Library.Word" "HOL-Library.Monad_Syntax"
begin

text \<open>
  Shared vocabulary of the development: the machine integers of the C code, the result
  codes of \<^verbatim>\<open>BuckyBase/Global/result.h\<close>, and generic facts on words and lists.

  Conventions. \<open>'a option\<close> as the result of an operation stands for "the C code
  runs into an assertion or dereferences a pointer it must not": \<open>None\<close> is that
  outcome. A C pointer that may be null is an \<open>option\<close> too, and its type says so.
\<close>

unbundle bit_operations_syntax

type_synonym u8 = "8 word"
type_synonym u16 = "16 word"
type_synonym u32 = "32 word"
type_synonym u64 = "64 word"

text \<open>Result codes (\<^verbatim>\<open>result.h\<close>); every code is a \<open>uint32_t\<close>.\<close>

abbreviation (input) BFX_RESULT_SUCCESS :: u32 where "BFX_RESULT_SUCCESS \<equiv> 0"
abbreviation (input) BFX_RESULT_FAILED :: u32 where "BFX_RESULT_FAILED \<equiv> 1"
abbreviation (input) BFX_RESULT_INVALID_PARAM :: u32 where "BFX_RESULT_INVALID_PARAM \<equiv> 2"
abbreviation (input) BFX_RESULT_PENDING :: u32 where "BFX_RESULT_PENDING \<equiv> 6"
abbreviation (input) BFX_RESULT_NOT_ENOUGH_BUFFER :: u32 where "BFX_RESULT_NOT_ENOUGH_BUFFER \<equiv> 7"
abbreviation (input) BFX_RESULT_ALREADY_EXISTS :: u32 where "BFX_RESULT_ALREADY_EXISTS \<equiv> 9"
abbreviation (input) BFX_RESULT_NOT_FOUND :: u32 where "BFX_RESULT_NOT_FOUND \<equiv> 10"
abbreviation (input) BFX_RESULT_INVALID_STATE :: u32 where "BFX_RESULT_INVALID_STATE \<equiv> 11"
abbreviation (input) BFX_RESULT_INVALID_FORMAT :: u32 where "BFX_RESULT_INVALID_FORMAT \<equiv> 23"
abbreviation (input) BFX_RESULT_NO_MORE_DATA :: u32 where "BFX_RESULT_NO_MORE_DATA \<equiv> 30"
abbreviation (input) BFX_RESULT_NOT_CHANGED :: u32 where "BFX_RESULT_NOT_CHANGED \<equiv> 40"
abbreviation (input) BFX_RESULT_TOO_SMALL :: u32 where "BFX_RESULT_TOO_SMALL \<equiv> 43"
abbreviation (input) BFX_RESULT_INVALID_ENCODE :: u32 where "BFX_RESULT_INVALID_ENCODE \<equiv> 104"

section \<open>Words\<close>

lemma unat_diff_le [simp]: "(s :: 'a::len word) \<le> e \<Longrightarrow> unat (e - s) = unat e - unat s"
  by (simp add: unat_sub)

lemma unat_add_no_overflow:
  "unat (a :: 'a::len word) + unat b < 2 ^ LENGTH('a) \<Longrightarrow> unat (a + b) = unat a + unat b"
  by (simp add: unat_word_ariths)

lemma word_le_unat: "(a :: 'a::len word) \<le> b \<longleftrightarrow> unat a \<le> unat b"
  by (simp add: word_le_nat_alt)

lemma word_less_unat: "(a :: 'a::len word) < b \<longleftrightarrow> unat a < unat b"
  by (simp add: word_less_nat_alt)

text \<open>The facts that move a comparison of words to the naturals, where \<open>arith\<close> decides it.\<close>

lemmas word_to_nat = word_le_unat word_less_unat

lemma unat_max [simp]: "unat (max a b :: 'a::len word) = max (unat a) (unat b)"
  and unat_min [simp]: "unat (min a b :: 'a::len word) = min (unat a) (unat b)"
  by (auto simp: max_def min_def word_le_unat)

lemma unat_lt64: "unat (x :: u64) < 18446744073709551616"
  using unsigned_less [of x, where ?'a = nat] by simp

lemma unat_lt32: "unat (x :: u32) < 4294967296"
  using unsigned_less [of x, where ?'a = nat] by simp

lemma unat_lt16: "unat (x :: u16) < 65536"
  using unsigned_less [of x, where ?'a = nat] by simp

lemma unat_ucast_16_64 [simp]: "unat (ucast (x :: u16) :: u64) = unat x"
  by (simp add: unsigned_ucast_eq take_bit_nat_eq_self_iff less_le_trans [OF unat_lt16])

lemma unat_ucast_16_32 [simp]: "unat (ucast (x :: u16) :: u32) = unat x"
  by (simp add: unsigned_ucast_eq take_bit_nat_eq_self_iff less_le_trans [OF unat_lt16])

lemma unat_ucast_32_64 [simp]: "unat (ucast (x :: u32) :: u64) = unat x"
  by (simp add: unsigned_ucast_eq take_bit_nat_eq_self_iff less_le_trans [OF unat_lt32])

section \<open>Lists\<close>

text \<open>Insertion of the list \<open>zs\<close> behind the first occurrence of \<open>p\<close>.\<close>

fun ins_after :: "'a \<Rightarrow> 'a list \<Rightarrow> 'a list \<Rightarrow> 'a list" where
  "ins_after p zs [] = []"
| "ins_after p zs (y # ys) = (if y = p then y # zs @ ys else y # ins_after p zs ys)"

lemma ins_after_append:
  "p \<notin> set us \<Longrightarrow> ins_after p zs (us @ p # vs) = us @ p # zs @ vs"
  by (induction us) auto

lemma ins_after_last:
  assumes "distinct ys" and "ys \<noteq> []"
  shows "ins_after (last ys) zs ys = ys @ zs"
proof -
  obtain us p where ys: "ys = us @ [p]"
    using assms(2) by (metis append_butlast_last_id)
  then have "p \<notin> set us" using assms(1) by simp
  then show ?thesis using ins_after_append [of p us zs "[]"] by (simp add: ys)
qed

end
