(* ===== verification/BfxList.thy ===== *)
theory BfxList
  imports Prelude
begin

text \<open>
  The intrusive doubly linked list of \<^verbatim>\<open>c/src/BuckyBase/Coll/list.c\<close>, at the level of
  its pointers. An item is an address with a \<open>prev\<close> and a \<open>next\<close> link; a \<open>BfxList\<close>
  is the address of its head item, which closes the ring, with a count. Every operation
  is the sequence of stores of the C code; a failing \<open>assert\<close> or a walk through a null link
  is \<open>None\<close>.

  \<open>dlist h l xs\<close> says that in heap \<open>h\<close> the list at \<open>l\<close> is the ring
  through exactly the items \<open>xs\<close>. The refinement lemmas show that each operation takes
  rings to rings and acts on \<open>xs\<close> as the corresponding operation on HOL lists. The other
  theories use that: they represent a \<open>BfxList\<close> by the HOL list of its items.
\<close>

section \<open>The heap of list items\<close>

type_synonym ptr = nat

abbreviation NULL :: ptr where "NULL \<equiv> 0"

record heap =
  item_prev :: "ptr \<Rightarrow> ptr"
  item_next :: "ptr \<Rightarrow> ptr"
  list_count :: "ptr \<Rightarrow> nat"

definition set_next :: "ptr \<Rightarrow> ptr \<Rightarrow> heap \<Rightarrow> heap" where
  "set_next a v h = h\<lparr>item_next := (item_next h)(a := v)\<rparr>"

definition set_prev :: "ptr \<Rightarrow> ptr \<Rightarrow> heap \<Rightarrow> heap" where
  "set_prev a v h = h\<lparr>item_prev := (item_prev h)(a := v)\<rparr>"

definition set_count :: "ptr \<Rightarrow> nat \<Rightarrow> heap \<Rightarrow> heap" where
  "set_count l n h = h\<lparr>list_count := (list_count h)(l := n)\<rparr>"

lemma heap_set_simps [simp]:
  "item_next (set_next a v h) = (item_next h)(a := v)"
  "item_prev (set_next a v h) = item_prev h"
  "list_count (set_next a v h) = list_count h"
  "item_next (set_prev a v h) = item_next h"
  "item_prev (set_prev a v h) = (item_prev h)(a := v)"
  "list_count (set_prev a v h) = list_count h"
  "item_next (set_count a n h) = item_next h"
  "item_prev (set_count a n h) = item_prev h"
  "list_count (set_count a n h) = (list_count h)(a := n)"
  by (simp_all add: set_next_def set_prev_def set_count_def)

section \<open>The operations\<close>

definition BfxListInit :: "ptr \<Rightarrow> heap \<Rightarrow> heap" where
  "BfxListInit l h = set_next l l (set_prev l l (set_count l 0 h))"

partial_function (option) bfx_exists_loop :: "heap \<Rightarrow> ptr \<Rightarrow> ptr \<Rightarrow> ptr \<Rightarrow> bool option" where
  "bfx_exists_loop h l it target =
     (if it = l then Some False
      else if it = target then Some True
      else if it = NULL then None
      else bfx_exists_loop h l (item_next h it) target)"

definition BfxListExists :: "ptr \<Rightarrow> ptr \<Rightarrow> heap \<Rightarrow> bool option" where
  "BfxListExists l target h = bfx_exists_loop h l (item_next h l) target"

definition BfxListInsertAfter :: "ptr \<Rightarrow> ptr \<Rightarrow> ptr \<Rightarrow> heap \<Rightarrow> heap option" where
  "BfxListInsertAfter l pos item h = do {
     posIn \<leftarrow> (if pos = l then Some True else BfxListExists l pos h);
     itemIn \<leftarrow> BfxListExists l item h;
     if \<not> posIn \<or> itemIn then None
     else do {
       let h = set_next item (item_next h pos) h;
       let h = set_prev item pos h;
       let h = set_prev (item_next h pos) item h;
       let h = set_next pos item h;
       Some (set_count l (list_count h l + 1) h)
     }
   }"

fun BfxListMultiInsertAfter :: "ptr \<Rightarrow> ptr \<Rightarrow> ptr list \<Rightarrow> heap \<Rightarrow> heap option" where
  "BfxListMultiInsertAfter l pos [] h = Some h"
| "BfxListMultiInsertAfter l pos (item # items) h = do {
     h \<leftarrow> BfxListInsertAfter l pos item h;
     BfxListMultiInsertAfter l item items h
   }"

definition BfxListErase :: "ptr \<Rightarrow> ptr \<Rightarrow> heap \<Rightarrow> heap option" where
  "BfxListErase l item h = do {
     itemIn \<leftarrow> BfxListExists l item h;
     if \<not> itemIn \<or> item_next h l = l \<or> item_prev h l = l \<or> list_count h l = 0 then None
     else do {
       let h = set_prev (item_next h item) (item_prev h item) h;
       let h = set_next (item_prev h item) (item_next h item) h;
       let h = set_next item NULL (set_prev item NULL h);
       Some (set_count l (list_count h l - 1) h)
     }
   }"

definition BfxListSwap :: "ptr \<Rightarrow> ptr \<Rightarrow> heap \<Rightarrow> heap" where
  "BfxListSwap l other h =
     (let headPrev = item_prev h l; headNext = item_next h l;
          h = (if list_count h other = 0 then set_next l l (set_prev l l h)
               else let h = set_next l (item_next h other) (set_prev l (item_prev h other) h);
                        h = set_prev (item_next h l) l h
                    in set_next (item_prev h l) l h);
          h = (if list_count h l = 0 then set_next other other (set_prev other other h)
               else let h = set_next other headNext (set_prev other headPrev h);
                        h = set_prev (item_next h other) other h
                    in set_next (item_prev h other) other h);
          size = list_count h l
      in set_count other size (set_count l (list_count h other) h))"

definition BfxListPushBack :: "ptr \<Rightarrow> ptr \<Rightarrow> heap \<Rightarrow> heap option" where
  "BfxListPushBack l item h = BfxListInsertAfter l (item_prev h l) item h"

definition BfxListPushFront :: "ptr \<Rightarrow> ptr \<Rightarrow> heap \<Rightarrow> heap option" where
  "BfxListPushFront l item h = BfxListInsertAfter l l item h"

definition BfxListPopBack :: "ptr \<Rightarrow> heap \<Rightarrow> (ptr \<times> heap) option" where
  "BfxListPopBack l h =
     (if list_count h l > 0
      then let item = item_prev h l in map_option (Pair item) (BfxListErase l item h)
      else Some (NULL, h))"

definition BfxListPopFront :: "ptr \<Rightarrow> heap \<Rightarrow> (ptr \<times> heap) option" where
  "BfxListPopFront l h =
     (if list_count h l > 0
      then let item = item_next h l in map_option (Pair item) (BfxListErase l item h)
      else Some (NULL, h))"

definition BfxListSize :: "ptr \<Rightarrow> heap \<Rightarrow> nat" where
  "BfxListSize l h = list_count h l"

definition BfxListIsEmpty :: "ptr \<Rightarrow> heap \<Rightarrow> bool" where
  "BfxListIsEmpty l h \<longleftrightarrow> list_count h l \<le> 0"

definition BfxListClear :: "ptr \<Rightarrow> heap \<Rightarrow> heap" where
  "BfxListClear l h = set_next l l (set_prev l l (set_count l 0 h))"

definition BfxListFirst :: "ptr \<Rightarrow> heap \<Rightarrow> ptr" where
  "BfxListFirst l h = (if list_count h l = 0 then NULL else item_next h l)"

definition BfxListNext :: "ptr \<Rightarrow> ptr \<Rightarrow> heap \<Rightarrow> ptr option" where
  "BfxListNext l current h =
     (if current = l then None
      else if item_next h current = l then Some NULL
      else Some (item_next h current))"

definition BfxListLast :: "ptr \<Rightarrow> heap \<Rightarrow> ptr" where
  "BfxListLast l h = (if list_count h l = 0 then NULL else item_prev h l)"

definition BfxListPrev :: "ptr \<Rightarrow> ptr \<Rightarrow> heap \<Rightarrow> ptr option" where
  "BfxListPrev l current h = do {
     currentIn \<leftarrow> BfxListExists l current h;
     if \<not> currentIn \<or> current = l then None
     else if item_prev h current = l then Some NULL
     else Some (item_prev h current)
   }"

definition BfxListMerge :: "ptr \<Rightarrow> ptr \<Rightarrow> bool \<Rightarrow> heap \<Rightarrow> heap" where
  "BfxListMerge l other atBack h =
     (if list_count h other = 0 then h
      else
        let h = (if atBack then
                   let h = set_prev (item_next h other) (item_prev h l) h;
                       h = set_next (item_prev h other) l h;
                       h = set_next (item_prev h l) (item_next h other) h
                   in set_prev l (item_prev h other) h
                 else
                   let h = set_prev (item_next h other) l h;
                       h = set_next (item_prev h other) (item_next h l) h;
                       h = set_prev (item_next h l) (item_prev h other) h
                   in set_next l (item_next h other) h);
            h = set_count l (list_count h l + list_count h other) h
        in BfxListClear other h)"

definition BfxListMergeAfter :: "ptr \<Rightarrow> ptr \<Rightarrow> ptr \<Rightarrow> heap \<Rightarrow> heap" where
  "BfxListMergeAfter l other pos h =
     (if list_count h other = 0 then h
      else
        let h = set_prev (item_next h other) pos h;
            h = set_next (item_prev h other) (item_next h pos) h;
            h = set_prev (item_next h pos) (item_prev h other) h;
            h = set_next pos (item_next h other) h;
            h = set_count l (list_count h l + list_count h other) h
        in BfxListClear other h)"

section \<open>Rings in the heap\<close>

fun linked :: "heap \<Rightarrow> ptr list \<Rightarrow> bool" where
  "linked h (a # b # r) \<longleftrightarrow> item_next h a = b \<and> item_prev h b = a \<and> linked h (b # r)"
| "linked h r \<longleftrightarrow> True"

definition dlist :: "heap \<Rightarrow> ptr \<Rightarrow> ptr list \<Rightarrow> bool" where
  "dlist h l xs \<longleftrightarrow>
     linked h (l # xs @ [l]) \<and> distinct (l # xs) \<and> NULL \<notin> set (l # xs) \<and> list_count h l = length xs"

lemma linked_append:
  "linked h (us @ a # vs) \<longleftrightarrow> linked h (us @ [a]) \<and> linked h (a # vs)"
proof (induction us)
  case Nil
  show ?case by simp
next
  case (Cons u us)
  then show ?case by (cases us) auto
qed

lemma linked_snoc2:
  "linked h (us @ [a, b]) \<longleftrightarrow> linked h (us @ [a]) \<and> item_next h a = b \<and> item_prev h b = a"
  by (subst linked_append) auto

lemma linked_cong:
  assumes "\<And>a. a \<in> set (butlast xs) \<Longrightarrow> item_next h' a = item_next h a"
    and "\<And>a. a \<in> set (tl xs) \<Longrightarrow> item_prev h' a = item_prev h a"
  shows "linked h' xs = linked h xs"
  using assms by (induction h xs rule: linked.induct) auto

text \<open>Writes outside a ring do not disturb it: the frame rule the two-list operations use.\<close>

lemma dlist_frame:
  assumes "dlist h l xs"
    and "\<And>a. a \<in> set (l # xs) \<Longrightarrow> item_next h' a = item_next h a \<and> item_prev h' a = item_prev h a"
    and "list_count h' l = list_count h l"
  shows "dlist h' l xs"
proof -
  have "linked h' (l # xs @ [l]) = linked h (l # xs @ [l])"
    by (rule linked_cong) (use assms(2) in \<open>auto dest: in_set_butlastD\<close>)
  with assms(1,3) show ?thesis by (simp add: dlist_def)
qed

lemma dlist_links:
  assumes "dlist h l xs" and "l # xs = us @ a # vs"
  shows "item_next h a = hd (vs @ [l])" and "item_prev h (hd (vs @ [l])) = a"
proof -
  have "l # xs @ [l] = us @ a # vs @ [l]"
    using arg_cong [OF assms(2), of "\<lambda>ys. ys @ [l]"] by simp
  moreover have "linked h (l # xs @ [l])"
    using assms(1) by (simp add: dlist_def)
  ultimately have "linked h (us @ a # vs @ [l])"
    by (rule subst)
  then have "linked h (a # vs @ [l])" by (blast dest: iffD1 [OF linked_append])
  then show "item_next h a = hd (vs @ [l])" and "item_prev h (hd (vs @ [l])) = a"
    by (cases vs; simp)+
qed

lemma dlist_first: "dlist h l xs \<Longrightarrow> item_next h l = hd (xs @ [l])"
  by (rule dlist_links(1) [of _ _ _ "[]" _ xs]) auto

lemma dlist_last: "dlist h l xs \<Longrightarrow> item_prev h l = last (l # xs)"
proof -
  assume d: "dlist h l xs"
  have "l # xs = butlast (l # xs) @ last (l # xs) # []"
    by (metis append_butlast_last_id list.distinct(1))
  from dlist_links(2) [OF d this] show ?thesis by simp
qed

lemma dlist_count: "dlist h l xs \<Longrightarrow> list_count h l = length xs"
  by (simp add: dlist_def)

lemma dlist_init [simp]: "l \<noteq> NULL \<Longrightarrow> dlist (BfxListInit l h) l []"
  by (simp add: dlist_def BfxListInit_def)

section \<open>The operations refine operations on HOL lists\<close>

lemma exists_loop_suffix:
  "linked h (ys @ [l]) \<Longrightarrow> l \<notin> set ys \<Longrightarrow> NULL \<notin> set ys \<Longrightarrow>
   bfx_exists_loop h l (hd (ys @ [l])) t = Some (t \<in> set ys)"
proof (induction ys)
  case Nil
  show ?case by (simp add: bfx_exists_loop.simps)
next
  case (Cons y ys)
  have next_y: "item_next h y = hd (ys @ [l])" and "linked h (ys @ [l])"
    using Cons.prems(1) by (cases ys; simp)+
  then have "bfx_exists_loop h l (item_next h y) t = Some (t \<in> set ys)"
    using Cons.IH Cons.prems(2,3) by simp
  then show ?case
    using Cons.prems(2,3) by (auto simp: bfx_exists_loop.simps [of h l y t])
qed

lemma exists_refines: "dlist h l xs \<Longrightarrow> BfxListExists l t h = Some (t \<in> set xs)"
proof -
  assume d: "dlist h l xs"
  have "linked h (xs @ [l])"
    using d by (cases xs) (auto simp: dlist_def)
  then show ?thesis
    using exists_loop_suffix [of h xs l t] d
    by (simp add: BfxListExists_def dlist_first [OF d]) (simp add: dlist_def)
qed

text \<open>What an operation on the list at \<open>l\<close> leaves alone: every address outside \<open>S\<close>.\<close>

definition untouched :: "ptr set \<Rightarrow> heap \<Rightarrow> heap \<Rightarrow> bool" where
  "untouched S h h' \<longleftrightarrow>
     (\<forall>a. a \<notin> S \<longrightarrow> item_next h' a = item_next h a \<and> item_prev h' a = item_prev h a \<and>
                    list_count h' a = list_count h a)"

lemma dlist_untouched: "untouched S h h' \<Longrightarrow> dlist h m ys \<Longrightarrow> set (m # ys) \<inter> S = {} \<Longrightarrow> dlist h' m ys"
  by (rule dlist_frame) (auto simp: untouched_def)

text \<open>
  Every operation cuts the ring at some item \<open>p\<close>, and links what comes between \<open>p\<close> and
  the item \<open>hd (vs @ [l])\<close> behind the cut anew. The two halves survive if the new heap
  agrees with the old one on their inner links.
\<close>

lemma linked_join:
  assumes "linked h (us @ [p])" and "linked h (p # mid @ [hd zs])" and "linked h zs" and "zs \<noteq> []"
  shows "linked h (us @ p # mid @ zs)"
proof -
  obtain z zs' where zs: "zs = z # zs'"
    using assms(4) by (cases zs) auto
  have "linked h ((p # mid) @ z # zs')"
    using assms(2,3) linked_append [of h "p # mid" z zs'] by (simp add: zs)
  then show ?thesis
    using assms(1) linked_append [of h us p "mid @ zs"] by (simp add: zs)
qed

lemma ring_halves:
  assumes d: "dlist h l xs" and cut: "l # xs = us @ p # mid @ vs"
    and nexts: "\<And>a. a \<in> set us \<union> set vs \<Longrightarrow> item_next h' a = item_next h a"
    and prevs: "\<And>a. a \<in> set (us @ p # vs @ [l]) \<Longrightarrow> a \<noteq> hd (vs @ [l]) \<Longrightarrow>
                     item_prev h' a = item_prev h a"
  shows "linked h' (us @ [p])" and "linked h' (vs @ [l])"
proof -
  have dist: "distinct (us @ p # mid @ vs)"
    using d cut by (metis dlist_def)
  have "l # xs @ [l] = us @ p # mid @ vs @ [l]"
    using arg_cong [OF cut, of "\<lambda>ys. ys @ [l]"] by simp
  moreover have "linked h (l # xs @ [l])"
    using d by (simp add: dlist_def)
  ultimately have "linked h (us @ p # mid @ vs @ [l])"
    by (rule subst)
  then have old: "linked h (us @ [p])" and rest: "linked h (p # mid @ vs @ [l])"
    by (blast dest: iffD1 [OF linked_append])+
  have old_vs: "linked h (vs @ [l])"
  proof (cases vs)
    case (Cons v vs')
    then show ?thesis
      using rest linked_append [of h "p # mid" v "vs' @ [l]"] by simp
  qed simp
  have hd_us: "hd (us @ [p]) = l"
    using arg_cong [OF cut, of hd] by (cases us) auto
  have w: "hd (vs @ [l]) \<in> insert l (set vs)"
    by (cases vs) auto
  have "l \<notin> set (tl (us @ [p]))" "l \<notin> set vs"
    using dist hd_us by (cases us; auto)+
  have us_prevs: "item_prev h' a = item_prev h a" if a: "a \<in> set (tl (us @ [p]))" for a
  proof (rule prevs)
    have "a \<in> set (us @ [p])" using a by (cases us) auto
    then show "a \<in> set (us @ p # vs @ [l])" by auto
    have "a \<notin> set vs" using \<open>a \<in> set (us @ [p])\<close> dist by auto
    then show "a \<noteq> hd (vs @ [l])" using a w \<open>l \<notin> set (tl (us @ [p]))\<close> by auto
  qed
  have vs_prevs: "item_prev h' a = item_prev h a" if a: "a \<in> set (tl (vs @ [l]))" for a
  proof (rule prevs)
    have "vs \<noteq> []" using a by auto
    then show "a \<in> set (us @ p # vs @ [l])" using a by (cases vs) auto
    show "a \<noteq> hd (vs @ [l])"
      using a dist \<open>vs \<noteq> []\<close> \<open>l \<notin> set vs\<close> by (cases vs) auto
  qed
  have "linked h' (us @ [p]) = linked h (us @ [p])"
    by (rule linked_cong) (use nexts us_prevs in auto)
  then show "linked h' (us @ [p])" using old by simp
  have "linked h' (vs @ [l]) = linked h (vs @ [l])"
    by (rule linked_cong) (use nexts vs_prevs in auto)
  then show "linked h' (vs @ [l])" using old_vs by simp
qed

lemma dlistI:
  assumes "linked h (l # xs @ [l])" "distinct (l # xs)" "NULL \<notin> set (l # xs)" "list_count h l = length xs"
  shows "dlist h l xs"
  using assms by (simp add: dlist_def)

lemma ring_rebuild:
  assumes "linked h (us @ [p])" and "linked h (p # mid @ [hd (vs @ [l])])" and "linked h (vs @ [l])"
    and "us @ p # mid @ vs = l # ys"
    and "distinct (us @ p # mid @ vs)" and "NULL \<notin> set (us @ p # mid @ vs)"
    and "list_count h l = length ys"
  shows "dlist h l ys"
proof (rule dlistI)
  have "linked h (us @ p # mid @ vs @ [l])"
    by (rule linked_join) (use assms(1-3) in auto)
  moreover have "us @ p # mid @ vs @ [l] = l # ys @ [l]"
    using arg_cong [OF assms(4), of "\<lambda>zs. zs @ [l]"] by simp
  ultimately show "linked h (l # ys @ [l])" by simp
  show "distinct (l # ys)" "NULL \<notin> set (l # ys)" "list_count h l = length ys"
    using assms(4-7) by metis+
qed

lemma insert_after_refines:
  assumes d: "dlist h l xs" and pos: "pos \<in> set (l # xs)"
    and item: "item \<notin> set (l # xs)" "item \<noteq> NULL"
  shows "\<exists>h'. BfxListInsertAfter l pos item h = Some h' \<and>
              dlist h' l (tl (ins_after pos [item] (l # xs))) \<and> untouched (insert item (set (l # xs))) h h'"
proof -
  obtain us vs where cut: "l # xs = us @ pos # vs" and fresh: "pos \<notin> set us"
    using pos by (meson split_list_first)
  define w where "w = hd (vs @ [l])"
  have dist: "distinct (us @ pos # vs)"
    using d cut by (metis dlist_def)
  have next_pos: "item_next h pos = w"
    using dlist_links [OF d cut] by (simp add: w_def)
  have "set vs \<subseteq> set (l # xs)"
    unfolding cut by auto
  then have w_in: "w \<in> set (l # xs)"
    unfolding w_def by (cases vs) auto
  have in_cut: "set (us @ pos # vs) = set (l # xs)"
    using cut by simp
  define h' where "h' = set_count l (list_count h l + 1) (set_next pos item (set_prev w item
     (set_prev item pos (set_next item w h))))"
  have run: "BfxListInsertAfter l pos item h = Some h'"
    using pos item next_pos by (auto simp: BfxListInsertAfter_def exists_refines [OF d] h'_def)
  have new_item: "item \<noteq> l" "item \<noteq> pos" "item \<notin> set us" "item \<notin> set vs"
    using item(1) in_cut pos by auto
  have nexts: "item_next h' a = item_next h a" if "a \<in> set us \<union> set vs" for a
    using that dist new_item by (auto simp: h'_def)
  have prevs: "item_prev h' a = item_prev h a" if "a \<in> set (us @ pos # vs @ [l])" "a \<noteq> hd (vs @ [l])" for a
    using that new_item by (auto simp: h'_def w_def)
  have cut': "l # xs = us @ pos # [] @ vs" using cut by simp
  note halves = ring_halves [OF d cut' nexts prevs]
  have link: "linked h' (pos # [item] @ [hd (vs @ [l])])"
    using item pos w_in by (auto simp: h'_def w_def)
  have new: "us @ pos # [item] @ vs = l # tl (ins_after pos [item] (l # xs))"
    using cut fresh by (cases us) (auto simp: ins_after_append)
  have "length (tl (ins_after pos [item] (l # xs))) = Suc (length xs)"
    using arg_cong [OF new, of length] arg_cong [OF cut, of length] by simp
  then have count: "list_count h' l = length (tl (ins_after pos [item] (l # xs)))"
    by (simp add: h'_def dlist_count [OF d])
  have dist': "distinct (us @ pos # [item] @ vs)"
    using dist new_item by auto
  have nonnull: "NULL \<notin> set (us @ pos # [item] @ vs)"
    using item(2) in_cut d by (auto simp: dlist_def)
  have "dlist h' l (tl (ins_after pos [item] (l # xs)))"
    by (rule ring_rebuild [OF halves(1) link halves(2) new dist' nonnull count])
  moreover have "untouched (insert item (set (l # xs))) h h'"
    using pos w_in by (auto simp: untouched_def h'_def)
  ultimately show ?thesis using run by blast
qed

lemma erase_refines:
  assumes d: "dlist h l xs" and item: "item \<in> set xs"
  shows "\<exists>h'. BfxListErase l item h = Some h' \<and> dlist h' l (remove1 item xs) \<and>
              item_next h' item = NULL \<and> item_prev h' item = NULL \<and> untouched (set (l # xs)) h h'"
proof -
  obtain as vs where xs: "xs = as @ item # vs" and fresh: "item \<notin> set as"
    using item by (meson split_list_first)
  obtain us p where pred: "l # as = us @ [p]"
    by (metis append_butlast_last_id list.distinct(1))
  have cut: "l # xs = us @ p # [item] @ vs"
    using arg_cong [OF pred, of "\<lambda>ys. ys @ item # vs"] by (simp add: xs)
  define w where "w = hd (vs @ [l])"
  have dist: "distinct (us @ p # item # vs)"
    using d cut by (metis append_Cons append_Nil dlist_def)
  have next_item: "item_next h item = w"
    using dlist_links(1) [OF d, of "us @ [p]" item vs] cut by (simp add: w_def)
  have prev_item: "item_prev h item = p"
    using dlist_links(2) [OF d, of us p "item # vs"] cut by simp
  have in_cut: "set (us @ p # item # vs) = set (l # xs)"
    using arg_cong [OF cut, of set] by simp
  have w_in: "w \<in> insert l (set vs)"
    unfolding w_def by (cases vs) auto
  have l_us: "l \<in> set (us @ [p])" "l \<notin> set xs" "item \<noteq> l"
    using pred d item by (metis list.set_intros(1)) (use d item in \<open>auto simp: dlist_def\<close>)
  have w_item: "w \<noteq> item" using w_in dist l_us(3) by auto
  define h' where "h' = set_count l (list_count h l - 1) (set_next item NULL (set_prev item NULL
     (set_next p w (set_prev w p h))))"
  have ends: "item_next h l \<noteq> l" "item_prev h l \<noteq> l" "list_count h l \<noteq> 0"
    using dlist_first [OF d] dlist_last [OF d] dlist_count [OF d] item l_us(2)
    by (cases xs; auto)+
  have run: "BfxListErase l item h = Some h'"
    using item next_item prev_item w_item ends by (simp add: BfxListErase_def exists_refines [OF d] h'_def)
  have nexts: "item_next h' a = item_next h a" if "a \<in> set us \<union> set vs" for a
    using that dist by (auto simp: h'_def)
  have prevs: "item_prev h' a = item_prev h a" if "a \<in> set (us @ p # vs @ [l])" "a \<noteq> hd (vs @ [l])" for a
    using that dist l_us(3) by (auto simp: h'_def w_def)
  note halves = ring_halves [OF d cut nexts prevs]
  have rem: "remove1 item xs = as @ vs"
    using fresh by (simp add: xs remove1_append)
  have link: "linked h' (p # [] @ [hd (vs @ [l])])"
    using dist w_item by (auto simp: h'_def w_def)
  have new: "us @ p # [] @ vs = l # remove1 item xs"
    using arg_cong [OF pred, of "\<lambda>ys. ys @ vs"] by (simp add: rem)
  have count: "list_count h' l = length (remove1 item xs)"
    using dlist_count [OF d] by (simp add: h'_def rem) (simp add: xs)
  have dist': "distinct (us @ p # [] @ vs)" and nonnull: "NULL \<notin> set (us @ p # [] @ vs)"
    using dist in_cut d by (auto simp: dlist_def)
  have "dlist h' l (remove1 item xs)"
    by (rule ring_rebuild [OF halves(1) link halves(2) new dist' nonnull count])
  moreover have "untouched (set (l # xs)) h h'"
    using w_in in_cut item by (auto simp: untouched_def h'_def)
  moreover have "item_next h' item = NULL" "item_prev h' item = NULL"
    by (simp_all add: h'_def)
  ultimately show ?thesis using run by blast
qed

lemma inner_links:
  assumes "dlist h m ys" and "ys \<noteq> []"
    and "\<And>a. a \<in> set (butlast ys) \<Longrightarrow> item_next h' a = item_next h a"
    and "\<And>a. a \<in> set (tl ys) \<Longrightarrow> item_prev h' a = item_prev h a"
    and "item_next h' a = hd ys" "item_prev h' (hd ys) = a"
    and "item_next h' (last ys) = b" "item_prev h' b = last ys"
  shows "linked h' (a # ys @ [b])"
proof -
  obtain zs z where ys: "ys = zs @ [z]"
    using assms(2) by (metis append_butlast_last_id)
  have "linked h ((m # zs) @ z # [m])"
    using assms(1) by (simp add: dlist_def ys)
  then have "linked h ((m # zs) @ [z])"
    by (blast dest: iffD1 [OF linked_append])
  then have "linked h ys"
    by (cases zs) (auto simp: ys)
  then have "linked h' ys"
    using linked_cong [of ys h' h] assms(3,4) by simp
  then have "linked h' (zs @ [z, b])"
    using assms(7,8) linked_snoc2 [of h' zs z b] by (simp add: ys)
  then show ?thesis
    using assms(5,6) by (cases zs) (auto simp: ys)
qed

lemma merge_after_refines:
  assumes d: "dlist h l xs" and e: "dlist h m ys" and sep: "set (l # xs) \<inter> set (m # ys) = {}"
    and pos: "pos \<in> set (l # xs)"
  shows "dlist (BfxListMergeAfter l m pos h) l (tl (ins_after pos ys (l # xs)))"
    and "dlist (BfxListMergeAfter l m pos h) m []"
    and "untouched (set (l # xs) \<union> set (m # ys)) h (BfxListMergeAfter l m pos h)"
proof -
  obtain us vs where cut: "l # xs = us @ pos # [] @ vs" and fresh: "pos \<notin> set us"
    using pos by (metis append_Nil split_list_first)
  define w where "w = hd (vs @ [l])"
  have dist: "distinct (us @ pos # vs)" and dist_ys: "distinct ys" "m \<notin> set ys" "m \<noteq> NULL"
    using d e cut by (metis append_Nil dlist_def) (use e in \<open>auto simp: dlist_def\<close>)
  have next_pos: "item_next h pos = w"
    using dlist_links [OF d, of us pos vs] cut by (simp add: w_def)
  have in_cut: "set (us @ pos # vs) = set (l # xs)"
    using cut by simp
  have w_in: "w \<in> set (l # xs)"
    using in_cut unfolding w_def by (cases vs) auto
  have l_in: "l \<in> set (us @ pos # vs)" using in_cut by simp
  have nonnull_xs: "NULL \<notin> set (us @ pos # vs)"
    unfolding in_cut using d by (simp add: dlist_def)
  define h' where "h' = BfxListMergeAfter l m pos h"
  show "dlist (BfxListMergeAfter l m pos h) l (tl (ins_after pos ys (l # xs)))"
    and "dlist (BfxListMergeAfter l m pos h) m []"
    and "untouched (set (l # xs) \<union> set (m # ys)) h (BfxListMergeAfter l m pos h)"
    unfolding h'_def [symmetric]
  proof (atomize (full), cases "ys = []")
    case True
    have "ins_after pos [] (l # xs) = l # xs"
      using fresh by (simp add: cut ins_after_append)
    moreover have "h' = h"
      using dlist_count [OF e] True by (simp add: h'_def BfxListMergeAfter_def)
    ultimately show "dlist h' l (tl (ins_after pos ys (l # xs))) \<and> dlist h' m [] \<and>
        untouched (set (l # xs) \<union> set (m # ys)) h h'"
      using d e True by (simp add: untouched_def)
  next
    case False
    have ends: "item_next h m = hd ys" "item_prev h m = last ys" "hd ys \<in> set ys" "last ys \<in> set ys"
      using dlist_first [OF e] dlist_last [OF e] False by simp_all
    have apart: "\<And>a. a \<in> set (l # xs) \<Longrightarrow> a \<notin> set ys \<and> a \<noteq> m"
      using sep by auto
    have h': "h' = BfxListClear m (set_count l (length xs + length ys)
       (set_next pos (hd ys) (set_prev w (last ys) (set_next (last ys) w (set_prev (hd ys) pos h)))))"
      using False ends next_pos apart [OF pos] apart [OF w_in] dlist_count [OF d] dlist_count [OF e]
        dist_ys(2)
      by (auto simp: h'_def BfxListMergeAfter_def Let_def)
    have nexts: "item_next h' a = item_next h a" if "a \<in> set us \<union> set vs" for a
      using that dist apart [of a] in_cut ends by (auto simp: h' BfxListClear_def)
    have prevs: "item_prev h' a = item_prev h a" if "a \<in> set (us @ pos # vs @ [l])" "a \<noteq> hd (vs @ [l])" for a
      using that apart [of a] in_cut ends l_in by (auto simp: h' BfxListClear_def w_def)
    note halves = ring_halves [OF d cut nexts prevs]
    have "distinct (butlast ys @ [last ys])" "distinct (hd ys # tl ys)"
      using dist_ys(1) False by simp_all
    then have heads: "hd ys \<notin> set (tl ys)" "last ys \<notin> set (butlast ys)"
      by auto
    have link: "linked h' (pos # ys @ [hd (vs @ [l])])"
    proof (rule inner_links [OF e False])
      show "item_next h' a = item_next h a" if "a \<in> set (butlast ys)" for a
        using in_set_butlastD [OF that] that heads(2) pos w_in dist_ys(2) apart
        by (auto simp: h' BfxListClear_def)
      show "item_prev h' a = item_prev h a" if "a \<in> set (tl ys)" for a
        using list.set_sel(2) [OF False that] that heads(1) pos w_in dist_ys(2) apart
        by (auto simp: h' BfxListClear_def)
    qed (use ends pos w_in apart dist_ys(2) in \<open>auto simp: h' BfxListClear_def w_def\<close>)
    have new: "us @ pos # ys @ vs = l # tl (ins_after pos ys (l # xs))"
      using cut fresh by (cases us) (auto simp: ins_after_append)
    have count: "list_count h' l = length (tl (ins_after pos ys (l # xs)))"
      using arg_cong [OF new, of length] arg_cong [OF cut, of length] apart [of l]
      by (simp add: h' BfxListClear_def)
    have "set (us @ pos # vs) \<inter> set ys = {}"
      unfolding in_cut using sep by auto
    then have dist': "distinct (us @ pos # ys @ vs)"
      using dist dist_ys(1) by auto
    have nonnull: "NULL \<notin> set (us @ pos # ys @ vs)"
      using nonnull_xs e by (auto simp: dlist_def)
    have "dlist h' l (tl (ins_after pos ys (l # xs)))"
      by (rule ring_rebuild [OF halves(1) link halves(2) new dist' nonnull count])
    moreover have "dlist h' m []"
      using dist_ys(3) by (simp add: h' BfxListClear_def dlist_def)
    moreover have "untouched (set (l # xs) \<union> set (m # ys)) h h'"
      using pos w_in ends by (auto simp: untouched_def h' BfxListClear_def)
    ultimately show "dlist h' l (tl (ins_after pos ys (l # xs))) \<and> dlist h' m [] \<and>
        untouched (set (l # xs) \<union> set (m # ys)) h h'" by blast
  qed
qed

lemma merge_is_merge_after:
  assumes d: "dlist h l xs" and e: "dlist h m ys" and sep: "set (l # xs) \<inter> set (m # ys) = {}"
  shows "BfxListMerge l m True h = BfxListMergeAfter l m (item_prev h l) h"
    and "BfxListMerge l m False h = BfxListMergeAfter l m l h"
proof -
  have last_in: "item_prev h l \<in> set (l # xs)"
    unfolding dlist_last [OF d] by (rule last_in_set) simp
  have "l # xs = butlast (l # xs) @ last (l # xs) # []"
    by (metis append_butlast_last_id list.distinct(1))
  then have "item_next h (item_prev h l) = l"
    using dlist_links(1) [OF d] dlist_last [OF d] by fastforce
  moreover have "item_next h m \<in> set (m # ys)" "item_prev h m \<in> set (m # ys)"
    using dlist_first [OF e] dlist_last [OF e] by (cases ys; simp)+
  ultimately show "BfxListMerge l m True h = BfxListMergeAfter l m (item_prev h l) h"
    using last_in sep
    by (auto simp: BfxListMerge_def BfxListMergeAfter_def Let_def set_next_def set_prev_def set_count_def
        BfxListClear_def intro!: heap.equality ext)
  show "BfxListMerge l m False h = BfxListMergeAfter l m l h"
    by (simp add: BfxListMerge_def BfxListMergeAfter_def Let_def)
qed

lemma merge_refines:
  assumes "dlist h l xs" and "dlist h m ys" and "set (l # xs) \<inter> set (m # ys) = {}"
  shows "dlist (BfxListMerge l m atBack h) l (if atBack then xs @ ys else ys @ xs)"
    and "dlist (BfxListMerge l m atBack h) m []"
proof -
  have "distinct (l # xs)" using assms(1) by (simp add: dlist_def)
  then have "tl (ins_after (item_prev h l) ys (l # xs)) = xs @ ys"
    unfolding dlist_last [OF assms(1)] by (subst ins_after_last) auto
  moreover have "item_prev h l \<in> set (l # xs)"
    unfolding dlist_last [OF assms(1)] by (rule last_in_set) simp
  ultimately show "dlist (BfxListMerge l m atBack h) l (if atBack then xs @ ys else ys @ xs)"
    and "dlist (BfxListMerge l m atBack h) m []"
    using merge_after_refines [OF assms, of "item_prev h l"] merge_after_refines [OF assms, of l]
      merge_is_merge_after [OF assms] by (cases atBack; simp)+
qed

text \<open>
  Swapping makes each head adopt the items of the other list: the inner links of the items
  stay, the head and the two end items are linked anew.
\<close>

definition adopt :: "ptr \<Rightarrow> ptr list \<Rightarrow> heap \<Rightarrow> heap" where
  "adopt l ys h =
     (if ys = [] then set_next l l (set_prev l l h)
      else set_next (last ys) l (set_prev (hd ys) l (set_next l (hd ys) (set_prev l (last ys) h))))"

lemma adopt_untouched: "a \<notin> set (l # ys) \<Longrightarrow>
  item_next (adopt l ys h) a = item_next h a \<and> item_prev (adopt l ys h) a = item_prev h a"
  by (auto simp: adopt_def)

lemma adopt_count [simp]: "list_count (adopt l ys h) = list_count h"
  by (simp add: adopt_def)

lemma linked_inner: "linked h (l # ys @ [m]) \<Longrightarrow> linked h ys"
proof -
  have "linked h (ys @ zs) \<Longrightarrow> linked h ys" for zs
    by (induction h ys rule: linked.induct) auto
  moreover assume "linked h (l # ys @ [m])"
  then have "linked h (ys @ [m])" by (cases ys) auto
  ultimately show ?thesis by blast
qed

lemma linked_adopt:
  assumes "linked h ys" and "distinct (l # ys)"
  shows "linked (adopt l ys h) (l # ys @ [l])"
proof (cases "ys = []")
  case True
  then show ?thesis by (simp add: adopt_def)
next
  case False
  let ?h = "adopt l ys h"
  have "distinct (butlast ys @ [last ys])" "distinct (hd ys # tl ys)"
    using assms(2) False by simp_all
  then have outer: "hd ys \<notin> set (tl ys)" "last ys \<notin> set (butlast ys)" "l \<notin> set ys"
      "hd ys \<noteq> l" "last ys \<noteq> l"
    using assms(2) hd_in_set [OF False] last_in_set [OF False] by auto
  have "linked ?h ys = linked h ys"
  proof (rule linked_cong)
    fix a assume "a \<in> set (butlast ys)"
    then have "a \<noteq> last ys" "a \<noteq> l" using outer by (auto dest: in_set_butlastD)
    then show "item_next ?h a = item_next h a" by (simp add: adopt_def False)
  next
    fix a assume "a \<in> set (tl ys)"
    then have "a \<noteq> hd ys" "a \<noteq> l" using outer by (auto dest: list.set_sel(2) [OF False])
    then show "item_prev ?h a = item_prev h a" by (simp add: adopt_def False)
  qed
  then have inner: "linked ?h ys" using assms(1) by simp
  have ends: "item_next ?h l = hd ys" "item_prev ?h (hd ys) = l" "item_next ?h (last ys) = l"
      "item_prev ?h l = last ys"
    using outer by (simp_all add: adopt_def False)
  have parts: "ys = butlast ys @ [last ys]" using False by simp
  have "linked ?h (butlast ys @ [last ys, l])"
    using linked_snoc2 [of ?h "butlast ys" "last ys" l] inner ends False by simp
  then have tail: "linked ?h (ys @ [l])"
    by (subst parts) simp
  then show ?thesis using ends False by (cases ys) auto
qed

lemma swap_is_adopt:
  assumes d: "dlist h l xs" and e: "dlist h m ys" and sep: "set (l # xs) \<inter> set (m # ys) = {}"
  shows "BfxListSwap l m h =
         set_count m (length xs) (set_count l (length ys) (adopt m xs (adopt l ys h)))"
proof -
  have counts: "list_count h l = length xs" "list_count h m = length ys"
    using d e by (simp_all add: dlist_count)
  have ends: "xs \<noteq> [] \<Longrightarrow> item_next h l = hd xs" "xs \<noteq> [] \<Longrightarrow> item_prev h l = last xs"
      "ys \<noteq> [] \<Longrightarrow> item_next h m = hd ys" "ys \<noteq> [] \<Longrightarrow> item_prev h m = last ys"
    using dlist_first [OF d] dlist_last [OF d] dlist_first [OF e] dlist_last [OF e] by simp_all
  have lm: "l \<noteq> m" using sep by auto
  have ne: "hd xs \<noteq> l" "hd xs \<noteq> m" "last xs \<noteq> l" "last xs \<noteq> m" if "xs \<noteq> []"
    using that sep d hd_in_set [OF that] last_in_set [OF that] by (auto simp: dlist_def)
  have ne': "hd ys \<noteq> l" "hd ys \<noteq> m" "last ys \<noteq> l" "last ys \<noteq> m" if "ys \<noteq> []"
    using that sep e hd_in_set [OF that] last_in_set [OF that] by (auto simp: dlist_def)
  show ?thesis
  proof (cases "xs = []"; cases "ys = []")
    assume x: "xs = []" and y: "ys = []"
    show ?thesis
      using lm by (simp add: BfxListSwap_def Let_def counts adopt_def x y)
  next
    assume x: "xs = []" and y: "ys \<noteq> []"
    show ?thesis
      using lm ne' [OF y] x y
      by (simp add: BfxListSwap_def Let_def counts ends(3,4) [OF y] adopt_def)
  next
    assume x: "xs \<noteq> []" and y: "ys = []"
    show ?thesis
      using lm ne [OF x] x y
      by (simp add: BfxListSwap_def Let_def counts ends(1,2) [OF x] adopt_def)
  next
    assume x: "xs \<noteq> []" and y: "ys \<noteq> []"
    show ?thesis
      using lm ne [OF x] ne' [OF y] x y
      by (simp add: BfxListSwap_def Let_def counts ends(1,2) [OF x] ends(3,4) [OF y] adopt_def)
  qed
qed

lemma swap_refines:
  assumes d: "dlist h l xs" and e: "dlist h m ys" and sep: "set (l # xs) \<inter> set (m # ys) = {}"
  shows "dlist (BfxListSwap l m h) l ys" and "dlist (BfxListSwap l m h) m xs"
    and "untouched (set (l # xs) \<union> set (m # ys)) h (BfxListSwap l m h)"
proof -
  let ?hl = "adopt l ys h" and ?hm = "adopt m xs (adopt l ys h)"
  have sep': "set (l # ys) \<inter> set (m # xs) = {}" using sep d e by (auto simp: dlist_def)
  have "linked ?hl (l # ys @ [l])"
    using linked_adopt [OF linked_inner] d e sep by (auto simp: dlist_def)
  moreover have "linked ?hm (l # ys @ [l]) = linked ?hl (l # ys @ [l])"
    by (rule linked_cong) (use sep' in \<open>auto intro!: adopt_untouched [THEN conjunct1]
      adopt_untouched [THEN conjunct2] dest: in_set_butlastD\<close>)
  ultimately have l: "linked ?hm (l # ys @ [l])" by simp
  have "set (butlast xs) \<union> set (tl xs) \<subseteq> set xs"
    by (cases xs) (auto dest: in_set_butlastD)
  moreover have "set (l # ys) \<inter> set xs = {}"
    using sep' d by (auto simp: dlist_def)
  ultimately have "linked ?hl xs = linked h xs"
    by (intro linked_cong) (meson adopt_untouched disjoint_iff subsetD UnI1 UnI2)+
  then have "linked ?hl xs" using linked_inner d by (auto simp: dlist_def)
  then have m: "linked ?hm (m # xs @ [m])"
    using linked_adopt sep d by (auto simp: dlist_def)
  have same: "linked (set_count a n h') zs = linked h' zs" for a n h' zs
    by (rule linked_cong) auto
  show "dlist (BfxListSwap l m h) l ys" "dlist (BfxListSwap l m h) m xs"
    using d e sep sep' l m by (auto simp: swap_is_adopt [OF assms] dlist_def same)
  show "untouched (set (l # xs) \<union> set (m # ys)) h (BfxListSwap l m h)"
    by (auto simp: swap_is_adopt [OF assms] untouched_def adopt_untouched)
qed

section \<open>The derived operations\<close>

lemma push_back_refines:
  assumes "dlist h l xs" and "item \<notin> set (l # xs)" and "item \<noteq> NULL"
  shows "\<exists>h'. BfxListPushBack l item h = Some h' \<and> dlist h' l (xs @ [item]) \<and>
              untouched (insert item (set (l # xs))) h h'"
proof -
  have "distinct (l # xs)" using assms(1) by (simp add: dlist_def)
  then have "tl (ins_after (last (l # xs)) [item] (l # xs)) = xs @ [item]"
    by (subst ins_after_last) auto
  moreover have "last (l # xs) \<in> set (l # xs)" by (rule last_in_set) simp
  ultimately show ?thesis
    using insert_after_refines [OF assms(1) _ assms(2,3), of "last (l # xs)"]
    by (simp only: BfxListPushBack_def dlist_last [OF assms(1)])
qed

lemma push_front_refines:
  assumes "dlist h l xs" and "item \<notin> set (l # xs)" and "item \<noteq> NULL"
  shows "\<exists>h'. BfxListPushFront l item h = Some h' \<and> dlist h' l (item # xs) \<and>
              untouched (insert item (set (l # xs))) h h'"
  using insert_after_refines [OF assms(1) _ assms(2,3), of l] by (simp add: BfxListPushFront_def)

lemma pop_front_refines:
  assumes "dlist h l (x # xs)"
  shows "\<exists>h'. BfxListPopFront l h = Some (x, h') \<and> dlist h' l xs \<and> untouched (set (l # x # xs)) h h'"
  using erase_refines [OF assms, of x] dlist_first [OF assms] dlist_count [OF assms]
  by (auto simp: BfxListPopFront_def Let_def)

lemma pop_back_refines:
  assumes "dlist h l (xs @ [x])"
  shows "\<exists>h'. BfxListPopBack l h = Some (x, h') \<and> dlist h' l xs \<and>
              untouched (set (l # xs @ [x])) h h'"
proof -
  have "x \<notin> set xs" using assms by (simp add: dlist_def)
  then have "remove1 x (xs @ [x]) = xs" by (simp add: remove1_append)
  moreover have "item_prev h l = x" using dlist_last [OF assms] by simp
  ultimately show ?thesis
    using erase_refines [OF assms, of x] dlist_count [OF assms]
    by (auto simp: BfxListPopBack_def Let_def)
qed

lemma pop_empty:
  assumes "dlist h l []"
  shows "BfxListPopFront l h = Some (NULL, h)" and "BfxListPopBack l h = Some (NULL, h)"
  using dlist_count [OF assms] by (simp_all add: BfxListPopFront_def BfxListPopBack_def)

lemma next_refines:
  assumes d: "dlist h l xs" and xs: "xs = us @ a # vs"
  shows "BfxListNext l a h = Some (if vs = [] then NULL else hd vs)"
proof -
  have "item_next h a = hd (vs @ [l])" "a \<noteq> l" "vs \<noteq> [] \<Longrightarrow> hd vs \<noteq> l"
    using dlist_links(1) [OF d, of "l # us" a vs] d xs
    by (auto simp: dlist_def simp del: linked.simps dest: hd_in_set)
  then show ?thesis by (auto simp: BfxListNext_def)
qed

lemma prev_refines:
  assumes d: "dlist h l xs" and xs: "xs = us @ a # vs"
  shows "BfxListPrev l a h = Some (if us = [] then NULL else last us)"
proof -
  have cut: "l # xs = butlast (l # us) @ last (l # us) # a # vs"
    using xs append_butlast_last_id [of "l # us"] by (metis append_Cons append_assoc append_Nil list.distinct(1))
  have "item_prev h a = last (l # us)"
    using dlist_links(2) [OF d cut] by simp
  moreover have "a \<noteq> l" "us \<noteq> [] \<Longrightarrow> last us \<noteq> l" "a \<in> set xs"
    using d xs by (auto simp: dlist_def simp del: linked.simps dest: last_in_set)
  ultimately show ?thesis by (auto simp: BfxListPrev_def exists_refines [OF d])
qed

lemma first_last_refines:
  assumes "dlist h l xs"
  shows "BfxListFirst l h = (if xs = [] then NULL else hd xs)"
    and "BfxListLast l h = (if xs = [] then NULL else last xs)"
  using dlist_first [OF assms] dlist_last [OF assms] dlist_count [OF assms]
  by (auto simp: BfxListFirst_def BfxListLast_def)

lemma multi_insert_refines:
  assumes "dlist h l (us @ vs)" and "distinct items" and "set items \<inter> set (NULL # l # us @ vs) = {}"
  shows "\<exists>h'. BfxListMultiInsertAfter l (last (l # us)) items h = Some h' \<and>
              dlist h' l (us @ items @ vs)"
  using assms
proof (induction items arbitrary: us h)
  case Nil
  then show ?case by simp
next
  case (Cons item items)
  have dist: "distinct (l # us @ vs)" using Cons.prems(1) by (simp add: dlist_def)
  have parts: "l # us = butlast (l # us) @ [last (l # us)]"
    by (metis append_butlast_last_id list.distinct(1))
  have "last (l # us) \<notin> set (butlast (l # us))"
    using dist parts distinct_append [of "butlast (l # us)" "[last (l # us)]"]
    by (metis disjoint_insert(1) distinct_append append_Cons list.simps(15))
  then have "ins_after (last (l # us)) [item] (butlast (l # us) @ last (l # us) # vs) =
      butlast (l # us) @ last (l # us) # [item] @ vs"
    by (rule ins_after_append)
  then have "ins_after (last (l # us)) [item] (l # us @ vs) = l # us @ item # vs"
    using parts by (metis append_Cons append_Nil append_assoc)
  then obtain h1 where h1: "BfxListInsertAfter l (last (l # us)) item h = Some h1"
      "dlist h1 l ((us @ [item]) @ vs)"
    using insert_after_refines [OF Cons.prems(1), of "last (l # us)" item] Cons.prems(3)
      last_in_set [of "l # us"] by (auto split: if_splits)
  have "last (l # us @ [item]) = item" by simp
  with Cons.IH [OF h1(2)] Cons.prems(2,3)
  have "\<exists>h'. BfxListMultiInsertAfter l item items h1 = Some h' \<and> dlist h' l (us @ item # items @ vs)"
    by (simp del: last.simps)
  then show ?case by (simp add: h1(1) del: last.simps)
qed

section \<open>The list as a double-ended queue\<close>

text \<open>
  What the clients of a \<open>BfxList\<close> rely on, as an interface: \<open>rep s xs\<close> says
  that the state \<open>s\<close> holds the items \<open>xs\<close>, \<open>ok x xs\<close> that \<open>x\<close> may be
  added to them. The queues of the protocol (packages to send, blocks, buffers) use only
  these laws.
\<close>

fun push_all :: "('a \<Rightarrow> 's \<Rightarrow> 's option) \<Rightarrow> 'a list \<Rightarrow> 's \<Rightarrow> 's option" where
  "push_all push [] s = Some s"
| "push_all push (x # xs) s = Option.bind (push x s) (push_all push xs)"

fun pop_many :: "('s \<Rightarrow> ('a \<times> 's) option) \<Rightarrow> nat \<Rightarrow> 's \<Rightarrow> ('a list \<times> 's) option" where
  "pop_many pop 0 s = Some ([], s)"
| "pop_many pop (Suc n) s = do {
     (x, s) \<leftarrow> pop s;
     (xs, s) \<leftarrow> pop_many pop n s;
     Some (x # xs, s)
   }"

locale fifo =
  fixes rep :: "'s \<Rightarrow> 'a list \<Rightarrow> bool"
    and ok :: "'a \<Rightarrow> 'a list \<Rightarrow> bool"
    and push :: "'a \<Rightarrow> 's \<Rightarrow> 's option"
    and pop :: "'s \<Rightarrow> ('a \<times> 's) option"
  assumes push_rep: "rep s xs \<Longrightarrow> ok x xs \<Longrightarrow> \<exists>s'. push x s = Some s' \<and> rep s' (xs @ [x])"
    and pop_rep: "rep s (x # xs) \<Longrightarrow> \<exists>s'. pop s = Some (x, s') \<and> rep s' xs"
begin

lemma push_all_rep:
  assumes "rep s xs" and "\<And>us v vs. ys = us @ v # vs \<Longrightarrow> ok v (xs @ us)"
  shows "\<exists>s'. push_all push ys s = Some s' \<and> rep s' (xs @ ys)"
  using assms
proof (induction ys arbitrary: xs s)
  case Nil
  then show ?case by simp
next
  case (Cons y ys)
  have "ok y xs" using Cons.prems(2) [of "[]" y ys] by simp
  then obtain s1 where s1: "push y s = Some s1" "rep s1 (xs @ [y])"
    using push_rep [OF Cons.prems(1)] by blast
  have "ok v ((xs @ [y]) @ us)" if "ys = us @ v # vs" for us v vs
    using Cons.prems(2) [of "y # us" v vs] that by simp
  from Cons.IH [OF s1(2) this] show ?case by (simp add: s1(1))
qed

lemma pop_many_rep:
  "rep s (ys @ xs) \<Longrightarrow> \<exists>s'. pop_many pop (length ys) s = Some (ys, s') \<and> rep s' xs"
proof (induction ys arbitrary: s)
  case Nil
  then show ?case by simp
next
  case (Cons y ys)
  then obtain s1 where s1: "pop s = Some (y, s1)" "rep s1 (ys @ xs)"
    using pop_rep [of s y "ys @ xs"] by auto
  from Cons.IH [OF s1(2)] show ?case by (auto simp: s1(1))
qed

lemma first_in_first_out:
  assumes "rep s xs" and "\<And>us v vs. ys = us @ v # vs \<Longrightarrow> ok v (xs @ us)"
  shows "\<exists>s1 s2. push_all push ys s = Some s1 \<and>
                 pop_many pop (length (xs @ ys)) s1 = Some (xs @ ys, s2) \<and> rep s2 []"
  using push_all_rep [OF assms] pop_many_rep [of _ "xs @ ys" "[]"] by fastforce

end

interpretation bfx_fifo: fifo "\<lambda>h. dlist h l" "\<lambda>x xs. x \<notin> set (NULL # l # xs)"
    "BfxListPushBack l" "BfxListPopFront l" for l
proof
  show "\<exists>h'. BfxListPushBack l x h = Some h' \<and> dlist h' l (xs @ [x])"
    if "dlist h l xs" "x \<notin> set (NULL # l # xs)" for h xs x
    using push_back_refines [OF that(1), of x] that(2) by auto
  show "\<exists>h'. BfxListPopFront l h = Some (x, h') \<and> dlist h' l xs" if "dlist h l (x # xs)" for h x xs
    using pop_front_refines [OF that] by blast
qed

section \<open>Properties of the list\<close>

text \<open>
  Insertion: on a well-formed list, inserting a fresh item behind the head or behind any
  item of the list passes both assertions and yields the well-formed list with the item there;
  no other address changes.
\<close>

lemma list_insert_correct:
  assumes "dlist h l (us @ vs)" and "item \<notin> set (NULL # l # us @ vs)"
  shows "\<exists>h'. BfxListInsertAfter l (last (l # us)) item h = Some h' \<and> dlist h' l (us @ item # vs) \<and>
              untouched (insert item (set (l # us @ vs))) h h'"
proof -
  have dist: "distinct (l # us @ vs)" using assms(1) by (simp add: dlist_def)
  have parts: "l # us = butlast (l # us) @ [last (l # us)]"
    by (metis append_butlast_last_id list.distinct(1))
  have "last (l # us) \<notin> set (butlast (l # us))"
    using dist parts by (metis append_Cons disjoint_insert(1) distinct_append list.simps(15))
  then have "ins_after (last (l # us)) [item] (butlast (l # us) @ last (l # us) # vs) =
      butlast (l # us) @ last (l # us) # [item] @ vs"
    by (rule ins_after_append)
  then have "tl (ins_after (last (l # us)) [item] (l # us @ vs)) = us @ item # vs"
    using parts by (metis append_Cons append_Nil append_assoc list.sel(3))
  then show ?thesis
    using insert_after_refines [OF assms(1), of "last (l # us)" item] assms(2) last_in_set [of "l # us"]
    by (metis UnI1 Un_iff append_Cons list.distinct(1) list.set_intros(1) list.set_intros(2) set_append)
qed

text \<open>
  Removal: erasing any item of a well-formed list passes the assertions, removes exactly
  that item, clears its links, and changes no address outside the list.
\<close>

lemma list_erase_correct:
  assumes "dlist h l xs" and "item \<in> set xs"
  shows "\<exists>h'. BfxListErase l item h = Some h' \<and> dlist h' l (remove1 item xs) \<and>
              item_next h' item = NULL \<and> item_prev h' item = NULL \<and> untouched (set (l # xs)) h h'"
  using assms by (rule erase_refines)

text \<open>
  Swapping two disjoint lists exchanges their items, whether either is empty or not.
\<close>

lemma list_swap_correct:
  assumes "dlist h l xs" and "dlist h m ys" and "set (l # xs) \<inter> set (m # ys) = {}"
  shows "dlist (BfxListSwap l m h) l ys \<and> dlist (BfxListSwap l m h) m xs \<and>
         untouched (set (l # xs) \<union> set (m # ys)) h (BfxListSwap l m h)"
  using swap_refines [OF assms] by blast

text \<open>
  Merging moves all items of the other list to the chosen end of this one, in order, and
  leaves the other list empty.
\<close>

lemma list_merge_correct:
  assumes "dlist h l xs" and "dlist h m ys" and "set (l # xs) \<inter> set (m # ys) = {}"
  shows "dlist (BfxListMerge l m atBack h) l (if atBack then xs @ ys else ys @ xs) \<and>
         dlist (BfxListMerge l m atBack h) m []"
  using merge_refines [OF assms] by blast

text \<open>
  A list is a first-in first-out queue: pushing fresh items at the back and popping from
  the front returns the old items and then the new ones, in order, and empties the list.
\<close>

lemma list_fifo_correct:
  assumes "dlist h l xs" and "distinct ys" and "set ys \<inter> set (NULL # l # xs) = {}"
  shows "\<exists>h1 h2. push_all (BfxListPushBack l) ys h = Some h1 \<and>
                 pop_many (BfxListPopFront l) (length (xs @ ys)) h1 = Some (xs @ ys, h2) \<and> dlist h2 l []"
proof (rule bfx_fifo.first_in_first_out [OF assms(1)])
  show "v \<notin> set (NULL # l # xs @ us)" if "ys = us @ v # vs" for us v vs
    using that assms(2,3) by auto
qed

text \<open>Two rings: the items 5 and 6 at head 1, the item 11 at head 10.\<close>

definition example_heap :: heap where
  "example_heap = \<lparr>item_prev = (\<lambda>_. 0)(1 := 6, 5 := 1, 6 := 5, 10 := 11, 11 := 10),
     item_next = (\<lambda>_. 0)(1 := 5, 5 := 6, 6 := 1, 10 := 11, 11 := 10), list_count = (\<lambda>_. 0)(1 := 2, 10 := 1)\<rparr>"

lemma example_rings: "dlist example_heap 1 [5, 6]" "dlist example_heap 10 [11]"
  by (simp_all add: dlist_def example_heap_def)

lemma list_insert_correct_witness:
  "\<exists>h'. BfxListInsertAfter 1 5 7 example_heap = Some h' \<and> dlist h' 1 [5, 7, 6]"
  using list_insert_correct [of example_heap 1 "[5]" "[6]" 7] example_rings(1) by auto

lemma list_erase_correct_witness:
  "\<exists>h'. BfxListErase 1 5 example_heap = Some h' \<and> dlist h' 1 [6]"
  using list_erase_correct [OF example_rings(1), of 5] by auto

lemma list_swap_correct_witness:
  "dlist (BfxListSwap 1 10 example_heap) 1 [11] \<and> dlist (BfxListSwap 1 10 example_heap) 10 [5, 6]"
  using list_swap_correct [OF example_rings] by auto

lemma list_merge_correct_witness:
  "dlist (BfxListMerge 1 10 True example_heap) 1 [5, 6, 11] \<and> dlist (BfxListMerge 1 10 True example_heap) 10 []"
  using list_merge_correct [OF example_rings, of True] by auto

lemma list_fifo_correct_witness:
  "\<exists>h1 h2. push_all (BfxListPushBack 1) [7, 8] example_heap = Some h1 \<and>
     pop_many (BfxListPopFront 1) (length ([5, 6] @ [7, 8 :: ptr])) h1 = Some ([5, 6] @ [7, 8], h2) \<and> dlist h2 1 []"
  by (rule list_fifo_correct [OF example_rings(1)]) simp_all

end
