(* ===== verification/BufferStream.thy ===== *)
theory BufferStream
  imports Prelude
begin

text \<open>
  The byte stream of \<^verbatim>\<open>c/src/BuckyBase/Buffer/buffer_stream.c\<close>, through which
  every package is written and parsed. A stream is a window of \<open>stream_length\<close> bytes on
  some memory with a position. \<open>stream_buffer\<close> is the memory from the buffer pointer
  to the end of the object the pointer points into, so it may be longer than the window.
  Multi-byte values are stored in the byte order of the machine, taken to be little endian
  as on every platform the sources are built for.

  An operation is \<open>None\<close> when an \<open>assert\<close> of the C code fails or an access
  leaves the memory. Otherwise it returns the number of bytes it reports and the stream.
  Positions and lengths are naturals: they are bounded by the size of an object in memory, so
  the \<open>size_t\<close> sums of the assertions do not wrap.

  The locale \<open>codec\<close> is the contract the package encoder and decoder rely on; it is
  interpreted for each width.
\<close>

section \<open>Little-endian bytes\<close>

fun le_bytes :: "nat \<Rightarrow> nat \<Rightarrow> u8 list" where
  "le_bytes 0 v = []"
| "le_bytes (Suc n) v = of_nat v # le_bytes n (v div 256)"

fun le_value :: "u8 list \<Rightarrow> nat" where
  "le_value [] = 0"
| "le_value (b # bs) = unat b + 256 * le_value bs"

lemma length_le_bytes [simp]: "length (le_bytes n v) = n"
  by (induction n v rule: le_bytes.induct) auto

lemma le_value_le_bytes [simp]: "le_value (le_bytes n v) = v mod 256 ^ n"
proof (induction n v rule: le_bytes.induct)
  case (1 v)
  show ?case by simp
next
  case (2 n v)
  have "unat (of_nat v :: u8) = v mod 256"
    by (simp add: unsigned_of_nat take_bit_eq_mod)
  with 2 show ?case
    by (simp add: mod_mult2_eq)
qed

lemma le_value_bound: "le_value bs < 256 ^ length bs"
proof (induction bs)
  case Nil
  show ?case by simp
next
  case (Cons b bs)
  have "unat b < 256"
    using unsigned_less [of b, where ?'a = nat] by simp
  with Cons show ?case by simp
qed

section \<open>The stream\<close>

record BfxBufferStream =
  stream_buffer :: "u8 list"
  stream_length :: nat
  stream_pos :: nat

definition BfxBufferStreamInit :: "u8 list \<Rightarrow> nat \<Rightarrow> BfxBufferStream" where
  "BfxBufferStreamInit buffer len = \<lparr>stream_buffer = buffer, stream_length = len, stream_pos = 0\<rparr>"

definition BfxBufferStreamGetPos :: "BfxBufferStream \<Rightarrow> nat" where
  "BfxBufferStreamGetPos s = stream_pos s"

definition BfxBufferStreamGetTailLength :: "BfxBufferStream \<Rightarrow> nat option" where
  "BfxBufferStreamGetTailLength s =
     (if stream_length s \<ge> stream_pos s then Some (stream_length s - stream_pos s) else None)"

definition BfxBufferStreamSetPos :: "nat \<Rightarrow> BfxBufferStream \<Rightarrow> BfxBufferStream option" where
  "BfxBufferStreamSetPos newPos s =
     (if newPos \<le> stream_length s then Some (s\<lparr>stream_pos := newPos\<rparr>) else None)"

text \<open>
  The memory access of a read or write at the position: \<open>load n\<close> reads \<open>n\<close> bytes of
  memory, \<open>store bs\<close> overwrites \<open>length bs\<close> bytes.
\<close>

definition mem_load :: "nat \<Rightarrow> nat \<Rightarrow> u8 list \<Rightarrow> u8 list option" where
  "mem_load p n m = (if p + n \<le> length m then Some (take n (drop p m)) else None)"

definition mem_store :: "nat \<Rightarrow> u8 list \<Rightarrow> u8 list \<Rightarrow> u8 list option" where
  "mem_store p bs m =
     (if p + length bs \<le> length m then Some (take p m @ bs @ drop (p + length bs) m) else None)"

definition read_bytes :: "nat \<Rightarrow> BfxBufferStream \<Rightarrow> (nat \<times> u8 list \<times> BfxBufferStream) option" where
  "read_bytes n s =
     (if stream_pos s + n \<le> stream_length s then do {
        bs \<leftarrow> mem_load (stream_pos s) n (stream_buffer s);
        Some (n, bs, s\<lparr>stream_pos := stream_pos s + n\<rparr>)
      } else None)"

definition write_bytes :: "u8 list \<Rightarrow> BfxBufferStream \<Rightarrow> (nat \<times> BfxBufferStream) option" where
  "write_bytes bs s =
     (if stream_pos s + length bs \<le> stream_length s then do {
        m \<leftarrow> mem_store (stream_pos s) bs (stream_buffer s);
        Some (length bs, s\<lparr>stream_buffer := m, stream_pos := stream_pos s + length bs\<rparr>)
      } else None)"

definition read_le :: "nat \<Rightarrow> BfxBufferStream \<Rightarrow> (nat \<times> nat \<times> BfxBufferStream) option" where
  "read_le n s = do { (r, bs, s) \<leftarrow> read_bytes n s; Some (r, le_value bs, s) }"

section \<open>The operations\<close>

definition BfxBufferReadUInt8 :: "BfxBufferStream \<Rightarrow> (nat \<times> u8 \<times> BfxBufferStream) option" where
  "BfxBufferReadUInt8 s = do { (r, v, s) \<leftarrow> read_le 1 s; Some (r, of_nat v, s) }"

definition BfxBufferWriteUInt8 :: "u8 \<Rightarrow> BfxBufferStream \<Rightarrow> (nat \<times> BfxBufferStream) option" where
  "BfxBufferWriteUInt8 v s = write_bytes (le_bytes 1 (unat v)) s"

definition BfxBufferReadUInt16 :: "BfxBufferStream \<Rightarrow> (nat \<times> u16 \<times> BfxBufferStream) option" where
  "BfxBufferReadUInt16 s = do { (r, v, s) \<leftarrow> read_le 2 s; Some (r, of_nat v, s) }"

definition BfxBufferWriteUInt16 :: "u16 \<Rightarrow> BfxBufferStream \<Rightarrow> (nat \<times> BfxBufferStream) option" where
  "BfxBufferWriteUInt16 v s = write_bytes (le_bytes 2 (unat v)) s"

definition BfxBufferReadUInt32 :: "BfxBufferStream \<Rightarrow> (nat \<times> u32 \<times> BfxBufferStream) option" where
  "BfxBufferReadUInt32 s = do { (r, v, s) \<leftarrow> read_le 4 s; Some (r, of_nat v, s) }"

definition BfxBufferWriteUInt32 :: "u32 \<Rightarrow> BfxBufferStream \<Rightarrow> (nat \<times> BfxBufferStream) option" where
  "BfxBufferWriteUInt32 v s = write_bytes (le_bytes 4 (unat v)) s"

definition BfxBufferReadUInt64 :: "BfxBufferStream \<Rightarrow> (nat \<times> u64 \<times> BfxBufferStream) option" where
  "BfxBufferReadUInt64 s = do { (r, v, s) \<leftarrow> read_le 8 s; Some (r, of_nat v, s) }"

definition BfxBufferWriteUInt64 :: "u64 \<Rightarrow> BfxBufferStream \<Rightarrow> (nat \<times> BfxBufferStream) option" where
  "BfxBufferWriteUInt64 v s = write_bytes (le_bytes 8 (unat v)) s"

text \<open>
  The signed variants store and load the same bytes and read them in two's complement; the
  value is an \<open>int\<close> here.
\<close>

definition BfxBufferReadInt8 :: "BfxBufferStream \<Rightarrow> (nat \<times> int \<times> BfxBufferStream) option" where
  "BfxBufferReadInt8 s = do { (r, v, s) \<leftarrow> read_le 1 s; Some (r, sint (of_nat v :: u8), s) }"

definition BfxBufferWriteInt8 :: "int \<Rightarrow> BfxBufferStream \<Rightarrow> (nat \<times> BfxBufferStream) option" where
  "BfxBufferWriteInt8 v s = write_bytes (le_bytes 1 (unat (of_int v :: u8))) s"

definition BfxBufferReadInt16 :: "BfxBufferStream \<Rightarrow> (nat \<times> int \<times> BfxBufferStream) option" where
  "BfxBufferReadInt16 s = do { (r, v, s) \<leftarrow> read_le 2 s; Some (r, sint (of_nat v :: u16), s) }"

definition BfxBufferWriteInt16 :: "int \<Rightarrow> BfxBufferStream \<Rightarrow> (nat \<times> BfxBufferStream) option" where
  "BfxBufferWriteInt16 v s = write_bytes (le_bytes 2 (unat (of_int v :: u16))) s"

definition BfxBufferReadInt32 :: "BfxBufferStream \<Rightarrow> (nat \<times> int \<times> BfxBufferStream) option" where
  "BfxBufferReadInt32 s = do { (r, v, s) \<leftarrow> read_le 4 s; Some (r, sint (of_nat v :: u32), s) }"

definition BfxBufferWriteInt32 :: "int \<Rightarrow> BfxBufferStream \<Rightarrow> (nat \<times> BfxBufferStream) option" where
  "BfxBufferWriteInt32 v s = write_bytes (le_bytes 4 (unat (of_int v :: u32))) s"

definition BfxBufferReadInt64 :: "BfxBufferStream \<Rightarrow> (nat \<times> int \<times> BfxBufferStream) option" where
  "BfxBufferReadInt64 s = do { (r, v, s) \<leftarrow> read_le 8 s; Some (r, sint (of_nat v :: u64), s) }"

definition BfxBufferWriteInt64 :: "int \<Rightarrow> BfxBufferStream \<Rightarrow> (nat \<times> BfxBufferStream) option" where
  "BfxBufferWriteInt64 v s = write_bytes (le_bytes 8 (unat (of_int v :: u64))) s"

text \<open>
  The 48-bit read asserts 6 bytes but loads 8 and masks: with fewer than two bytes of memory
  behind the value the load leaves the memory. The 48-bit write is a 32-bit store followed by
  a 16-bit store.
\<close>

definition BfxBufferReadUInt48 :: "BfxBufferStream \<Rightarrow> (nat \<times> u64 \<times> BfxBufferStream) option" where
  "BfxBufferReadUInt48 s =
     (if stream_pos s + 6 \<le> stream_length s then do {
        bs \<leftarrow> mem_load (stream_pos s) 8 (stream_buffer s);
        Some (6, of_nat (le_value bs) AND 0x0000ffffffffffff, s\<lparr>stream_pos := stream_pos s + 6\<rparr>)
      } else None)"

definition BfxBufferWriteUInt48 :: "u64 \<Rightarrow> BfxBufferStream \<Rightarrow> (nat \<times> BfxBufferStream) option" where
  "BfxBufferWriteUInt48 v s =
     (if stream_pos s + 6 \<le> stream_length s then do {
        m \<leftarrow> mem_store (stream_pos s)
               (le_bytes 4 (unat (ucast (v AND 0x00000000ffffffff) :: u32))) (stream_buffer s);
        m \<leftarrow> mem_store (stream_pos s + 4)
               (le_bytes 2 (unat (ucast (drop_bit 32 v AND 0x0000ffff) :: u16))) m;
        Some (6, s\<lparr>stream_buffer := m, stream_pos := stream_pos s + 6\<rparr>)
      } else None)"

definition BfxBufferReadByteArray :: "nat \<Rightarrow> BfxBufferStream \<Rightarrow> (nat \<times> u8 list \<times> BfxBufferStream) option" where
  "BfxBufferReadByteArray len s = read_bytes len s"

definition BfxBufferWriteByteArray :: "u8 list \<Rightarrow> BfxBufferStream \<Rightarrow> BfxBufferStream option" where
  "BfxBufferWriteByteArray input s = map_option snd (write_bytes input s)"

text \<open>
  A byte array with a 16-bit length in front. The reader returns the C result (\<open>-1\<close> when
  the window is too short, with the position behind the length field) and the new buffer, if
  one is created.
\<close>

definition BfxBufferReadByteArrayBeginWithU16Length ::
    "BfxBufferStream \<Rightarrow> (int \<times> u8 list option \<times> BfxBufferStream) option" where
  "BfxBufferReadByteArrayBeginWithU16Length s = do {
     (r, len, s) \<leftarrow> read_le 2 s;
     if len = 0 then Some (2, None, s)
     else if stream_pos s + len > stream_length s then Some (- 1, None, s)
     else do {
       bs \<leftarrow> mem_load (stream_pos s) len (stream_buffer s);
       Some (2 + int len, Some bs, s\<lparr>stream_pos := stream_pos s + len\<rparr>)
     }
   }"

definition BfxBufferWriteByteArrayBeginWithU16Length ::
    "u8 list \<Rightarrow> BfxBufferStream \<Rightarrow> (nat \<times> BfxBufferStream) option" where
  "BfxBufferWriteByteArrayBeginWithU16Length input s =
     (let len = length input in
      if \<not> len < 0xffff \<or> \<not> stream_pos s + len + 2 \<le> stream_length s then None
      else do {
        m \<leftarrow> mem_store (stream_pos s) (le_bytes 2 (unat (of_nat len :: u16))) (stream_buffer s);
        let s = s\<lparr>stream_buffer := m, stream_pos := stream_pos s + 2\<rparr>;
        if len > 0 then do {
          m \<leftarrow> mem_store (stream_pos s) input (stream_buffer s);
          Some (2 + len, s\<lparr>stream_buffer := m, stream_pos := stream_pos s + len\<rparr>)
        } else Some (2 + len, s)
      })"

section \<open>Bytes put into and held by a stream\<close>

text \<open>
  \<open>put bs s\<close> is the stream after writing \<open>bs\<close>, \<open>skip n s\<close> after reading
  \<open>n\<close> bytes; \<open>room n s\<close> says that \<open>n\<close> bytes fit, \<open>holds bs s\<close> that
  \<open>bs\<close> is what follows the position.
\<close>

definition put :: "u8 list \<Rightarrow> BfxBufferStream \<Rightarrow> BfxBufferStream" where
  "put bs s = s\<lparr>stream_buffer := take (stream_pos s) (stream_buffer s) @ bs @
                                 drop (stream_pos s + length bs) (stream_buffer s),
                stream_pos := stream_pos s + length bs\<rparr>"

definition skip :: "nat \<Rightarrow> BfxBufferStream \<Rightarrow> BfxBufferStream" where
  "skip n s = s\<lparr>stream_pos := stream_pos s + n\<rparr>"

definition room :: "nat \<Rightarrow> BfxBufferStream \<Rightarrow> bool" where
  "room n s \<longleftrightarrow> stream_pos s + n \<le> stream_length s \<and> stream_length s \<le> length (stream_buffer s)"

definition holds :: "u8 list \<Rightarrow> BfxBufferStream \<Rightarrow> bool" where
  "holds bs s \<longleftrightarrow> stream_pos s + length bs \<le> stream_length s \<and>
     stream_pos s + length bs \<le> length (stream_buffer s) \<and>
     take (length bs) (drop (stream_pos s) (stream_buffer s)) = bs"

lemma put_simps [simp]:
  "stream_pos (put bs s) = stream_pos s + length bs"
  "stream_length (put bs s) = stream_length s"
  "stream_pos (skip n s) = stream_pos s + n"
  "stream_length (skip n s) = stream_length s"
  "stream_buffer (skip n s) = stream_buffer s"
  by (simp_all add: put_def skip_def)

lemma length_put [simp]: "room (length bs) s \<Longrightarrow> length (stream_buffer (put bs s)) = length (stream_buffer s)"
  by (simp add: put_def room_def)

lemma room_mono: "room n s \<Longrightarrow> m \<le> n \<Longrightarrow> room m s"
  by (simp add: room_def)

lemma room_put: "room (length bs + n) s \<Longrightarrow> room n (put bs s)"
  using length_put [OF room_mono [of "length bs + n" s "length bs"]] by (auto simp: room_def)

lemma put_put: "room (length bs) s \<Longrightarrow> put cs (put bs s) = put (bs @ cs) s"
  by (simp add: put_def room_def ac_simps)

text \<open>A header that is written after the body it precedes.\<close>

lemma put_back:
  assumes "stream_pos s + length hdr + length body \<le> length (stream_buffer s)"
  shows "put hdr (put body (skip (length hdr) s)\<lparr>stream_pos := stream_pos s\<rparr>)
           \<lparr>stream_pos := stream_pos s + length hdr + length body\<rparr> = put (hdr @ body) s"
  using assms by (simp add: put_def skip_def ac_simps)

lemma put_nil [simp]: "put [] s = s"
  by (simp add: put_def)

lemma skip_skip [simp]: "skip n (skip m s) = skip (m + n) s"
  by (simp add: skip_def add.assoc)

lemma holds_append: "holds (bs @ cs) s \<longleftrightarrow> holds bs s \<and> holds cs (skip (length bs) s)"
  by (auto simp: holds_def take_add add.assoc add.commute [of "stream_pos s"])

lemma holds_put:
  assumes "room (length bs) s"
  shows "holds bs (put bs s\<lparr>stream_pos := stream_pos s\<rparr>)"
  using assms by (simp add: holds_def put_def room_def)

lemma write_bytes_put: "room (length bs) s \<Longrightarrow> write_bytes bs s = Some (length bs, put bs s)"
  by (simp add: write_bytes_def mem_store_def put_def room_def)

lemma read_bytes_holds: "holds bs s \<Longrightarrow> read_bytes (length bs) s = Some (length bs, bs, skip (length bs) s)"
  by (simp add: read_bytes_def mem_load_def holds_def skip_def)

section \<open>The contract of a field\<close>

text \<open>
  A field of the wire format: \<open>enc_to\<close> puts \<open>enc v\<close>, \<open>dec_from\<close> gets \<open>v\<close>
  back where \<open>enc v\<close> stands, provided \<open>slack\<close> more bytes of memory follow.
\<close>

fun write_list :: "('a \<Rightarrow> BfxBufferStream \<Rightarrow> (nat \<times> BfxBufferStream) option) \<Rightarrow>
    'a list \<Rightarrow> BfxBufferStream \<Rightarrow> (nat \<times> BfxBufferStream) option" where
  "write_list enc_to [] s = Some (0, s)"
| "write_list enc_to (v # vs) s = do {
     (n, s) \<leftarrow> enc_to v s;
     (m, s) \<leftarrow> write_list enc_to vs s;
     Some (n + m, s)
   }"

fun read_list :: "(BfxBufferStream \<Rightarrow> (nat \<times> 'a \<times> BfxBufferStream) option) \<Rightarrow>
    nat \<Rightarrow> BfxBufferStream \<Rightarrow> (nat \<times> 'a list \<times> BfxBufferStream) option" where
  "read_list dec_from 0 s = Some (0, [], s)"
| "read_list dec_from (Suc k) s = do {
     (n, v, s) \<leftarrow> dec_from s;
     (m, vs, s) \<leftarrow> read_list dec_from k s;
     Some (n + m, v # vs, s)
   }"

locale codec =
  fixes enc :: "'a \<Rightarrow> u8 list"
    and valid :: "'a \<Rightarrow> bool"
    and slack :: nat
    and enc_to :: "'a \<Rightarrow> BfxBufferStream \<Rightarrow> (nat \<times> BfxBufferStream) option"
    and dec_from :: "BfxBufferStream \<Rightarrow> (nat \<times> 'a \<times> BfxBufferStream) option"
  assumes write_put: "room (length (enc v)) s \<Longrightarrow> enc_to v s = Some (length (enc v), put (enc v) s)"
    and read_holds: "valid v \<Longrightarrow> holds (enc v) s \<Longrightarrow>
      stream_pos s + length (enc v) + slack \<le> length (stream_buffer s) \<Longrightarrow>
      dec_from s = Some (length (enc v), v, skip (length (enc v)) s)"
begin

lemma read_plain:
  "slack = 0 \<Longrightarrow> valid v \<Longrightarrow> holds (enc v) s \<Longrightarrow>
   dec_from s = Some (length (enc v), v, skip (length (enc v)) s)"
  by (rule read_holds) (simp_all add: holds_def)

definition enc_list :: "'a list \<Rightarrow> u8 list" where
  "enc_list vs = concat (map enc vs)"

lemma write_list_put:
  "room (length (enc_list vs)) s \<Longrightarrow> write_list enc_to vs s = Some (length (enc_list vs), put (enc_list vs) s)"
proof (induction vs arbitrary: s)
  case Nil
  show ?case by (simp add: enc_list_def)
next
  case (Cons v vs)
  have bytes: "enc_list (v # vs) = enc v @ enc_list vs" by (simp add: enc_list_def)
  have room: "room (length (enc v)) s"
    using Cons.prems by (auto simp: bytes intro: room_mono)
  have "room (length (enc_list vs)) (put (enc v) s)"
    using Cons.prems by (simp add: bytes room_put)
  then show ?case
    using Cons.IH by (simp add: write_put [OF room] put_put [OF room] bytes)
qed

lemma read_list_holds:
  assumes "list_all valid vs" and "holds (enc_list vs) s"
    and "stream_pos s + length (enc_list vs) + slack \<le> length (stream_buffer s)"
  shows "read_list dec_from (length vs) s = Some (length (enc_list vs), vs, skip (length (enc_list vs)) s)"
  using assms
proof (induction vs arbitrary: s)
  case Nil
  show ?case by (simp add: enc_list_def skip_def)
next
  case (Cons v vs)
  have bytes: "enc_list (v # vs) = enc v @ enc_list vs" by (simp add: enc_list_def)
  have head: "dec_from s = Some (length (enc v), v, skip (length (enc v)) s)"
    using Cons.prems by (intro read_holds) (auto simp: bytes holds_append)
  have "holds (enc_list vs) (skip (length (enc v)) s)"
    using Cons.prems(2) by (simp add: bytes holds_append)
  then show ?case
    using Cons.IH [of "skip (length (enc v)) s"] Cons.prems by (simp add: head bytes)
qed

text \<open>What was written is read back, one field or a whole array of them.\<close>

lemma list_roundtrip:
  assumes "list_all valid vs" and "room (length (enc_list vs)) s"
    and "stream_pos s + length (enc_list vs) + slack \<le> length (stream_buffer s)"
  shows "\<exists>n s'. write_list enc_to vs s = Some (n, s') \<and>
                read_list dec_from (length vs) (s'\<lparr>stream_pos := stream_pos s\<rparr>) = Some (n, vs, s')"
proof -
  let ?s = "put (enc_list vs) s\<lparr>stream_pos := stream_pos s\<rparr>"
  have "read_list dec_from (length vs) ?s = Some (length (enc_list vs), vs, skip (length (enc_list vs)) ?s)"
    using assms holds_put [OF assms(2)] by (intro read_list_holds) simp_all
  moreover have "skip (length (enc_list vs)) ?s = put (enc_list vs) s"
    by (simp add: skip_def put_def)
  ultimately show ?thesis
    using write_list_put [OF assms(2)] by simp
qed

end

lemma le_word_back: "LENGTH('a) = 8 * n \<Longrightarrow> of_nat (le_value (le_bytes n (unat v))) = (v :: 'a::len word)"
proof -
  assume n: "LENGTH('a) = 8 * n"
  have "unat v < 256 ^ n"
    using unsigned_less [of v, where ?'a = nat] by (simp add: n power_mult)
  then show ?thesis by simp
qed

lemma read_le_holds: "holds (le_bytes n v) s \<Longrightarrow> v < 256 ^ n \<Longrightarrow> read_le n s = Some (n, v, skip n s)"
  using read_bytes_holds [of "le_bytes n v" s] by (simp add: read_le_def)

lemma unat_less_256:
  "unat (a :: u8) < 256 ^ 1" "unat (b :: u16) < 256 ^ 2" "unat (c :: u32) < 256 ^ 4" "unat (d :: u64) < 256 ^ 8"
  using unsigned_less [of a, where ?'a = nat] unsigned_less [of b, where ?'a = nat]
    unsigned_less [of c, where ?'a = nat] unsigned_less [of d, where ?'a = nat] by simp_all

lemma le_bytes_1: "le_bytes 1 (unat v) = [v]"
  by simp

interpretation u8: codec "\<lambda>v. [v]" "\<lambda>_. True" 0 BfxBufferWriteUInt8 BfxBufferReadUInt8
proof
  fix v s
  show "BfxBufferWriteUInt8 v s = Some (length [v], put [v] s)" if "room (length [v]) s"
    using write_bytes_put [OF that] by (simp add: BfxBufferWriteUInt8_def)
  show "BfxBufferReadUInt8 s = Some (length [v], v, skip (length [v]) s)" if "holds [v] s"
    using read_le_holds [of 1 "unat v", OF _ unat_less_256(1)] that
    by (simp only: BfxBufferReadUInt8_def le_bytes_1) simp
qed

interpretation u16: codec "\<lambda>v. le_bytes 2 (unat v)" "\<lambda>_. True" 0 BfxBufferWriteUInt16 BfxBufferReadUInt16
  by unfold_locales (simp_all add: BfxBufferWriteUInt16_def BfxBufferReadUInt16_def write_bytes_put
      read_le_holds [OF _ unat_less_256(2)])

interpretation u32: codec "\<lambda>v. le_bytes 4 (unat v)" "\<lambda>_. True" 0 BfxBufferWriteUInt32 BfxBufferReadUInt32
  by unfold_locales (simp_all add: BfxBufferWriteUInt32_def BfxBufferReadUInt32_def write_bytes_put
      read_le_holds [OF _ unat_less_256(3)])

interpretation u64: codec "\<lambda>v. le_bytes 8 (unat v)" "\<lambda>_. True" 0 BfxBufferWriteUInt64 BfxBufferReadUInt64
  by unfold_locales (simp_all add: BfxBufferWriteUInt64_def BfxBufferReadUInt64_def write_bytes_put
      read_le_holds [OF _ unat_less_256(4)])

text \<open>The two stores of the 48-bit write are the six low bytes of the value.\<close>

abbreviation enc48 :: "u64 \<Rightarrow> u8 list" where "enc48 v \<equiv> le_bytes 6 (unat v)"

lemma le_bytes_add: "le_bytes (n + m) v = le_bytes n v @ le_bytes m (v div 256 ^ n)"
  by (induction n arbitrary: v) (simp_all add: div_mult2_eq)

lemma le_bytes_mod: "le_bytes n (v mod 256 ^ n) = le_bytes n v"
proof (induction n arbitrary: v)
  case 0
  show ?case by simp
next
  case (Suc n)
  have "v mod (256 * 256 ^ n) mod 256 = v mod 256"
    by (rule mod_mod_cancel) simp
  then have "(of_nat (v mod 256 ^ Suc n) :: u8) = of_nat v"
    by (simp only: power_Suc word_of_nat_eq_iff) (simp add: take_bit_eq_mod)
  moreover have "v mod 256 ^ Suc n div 256 = v div 256 mod 256 ^ n"
    by (simp add: mod_mult2_eq)
  ultimately show ?case
    by (simp only: le_bytes.simps Suc)
qed

lemma low_bits: "unat (v AND mask n :: 'a::len word) = take_bit n (unat v)"
  by (simp only: flip: take_bit_eq_mask) (simp add: unsigned_take_bit_eq)

lemma enc48_parts:
  "enc48 v = le_bytes 4 (unat (ucast (v AND 0x00000000ffffffff) :: u32)) @
             le_bytes 2 (unat (ucast (drop_bit 32 v AND 0x0000ffff) :: u16))"
proof -
  have masks: "0x00000000ffffffff = (mask 32 :: u64)" "0x0000ffff = (mask 16 :: u64)"
    by (simp_all add: mask_eq_exp_minus_1)
  have "unat (ucast (v AND mask 32) :: u32) = unat v mod 256 ^ 4"
    by (simp add: unsigned_ucast_eq low_bits take_bit_eq_mod)
  moreover have "unat (ucast (drop_bit 32 v AND mask 16) :: u16) = unat v div 256 ^ 4 mod 256 ^ 2"
    by (simp add: unsigned_ucast_eq low_bits unsigned_drop_bit_eq)
      (simp add: take_bit_eq_mod drop_bit_eq_div mod_less [OF unat_lt64])
  ultimately show ?thesis
    using le_bytes_add [of 4 2 "unat v"] by (simp only: masks le_bytes_mod) simp
qed

definition fits48 :: "u64 \<Rightarrow> bool" where
  "fits48 v \<longleftrightarrow> v < 2 ^ 48"

lemma mem_store_append:
  "mem_store p (bs @ cs) m = Option.bind (mem_store p bs m) (mem_store (p + length bs) cs)"
  by (auto simp: mem_store_def ac_simps min_def)

lemma le_value_append: "le_value (bs @ cs) = le_value bs + 256 ^ length bs * le_value cs"
  by (induction bs) (simp_all add: algebra_simps)

interpretation u48: codec enc48 fits48 2 BfxBufferWriteUInt48 BfxBufferReadUInt48
proof
  fix v s
  show "BfxBufferWriteUInt48 v s = Some (length (enc48 v), put (enc48 v) s)" if r: "room (length (enc48 v)) s"
  proof -
    have "BfxBufferWriteUInt48 v s =
        (if stream_pos s + 6 \<le> stream_length s
         then Option.bind (mem_store (stream_pos s) (enc48 v) (stream_buffer s))
                (\<lambda>m. Some (6, s\<lparr>stream_buffer := m, stream_pos := stream_pos s + 6\<rparr>)) else None)"
      unfolding enc48_parts mem_store_append by (simp add: BfxBufferWriteUInt48_def)
    then show ?thesis using r by (simp add: mem_store_def room_def put_def)
  qed
  show "BfxBufferReadUInt48 s = Some (length (enc48 v), v, skip (length (enc48 v)) s)"
    if v: "fits48 v" and h: "holds (enc48 v) s" and m: "stream_pos s + length (enc48 v) + 2 \<le> length (stream_buffer s)"
  proof -
    let ?tail = "take 2 (drop (stream_pos s + 6) (stream_buffer s))"
    have bytes: "take 8 (drop (stream_pos s) (stream_buffer s)) = enc48 v @ ?tail"
      using h take_add [of 6 2 "drop (stream_pos s) (stream_buffer s)"]
      by (simp add: holds_def add.commute)
    have "unat v < 256 ^ 6" using v by (simp add: fits48_def word_less_unat)
    then have "le_value (enc48 v @ ?tail) mod 2 ^ 48 = unat v"
      by (simp add: le_value_append)
    moreover have "(of_nat x :: u64) AND 0x0000ffffffffffff = of_nat (x mod 2 ^ 48)" for x
    proof -
      have "(of_nat x :: u64) AND 0x0000ffffffffffff = take_bit 48 (of_nat x)"
        by (simp add: take_bit_eq_mask mask_eq_exp_minus_1)
      also have "\<dots> = of_nat (take_bit 48 x)"
        by (rule take_bit_of_nat)
      finally show ?thesis by (simp add: take_bit_eq_mod)
    qed
    ultimately show ?thesis
      using h m by (simp add: BfxBufferReadUInt48_def mem_load_def bytes holds_def skip_def)
  qed
qed

text \<open>The signed fields: two's complement for values in range.\<close>

lemma sint_back:
  "- (2 ^ (LENGTH('a) - 1)) \<le> v \<Longrightarrow> v < 2 ^ (LENGTH('a) - 1) \<Longrightarrow>
   sint (of_nat (unat (of_int v :: 'a::len word)) :: 'a word) = v"
  by (simp add: signed_of_int signed_take_bit_int_eq_self)

interpretation i8: codec "\<lambda>v. [of_int v]" "\<lambda>v. v \<in> {- 128..<128}" 0 BfxBufferWriteInt8 BfxBufferReadInt8
proof
  fix v s
  show "BfxBufferWriteInt8 v s = Some (length [of_int v], put [of_int v] s)" if "room (length [of_int v :: u8]) s"
    using write_bytes_put [OF that] by (simp add: BfxBufferWriteInt8_def)
  show "BfxBufferReadInt8 s = Some (length [of_int v], v, skip (length [of_int v]) s)"
    if "v \<in> {- 128..<128}" and "holds [of_int v] s"
    using read_le_holds [of 1 "unat (of_int v :: u8)", OF _ unat_less_256(1)] that sint_back [of v, where ?'a = 8]
    by (simp only: BfxBufferReadInt8_def le_bytes_1) simp
qed

interpretation i16: codec "\<lambda>v. le_bytes 2 (unat (of_int v :: u16))" "\<lambda>v. v \<in> {- (2 ^ 15)..<2 ^ 15}" 0
    BfxBufferWriteInt16 BfxBufferReadInt16
  using sint_back [where ?'a = 16]
  by unfold_locales (simp_all add: BfxBufferWriteInt16_def BfxBufferReadInt16_def write_bytes_put
      read_le_holds [OF _ unat_less_256(2)])

interpretation i32: codec "\<lambda>v. le_bytes 4 (unat (of_int v :: u32))" "\<lambda>v. v \<in> {- (2 ^ 31)..<2 ^ 31}" 0
    BfxBufferWriteInt32 BfxBufferReadInt32
  using sint_back [where ?'a = 32]
  by unfold_locales (simp_all add: BfxBufferWriteInt32_def BfxBufferReadInt32_def write_bytes_put
      read_le_holds [OF _ unat_less_256(3)])

interpretation i64: codec "\<lambda>v. le_bytes 8 (unat (of_int v :: u64))" "\<lambda>v. v \<in> {- (2 ^ 63)..<2 ^ 63}" 0
    BfxBufferWriteInt64 BfxBufferReadInt64
  using sint_back [where ?'a = 64]
  by unfold_locales (simp_all add: BfxBufferWriteInt64_def BfxBufferReadInt64_def write_bytes_put
      read_le_holds [OF _ unat_less_256(4)])

text \<open>Arrays of bytes: bare, and behind a 16-bit length.\<close>

lemma write_array_put: "room (length bs) s \<Longrightarrow> BfxBufferWriteByteArray bs s = Some (put bs s)"
  by (simp add: BfxBufferWriteByteArray_def write_bytes_put)

lemma write_u16_array_put:
  assumes "length bs < 0xffff" and r: "room (2 + length bs) s"
  shows "BfxBufferWriteByteArrayBeginWithU16Length bs s =
         Some (2 + length bs, put (le_bytes 2 (length bs) @ bs) s)"
proof -
  have len: "unat (of_nat (length bs) :: u16) = length bs"
    using assms(1) by (simp add: unsigned_of_nat take_bit_eq_mod)
  have "room 2 s" "room (length bs) (put (le_bytes 2 (length bs)) s)"
    using r room_put [of "le_bytes 2 (length bs)" "length bs" s] by (auto intro: room_mono)
  then show ?thesis
    using assms put_put [of "le_bytes 2 (length bs)" s bs]
      put_put [of "le_bytes 2 (length bs)" s "[]"] length_put [of "le_bytes 2 (length bs)" s]
    by (auto simp: BfxBufferWriteByteArrayBeginWithU16Length_def len mem_store_def room_def Let_def put_def)
qed

lemma read_u16_array_holds:
  assumes "length bs < 0xffff" and h: "holds (le_bytes 2 (length bs) @ bs) s"
  shows "BfxBufferReadByteArrayBeginWithU16Length s =
         Some (2 + int (length bs), if bs = [] then None else Some bs, skip (2 + length bs) s)"
proof -
  have "read_le 2 s = Some (2, length bs, skip 2 s)"
    using h assms(1) by (intro read_le_holds) (auto simp: holds_append)
  moreover have "holds bs (skip 2 s)"
    using h by (simp add: holds_append)
  ultimately show ?thesis
    by (auto simp: BfxBufferReadByteArrayBeginWithU16Length_def mem_load_def holds_def skip_def)
qed

section \<open>Properties of the stream\<close>

text \<open>
  An array of 48-bit values that fits the window is written and read back unchanged,
  six bytes each, provided every value is below \<open>2 ^ 48\<close> and two bytes of memory follow, which
  the last read loads although it does not use them.
\<close>

lemma u48_array_roundtrip:
  assumes "list_all fits48 vs" and "room (6 * length vs) s"
    and "stream_pos s + 6 * length vs + 2 \<le> length (stream_buffer s)"
  shows "\<exists>s'. write_list BfxBufferWriteUInt48 vs s = Some (6 * length vs, s') \<and>
              read_list BfxBufferReadUInt48 (length vs) (s'\<lparr>stream_pos := stream_pos s\<rparr>) = Some (6 * length vs, vs, s')"
proof -
  have len: "length (u48.enc_list vs) = 6 * length vs"
    by (induction vs) (simp_all add: u48.enc_list_def)
  show ?thesis
    using u48.list_roundtrip [OF assms(1), of s] u48.write_list_put [of vs s] assms(2,3) by (auto simp: len)
qed

text \<open>
  A byte array of fewer than 65535 bytes written with its 16-bit length is read back as it
  was, an empty one as no buffer at all.
\<close>

lemma u16_array_roundtrip:
  assumes "length bs < 0xffff" and "room (2 + length bs) s"
  shows "\<exists>s'. BfxBufferWriteByteArrayBeginWithU16Length bs s = Some (2 + length bs, s') \<and>
              BfxBufferReadByteArrayBeginWithU16Length (s'\<lparr>stream_pos := stream_pos s\<rparr>) =
              Some (2 + int (length bs), if bs = [] then None else Some bs, s')"
proof -
  let ?W = "le_bytes 2 (length bs) @ bs"
  have "holds ?W (put ?W s\<lparr>stream_pos := stream_pos s\<rparr>)"
    using assms(2) by (intro holds_put) simp
  moreover have "skip (2 + length bs) (put ?W s\<lparr>stream_pos := stream_pos s\<rparr>) = put ?W s"
    by (simp add: skip_def put_def)
  ultimately show ?thesis
    using read_u16_array_holds [OF assms(1), of "put ?W s\<lparr>stream_pos := stream_pos s\<rparr>"] write_u16_array_put [OF assms]
    by simp
qed

text \<open>
  The 48-bit read loads memory behind the six bytes it asserts: at the end of a buffer of
  exactly six bytes the assertion holds and the load leaves the buffer.
\<close>

lemma read_u48_overruns:
  "stream_length (BfxBufferStreamInit (replicate 6 0) 6) = 6 \<and>
   BfxBufferReadUInt48 (BfxBufferStreamInit (replicate 6 0) 6) = None \<and>
   BfxBufferReadUInt48 (BfxBufferStreamInit (replicate 8 0) 6) \<noteq> None"
  by (simp add: BfxBufferStreamInit_def BfxBufferReadUInt48_def mem_load_def)

lemma u48_array_roundtrip_witness:
  "\<exists>s'. write_list BfxBufferWriteUInt48 [5, 0xffffffffffff] (BfxBufferStreamInit (replicate 20 0) 12) =
       Some (6 * length [5, 0xffffffffffff :: u64], s') \<and>
     read_list BfxBufferReadUInt48 (length [5, 0xffffffffffff :: u64])
       (s'\<lparr>stream_pos := stream_pos (BfxBufferStreamInit (replicate 20 0) 12)\<rparr>) =
       Some (6 * length [5, 0xffffffffffff :: u64], [5, 0xffffffffffff], s')"
  by (rule u48_array_roundtrip) (simp_all add: fits48_def room_def BfxBufferStreamInit_def)

lemma u16_array_roundtrip_witness:
  "\<exists>s'. BfxBufferWriteByteArrayBeginWithU16Length [1, 2, 3] (BfxBufferStreamInit (replicate 5 0) 5) = Some (5, s') \<and>
     BfxBufferReadByteArrayBeginWithU16Length (s'\<lparr>stream_pos := 0\<rparr>) = Some (5, Some [1, 2, 3], s')"
  using u16_array_roundtrip [of "[1, 2, 3]" "BfxBufferStreamInit (replicate 5 0) 5"]
  by (simp add: room_def BfxBufferStreamInit_def)

end
