(* ===== verification/SessionData.thy ===== *)
theory SessionData
  imports BufferStream
begin

text \<open>
  The session data package, which carries the bytes of a connection and its
  acknowledgements, and its wire format: the structures of
  \<^verbatim>\<open>BDTCore/Protocol/Package.h\<close>, \<open>EncodeSessionDataPackage\<close> of
  \<^verbatim>\<open>PackageEncoder.imp.inl\<close> and \<open>DecodeSessionDataPackage\<close> of
  \<^verbatim>\<open>PackageDecoder.imp.inl\<close>.

  A pointer that may be null is an option. \<open>sackArray\<close> is the array it points to, with
  the terminating entry of length 0; \<open>payload\<close> is the memory from the payload pointer
  on. The encoder takes a reference package from which it reads nothing, so it is no argument
  here; the reads and writes report success whenever they return, so the checks of their
  results are no branches either.
\<close>

section \<open>The package\<close>

definition flag :: "nat \<Rightarrow> u16" where
  "flag n = push_bit n 1"

abbreviation "BDT_SESSIONDATA_PACKAGE_FLAG_PACKAGEID \<equiv> flag 0"
abbreviation "BDT_SESSIONDATA_PACKAGE_FLAG_ACK_PACKAGEID \<equiv> flag 1"
abbreviation "BDT_SESSIONDATA_PACKAGE_FLAG_SYN \<equiv> flag 2"
abbreviation "BDT_SESSIONDATA_PACKAGE_FLAG_ACK \<equiv> flag 3"
abbreviation "BDT_SESSIONDATA_PACKAGE_FLAG_SACK \<equiv> flag 4"
abbreviation "BDT_SESSIONDATA_PACKAGE_FLAG_SPEEDLIMIT \<equiv> flag 5"
abbreviation "BDT_SESSIONDATA_PACKAGE_FLAG_SENDTIME \<equiv> flag 6"
abbreviation "BDT_SESSIONDATA_PACKAGE_FLAG_PAYLOAD \<equiv> flag 7"
abbreviation "BDT_SESSIONDATA_PACKAGE_FLAG_FIN \<equiv> flag 10"
abbreviation "BDT_SESSIONDATA_PACKAGE_FLAG_FINACK \<equiv> flag 11"
abbreviation "BDT_SESSIONDATA_PACKAGE_FLAG_RESET \<equiv> flag 12"

abbreviation (input) BDT_SESSION_DATA_PACKAGE :: u8 where "BDT_SESSION_DATA_PACKAGE \<equiv> 0x40"
abbreviation (input) BDT_EXCHANGEKEY_PACKAGE :: u8 where "BDT_EXCHANGEKEY_PACKAGE \<equiv> 0"
abbreviation (input) PACKAGE_SESSIONDATA_SACK_RANGE_MAX_COUNT :: nat
  where "PACKAGE_SESSIONDATA_SACK_RANGE_MAX_COUNT \<equiv> 10"

definition has_flag :: "u16 \<Rightarrow> u16 \<Rightarrow> bool" where
  "has_flag flags f \<longleftrightarrow> flags AND f \<noteq> 0"

record BdtStreamRange =
  range_pos :: u64
  range_length :: u32

record Bdt_SessionDataSynPart =
  synSeq :: u32
  synControl :: u8
  ccType :: u8
  toVPort :: u16
  fromSessionId :: u32

record Bdt_SessionDataPackageIdPart =
  packageId :: u32
  totalRecv :: u64

record Bdt_SessionDataPackage =
  cmdtype :: u8
  cmdflags :: u16
  sessionId :: u32
  streamPos :: u64
  ackStreamPos :: u64
  toSessionId :: u32
  sackArray :: "BdtStreamRange list option"
  recvSpeedlimit :: u32
  sendTime :: u64
  payloadLength :: u16
  payload :: "u8 list option"
  synPart :: "Bdt_SessionDataSynPart option"
  packageIDPart :: "Bdt_SessionDataPackageIdPart option"

definition Bdt_SessionDataPackageInit :: Bdt_SessionDataPackage where
  "Bdt_SessionDataPackageInit =
     \<lparr>cmdtype = BDT_SESSION_DATA_PACKAGE, cmdflags = 0, sessionId = 0, streamPos = 0,
      ackStreamPos = 0, toSessionId = 0, sackArray = None, recvSpeedlimit = 0, sendTime = 0,
      payloadLength = 0, payload = None, synPart = None, packageIDPart = None\<rparr>"

definition Bdt_GetPackageMinSize :: "u8 \<Rightarrow> nat" where
  "Bdt_GetPackageMinSize cmd = (if cmd = BDT_EXCHANGEKEY_PACKAGE then 94 else 2)"

section \<open>The encoder\<close>

text \<open>A flag is set when its field is present and cleared otherwise.\<close>

definition mark_flag :: "bool \<Rightarrow> u16 \<Rightarrow> u16 \<Rightarrow> u16" where
  "mark_flag present f flags = (if present then flags OR f else flags AND NOT f)"

definition write_if :: "bool \<Rightarrow> (BfxBufferStream \<Rightarrow> (nat \<times> BfxBufferStream) option) \<Rightarrow>
    BfxBufferStream \<Rightarrow> (nat \<times> BfxBufferStream) option" where
  "write_if present wr s = (if present then wr s else Some (0, s))"

definition EncodeSynPart :: "Bdt_SessionDataSynPart \<Rightarrow> BfxBufferStream \<Rightarrow> (nat \<times> BfxBufferStream) option" where
  "EncodeSynPart y s = do {
     (n1, s) \<leftarrow> BfxBufferWriteUInt32 (synSeq y) s;
     (n2, s) \<leftarrow> BfxBufferWriteUInt8 (synControl y) s;
     (n3, s) \<leftarrow> BfxBufferWriteUInt8 (ccType y) s;
     (n4, s) \<leftarrow> BfxBufferWriteUInt16 (toVPort y) s;
     (n5, s) \<leftarrow> BfxBufferWriteUInt32 (fromSessionId y) s;
     Some (n1 + n2 + n3 + n4 + n5, s)
   }"

definition EncodePackageIdPart :: "Bdt_SessionDataPackageIdPart \<Rightarrow> BfxBufferStream \<Rightarrow> (nat \<times> BfxBufferStream) option" where
  "EncodePackageIdPart i s = do {
     (n1, s) \<leftarrow> BfxBufferWriteUInt32 (packageId i) s;
     (n2, s) \<leftarrow> BfxBufferWriteUInt48 (totalRecv i) s;
     Some (n1 + n2, s)
   }"

text \<open>
  The loop over the sack array: it stops at the first entry of length 0, and gives up with
  \<open>BFX_RESULT_INVALID_FORMAT\<close> behind the eleventh entry. Running off the array is
  \<open>None\<close>.
\<close>

fun EncodeSackRanges :: "BdtStreamRange list \<Rightarrow> nat \<Rightarrow> nat \<Rightarrow> BfxBufferStream \<Rightarrow>
    (u32 \<times> nat \<times> nat \<times> BfxBufferStream) option" where
  "EncodeSackRanges [] count written s = None"
| "EncodeSackRanges (r # rs) count written s =
     (if range_length r = 0 then Some (BFX_RESULT_SUCCESS, count, written, s)
      else do {
        (n1, s) \<leftarrow> BfxBufferWriteUInt48 (range_pos r) s;
        (n2, s) \<leftarrow> BfxBufferWriteUInt32 (range_length r) s;
        if count + 1 > PACKAGE_SESSIONDATA_SACK_RANGE_MAX_COUNT
        then Some (BFX_RESULT_INVALID_FORMAT, count + 1, written + n1 + n2, s)
        else EncodeSackRanges rs (count + 1) (written + n1 + n2) s
      })"

definition EncodeSackArray :: "BdtStreamRange list \<Rightarrow> BfxBufferStream \<Rightarrow> (u32 \<times> nat \<times> BfxBufferStream) option" where
  "EncodeSackArray rs s = do {
     let countpos = BfxBufferStreamGetPos s;
     s \<leftarrow> BfxBufferStreamSetPos (countpos + 1) s;
     (r, count, written, s) \<leftarrow> EncodeSackRanges rs 0 0 s;
     if r \<noteq> BFX_RESULT_SUCCESS then Some (r, written, s)
     else do {
       let endpos = BfxBufferStreamGetPos s;
       s \<leftarrow> BfxBufferStreamSetPos countpos s;
       (n, s) \<leftarrow> BfxBufferWriteUInt8 (of_nat count) s;
       s \<leftarrow> BfxBufferStreamSetPos endpos s;
       Some (BFX_RESULT_SUCCESS, written + n, s)
     }
   }"

definition EncodePayload :: "u16 \<Rightarrow> u8 list \<Rightarrow> BfxBufferStream \<Rightarrow> (nat \<times> BfxBufferStream) option" where
  "EncodePayload len bs s =
     (if unat len \<le> length bs
      then map_option (Pair (unat len)) (BfxBufferWriteByteArray (take (unat len) bs) s) else None)"

text \<open>
  The fields behind the sack array, and the header with the total length, which is written
  last. The result is the C result, the package (its flags are updated in place), the stream
  and \<open>*pWriteBytes\<close>.
\<close>

definition EncodeSessionTail :: "nat \<Rightarrow> nat \<Rightarrow> Bdt_SessionDataPackage \<Rightarrow> BfxBufferStream \<Rightarrow>
    (u32 \<times> Bdt_SessionDataPackage \<times> BfxBufferStream \<times> nat) option" where
  "EncodeSessionTail headerPos written p s = do {
     let p = p\<lparr>cmdflags := mark_flag (recvSpeedlimit p \<noteq> 0) BDT_SESSIONDATA_PACKAGE_FLAG_SPEEDLIMIT (cmdflags p)\<rparr>;
     (n1, s) \<leftarrow> write_if (has_flag (cmdflags p) BDT_SESSIONDATA_PACKAGE_FLAG_SPEEDLIMIT)
                  (BfxBufferWriteUInt32 (recvSpeedlimit p)) s;
     let p = p\<lparr>cmdflags := mark_flag (sendTime p \<noteq> 0) BDT_SESSIONDATA_PACKAGE_FLAG_SENDTIME (cmdflags p)\<rparr>;
     (n2, s) \<leftarrow> write_if (has_flag (cmdflags p) BDT_SESSIONDATA_PACKAGE_FLAG_SENDTIME)
                  (BfxBufferWriteUInt64 (sendTime p)) s;
     let p = p\<lparr>cmdflags := mark_flag (payload p \<noteq> None) BDT_SESSIONDATA_PACKAGE_FLAG_PAYLOAD (cmdflags p)\<rparr>;
     (n3, s) \<leftarrow> (case payload p of None \<Rightarrow> Some (0, s) | Some bs \<Rightarrow> EncodePayload (payloadLength p) bs s);
     let written = written + n1 + n2 + n3;
     let tailPos = BfxBufferStreamGetPos s;
     s \<leftarrow> BfxBufferStreamSetPos headerPos s;
     (_, s) \<leftarrow> BfxBufferWriteUInt16 (of_nat written) s;
     (_, s) \<leftarrow> BfxBufferWriteUInt8 (cmdtype p) s;
     (_, s) \<leftarrow> BfxBufferWriteUInt16 (cmdflags p) s;
     s \<leftarrow> BfxBufferStreamSetPos tailPos s;
     Some (BFX_RESULT_SUCCESS, p, s, written)
   }"

definition EncodeSessionDataPackage :: "Bdt_SessionDataPackage \<Rightarrow> BfxBufferStream \<Rightarrow>
    (u32 \<times> Bdt_SessionDataPackage \<times> BfxBufferStream \<times> nat) option" where
  "EncodeSessionDataPackage p s = do {
     let headerPos = BfxBufferStreamGetPos s;
     s \<leftarrow> BfxBufferStreamSetPos (headerPos + 1 + 2 + 2) s;
     (n1, s) \<leftarrow> BfxBufferWriteUInt32 (sessionId p) s;
     (n2, s) \<leftarrow> BfxBufferWriteUInt48 (streamPos p) s;
     let p = p\<lparr>cmdflags := mark_flag (synPart p \<noteq> None) BDT_SESSIONDATA_PACKAGE_FLAG_SYN (cmdflags p)\<rparr>;
     (n3, s) \<leftarrow> (case synPart p of None \<Rightarrow> Some (0, s) | Some y \<Rightarrow> EncodeSynPart y s);
     let p = p\<lparr>cmdflags := mark_flag (packageIDPart p \<noteq> None) BDT_SESSIONDATA_PACKAGE_FLAG_PACKAGEID (cmdflags p)\<rparr>;
     (n4, s) \<leftarrow> (case packageIDPart p of None \<Rightarrow> Some (0, s) | Some i \<Rightarrow> EncodePackageIdPart i s);
     let p = (if ackStreamPos p = 0 then p
              else p\<lparr>cmdflags := cmdflags p OR BDT_SESSIONDATA_PACKAGE_FLAG_ACK\<rparr>);
     (n5, s) \<leftarrow> write_if (has_flag (cmdflags p) BDT_SESSIONDATA_PACKAGE_FLAG_ACK)
                  (BfxBufferWriteUInt48 (ackStreamPos p)) s;
     (n6, s) \<leftarrow> write_if (has_flag (cmdflags p) BDT_SESSIONDATA_PACKAGE_FLAG_SYN \<and>
                           has_flag (cmdflags p) BDT_SESSIONDATA_PACKAGE_FLAG_ACK)
                  (BfxBufferWriteUInt32 (toSessionId p)) s;
     let p = p\<lparr>cmdflags := mark_flag (sackArray p \<noteq> None) BDT_SESSIONDATA_PACKAGE_FLAG_SACK (cmdflags p)\<rparr>;
     (r, n7, s) \<leftarrow> (case sackArray p of None \<Rightarrow> Some (BFX_RESULT_SUCCESS, 0, s) | Some rs \<Rightarrow> EncodeSackArray rs s);
     if r \<noteq> BFX_RESULT_SUCCESS then Some (r, p, s, 0)
     else EncodeSessionTail headerPos (5 + n1 + n2 + n3 + n4 + n5 + n6 + n7) p s
   }"

section \<open>The decoder\<close>

definition read_if :: "bool \<Rightarrow> 'a \<Rightarrow> (BfxBufferStream \<Rightarrow> (nat \<times> 'a \<times> BfxBufferStream) option) \<Rightarrow>
    BfxBufferStream \<Rightarrow> (nat \<times> 'a \<times> BfxBufferStream) option" where
  "read_if present old rd s = (if present then rd s else Some (0, old, s))"

text \<open>An optional part: the structure is allocated when it is present.\<close>

definition read_part :: "bool \<Rightarrow> 'a option \<Rightarrow> (BfxBufferStream \<Rightarrow> (nat \<times> 'a \<times> BfxBufferStream) option) \<Rightarrow>
    BfxBufferStream \<Rightarrow> (nat \<times> 'a option \<times> BfxBufferStream) option" where
  "read_part present old rd s =
     (if present then do { (n, v, s) \<leftarrow> rd s; Some (n, Some v, s) } else Some (0, old, s))"

definition DecodeSynPart :: "BfxBufferStream \<Rightarrow> (nat \<times> Bdt_SessionDataSynPart \<times> BfxBufferStream) option" where
  "DecodeSynPart s = do {
     (n1, seqno, s) \<leftarrow> BfxBufferReadUInt32 s;
     (n2, ctrl, s) \<leftarrow> BfxBufferReadUInt8 s;
     (n3, cc, s) \<leftarrow> BfxBufferReadUInt8 s;
     (n4, port, s) \<leftarrow> BfxBufferReadUInt16 s;
     (n5, from, s) \<leftarrow> BfxBufferReadUInt32 s;
     Some (n1 + n2 + n3 + n4 + n5,
       \<lparr>synSeq = seqno, synControl = ctrl, ccType = cc, toVPort = port, fromSessionId = from\<rparr>, s)
   }"

definition DecodePackageIdPart :: "BfxBufferStream \<Rightarrow> (nat \<times> Bdt_SessionDataPackageIdPart \<times> BfxBufferStream) option" where
  "DecodePackageIdPart s = do {
     (n1, pid, s) \<leftarrow> BfxBufferReadUInt32 s;
     (n2, recvd, s) \<leftarrow> BfxBufferReadUInt48 s;
     Some (n1 + n2, \<lparr>packageId = pid, totalRecv = recvd\<rparr>, s)
   }"

definition DecodeSackRange :: "BfxBufferStream \<Rightarrow> (nat \<times> BdtStreamRange \<times> BfxBufferStream) option" where
  "DecodeSackRange s = do {
     (n1, pos, s) \<leftarrow> BfxBufferReadUInt48 s;
     (n2, len, s) \<leftarrow> BfxBufferReadUInt32 s;
     Some (n1 + n2, \<lparr>range_pos = pos, range_length = len\<rparr>, s)
   }"

text \<open>The sack array, or \<open>None\<close> inside the result for a count of 0 or above 10.\<close>

definition DecodeSackArray :: "BfxBufferStream \<Rightarrow> (nat \<times> BdtStreamRange list option \<times> BfxBufferStream) option" where
  "DecodeSackArray s = do {
     (n, count, s) \<leftarrow> BfxBufferReadUInt8 s;
     if unat count > PACKAGE_SESSIONDATA_SACK_RANGE_MAX_COUNT \<or> count = 0 then Some (n, None, s)
     else do {
       (m, rs, s) \<leftarrow> read_list DecodeSackRange (unat count) s;
       Some (n + m, Some (rs @ [\<lparr>range_pos = 0, range_length = 0\<rparr>]), s)
     }
   }"

text \<open>The check at the label \<open>END\<close>.\<close>

definition decode_end :: "u16 \<Rightarrow> nat \<Rightarrow> int \<Rightarrow> int" where
  "decode_end totallen readlen r = (if unat totallen \<noteq> readlen then - 1 else r)"

definition DecodeSessionTail :: "u16 \<Rightarrow> nat \<Rightarrow> Bdt_SessionDataPackage \<Rightarrow> BfxBufferStream \<Rightarrow>
    (int \<times> Bdt_SessionDataPackage \<times> BfxBufferStream) option" where
  "DecodeSessionTail totallen readlen p s = do {
     let flags = cmdflags p;
     (n1, to, s) \<leftarrow> read_if (has_flag flags BDT_SESSIONDATA_PACKAGE_FLAG_SYN \<and>
                           has_flag flags BDT_SESSIONDATA_PACKAGE_FLAG_ACK)
                     (toSessionId p) BfxBufferReadUInt32 s;
     (n2, limit, s) \<leftarrow> read_if (has_flag flags BDT_SESSIONDATA_PACKAGE_FLAG_SPEEDLIMIT)
                        (recvSpeedlimit p) BfxBufferReadUInt32 s;
     (n3, time, s) \<leftarrow> read_if (has_flag flags BDT_SESSIONDATA_PACKAGE_FLAG_SENDTIME)
                       (sendTime p) BfxBufferReadUInt64 s;
     let p = p\<lparr>toSessionId := to, recvSpeedlimit := limit, sendTime := time\<rparr>;
     let readlen = readlen + n1 + n2 + n3;
     if has_flag flags BDT_SESSIONDATA_PACKAGE_FLAG_PAYLOAD then do {
       let datalen = totallen - of_nat readlen;
       if \<not> datalen > 0 then None
       else do {
         let thisPos = BfxBufferStreamGetPos s;
         let p = p\<lparr>payload := Some (take (unat datalen) (drop thisPos (stream_buffer s))),
                   payloadLength := datalen\<rparr>;
         s \<leftarrow> BfxBufferStreamSetPos (thisPos + unat datalen) s;
         Some (decode_end totallen (readlen + unat datalen) 0, p, s)
       }
     } else Some (decode_end totallen readlen 0, p, s)
   }"

definition DecodeSessionDataPackage :: "Bdt_SessionDataPackage \<Rightarrow> u16 \<Rightarrow> BfxBufferStream \<Rightarrow>
    (int \<times> Bdt_SessionDataPackage \<times> BfxBufferStream) option" where
  "DecodeSessionDataPackage p totallen s =
     (if unat totallen < Bdt_GetPackageMinSize BDT_SESSION_DATA_PACKAGE
      then Some (decode_end totallen 0 0, p, s)
      else do {
        (n1, flags, s) \<leftarrow> BfxBufferReadUInt16 s;
        (n2, sid, s) \<leftarrow> BfxBufferReadUInt32 s;
        (n3, pos, s) \<leftarrow> BfxBufferReadUInt48 s;
        (n4, syn, s) \<leftarrow> read_part (has_flag flags BDT_SESSIONDATA_PACKAGE_FLAG_SYN) (synPart p) DecodeSynPart s;
        (n5, pid, s) \<leftarrow> read_part (has_flag flags BDT_SESSIONDATA_PACKAGE_FLAG_PACKAGEID \<or>
                                 has_flag flags BDT_SESSIONDATA_PACKAGE_FLAG_ACK_PACKAGEID)
                           (packageIDPart p) DecodePackageIdPart s;
        (n6, ack, s) \<leftarrow> read_if (has_flag flags BDT_SESSIONDATA_PACKAGE_FLAG_ACK)
                         (ackStreamPos p) BfxBufferReadUInt48 s;
        let p = p\<lparr>cmdflags := flags, sessionId := sid, streamPos := pos, synPart := syn,
                  packageIDPart := pid, ackStreamPos := ack\<rparr>;
        let readlen = n1 + n2 + n3 + n4 + n5 + n6;
        if has_flag flags BDT_SESSIONDATA_PACKAGE_FLAG_SACK then do {
          (n7, sack, s) \<leftarrow> DecodeSackArray s;
          case sack of
            None \<Rightarrow> Some (decode_end totallen (readlen + n7) (- 1), p, s)
          | Some rs \<Rightarrow> DecodeSessionTail totallen (readlen + n7) (p\<lparr>sackArray := Some rs\<rparr>) s
        } else DecodeSessionTail totallen readlen p s
      })"

section \<open>The parts as fields\<close>

lemma length_put_mem [simp]:
  "stream_pos s + length bs \<le> length (stream_buffer s) \<Longrightarrow>
   length (stream_buffer (put bs s)) = length (stream_buffer s)"
  by (simp add: put_def)

lemma put_put_mem [simp]:
  "stream_pos s + length bs \<le> length (stream_buffer s) \<Longrightarrow> put cs (put bs s) = put (bs @ cs) s"
  by (simp add: put_def ac_simps)

lemmas write_fields = u8.write_put u16.write_put u32.write_put u48.write_put u64.write_put room_def

lemmas read8 = u8.read_plain [OF refl TrueI]
lemmas read16 = u16.read_plain [OF refl TrueI]
lemmas read32 = u32.read_plain [OF refl TrueI]
lemmas read64 = u64.read_plain [OF refl TrueI]

definition syn_bytes :: "Bdt_SessionDataSynPart \<Rightarrow> u8 list" where
  "syn_bytes y = le_bytes 4 (unat (synSeq y)) @ [synControl y] @ [ccType y] @
     le_bytes 2 (unat (toVPort y)) @ le_bytes 4 (unat (fromSessionId y))"

definition pid_bytes :: "Bdt_SessionDataPackageIdPart \<Rightarrow> u8 list" where
  "pid_bytes i = le_bytes 4 (unat (packageId i)) @ enc48 (totalRecv i)"

definition range_bytes :: "BdtStreamRange \<Rightarrow> u8 list" where
  "range_bytes r = enc48 (range_pos r) @ le_bytes 4 (unat (range_length r))"

definition EncodeSackRange :: "BdtStreamRange \<Rightarrow> BfxBufferStream \<Rightarrow> (nat \<times> BfxBufferStream) option" where
  "EncodeSackRange r s = do {
     (n1, s) \<leftarrow> BfxBufferWriteUInt48 (range_pos r) s;
     (n2, s) \<leftarrow> BfxBufferWriteUInt32 (range_length r) s;
     Some (n1 + n2, s)
   }"

lemma length_parts [simp]:
  "length (syn_bytes y) = 12" "length (pid_bytes i) = 10" "length (range_bytes r) = 10"
  by (simp_all add: syn_bytes_def pid_bytes_def range_bytes_def)

interpretation syn: codec syn_bytes "\<lambda>_. True" 0 EncodeSynPart DecodeSynPart
proof
  show "EncodeSynPart y s = Some (length (syn_bytes y), put (syn_bytes y) s)"
    if "room (length (syn_bytes y)) s" for y s
    using that by (simp add: EncodeSynPart_def write_fields syn_bytes_def)
  show "DecodeSynPart s = Some (length (syn_bytes y), y, skip (length (syn_bytes y)) s)"
    if "holds (syn_bytes y) s" for y s
  proof -
    have h: "holds (le_bytes 4 (unat (synSeq y))) s" "holds [synControl y] (skip 4 s)"
      "holds [ccType y] (skip 5 s)" "holds (le_bytes 2 (unat (toVPort y))) (skip 6 s)"
      "holds (le_bytes 4 (unat (fromSessionId y))) (skip 8 s)"
      using that by (simp_all add: syn_bytes_def holds_append del: append.simps)
    show ?thesis
      by (simp add: DecodeSynPart_def h(1,5) [THEN read32] h(2,3) [THEN read8] h(4) [THEN read16])
  qed
qed

interpretation pid: codec pid_bytes "\<lambda>i. fits48 (totalRecv i)" 2 EncodePackageIdPart DecodePackageIdPart
proof
  show "EncodePackageIdPart i s = Some (length (pid_bytes i), put (pid_bytes i) s)"
    if "room (length (pid_bytes i)) s" for i s
    using that by (simp add: EncodePackageIdPart_def write_fields pid_bytes_def)
  show "DecodePackageIdPart s = Some (length (pid_bytes i), i, skip (length (pid_bytes i)) s)"
    if "fits48 (totalRecv i)" and "holds (pid_bytes i) s"
      and "stream_pos s + length (pid_bytes i) + 2 \<le> length (stream_buffer s)" for i s
  proof -
    have h: "holds (le_bytes 4 (unat (packageId i))) s" "holds (enc48 (totalRecv i)) (skip 4 s)"
      using that(2) by (simp_all add: pid_bytes_def holds_append)
    show ?thesis
      using u48.read_holds [OF that(1) h(2)] that(3) by (simp add: DecodePackageIdPart_def h(1) [THEN read32])
  qed
qed

interpretation sack: codec range_bytes "\<lambda>r. fits48 (range_pos r)" 0 EncodeSackRange DecodeSackRange
proof
  show "EncodeSackRange r s = Some (length (range_bytes r), put (range_bytes r) s)"
    if "room (length (range_bytes r)) s" for r s
    using that by (simp add: EncodeSackRange_def write_fields range_bytes_def)
  show "DecodeSackRange s = Some (length (range_bytes r), r, skip (length (range_bytes r)) s)"
    if "fits48 (range_pos r)" and "holds (range_bytes r) s" for r s
  proof -
    have h: "holds (enc48 (range_pos r)) s" "holds (le_bytes 4 (unat (range_length r))) (skip 6 s)"
      using that(2) by (simp_all add: range_bytes_def holds_append)
    moreover have "stream_pos s + length (enc48 (range_pos r)) + 2 \<le> length (stream_buffer s)"
      using that(2) by (simp add: holds_def)
    ultimately show ?thesis
      using u48.read_holds [OF that(1) h(1)] by (simp add: DecodeSackRange_def h(2) [THEN read32])
  qed
qed

section \<open>Flags\<close>

lemma has_flag_bit: "n < 16 \<Longrightarrow> has_flag flags (flag n) = bit flags n"
  by (simp add: has_flag_def flag_def bit_iff_and_push_bit_not_eq_0)

lemma has_flag_0 [simp]: "\<not> has_flag 0 f"
  by (simp add: has_flag_def)

lemma bit_flag: "m < 16 \<Longrightarrow> bit (flag n) m \<longleftrightarrow> m = n"
  by (auto simp: flag_def bit_exp_iff possible_bit_def)

lemma has_flag_or [simp]:
  "n < 16 \<Longrightarrow> m < 16 \<Longrightarrow> has_flag (flags OR flag n) (flag m) \<longleftrightarrow> m = n \<or> has_flag flags (flag m)"
  by (auto simp: has_flag_bit bit_or_iff bit_flag)

lemma has_flag_mark [simp]:
  "n < 16 \<Longrightarrow> m < 16 \<Longrightarrow>
   has_flag (mark_flag present (flag n) flags) (flag m) \<longleftrightarrow> (if m = n then present else has_flag flags (flag m))"
  by (auto simp: has_flag_bit mark_flag_def bit_or_iff bit_and_iff bit_not_iff bit_flag)

section \<open>The wire format\<close>

text \<open>The bytes of a package, as the encoder lays them out.\<close>

definition sack_ranges :: "BdtStreamRange list \<Rightarrow> BdtStreamRange list" where
  "sack_ranges rs = takeWhile (\<lambda>r. range_length r \<noteq> 0) rs"

definition sack_bytes :: "BdtStreamRange list \<Rightarrow> u8 list" where
  "sack_bytes rs = [of_nat (length (sack_ranges rs))] @ sack.enc_list (sack_ranges rs)"

definition has_ack :: "Bdt_SessionDataPackage \<Rightarrow> bool" where
  "has_ack p \<longleftrightarrow> ackStreamPos p \<noteq> 0 \<or> has_flag (cmdflags p) BDT_SESSIONDATA_PACKAGE_FLAG_ACK"

definition ack_flags :: "Bdt_SessionDataPackage \<Rightarrow> u16" where
  "ack_flags p =
     (let f = mark_flag (packageIDPart p \<noteq> None) BDT_SESSIONDATA_PACKAGE_FLAG_PACKAGEID
                (mark_flag (synPart p \<noteq> None) BDT_SESSIONDATA_PACKAGE_FLAG_SYN (cmdflags p))
      in mark_flag (sackArray p \<noteq> None) BDT_SESSIONDATA_PACKAGE_FLAG_SACK
           (if ackStreamPos p = 0 then f else f OR BDT_SESSIONDATA_PACKAGE_FLAG_ACK))"

definition session_flags :: "Bdt_SessionDataPackage \<Rightarrow> u16" where
  "session_flags p =
     mark_flag (payload p \<noteq> None) BDT_SESSIONDATA_PACKAGE_FLAG_PAYLOAD
       (mark_flag (sendTime p \<noteq> 0) BDT_SESSIONDATA_PACKAGE_FLAG_SENDTIME
         (mark_flag (recvSpeedlimit p \<noteq> 0) BDT_SESSIONDATA_PACKAGE_FLAG_SPEEDLIMIT (ack_flags p)))"

definition ack_part :: "Bdt_SessionDataPackage \<Rightarrow> u8 list" where
  "ack_part p =
     le_bytes 4 (unat (sessionId p)) @ enc48 (streamPos p) @
     (case synPart p of None \<Rightarrow> [] | Some y \<Rightarrow> syn_bytes y) @
     (case packageIDPart p of None \<Rightarrow> [] | Some i \<Rightarrow> pid_bytes i) @
     (if has_ack p then enc48 (ackStreamPos p) else []) @
     (if synPart p \<noteq> None \<and> has_ack p then le_bytes 4 (unat (toSessionId p)) else []) @
     (case sackArray p of None \<Rightarrow> [] | Some rs \<Rightarrow> sack_bytes rs)"

definition tail_part :: "Bdt_SessionDataPackage \<Rightarrow> u8 list" where
  "tail_part p =
     (if recvSpeedlimit p \<noteq> 0 then le_bytes 4 (unat (recvSpeedlimit p)) else []) @
     (if sendTime p \<noteq> 0 then le_bytes 8 (unat (sendTime p)) else []) @
     (case payload p of None \<Rightarrow> [] | Some bs \<Rightarrow> take (unat (payloadLength p)) bs)"

definition session_header :: "Bdt_SessionDataPackage \<Rightarrow> nat \<Rightarrow> u8 list" where
  "session_header p len =
     le_bytes 2 (unat (of_nat len :: u16)) @ [cmdtype p] @ le_bytes 2 (unat (session_flags p))"

definition session_wire :: "Bdt_SessionDataPackage \<Rightarrow> u8 list" where
  "session_wire p = session_header p (5 + length (ack_part p @ tail_part p)) @ ack_part p @ tail_part p"

lemma length_header [simp]: "length (session_header p len) = 5"
  by (simp add: session_header_def)

lemma length_sack_list [simp]: "length (sack.enc_list rs) = 10 * length rs"
  by (induction rs) (simp_all add: sack.enc_list_def)

lemma encode_ranges_put:
  assumes "sack_ranges rs \<noteq> rs" and "count + length (sack_ranges rs) \<le> 10"
    and "room (10 * length (sack_ranges rs)) s"
  shows "EncodeSackRanges rs count n s =
         Some (BFX_RESULT_SUCCESS, count + length (sack_ranges rs), n + 10 * length (sack_ranges rs),
               put (sack.enc_list (sack_ranges rs)) s)"
  using assms
proof (induction rs count n s rule: EncodeSackRanges.induct)
  case (1 count n s)
  then show ?case by (simp add: sack_ranges_def)
next
  case (2 r rs count n s)
  show ?case
  proof (cases "range_length r = 0")
    case True
    then show ?thesis by (simp add: sack_ranges_def sack.enc_list_def)
  next
    case False
    then have ranges: "sack_ranges (r # rs) = r # sack_ranges rs"
      by (simp add: sack_ranges_def)
    let ?s = "put (range_bytes r) s"
    have rooms: "room 10 s" "room (10 * length (sack_ranges rs)) ?s"
      using 2(4) room_put [of "range_bytes r" "10 * length (sack_ranges rs)" s]
      by (auto simp: ranges intro: room_mono)
    have w: "BfxBufferWriteUInt48 (range_pos r) s = Some (6, put (enc48 (range_pos r)) s)"
        "BfxBufferWriteUInt32 (range_length r) (put (enc48 (range_pos r)) s) = Some (4, ?s)"
      using rooms(1) by (simp_all add: write_fields range_bytes_def)
    have "EncodeSackRanges rs (count + 1) (n + 6 + 4) ?s =
        Some (BFX_RESULT_SUCCESS, count + 1 + length (sack_ranges rs),
              n + 6 + 4 + 10 * length (sack_ranges rs), put (sack.enc_list (sack_ranges rs)) ?s)"
      using 2(2,3) False w rooms(2) by (intro 2(1)) (auto simp: ranges)
    moreover have "put (sack.enc_list (sack_ranges rs)) ?s = put (sack.enc_list (r # sack_ranges rs)) s"
      using rooms(1) by (simp add: sack.enc_list_def room_def)
    ultimately show ?thesis
      using 2(3) False w by (simp add: ranges)
  qed
qed

text \<open>The sack array with its count in front.\<close>

lemma set_pos: "n \<le> stream_length s \<Longrightarrow> BfxBufferStreamSetPos n s = Some (s\<lparr>stream_pos := n\<rparr>)"
  by (simp add: BfxBufferStreamSetPos_def)

lemma encode_sack_put:
  assumes "sack_ranges rs \<noteq> rs" and "length (sack_ranges rs) \<le> 10" and r: "room (length (sack_bytes rs)) s"
  shows "EncodeSackArray rs s = Some (BFX_RESULT_SUCCESS, length (sack_bytes rs), put (sack_bytes rs) s)"
proof -
  let ?n = "10 * length (sack_ranges rs)" and ?hdr = "[of_nat (length (sack_ranges rs)) :: u8]"
  let ?body = "sack.enc_list (sack_ranges rs)"
  have r': "room (1 + ?n) s" using r by (simp add: sack_bytes_def)
  have start: "BfxBufferStreamSetPos (stream_pos s + 1) s = Some (skip 1 s)"
    using r' by (simp add: set_pos room_def skip_def)
  have "room ?n (skip 1 s)" using r' by (simp add: room_def)
  then have loop: "EncodeSackRanges rs 0 0 (skip 1 s) =
      Some (BFX_RESULT_SUCCESS, length (sack_ranges rs), ?n, put ?body (skip 1 s))"
    using encode_ranges_put [OF assms(1), of 0 "skip 1 s" 0] assms(2) by simp
  let ?s = "put ?body (skip 1 s)\<lparr>stream_pos := stream_pos s\<rparr>"
  have "room 1 ?s" using r' by (simp add: room_def)
  then have count: "BfxBufferWriteUInt8 (of_nat (length (sack_ranges rs))) ?s = Some (1, put ?hdr ?s)"
    by (simp add: u8.write_put)
  have rewind: "BfxBufferStreamSetPos (stream_pos s) (put ?body (skip 1 s)) = Some ?s"
    using r' by (simp add: set_pos room_def)
  have "put ?hdr ?s\<lparr>stream_pos := stream_pos s + 1 + ?n\<rparr> = put (sack_bytes rs) s"
    using put_back [of s ?hdr ?body] r' by (simp add: sack_bytes_def room_def)
  then have fwd: "BfxBufferStreamSetPos (stream_pos s + 1 + ?n) (put ?hdr ?s) = Some (put (sack_bytes rs) s)"
    using r' by (simp add: set_pos room_def)
  have "BfxBufferStreamGetPos (put ?body (skip 1 s)) = stream_pos s + 1 + ?n"
    by (simp add: BfxBufferStreamGetPos_def)
  then show ?thesis
    using fwd by (simp add: EncodeSackArray_def Let_def BfxBufferStreamGetPos_def [of s] start loop rewind count
        sack_bytes_def del: One_nat_def)
qed

text \<open>Optional fields.\<close>

lemma write_if_put:
  "(b \<Longrightarrow> wr s = Some (length bs, put bs s)) \<Longrightarrow>
   write_if b wr s = Some (length (if b then bs else []), put (if b then bs else []) s)"
  by (simp add: write_if_def)

lemma write_case_put:
  "(\<And>v. x = Some v \<Longrightarrow> wr v s = Some (length (bs v), put (bs v) s)) \<Longrightarrow>
   (case x of None \<Rightarrow> Some (0, s) | Some v \<Rightarrow> wr v s) =
   Some (length (case x of None \<Rightarrow> [] | Some v \<Rightarrow> bs v), put (case x of None \<Rightarrow> [] | Some v \<Rightarrow> bs v) s)"
  by (cases x) simp_all

lemma encode_header_put:
  assumes "room 5 s"
  shows "do {
           (_, s) \<leftarrow> BfxBufferWriteUInt16 (of_nat len) s;
           (_, s) \<leftarrow> BfxBufferWriteUInt8 (cmdtype p) s;
           (_, s) \<leftarrow> BfxBufferWriteUInt16 (session_flags p) s;
           Option.bind (BfxBufferStreamSetPos n s) f
         } = Option.bind (BfxBufferStreamSetPos n (put (session_header p len) s)) f"
  using assms by (simp add: session_header_def write_fields)

lemma encode_tail_put:
  assumes pl: "\<And>bs. payload p = Some bs \<Longrightarrow> unat (payloadLength p) \<le> length bs"
    and r: "room (5 + length a + length (tail_part p)) s"
  shows "EncodeSessionTail (stream_pos s) (5 + length a) (p\<lparr>cmdflags := ack_flags p\<rparr>) (put a (skip 5 s)) =
         Some (BFX_RESULT_SUCCESS, p\<lparr>cmdflags := session_flags p\<rparr>,
               put (session_header p (5 + length (a @ tail_part p)) @ a @ tail_part p) s,
               5 + length (a @ tail_part p))"
proof -
  define b1 where "b1 = (if recvSpeedlimit p \<noteq> 0 then le_bytes 4 (unat (recvSpeedlimit p)) else [])"
  define b2 where "b2 = (if sendTime p \<noteq> 0 then le_bytes 8 (unat (sendTime p)) else [])"
  define b3 where "b3 = (case payload p of None \<Rightarrow> [] | Some bs \<Rightarrow> take (unat (payloadLength p)) bs)"
  have tail: "tail_part p = b1 @ b2 @ b3"
    by (simp add: tail_part_def b1_def b2_def b3_def)
  have r': "stream_pos s + (5 + length a + (length b1 + length b2 + length b3)) \<le> stream_length s"
      "stream_length s \<le> length (stream_buffer s)"
    using r by (simp_all add: tail room_def)
  let ?s0 = "put a (skip 5 s)" and ?s3 = "put (a @ b1 @ b2 @ b3) (skip 5 s)"
  have w1: "write_if (recvSpeedlimit p \<noteq> 0) (BfxBufferWriteUInt32 (recvSpeedlimit p)) ?s0 =
      Some (length b1, put (a @ b1) (skip 5 s))"
    using r' write_if_put [of "recvSpeedlimit p \<noteq> 0" "BfxBufferWriteUInt32 (recvSpeedlimit p)" ?s0
      "le_bytes 4 (unat (recvSpeedlimit p))"] by (simp add: b1_def write_fields split: if_splits)
  have w2: "write_if (sendTime p \<noteq> 0) (BfxBufferWriteUInt64 (sendTime p)) (put (a @ b1) (skip 5 s)) =
      Some (length b2, put (a @ b1 @ b2) (skip 5 s))"
    using r' write_if_put [of "sendTime p \<noteq> 0" "BfxBufferWriteUInt64 (sendTime p)" "put (a @ b1) (skip 5 s)"
      "le_bytes 8 (unat (sendTime p))"] by (simp add: b2_def write_fields split: if_splits)
  have w3: "(case payload p of None \<Rightarrow> Some (0, put (a @ b1 @ b2) (skip 5 s))
             | Some bs \<Rightarrow> EncodePayload (payloadLength p) bs (put (a @ b1 @ b2) (skip 5 s))) =
      Some (length b3, ?s3)"
    using r' pl by (auto simp: b3_def EncodePayload_def write_array_put room_def split: option.splits)
  let ?hdr = "session_header p (5 + length (a @ tail_part p))" and ?s4 = "?s3\<lparr>stream_pos := stream_pos s\<rparr>"
  have rewind: "BfxBufferStreamSetPos (stream_pos s) ?s3 = Some ?s4"
    using r' by (simp add: set_pos)
  have fwd: "BfxBufferStreamSetPos (BfxBufferStreamGetPos ?s3) (put ?hdr ?s4) = Some (put (?hdr @ a @ tail_part p) s)"
    using put_back [of s ?hdr "a @ tail_part p"] r' by (simp add: set_pos BfxBufferStreamGetPos_def tail ac_simps)
  have "room 5 ?s4" using r' by (simp add: room_def)
  note header = encode_header_put [OF this, of "5 + length (a @ tail_part p)" p]
  show ?thesis
    using fwd w1 w2 w3 rewind header [where ?'a = "u32 \<times> Bdt_SessionDataPackage \<times> BfxBufferStream \<times> nat"]
    by (simp add: EncodeSessionTail_def Let_def tail session_flags_def add.assoc cong: option.case_cong)
qed

text \<open>
  What the encoder needs of a package: a terminated sack array of at most ten entries, and a
  payload of the announced length.
\<close>

definition encodable :: "Bdt_SessionDataPackage \<Rightarrow> bool" where
  "encodable p \<longleftrightarrow>
     (case sackArray p of None \<Rightarrow> True
      | Some rs \<Rightarrow> sack_ranges rs \<noteq> rs \<and> length (sack_ranges rs) \<le> PACKAGE_SESSIONDATA_SACK_RANGE_MAX_COUNT) \<and>
     (case payload p of None \<Rightarrow> True | Some bs \<Rightarrow> unat (payloadLength p) \<le> length bs)"

lemma encode_put:
  assumes e: "encodable p" and r: "room (length (session_wire p)) s"
  shows "EncodeSessionDataPackage p s =
         Some (BFX_RESULT_SUCCESS, p\<lparr>cmdflags := session_flags p\<rparr>, put (session_wire p) s, length (session_wire p))"
proof -
  define c1 where "c1 = le_bytes 4 (unat (sessionId p)) @ enc48 (streamPos p)"
  define c3 where "c3 = (case synPart p of None \<Rightarrow> [] | Some y \<Rightarrow> syn_bytes y)"
  define c4 where "c4 = (case packageIDPart p of None \<Rightarrow> [] | Some i \<Rightarrow> pid_bytes i)"
  define c5 where "c5 = (if has_ack p then enc48 (ackStreamPos p) else [])"
  define c6 where "c6 = (if synPart p \<noteq> None \<and> has_ack p then le_bytes 4 (unat (toSessionId p)) else [])"
  define c7 where "c7 = (case sackArray p of None \<Rightarrow> [] | Some rs \<Rightarrow> sack_bytes rs)"
  note parts = c1_def c3_def c4_def c5_def c6_def c7_def
  have ack: "ack_part p = c1 @ c3 @ c4 @ c5 @ c6 @ c7"
    by (simp add: ack_part_def parts)
  let ?t = "skip 5 s"
  have r': "stream_pos s + (5 + (length c1 + (length c3 + (length c4 + (length c5 + (length c6 + length c7))))))
        + length (tail_part p) \<le> stream_length s" "stream_length s \<le> length (stream_buffer s)"
      "length c1 = 10"
    using r by (simp_all add: session_wire_def ack room_def parts(1))
  have start: "BfxBufferStreamSetPos (stream_pos s + 1 + 2 + 2) s = Some ?t"
    using r' by (simp add: set_pos skip_def)
  have w1: "BfxBufferWriteUInt32 (sessionId p) ?t = Some (4, put (le_bytes 4 (unat (sessionId p))) ?t)"
      "BfxBufferWriteUInt48 (streamPos p) (put (le_bytes 4 (unat (sessionId p))) ?t) = Some (6, put c1 ?t)"
    using r' by (simp_all add: write_fields parts(1))
  have w3: "(case synPart p of None \<Rightarrow> Some (0, put c1 ?t) | Some y \<Rightarrow> EncodeSynPart y (put c1 ?t)) =
      Some (length c3, put (c1 @ c3) ?t)"
    using r' by (auto simp: parts(2) syn.write_put room_def split: option.splits)
  have w4: "(case packageIDPart p of None \<Rightarrow> Some (0, put (c1 @ c3) ?t)
             | Some i \<Rightarrow> EncodePackageIdPart i (put (c1 @ c3) ?t)) = Some (length c4, put (c1 @ c3 @ c4) ?t)"
    using r' by (auto simp: parts(3) pid.write_put room_def split: option.splits)
  have w5: "write_if (has_ack p) (BfxBufferWriteUInt48 (ackStreamPos p)) (put (c1 @ c3 @ c4) ?t) =
      Some (length c5, put (c1 @ c3 @ c4 @ c5) ?t)"
    using r' by (auto simp: parts(4) write_if_def write_fields)
  have w6: "write_if (synPart p \<noteq> None \<and> has_ack p) (BfxBufferWriteUInt32 (toSessionId p)) (put (c1 @ c3 @ c4 @ c5) ?t) =
      Some (length c6, put (c1 @ c3 @ c4 @ c5 @ c6) ?t)"
    using r' by (auto simp: parts(5) write_if_def write_fields)
  have w7: "(case sackArray p of None \<Rightarrow> Some (BFX_RESULT_SUCCESS, 0, put (c1 @ c3 @ c4 @ c5 @ c6) ?t)
             | Some rs \<Rightarrow> EncodeSackArray rs (put (c1 @ c3 @ c4 @ c5 @ c6) ?t)) =
      Some (BFX_RESULT_SUCCESS, length c7, put (ack_part p) ?t)"
    using r' e by (auto simp: parts(6) ack encodable_def encode_sack_put room_def split: option.splits)
  have rest: "EncodeSessionTail (stream_pos s) (5 + length (ack_part p)) (p\<lparr>cmdflags := ack_flags p\<rparr>) (put (ack_part p) ?t) =
      Some (BFX_RESULT_SUCCESS, p\<lparr>cmdflags := session_flags p\<rparr>, put (session_wire p) s, length (session_wire p))"
    using encode_tail_put [of p "ack_part p" s] r e
    by (simp add: session_wire_def encodable_def room_def ac_simps split: option.splits)
  have count: "15 + length c3 + length c4 + length c5 + length c6 + length c7 = 5 + length (ack_part p)"
    using r'(3) by (simp add: ack)
  show ?thesis
  proof (cases "ackStreamPos p = 0")
    case True
    then have "has_ack p = has_flag (cmdflags p) BDT_SESSIONDATA_PACKAGE_FLAG_ACK"
      by (simp add: has_ack_def)
    then show ?thesis
      using w3 w4 w5 w6 w7 rest True
      by (simp add: EncodeSessionDataPackage_def BfxBufferStreamGetPos_def [of s] Let_def start [simplified] w1 count
          ack_flags_def cong: option.case_cong)
  next
    case False
    then have "has_ack p" by (simp add: has_ack_def)
    then show ?thesis
      using w3 w4 w5 w6 w7 rest False
      by (simp add: EncodeSessionDataPackage_def BfxBufferStreamGetPos_def [of s] Let_def start [simplified] w1 count
          ack_flags_def cong: option.case_cong)
  qed
qed

section \<open>Decoding what was encoded\<close>

lemma session_flags_simps [simp]:
  "has_flag (session_flags p) BDT_SESSIONDATA_PACKAGE_FLAG_SYN \<longleftrightarrow> synPart p \<noteq> None"
  "has_flag (session_flags p) BDT_SESSIONDATA_PACKAGE_FLAG_PACKAGEID \<longleftrightarrow> packageIDPart p \<noteq> None"
  "has_flag (session_flags p) BDT_SESSIONDATA_PACKAGE_FLAG_ACK_PACKAGEID \<longleftrightarrow>
     has_flag (cmdflags p) BDT_SESSIONDATA_PACKAGE_FLAG_ACK_PACKAGEID"
  "has_flag (session_flags p) BDT_SESSIONDATA_PACKAGE_FLAG_ACK \<longleftrightarrow> has_ack p"
  "has_flag (session_flags p) BDT_SESSIONDATA_PACKAGE_FLAG_SACK \<longleftrightarrow> sackArray p \<noteq> None"
  "has_flag (session_flags p) BDT_SESSIONDATA_PACKAGE_FLAG_SPEEDLIMIT \<longleftrightarrow> recvSpeedlimit p \<noteq> 0"
  "has_flag (session_flags p) BDT_SESSIONDATA_PACKAGE_FLAG_SENDTIME \<longleftrightarrow> sendTime p \<noteq> 0"
  "has_flag (session_flags p) BDT_SESSIONDATA_PACKAGE_FLAG_PAYLOAD \<longleftrightarrow> payload p \<noteq> None"
  by (auto simp: session_flags_def ack_flags_def has_ack_def Let_def)

lemmas session_flags_ack_pid [simp] = session_flags_simps(3) [simplified One_nat_def]

text \<open>
  The packages that survive the wire: 48-bit positions, a sack array of one to ten entries
  with the terminator \<open>{0, 0}\<close>, a payload that is not empty, and no sack array in a SYN+ACK
  package, whose \<open>toSessionId\<close> the encoder writes in front of the sack array while the decoder
  expects it behind (\<open>syn_ack_sack_misread\<close>).
\<close>

definition sendable :: "Bdt_SessionDataPackage \<Rightarrow> bool" where
  "sendable p \<longleftrightarrow>
     cmdtype p = BDT_SESSION_DATA_PACKAGE \<and> fits48 (streamPos p) \<and> fits48 (ackStreamPos p) \<and>
     (case packageIDPart p of
        None \<Rightarrow> \<not> has_flag (cmdflags p) BDT_SESSIONDATA_PACKAGE_FLAG_ACK_PACKAGEID
      | Some i \<Rightarrow> fits48 (totalRecv i)) \<and>
     (case sackArray p of
        None \<Rightarrow> True
      | Some rs \<Rightarrow> (synPart p = None \<or> \<not> has_ack p) \<and>
          rs = sack_ranges rs @ [\<lparr>range_pos = 0, range_length = 0\<rparr>] \<and>
          length (sack_ranges rs) \<in> {1..PACKAGE_SESSIONDATA_SACK_RANGE_MAX_COUNT} \<and>
          list_all (\<lambda>r. fits48 (range_pos r)) (sack_ranges rs)) \<and>
     (case payload p of
        None \<Rightarrow> payloadLength p = 0
      | Some bs \<Rightarrow> length bs = unat (payloadLength p) \<and> payloadLength p \<noteq> 0) \<and>
     length (session_wire p) < 2 ^ 16"

text \<open>
  What the other side gets: the flags tell which fields are there, and \<open>toSessionId\<close> travels in a
  SYN+ACK package only. \<open>PackageConnectionOnPreSendPackage\<close> sets it in every package it sends, but
  the receiver of any other package reads 0.
\<close>

definition sent_toSessionId :: "Bdt_SessionDataPackage \<Rightarrow> u32" where
  "sent_toSessionId p = (if synPart p \<noteq> None \<and> has_ack p then toSessionId p else 0)"

definition as_received :: "Bdt_SessionDataPackage \<Rightarrow> Bdt_SessionDataPackage" where
  "as_received p = p\<lparr>cmdflags := session_flags p, toSessionId := sent_toSessionId p\<rparr>"

lemma sendable_encodable: "sendable p \<Longrightarrow> encodable p"
  by (auto simp: sendable_def encodable_def split: option.splits)

lemma decode_sack_holds:
  assumes rs: "rs = sack_ranges rs @ [\<lparr>range_pos = 0, range_length = 0\<rparr>]"
    and n: "length (sack_ranges rs) \<in> {1..10}" and v: "list_all (\<lambda>r. fits48 (range_pos r)) (sack_ranges rs)"
    and h: "holds (sack_bytes rs) t"
  shows "DecodeSackArray t = Some (length (sack_bytes rs), Some rs, skip (length (sack_bytes rs)) t)"
proof -
  let ?n = "length (sack_ranges rs)"
  have h': "holds [of_nat ?n] t" "holds (sack.enc_list (sack_ranges rs)) (skip 1 t)"
    using h by (simp_all add: sack_bytes_def holds_append del: append.simps)
  have count: "unat (of_nat ?n :: u8) = ?n"
    using n by (simp add: unsigned_of_nat take_bit_eq_mod)
  then have "(of_nat ?n :: u8) \<noteq> 0"
    using n by (metis atLeastAtMost_iff not_one_le_zero unsigned_0)
  moreover have "read_list DecodeSackRange ?n (skip 1 t) =
      Some (10 * ?n, sack_ranges rs, skip (10 * ?n) (skip 1 t))"
    using sack.read_list_holds [OF v h'(2)] h'(2) by (simp add: holds_def)
  ultimately show ?thesis
    using n by (simp add: DecodeSackArray_def h'(1) [THEN read8] count sack_bytes_def flip: rs)
qed

lemma decode_tail_holds:
  assumes p: "sendable p" and h: "holds (c6 @ tail_part p) t"
    and c6: "c6 = (if synPart p \<noteq> None \<and> has_ack p then le_bytes 4 (unat (toSessionId p)) else [])"
    and q: "cmdflags q = session_flags p" "toSessionId q = 0" "recvSpeedlimit q = 0" "sendTime q = 0"
      "payload q = None" "payloadLength q = 0"
    and len: "unat totallen = readlen + length (c6 @ tail_part p)"
  shows "DecodeSessionTail totallen readlen q t =
         Some (0, q\<lparr>toSessionId := sent_toSessionId p, recvSpeedlimit := recvSpeedlimit p, sendTime := sendTime p,
                    payload := payload p, payloadLength := payloadLength p\<rparr>,
               skip (length (c6 @ tail_part p)) t)"
proof -
  define b1 where "b1 = (if recvSpeedlimit p \<noteq> 0 then le_bytes 4 (unat (recvSpeedlimit p)) else [])"
  define b2 where "b2 = (if sendTime p \<noteq> 0 then le_bytes 8 (unat (sendTime p)) else [])"
  define b3 where "b3 = (case payload p of None \<Rightarrow> [] | Some bs \<Rightarrow> take (unat (payloadLength p)) bs)"
  have tail: "tail_part p = b1 @ b2 @ b3"
    by (simp add: tail_part_def b1_def b2_def b3_def)
  have hs: "holds c6 t" "holds b1 (skip (length c6) t)" "holds b2 (skip (length c6 + length b1) t)"
      "holds b3 (skip (length c6 + length b1 + length b2) t)"
    using h by (simp_all add: tail holds_append)
  have r1: "read_if (synPart p \<noteq> None \<and> has_ack p) 0 BfxBufferReadUInt32 t = Some (length c6, sent_toSessionId p, skip (length c6) t)"
    using hs(1) by (auto simp: read_if_def c6 sent_toSessionId_def skip_def dest: read32 split: if_splits)
  have r2: "read_if (recvSpeedlimit p \<noteq> 0) 0 BfxBufferReadUInt32 (skip (length c6) t) =
      Some (length b1, recvSpeedlimit p, skip (length c6 + length b1) t)"
    using hs(2) by (auto simp: read_if_def b1_def dest: read32 split: if_splits)
  have r3: "read_if (sendTime p \<noteq> 0) 0 BfxBufferReadUInt64 (skip (length c6 + length b1) t) =
      Some (length b2, sendTime p, skip (length c6 + length b1 + length b2) t)"
    using hs(3) by (auto simp: read_if_def b2_def dest: read64 split: if_splits)
  show ?thesis
  proof (cases "payload p")
    case None
    then have b3: "b3 = []" and "payloadLength p = 0"
      using p by (simp_all add: b3_def sendable_def)
    then show ?thesis
      using None r1 r2 r3 len
      by (simp add: DecodeSessionTail_def Let_def q decode_end_def tail add.assoc)
  next
    case (Some bs)
    then have bs: "b3 = bs" "length bs = unat (payloadLength p)" "0 < payloadLength p"
      using p by (simp_all add: b3_def sendable_def word_gt_0)
    have "totallen - of_nat (readlen + length c6 + length b1 + length b2) = of_nat (length bs)"
    proof -
      have "totallen = of_nat (unat totallen)" by simp
      also have "\<dots> = of_nat (readlen + length c6 + length b1 + length b2) + of_nat (length bs)"
        unfolding len tail bs(1) by simp
      finally show ?thesis by simp
    qed
    then have datalen: "totallen - of_nat (readlen + length c6 + length b1 + length b2) = payloadLength p"
      using bs(2) by simp
    have "take (unat (payloadLength p)) (drop (stream_pos t + (length c6 + length b1 + length b2)) (stream_buffer t)) = bs"
        "stream_pos t + (length c6 + length b1 + length b2) + unat (payloadLength p) \<le> stream_length t"
      using hs(4) bs by (simp_all add: holds_def)
    then show ?thesis
      using Some r1 r2 r3 len bs datalen
      by (simp add: DecodeSessionTail_def Let_def q decode_end_def tail BfxBufferStreamGetPos_def
          set_pos skip_def add.assoc)
  qed
qed

lemma decode_holds:
  assumes p: "sendable p" and h: "holds (le_bytes 2 (unat (session_flags p)) @ ack_part p @ tail_part p) t"
    and slack: "stream_pos t + 2 + length (ack_part p @ tail_part p) + 2 \<le> length (stream_buffer t)"
    and len: "unat totallen = 2 + length (ack_part p @ tail_part p)"
  shows "DecodeSessionDataPackage Bdt_SessionDataPackageInit totallen t =
         Some (0, as_received p, skip (2 + length (ack_part p @ tail_part p)) t)"
proof -
  define c1 where "c1 = le_bytes 4 (unat (sessionId p))"
  define c2 where "c2 = enc48 (streamPos p)"
  define c3 where "c3 = (case synPart p of None \<Rightarrow> [] | Some y \<Rightarrow> syn_bytes y)"
  define c4 where "c4 = (case packageIDPart p of None \<Rightarrow> [] | Some i \<Rightarrow> pid_bytes i)"
  define c5 where "c5 = (if has_ack p then enc48 (ackStreamPos p) else [])"
  define c6 where "c6 = (if synPart p \<noteq> None \<and> has_ack p then le_bytes 4 (unat (toSessionId p)) else [])"
  define c7 where "c7 = (case sackArray p of None \<Rightarrow> [] | Some rs \<Rightarrow> sack_bytes rs)"
  note parts = c1_def c2_def c3_def c4_def c5_def c6_def c7_def
  have "c6 @ c7 = c7 @ c6"
    using p by (auto simp: parts sendable_def split: option.splits)
  then have ack: "ack_part p = c1 @ c2 @ c3 @ c4 @ c5 @ c7 @ c6"
    by (simp add: ack_part_def parts)
  define n where "n = 12 + length c3 + length c4 + length c5"
  have lens: "length c1 = 4" "length c2 = 6" by (simp_all add: parts)
  have hs: "holds (le_bytes 2 (unat (session_flags p))) t" "holds c1 (skip 2 t)" "holds c2 (skip 6 t)"
      "holds c3 (skip 12 t)" "holds c4 (skip (12 + length c3) t)" "holds c5 (skip (12 + length c3 + length c4) t)"
      "holds c7 (skip n t)" "holds (c6 @ tail_part p) (skip (n + length c7) t)"
    using h by (simp_all add: ack holds_append lens n_def add.assoc del: append.simps append_assoc)
  have mem: "stream_pos t + n + length c7 + length (c6 @ tail_part p) + 2 \<le> length (stream_buffer t)"
    using slack by (simp add: ack lens n_def)
  have q: "fits48 (streamPos p)" "fits48 (ackStreamPos p)" "\<And>i. packageIDPart p = Some i \<Longrightarrow> fits48 (totalRecv i)"
      "packageIDPart p = None \<Longrightarrow> \<not> has_flag (cmdflags p) BDT_SESSIONDATA_PACKAGE_FLAG_ACK_PACKAGEID"
      "\<not> has_ack p \<Longrightarrow> ackStreamPos p = 0" "cmdtype p = BDT_SESSION_DATA_PACKAGE"
    using p by (auto simp: sendable_def has_ack_def)
  have r1: "BfxBufferReadUInt16 t = Some (2, session_flags p, skip 2 t)"
      "BfxBufferReadUInt32 (skip 2 t) = Some (4, sessionId p, skip 6 t)"
    using hs(1) [THEN read16] hs(2) [unfolded parts, THEN read32] by simp_all
  have r2: "BfxBufferReadUInt48 (skip 6 t) = Some (6, streamPos p, skip 12 t)"
    using u48.read_holds [OF q(1), of "skip 6 t"] hs(3) mem by (simp add: parts(2) n_def)
  have r3: "read_part (synPart p \<noteq> None) None DecodeSynPart (skip 12 t) =
      Some (length c3, synPart p, skip (12 + length c3) t)"
    using hs(4) by (cases "synPart p") (auto simp: read_part_def parts(3) dest: syn.read_plain [OF refl TrueI])
  have r4: "read_part (packageIDPart p \<noteq> None \<or> has_flag (cmdflags p) BDT_SESSIONDATA_PACKAGE_FLAG_ACK_PACKAGEID)
        None DecodePackageIdPart (skip (12 + length c3) t) =
      Some (length c4, packageIDPart p, skip (12 + length c3 + length c4) t)"
    using hs(5) mem q(3,4) pid.read_holds [of _ "skip (12 + length c3) t"]
    by (cases "packageIDPart p") (auto simp: read_part_def parts(4) n_def)
  have r5: "read_if (has_ack p) 0 BfxBufferReadUInt48 (skip (12 + length c3 + length c4) t) =
      Some (length c5, ackStreamPos p, skip n t)"
    using u48.read_holds [OF q(2), of "skip (12 + length c3 + length c4) t"] hs(6) mem q(5)
    by (auto simp: parts(5) n_def read_if_def)
  have rest: "DecodeSessionTail totallen (n + length c7) r (skip (n + length c7) t) =
      Some (0, r\<lparr>toSessionId := sent_toSessionId p, recvSpeedlimit := recvSpeedlimit p, sendTime := sendTime p,
                 payload := payload p, payloadLength := payloadLength p\<rparr>,
            skip (2 + length (ack_part p @ tail_part p)) t)"
    if "cmdflags r = session_flags p" "toSessionId r = 0" "recvSpeedlimit r = 0" "sendTime r = 0"
      "payload r = None" "payloadLength r = 0" for r
    using decode_tail_holds [OF p hs(8) c6_def that] len by (simp add: ack lens n_def ac_simps)
  have min: "\<not> unat totallen < Bdt_GetPackageMinSize BDT_SESSION_DATA_PACKAGE"
    using len by (simp add: Bdt_GetPackageMinSize_def)
  have init: "synPart Bdt_SessionDataPackageInit = None" "packageIDPart Bdt_SessionDataPackageInit = None"
      "ackStreamPos Bdt_SessionDataPackageInit = 0"
    by (simp_all add: Bdt_SessionDataPackageInit_def)
  have n: "12 + (length c3 + (length c4 + length c5)) = n" "12 + length c3 + length c4 + length c5 = n"
    by (simp_all add: n_def)
  have eta: "\<lparr>cmdtype = BDT_SESSION_DATA_PACKAGE, cmdflags = f, sessionId = sessionId p, streamPos = streamPos p,
      ackStreamPos = ackStreamPos p, toSessionId = i, sackArray = sackArray p,
      recvSpeedlimit = recvSpeedlimit p, sendTime = sendTime p, payloadLength = payloadLength p,
      payload = payload p, synPart = synPart p, packageIDPart = packageIDPart p\<rparr> = p\<lparr>cmdflags := f, toSessionId := i\<rparr>" for f i
    using q(6) by (cases p) simp
  show ?thesis
  proof (cases "sackArray p")
    case None
    then have "c7 = []" by (simp add: parts)
    then show ?thesis
      using rest r3 r4 r5 min None eta
      by (simp add: DecodeSessionDataPackage_def Let_def init r1 r2 n Bdt_SessionDataPackageInit_def as_received_def)
  next
    case (Some rs)
    then have "DecodeSackArray (skip n t) = Some (length c7, Some rs, skip (n + length c7) t)"
      using decode_sack_holds [of rs "skip n t"] hs(7) p by (simp add: parts(7) sendable_def)
    then show ?thesis
      using rest r3 r4 r5 min Some eta
      by (simp add: DecodeSessionDataPackage_def Let_def init r1 r2 n Bdt_SessionDataPackageInit_def as_received_def)
  qed
qed

section \<open>Properties of the wire format\<close>

text \<open>
  C25. Encoding a package and decoding the bytes yields every field of the package, with its flags set
  for the fields present, except \<open>toSessionId\<close>, which only a SYN+ACK package carries and which is 0
  otherwise; and the decoder stops exactly where the encoder stopped. The package must be
  \<open>sendable\<close>: 48-bit positions, at most ten sack ranges, a payload of the announced length, less than
  \<open>2 ^ 16\<close> bytes in all, and no sack array in a SYN+ACK package. The header is read by the caller of the
  decoder, so decoding starts behind its three bytes, with a length of three less.
\<close>

theorem session_roundtrip:
  assumes "sendable p" and "room (length (session_wire p)) s"
    and "stream_pos s + length (session_wire p) + 2 \<le> length (stream_buffer s)"
  shows "\<exists>s' n. EncodeSessionDataPackage p s = Some (BFX_RESULT_SUCCESS, p\<lparr>cmdflags := session_flags p\<rparr>, s', n) \<and>
           DecodeSessionDataPackage Bdt_SessionDataPackageInit (of_nat (n - 3)) (s'\<lparr>stream_pos := stream_pos s + 3\<rparr>) =
           Some (0, p\<lparr>cmdflags := session_flags p,
                      toSessionId := (if synPart p \<noteq> None \<and> has_ack p then toSessionId p else 0)\<rparr>, s')"
proof -
  let ?W = "session_wire p" and ?b = "ack_part p @ tail_part p"
  let ?t = "put ?W s\<lparr>stream_pos := stream_pos s + 3\<rparr>"
  have len: "length ?W = 5 + length ?b"
    by (simp add: session_wire_def)
  have "holds ?W (put ?W s\<lparr>stream_pos := stream_pos s\<rparr>)"
    using assms(2) by (rule holds_put)
  then have "holds ((le_bytes 2 (unat (of_nat (5 + length ?b) :: u16)) @ [cmdtype p]) @
      le_bytes 2 (unat (session_flags p)) @ ?b) (put ?W s\<lparr>stream_pos := stream_pos s\<rparr>)"
    by (simp add: session_wire_def session_header_def)
  then have "holds (le_bytes 2 (unat (session_flags p)) @ ?b) (skip 3 (put ?W s\<lparr>stream_pos := stream_pos s\<rparr>))"
    by (simp only: holds_append [of "le_bytes 2 (unat (of_nat (5 + length ?b) :: u16)) @ [cmdtype p]"]) simp
  then have h: "holds (le_bytes 2 (unat (session_flags p)) @ ?b) ?t"
    by (simp add: skip_def)
  have "length ?W - 3 < 2 ^ 16"
    using assms(1) less_imp_diff_less by (simp add: sendable_def)
  then have "unat (of_nat (length ?W - 3) :: u16) = length ?W - 3"
    by (simp only: unsigned_of_nat) (simp add: take_bit_nat_eq_self)
  then have n: "unat (of_nat (length ?W - 3) :: u16) = 2 + length ?b"
    using len by simp
  have mem: "stream_pos ?t + 2 + length ?b + 2 \<le> length (stream_buffer ?t)"
    using assms(2,3) len by (simp add: room_def)
  have "skip (2 + length ?b) ?t = put ?W s"
    using len by (simp add: skip_def put_def)
  then show ?thesis
    using encode_put [OF sendable_encodable [OF assms(1)] assms(2)] decode_holds [OF assms(1) h mem n]
    by (simp add: as_received_def sent_toSessionId_def)
qed

text \<open>Every reader moves the position by the number of bytes it reports, and nothing else.\<close>

definition reader :: "(BfxBufferStream \<Rightarrow> (nat \<times> 'a \<times> BfxBufferStream) option) \<Rightarrow> bool" where
  "reader rd \<longleftrightarrow> (\<forall>s n v s'. rd s = Some (n, v, s') \<longrightarrow> s' = skip n s)"

lemma reader_fields:
  "reader BfxBufferReadUInt8" "reader BfxBufferReadUInt16" "reader BfxBufferReadUInt32"
  "reader BfxBufferReadUInt48" "reader BfxBufferReadUInt64"
  by (auto simp: reader_def BfxBufferReadUInt8_def BfxBufferReadUInt16_def BfxBufferReadUInt32_def
      BfxBufferReadUInt48_def BfxBufferReadUInt64_def read_le_def read_bytes_def skip_def
      split: if_splits Option.bind_splits)

lemma reader_step: "reader rd \<Longrightarrow> rd s = Some (n, v, s') \<Longrightarrow> s' = skip n s"
  by (simp add: reader_def)

lemma reader_if: "reader rd \<Longrightarrow> reader (read_if b old rd)"
  by (auto simp: reader_def read_if_def skip_def)

lemma reader_part: "reader rd \<Longrightarrow> reader (read_part b old rd)"
  by (auto simp: reader_def read_part_def skip_def split: Option.bind_splits)

lemma reader_list: "reader rd \<Longrightarrow> reader (read_list rd k)"
proof (induction k)
  case 0
  show ?case by (auto simp: reader_def skip_def)
next
  case (Suc k)
  then show ?case by (fastforce simp: reader_def split: Option.bind_splits)
qed

lemma reader_syn: "reader DecodeSynPart"
  unfolding reader_def DecodeSynPart_def
  by (auto split: Option.bind_splits dest!: reader_fields [THEN reader_step])

lemma reader_pid: "reader DecodePackageIdPart"
  unfolding reader_def DecodePackageIdPart_def
  by (auto split: Option.bind_splits dest!: reader_fields [THEN reader_step])

lemma reader_sack: "reader DecodeSackArray"
proof -
  have "reader DecodeSackRange"
    unfolding reader_def DecodeSackRange_def
    by (auto split: Option.bind_splits dest!: reader_fields [THEN reader_step])
  note list = this [THEN reader_list, THEN reader_step]
  show ?thesis
    unfolding reader_def DecodeSackArray_def
    by (auto split: Option.bind_splits if_splits dest!: reader_fields [THEN reader_step] list)
qed

lemmas reader_steps = reader_fields [THEN reader_step] reader_fields [THEN reader_if, THEN reader_step]
  reader_syn [THEN reader_part, THEN reader_step] reader_pid [THEN reader_part, THEN reader_step]
  reader_sack [THEN reader_step]

lemma decode_tail_exact:
  assumes "DecodeSessionTail totallen readlen p s = Some (0, p', s')"
  shows "\<exists>n. s' = skip n s \<and> unat totallen = readlen + n"
  using assms unfolding DecodeSessionTail_def
  by (auto simp: Let_def decode_end_def BfxBufferStreamSetPos_def BfxBufferStreamGetPos_def skip_def
      split: Option.bind_splits if_splits dest!: reader_steps)

text \<open>
  C27. The decoder never reads over the end of a package: when it accepts a package of two bytes
  or more behind the header, it has consumed exactly the announced number of bytes.
\<close>

theorem decode_exact:
  assumes "DecodeSessionDataPackage p totallen s = Some (0, p', s')" and "unat totallen \<ge> 2"
  shows "s' = skip (unat totallen) s"
proof -
  have "\<not> unat totallen < Bdt_GetPackageMinSize BDT_SESSION_DATA_PACKAGE"
    using assms(2) by (simp add: Bdt_GetPackageMinSize_def)
  then show ?thesis
    using assms(1) unfolding DecodeSessionDataPackage_def
    by (auto simp: Let_def decode_end_def split: Option.bind_splits if_splits option.splits
        dest!: reader_steps decode_tail_exact)
qed

text \<open>
  A package of zero bytes behind the header is accepted as a session data package with
  every field zero: the early exit for short packages leaves the result at success.
\<close>

lemma decode_empty_accepted:
  "DecodeSessionDataPackage p 0 s = Some (0, p, s)"
  by (simp add: DecodeSessionDataPackage_def decode_end_def Bdt_GetPackageMinSize_def)

section \<open>The wire format at concrete packages\<close>

definition example_range :: BdtStreamRange where
  "example_range = \<lparr>range_pos = 40, range_length = 10\<rparr>"

definition example_package :: Bdt_SessionDataPackage where
  "example_package = Bdt_SessionDataPackageInit\<lparr>sessionId := 7, toSessionId := 7, streamPos := 100, ackStreamPos := 30,
     sackArray := Some [example_range, \<lparr>range_pos = 0, range_length = 0\<rparr>],
     payloadLength := 3, payload := Some [1, 2, 3]\<rparr>"

definition example_stream :: BfxBufferStream where
  "example_stream = BfxBufferStreamInit (replicate 64 0) 60"

lemma example_sendable: "sendable example_package"
  by (simp add: sendable_def example_package_def example_range_def Bdt_SessionDataPackageInit_def fits48_def
      sack_ranges_def session_wire_def ack_part_def tail_part_def has_ack_def sack_bytes_def session_header_def)

lemma example_room:
  "room (length (session_wire example_package)) example_stream"
  "stream_pos example_stream + length (session_wire example_package) + 2 \<le> length (stream_buffer example_stream)"
  by (simp_all add: room_def example_stream_def BfxBufferStreamInit_def session_wire_def ack_part_def
      tail_part_def has_ack_def sack_bytes_def example_package_def example_range_def sack_ranges_def
      Bdt_SessionDataPackageInit_def session_header_def)

theorem session_roundtrip_witness:
  "\<exists>s' n. EncodeSessionDataPackage example_package example_stream =
       Some (BFX_RESULT_SUCCESS, example_package\<lparr>cmdflags := session_flags example_package\<rparr>, s', n) \<and>
     DecodeSessionDataPackage Bdt_SessionDataPackageInit (of_nat (n - 3)) (s'\<lparr>stream_pos := stream_pos example_stream + 3\<rparr>) =
       Some (0, example_package\<lparr>cmdflags := session_flags example_package, toSessionId := 0\<rparr>, s')"
  using session_roundtrip [OF example_sendable example_room] by (simp add: example_package_def Bdt_SessionDataPackageInit_def)

definition example_frame :: BfxBufferStream where
  "example_frame = \<lparr>stream_buffer = [0, 0, 7, 0, 0, 0, 9, 0, 0, 0, 0, 0, 0, 0], stream_length = 14, stream_pos = 0\<rparr>"

theorem decode_exact_witness:
  "\<exists>p s'. DecodeSessionDataPackage Bdt_SessionDataPackageInit 12 example_frame = Some (0, p, s') \<and>
     s' = skip 12 example_frame"
proof -
  have "DecodeSessionDataPackage Bdt_SessionDataPackageInit 12 example_frame =
      Some (0, Bdt_SessionDataPackageInit\<lparr>sessionId := 7, streamPos := 9\<rparr>, skip 12 example_frame)"
    by code_simp
  from decode_exact [OF this] this show ?thesis by simp
qed

text \<open>The package whose sack array and \<open>toSessionId\<close> are confused.\<close>

definition syn_ack_sack_package :: Bdt_SessionDataPackage where
  "syn_ack_sack_package = example_package\<lparr>toSessionId := 1, payload := None, payloadLength := 0,
     synPart := Some \<lparr>synSeq = 1, synControl = 0, ccType = 0, toVPort = 1, fromSessionId = 2\<rparr>\<rparr>"

definition syn_ack_sack_bytes :: "u8 list" where
  "syn_ack_sack_bytes = [48, 0, 0x40, 28, 0, 7, 0, 0, 0, 100, 0, 0, 0, 0, 0, 1, 0, 0, 0, 0, 0, 1, 0, 2, 0, 0, 0,
     30, 0, 0, 0, 0, 0, 1, 0, 0, 0, 1, 40, 0, 0, 0, 0, 0, 10, 0, 0, 0]"

lemma le_bytes_numeral: "le_bytes (numeral k) v = of_nat v # le_bytes (pred_numeral k) (v div 256)"
  by (simp only: numeral_eq_Suc [of k] le_bytes.simps)

lemma syn_ack_sack_flags: "session_flags syn_ack_sack_package = 28"
  by code_simp

lemma syn_ack_sack_has:
  "has_flag 28 (flag 0) = False" "has_flag 28 (flag (Suc 0)) = False" "has_flag 28 (flag 2)"
  "has_flag 28 (flag 3)" "has_flag 28 (flag 4)" "has_flag 28 (flag 5) = False"
  "has_flag 28 (flag 6) = False" "has_flag 28 (flag 7) = False"
  by code_simp+

lemma syn_ack_sack_wire: "session_wire syn_ack_sack_package = syn_ack_sack_bytes"
  by (simp add: session_wire_def session_header_def syn_ack_sack_flags)
    (simp add: ack_part_def tail_part_def has_ack_def sack_bytes_def syn_ack_sack_package_def
      example_package_def example_range_def sack_ranges_def Bdt_SessionDataPackageInit_def
      syn_bytes_def sack.enc_list_def range_bytes_def syn_ack_sack_bytes_def le_bytes_numeral)

text \<open>
  A SYN+ACK package with a sack array does not survive the wire: the decoder takes the first
  byte of \<open>toSessionId\<close> for the number of sack entries, and accepts what it reads.
\<close>

lemma syn_ack_sack_misread:
  "\<exists>s' n p'. EncodeSessionDataPackage syn_ack_sack_package example_stream =
       Some (BFX_RESULT_SUCCESS, syn_ack_sack_package\<lparr>cmdflags := session_flags syn_ack_sack_package\<rparr>, s', n) \<and>
     DecodeSessionDataPackage Bdt_SessionDataPackageInit (of_nat (n - 3)) (s'\<lparr>stream_pos := 3\<rparr>) = Some (0, p', s') \<and>
     toSessionId p' = 10 \<and> toSessionId syn_ack_sack_package = 1 \<and> sackArray p' \<noteq> sackArray syn_ack_sack_package"
proof -
  let ?p = "syn_ack_sack_package"
  have "encodable ?p"
    by (simp add: encodable_def sack_ranges_def syn_ack_sack_package_def example_package_def example_range_def)
  moreover have "room (length (session_wire ?p)) example_stream"
    by (simp add: syn_ack_sack_wire syn_ack_sack_bytes_def room_def example_stream_def BfxBufferStreamInit_def)
  ultimately have e: "EncodeSessionDataPackage ?p example_stream =
      Some (BFX_RESULT_SUCCESS, ?p\<lparr>cmdflags := session_flags ?p\<rparr>, put (session_wire ?p) example_stream, 48)"
    using encode_put [of ?p example_stream] by (simp add: syn_ack_sack_wire syn_ack_sack_bytes_def)
  have put: "put (session_wire ?p) example_stream =
      \<lparr>stream_buffer = syn_ack_sack_bytes @ replicate 16 0, stream_length = 60, stream_pos = 48\<rparr>"
    unfolding syn_ack_sack_wire
    by (simp add: put_def example_stream_def BfxBufferStreamInit_def syn_ack_sack_bytes_def)
  have "DecodeSessionDataPackage Bdt_SessionDataPackageInit 45
      \<lparr>stream_buffer = syn_ack_sack_bytes @ replicate 16 0, stream_length = 60, stream_pos = 3\<rparr> =
      Some (0, Bdt_SessionDataPackageInit\<lparr>cmdflags := 28, sessionId := 7, streamPos := 100, ackStreamPos := 30,
        toSessionId := 10,
        sackArray := Some [\<lparr>range_pos = 171815469056, range_length = 0\<rparr>, \<lparr>range_pos = 0, range_length = 0\<rparr>],
        synPart := Some \<lparr>synSeq = 1, synControl = 0, ccType = 0, toVPort = 1, fromSessionId = 2\<rparr>\<rparr>,
        \<lparr>stream_buffer = syn_ack_sack_bytes @ replicate 16 0, stream_length = 60, stream_pos = 48\<rparr>)"
    using syn_ack_sack_has
    by (simp add: DecodeSessionDataPackage_def DecodeSessionTail_def DecodeSynPart_def DecodeSackArray_def
        DecodeSackRange_def read_part_def read_if_def BfxBufferReadUInt8_def BfxBufferReadUInt16_def
        BfxBufferReadUInt32_def BfxBufferReadUInt48_def read_le_def read_bytes_def mem_load_def
        Bdt_GetPackageMinSize_def Bdt_SessionDataPackageInit_def decode_end_def syn_ack_sack_bytes_def)
  then show ?thesis
    using e by (simp add: put) (simp add: syn_ack_sack_package_def example_package_def example_range_def)
qed

end
