(* ===== verification/SendQueue.thy ===== *)
theory SendQueue
  imports SessionData
begin

text \<open>
  The send side of a package connection,
  \<^verbatim>\<open>BDTCore/Connection/PackageConnection/SendQueue.imp.inl\<close>: the buffers the
  application hands over, the blocks cut from them, and the two lists the blocks live in while
  they are not acknowledged: \<open>flightBlocks\<close> (sent, fate unknown) and \<open>lostBlocks\<close> (to be
  sent again).

  A \<open>BfxList\<close> of blocks or buffers is the HOL list of its items (theory BfxList shows that
  the list operations act as list operations). Positions are \<open>uint64_t\<close> words. A data
  pointer is the list of bytes from the pointer on. A \<open>SendQueueSendBuffer\<close> is allocated,
  compared by address and freed, so it carries its address \<open>buf_base\<close>; \<open>curr\<close> is a
  pointer to such a buffer, or null, or (as can happen in \<open>SendQueuePopCompleteBuffers\<close>)
  a pointer to the head of a list on the stack of the caller. Using a pointer that is no
  buffer of the queue is \<open>None\<close>. Locks are taken and released inside one operation, so an
  operation is one step here.
\<close>

section \<open>State\<close>

record SendQueueSendBlock =
  startStreamPos :: u64
  endStreamPos :: u64
  blockSendTime :: u64
  blockData :: "u8 list"

record SendQueueSendBuffer =
  buf_base :: nat
  buf_data :: "u8 list"
  buf_len :: u64
  buf_startStreamPos :: u64
  buf_offsetStreamPos :: u64
  buf_endStreamPos :: u64
  buf_callback :: nat

datatype buffer_ptr = NullBuffer | BufferAt nat | CallerListHead

record SendQueue =
  sc_ackStreamPos :: u64
  sc_streamPos :: u64
  lostBlocks :: "SendQueueSendBlock list"
  lost :: u64
  flightBlocks :: "SendQueueSendBlock list"
  flight :: u32
  latestAckStreamPos :: u64
  prevDupAckStreamPos :: u64
  dupAckTimes :: u8
  sb_streamPos :: u64
  unSendLength :: u64
  curr :: buffer_ptr
  buffers :: "SendQueueSendBuffer list"
  queue_mtu :: u16
  next_base :: nat

datatype SendBlockCheckState =
  SEND_BLOCK_CHECK_STATE_LOST | SEND_BLOCK_CHECK_STATE_ACK | SEND_BLOCK_CHECK_STATE_PREV |
  SEND_BLOCK_CHECK_STATE_OUT_OF_RANGE

definition SendQueueCreate :: "u64 \<Rightarrow> u16 \<Rightarrow> SendQueue" where
  "SendQueueCreate pos mtu =
     \<lparr>sc_ackStreamPos = pos, sc_streamPos = pos, lostBlocks = [], lost = 0, flightBlocks = [], flight = 0,
      latestAckStreamPos = 0, prevDupAckStreamPos = 0, dupAckTimes = 0, sb_streamPos = pos,
      unSendLength = 0, curr = NullBuffer, buffers = [], queue_mtu = mtu, next_base = 1\<rparr>"

text \<open>The number of bytes of a block, as the code computes it.\<close>

definition block_size :: "SendQueueSendBlock \<Rightarrow> u64" where
  "block_size b = endStreamPos b - startStreamPos b"

section \<open>Classifying a block by an acknowledgement\<close>

fun check_sack :: "SendQueueSendBlock \<Rightarrow> BdtStreamRange list \<Rightarrow> SendBlockCheckState option" where
  "check_sack b [] = None"
| "check_sack b (r # rs) =
     (if range_length r = 0 then Some SEND_BLOCK_CHECK_STATE_OUT_OF_RANGE
      else if endStreamPos b \<le> range_pos r then Some SEND_BLOCK_CHECK_STATE_PREV
      else if startStreamPos b \<ge> range_pos r \<and> endStreamPos b \<le> range_pos r + ucast (range_length r)
           then Some SEND_BLOCK_CHECK_STATE_ACK
      else check_sack b rs)"

text \<open>The test \<open>!sackArray || !sackArray[0].length\<close>.\<close>

definition no_sack :: "BdtStreamRange list option \<Rightarrow> bool option" where
  "no_sack sack =
     (case sack of
        None \<Rightarrow> Some True
      | Some [] \<Rightarrow> None
      | Some (r # rs) \<Rightarrow> Some (range_length r = 0))"

definition CheckBlockStateByAck ::
    "SendQueueSendBlock \<Rightarrow> u64 \<Rightarrow> BdtStreamRange list option \<Rightarrow> SendBlockCheckState option" where
  "CheckBlockStateByAck b ackPos sack =
     (if endStreamPos b \<le> ackPos then Some SEND_BLOCK_CHECK_STATE_ACK
      else if startStreamPos b < ackPos then Some SEND_BLOCK_CHECK_STATE_LOST
      else do {
        none \<leftarrow> no_sack sack;
        if none then Some SEND_BLOCK_CHECK_STATE_OUT_OF_RANGE
        else check_sack b (the sack)
      })"

section \<open>Cutting blocks from the buffers\<close>

definition buffer_at :: "nat \<Rightarrow> SendQueueSendBuffer list \<Rightarrow> SendQueueSendBuffer option" where
  "buffer_at a bs = find (\<lambda>b. buf_base b = a) bs"

text \<open>\<open>BfxListNext\<close> on the buffer at address \<open>a\<close>.\<close>

fun next_buffer :: "nat \<Rightarrow> SendQueueSendBuffer list \<Rightarrow> buffer_ptr" where
  "next_buffer a [] = NullBuffer"
| "next_buffer a (b # bs) =
     (if buf_base b = a then (case bs of [] \<Rightarrow> NullBuffer | c # _ \<Rightarrow> BufferAt (buf_base c))
      else next_buffer a bs)"

definition set_offset :: "nat \<Rightarrow> u64 \<Rightarrow> SendQueueSendBuffer list \<Rightarrow> SendQueueSendBuffer list" where
  "set_offset a pos bs = map (\<lambda>b. if buf_base b = a then b\<lparr>buf_offsetStreamPos := pos\<rparr> else b) bs"

definition SendQueueGenerateBlock :: "u16 \<Rightarrow> SendQueue \<Rightarrow> (SendQueueSendBlock option \<times> SendQueue) option" where
  "SendQueueGenerateBlock len q =
     (if unSendLength q = 0 then Some (None, q)
      else case curr q of
        BufferAt a \<Rightarrow> do {
          b \<leftarrow> buffer_at a (buffers q);
          let leftLen = buf_endStreamPos b - buf_offsetStreamPos b;
          if leftLen = 0 then None
          else do {
            let from = drop (unat (buf_len b - leftLen)) (buf_data b);
            let (blk, q) =
              (if leftLen \<le> ucast len
               then (\<lparr>startStreamPos = buf_offsetStreamPos b, endStreamPos = buf_endStreamPos b,
                      blockSendTime = 0, blockData = from\<rparr>,
                     q\<lparr>buffers := set_offset a (buf_endStreamPos b) (buffers q),
                       curr := next_buffer a (buffers q)\<rparr>)
               else (\<lparr>startStreamPos = buf_offsetStreamPos b, endStreamPos = buf_offsetStreamPos b + ucast len,
                      blockSendTime = 0, blockData = from\<rparr>,
                     q\<lparr>buffers := set_offset a (buf_offsetStreamPos b + ucast len) (buffers q)\<rparr>));
            Some (Some blk, q\<lparr>unSendLength := unSendLength q - block_size blk\<rparr>)
          }
        }
      | _ \<Rightarrow> None)"

text \<open>
  \<open>SendQueueAddBuffer\<close>: the data pointer and the callback may be null; the callback is an
  opaque name.
\<close>

definition SendQueueAddBuffer :: "u8 list option \<Rightarrow> u64 \<Rightarrow> nat option \<Rightarrow> SendQueue \<Rightarrow> u32 \<times> SendQueue" where
  "SendQueueAddBuffer bytes len callback q =
     (case (bytes, callback) of
        (Some bs, Some cb) \<Rightarrow>
          if len = 0 then (BFX_RESULT_INVALID_PARAM, q)
          else
            let unSend = unSendLength q;
                b = \<lparr>buf_base = next_base q, buf_data = bs, buf_len = len, buf_startStreamPos = sb_streamPos q,
                     buf_offsetStreamPos = sb_streamPos q, buf_endStreamPos = sb_streamPos q + len,
                     buf_callback = cb\<rparr>;
                q = q\<lparr>buffers := buffers q @ [b], unSendLength := unSendLength q + len,
                      curr := (if curr q = NullBuffer then BufferAt (buf_base b) else curr q),
                      sb_streamPos := buf_endStreamPos b, next_base := next_base q + 1\<rparr>
            in (if unSend > 0 then BFX_RESULT_PENDING else BFX_RESULT_SUCCESS, q)
      | _ \<Rightarrow> (BFX_RESULT_INVALID_PARAM, q))"

definition SendQueueAddCloseOperation :: "SendQueue \<Rightarrow> u32 \<times> u64" where
  "SendQueueAddCloseOperation q =
     (let endPos = sb_streamPos q
      in (if endPos = sc_ackStreamPos q then BFX_RESULT_SUCCESS else BFX_RESULT_PENDING, endPos))"

section \<open>Moving blocks between the lists\<close>

text \<open>
  The walk of \<open>SendQueueMoveLostToFlight\<close>: the block goes in front of the first flight
  block that starts behind it.
\<close>

fun insert_block :: "SendQueueSendBlock \<Rightarrow> SendQueueSendBlock list \<Rightarrow> SendQueueSendBlock list" where
  "insert_block x [] = [x]"
| "insert_block x (b # bs) = (if startStreamPos x < startStreamPos b then x # b # bs else b # insert_block x bs)"

definition SendQueueMoveLostToFlight :: "SendQueueSendBlock \<Rightarrow> SendQueue \<Rightarrow> SendQueue" where
  "SendQueueMoveLostToFlight b q = q\<lparr>flightBlocks := insert_block b (flightBlocks q)\<rparr>"

text \<open>
  \<open>MoveFlightToLost\<close>: the blocks are inserted one after the other; the cursor into the lost
  list is kept from one to the next, so what it has passed is final.
\<close>

fun move_flight_to_lost :: "SendQueueSendBlock list \<Rightarrow> SendQueueSendBlock list \<Rightarrow> SendQueueSendBlock list" where
  "move_flight_to_lost [] qs = qs"
| "move_flight_to_lost (x # xs) [] = x # move_flight_to_lost xs []"
| "move_flight_to_lost (x # xs) (b # bs) =
     (if endStreamPos x \<le> startStreamPos b then x # move_flight_to_lost xs (b # bs)
      else b # move_flight_to_lost (x # xs) bs)"

definition MoveFlightToLost :: "SendQueueSendBlock list \<Rightarrow> SendQueue \<Rightarrow> SendQueue" where
  "MoveFlightToLost bs q = q\<lparr>lostBlocks := move_flight_to_lost bs (lostBlocks q)\<rparr>"

definition block_size32 :: "SendQueueSendBlock \<Rightarrow> u32" where
  "block_size32 b = ucast (block_size b)"

section \<open>Acknowledgements\<close>

text \<open>
  The loop of \<open>SendQueueConfirmRange\<close>. The two local lists hold what is still to be looked
  at, with the blocks \<open>flightBlock\<close> and \<open>lostBlock\<close> the code has already popped at their
  heads; the lists of the queue collect what stays. \<open>pick_block\<close> chooses the block that
  starts first (a lost one on a tie), \<open>block_state\<close> classifies it, \<open>settle_block\<close> is the
  \<open>switch\<close>. Leaving the loop puts the rest back behind the collected blocks. \<open>acked\<close>
  is \<open>*outAcked\<close>.
\<close>

definition pick_block :: "SendQueueSendBlock list \<Rightarrow> SendQueueSendBlock list \<Rightarrow>
    bool \<times> SendQueueSendBlock \<times> SendQueueSendBlock list \<times> SendQueueSendBlock list" where
  "pick_block fs ls =
     (if fs \<noteq> [] \<and> (ls = [] \<or> startStreamPos (hd fs) < startStreamPos (hd ls))
      then (True, hd fs, tl fs, ls) else (False, hd ls, fs, tl ls))"

definition is_dup_ack :: "SendQueueSendBlock \<Rightarrow> SendQueue \<Rightarrow> bool" where
  "is_dup_ack b q \<longleftrightarrow> startStreamPos b = latestAckStreamPos q \<and> dupAckTimes q = 4"

definition block_state :: "BdtStreamRange list option \<Rightarrow> SendQueueSendBlock \<Rightarrow> SendQueue \<Rightarrow>
    SendBlockCheckState option" where
  "block_state sack b q =
     (if is_dup_ack b q then Some SEND_BLOCK_CHECK_STATE_LOST
      else CheckBlockStateByAck b (sc_ackStreamPos q) sack)"

definition use_dup_ack :: "SendQueueSendBlock \<Rightarrow> SendQueue \<Rightarrow> SendQueue" where
  "use_dup_ack b q =
     (if is_dup_ack b q
      then q\<lparr>prevDupAckStreamPos := latestAckStreamPos q, latestAckStreamPos := 0, dupAckTimes := 0\<rparr> else q)"

definition settle_block :: "SendBlockCheckState \<Rightarrow> bool \<Rightarrow> SendQueueSendBlock \<Rightarrow> SendQueue \<Rightarrow> SendQueue" where
  "settle_block state bFlight b q =
     (case state of
        SEND_BLOCK_CHECK_STATE_ACK \<Rightarrow>
          if bFlight then q\<lparr>flight := flight q - block_size32 b\<rparr> else q\<lparr>lost := lost q - block_size b\<rparr>
      | SEND_BLOCK_CHECK_STATE_PREV \<Rightarrow>
          if bFlight then q\<lparr>flightBlocks := flightBlocks q @ [b]\<rparr>
          else q\<lparr>lostBlocks := lostBlocks q @ [b]\<rparr>
      | SEND_BLOCK_CHECK_STATE_LOST \<Rightarrow>
          if bFlight then q\<lparr>lostBlocks := lostBlocks q @ [b], flight := flight q - block_size32 b,
                            lost := lost q + block_size b\<rparr>
          else q\<lparr>lostBlocks := lostBlocks q @ [b]\<rparr>
      | SEND_BLOCK_CHECK_STATE_OUT_OF_RANGE \<Rightarrow> q)"

function confirm_loop :: "BdtStreamRange list option \<Rightarrow> SendQueueSendBlock list \<Rightarrow> SendQueueSendBlock list \<Rightarrow>
    u32 \<Rightarrow> SendQueue \<Rightarrow> (u32 \<times> SendQueue) option" where
  "confirm_loop sack fs ls acked q =
     (if fs = [] \<and> ls = [] then Some (acked, q)
      else case pick_block fs ls of (bFlight, b, fs', ls') \<Rightarrow>
        (case block_state sack b q of
           None \<Rightarrow> None
         | Some state \<Rightarrow>
             if state = SEND_BLOCK_CHECK_STATE_OUT_OF_RANGE
             then Some (acked, q\<lparr>flightBlocks := flightBlocks q @ fs, lostBlocks := lostBlocks q @ ls\<rparr>)
             else confirm_loop sack fs' ls'
                    (if state = SEND_BLOCK_CHECK_STATE_ACK then acked + block_size32 b else acked)
                    (settle_block state bFlight b (use_dup_ack b q))))"
  by pat_completeness auto
termination
  by (relation "measure (\<lambda>(sack, fs, ls, acked, q). length fs + length ls)")
    (auto simp: pick_block_def length_greater_0_conv [symmetric] simp del: length_greater_0_conv split: if_splits)

declare confirm_loop.simps [simp del]

definition note_ack :: "u64 \<Rightarrow> SendQueue \<Rightarrow> SendQueue" where
  "note_ack ackPos q =
     (let q = (if prevDupAckStreamPos q < ackPos then
                 if latestAckStreamPos q < ackPos then q\<lparr>latestAckStreamPos := ackPos, dupAckTimes := 1\<rparr>
                 else if latestAckStreamPos q = ackPos then q\<lparr>dupAckTimes := dupAckTimes q + 1\<rparr>
                 else q
               else q)
      in if sc_ackStreamPos q < ackPos then q\<lparr>sc_ackStreamPos := ackPos\<rparr> else q)"

definition SendQueueConfirmRange ::
    "u64 \<Rightarrow> BdtStreamRange list option \<Rightarrow> SendQueue \<Rightarrow> (u32 \<times> u32 \<times> SendQueue) option" where
  "SendQueueConfirmRange ackPos sack q = do {
     none \<leftarrow> (if ackPos < sc_ackStreamPos q then no_sack sack else Some False);
     if none then Some (BFX_RESULT_NOT_CHANGED, 0, q)
     else do {
       let q = note_ack ackPos q;
       let fs = flightBlocks q;
       let ls = lostBlocks q;
       (acked, q) \<leftarrow> confirm_loop sack fs ls 0 (q\<lparr>flightBlocks := [], lostBlocks := []\<rparr>);
       Some (if acked \<noteq> 0 then BFX_RESULT_SUCCESS else BFX_RESULT_NOT_CHANGED, acked, q)
     }
   }"

section \<open>Filling a package\<close>

text \<open>
  The position, payload and length that the fill operations write through their pointer
  arguments. A null payload is \<open>None\<close>.
\<close>

record Filled =
  f_streamPos :: u64
  f_payload :: "u8 list option"
  f_length :: u16

definition filled_from :: "SendQueueSendBlock \<Rightarrow> Filled" where
  "filled_from b = \<lparr>f_streamPos = startStreamPos b, f_payload = Some (blockData b),
                    f_length = ucast (block_size b)\<rparr>"

definition send_new :: "u64 \<Rightarrow> SendQueueSendBlock \<Rightarrow> SendQueue \<Rightarrow> SendQueue" where
  "send_new now b q = q\<lparr>flightBlocks := flightBlocks q @ [b\<lparr>blockSendTime := now\<rparr>],
     flight := flight q + block_size32 b,
     sc_streamPos := sc_streamPos q + ucast (ucast (block_size b) :: u16)\<rparr>"

definition resend_lost :: "u64 \<Rightarrow> SendQueueSendBlock \<Rightarrow> SendQueue \<Rightarrow> SendQueue" where
  "resend_lost now b q =
     (SendQueueMoveLostToFlight (b\<lparr>blockSendTime := now\<rparr>) q)
       \<lparr>flight := flight q + block_size32 b, lost := lost q - block_size b\<rparr>"

definition SendQueueFillPayload :: "u64 \<Rightarrow> SendQueue \<Rightarrow> (u32 \<times> Filled \<times> SendQueue) option" where
  "SendQueueFillPayload now q =
     (case lostBlocks q of
        b # bs \<Rightarrow> Some (BFX_RESULT_SUCCESS, filled_from b, resend_lost now b (q\<lparr>lostBlocks := bs\<rparr>))
      | [] \<Rightarrow> do {
          (blk, q) \<leftarrow> SendQueueGenerateBlock (queue_mtu q) q;
          Some (case blk of
            Some b \<Rightarrow> (BFX_RESULT_SUCCESS, filled_from b, send_new now b q)
          | None \<Rightarrow> (BFX_RESULT_NOT_CHANGED,
                     \<lparr>f_streamPos = sc_streamPos q, f_payload = None, f_length = 0\<rparr>, q))
        })"

definition SendQueueFillPayloadFromOld ::
    "u64 \<Rightarrow> Filled \<Rightarrow> SendQueue \<Rightarrow> u32 \<times> Filled \<times> SendQueue" where
  "SendQueueFillPayloadFromOld now out q =
     (case lostBlocks q of
        [] \<Rightarrow> (BFX_RESULT_NOT_FOUND, out\<lparr>f_length := 0\<rparr>, q)
      | b # bs \<Rightarrow>
          if (ucast (block_size b) :: u16) \<le> f_length out
          then (BFX_RESULT_SUCCESS, filled_from b, resend_lost now b (q\<lparr>lostBlocks := bs\<rparr>))
          else (BFX_RESULT_NOT_ENOUGH_BUFFER, out\<lparr>f_length := 0\<rparr>, q))"

text \<open>
  \<open>SendQueueFillPayloadFromNew\<close> is called with all three pointers, or with the position
  alone (\<open>wantPayload\<close> false).
\<close>

definition SendQueueFillPayloadFromNew ::
    "u64 \<Rightarrow> bool \<Rightarrow> Filled \<Rightarrow> SendQueue \<Rightarrow> (u32 \<times> Filled \<times> SendQueue) option" where
  "SendQueueFillPayloadFromNew now wantPayload out q =
     (let out = out\<lparr>f_streamPos := sc_streamPos q\<rparr>
      in if wantPayload \<and> f_length out \<noteq> 0
         then do {
           (blk, q) \<leftarrow> SendQueueGenerateBlock (f_length out) q;
           Some (case blk of
             Some b \<Rightarrow> (BFX_RESULT_SUCCESS, filled_from b, send_new now b q)
           | None \<Rightarrow> (BFX_RESULT_NO_MORE_DATA,
                      \<lparr>f_streamPos = sc_streamPos q, f_payload = None, f_length = 0\<rparr>, q))
         }
         else Some (BFX_RESULT_NO_MORE_DATA, out, q))"

section \<open>Handing buffers back\<close>

text \<open>
  The loop of \<open>SendQueuePopCompleteBuffers\<close>. The completed buffer is already the last
  item of the list of the caller when \<open>BfxListNext\<close> is applied to it, so its successor is the
  head of that list.
\<close>

fun pop_complete :: "u64 \<Rightarrow> SendQueueSendBuffer list \<Rightarrow> buffer_ptr \<Rightarrow>
    SendQueueSendBuffer list \<times> SendQueueSendBuffer list \<times> buffer_ptr" where
  "pop_complete ackPos [] cur = ([], [], cur)"
| "pop_complete ackPos (b # bs) cur =
     (if buf_endStreamPos b > ackPos then ([], b # bs, cur)
      else
        let (done, rest, cur) = pop_complete ackPos bs (if cur = BufferAt (buf_base b) then CallerListHead else cur)
        in (b # done, rest, cur))"

definition SendQueuePopCompleteBuffers :: "SendQueue \<Rightarrow> SendQueueSendBuffer list \<times> SendQueue" where
  "SendQueuePopCompleteBuffers q =
     (let (done, rest, cur) = pop_complete (sc_ackStreamPos q) (buffers q) (curr q)
      in (done, q\<lparr>buffers := rest, curr := cur\<rparr>))"

definition SendQueuePopAllBuffers :: "SendQueue \<Rightarrow> SendQueueSendBuffer list \<times> SendQueue" where
  "SendQueuePopAllBuffers q = (buffers q, q\<lparr>buffers := []\<rparr>)"

text \<open>
  \<open>SendQueueOnClose\<close>: every buffer is reported to its callback with
  \<open>BFX_RESULT_INVALID_STATE\<close> and length 0, and every block is freed. The first component is
  the list of those calls.
\<close>

definition SendQueueOnClose :: "SendQueue \<Rightarrow> (nat \<times> u32 \<times> u8 list \<times> u64) list \<times> SendQueue" where
  "SendQueueOnClose q =
     (map (\<lambda>b. (buf_callback b, BFX_RESULT_INVALID_STATE, buf_data b, 0)) (buffers q),
      q\<lparr>buffers := [], flightBlocks := [], lostBlocks := []\<rparr>)"

section \<open>Timeouts and counters\<close>

definition timed_out :: "bool \<Rightarrow> u64 \<Rightarrow> u64 \<Rightarrow> SendQueueSendBlock \<Rightarrow> bool" where
  "timed_out force now rto b \<longleftrightarrow> force \<or> now - blockSendTime b > rto"

definition SendQueueMarkRangeTimeout :: "bool \<Rightarrow> u64 \<Rightarrow> u64 \<Rightarrow> SendQueue \<Rightarrow> (u32 \<times> SendQueue) option" where
  "SendQueueMarkRangeTimeout force rto now q =
     (let moved = filter (timed_out force now rto) (flightBlocks q);
          q = q\<lparr>flightBlocks := filter (\<lambda>b. \<not> timed_out force now rto b) (flightBlocks q)\<rparr>;
          totalTimeout = sum_list (map block_size32 moved)
      in if totalTimeout > 0
         then let q = MoveFlightToLost moved q
              in if flight q < totalTimeout then None
                 else Some (totalTimeout, q\<lparr>flight := flight q - totalTimeout, lost := lost q + ucast totalTimeout\<rparr>)
         else Some (totalTimeout, q))"

definition SendQueueGetFilght :: "SendQueue \<Rightarrow> u32" where
  "SendQueueGetFilght q = flight q"

definition SendQueueGetUnsendSize :: "SendQueue \<Rightarrow> u64" where
  "SendQueueGetUnsendSize q = unSendLength q"

definition SendQueueGetLostSize :: "SendQueue \<Rightarrow> u64" where
  "SendQueueGetLostSize q = lost q"

end
