(* ===== verification/SendQueueFacts.thy ===== *)
theory SendQueueFacts
  imports SendQueue "HOL-Library.Multiset"
begin

text \<open>
  Correctness of the send queue. \<open>blocks_inv\<close> is the invariant of the two block lists:
  both are sorted and free of overlaps, no byte is in both, the counters \<open>flight\<close> and
  \<open>lost\<close> are the sums of the block sizes, and every block ends behind the acknowledged and
  before the sent position. \<open>stream_inv\<close> adds the buffers and says, against the stream
  \<open>S\<close> the application has written, that every block points at its bytes. Each operation
  preserves them.
\<close>

section \<open>Chains of blocks\<close>

definition before :: "SendQueueSendBlock \<Rightarrow> SendQueueSendBlock \<Rightarrow> bool" where
  "before a b \<longleftrightarrow> endStreamPos a \<le> startStreamPos b"

definition block_ok :: "SendQueueSendBlock \<Rightarrow> bool" where
  "block_ok b \<longleftrightarrow> startStreamPos b < endStreamPos b \<and> unat (block_size b) < 2 ^ 16"

abbreviation chain :: "SendQueueSendBlock list \<Rightarrow> bool" where
  "chain \<equiv> sorted_wrt before"

definition apart :: "SendQueueSendBlock set \<Rightarrow> SendQueueSendBlock set \<Rightarrow> bool" where
  "apart A B \<longleftrightarrow> (\<forall>a\<in>A. \<forall>b\<in>B. before a b \<or> before b a)"

definition all_before :: "SendQueueSendBlock set \<Rightarrow> SendQueueSendBlock set \<Rightarrow> bool" where
  "all_before A B \<longleftrightarrow> (\<forall>a\<in>A. \<forall>b\<in>B. before a b)"

lemma before_trans: "before a b \<Longrightarrow> block_ok b \<Longrightarrow> before b c \<Longrightarrow> before a c"
  by (auto simp: before_def block_ok_def)

lemma not_before_self: "block_ok b \<Longrightarrow> \<not> before b b"
  by (auto simp: before_def block_ok_def)

lemma before_start: "before a b \<Longrightarrow> block_ok a \<Longrightarrow> startStreamPos a < startStreamPos b"
  by (auto simp: before_def block_ok_def)

lemma apart_before:
  "before a b \<or> before b a \<Longrightarrow> block_ok b \<Longrightarrow> startStreamPos a \<le> startStreamPos b \<Longrightarrow> before a b"
  by (auto simp: before_def block_ok_def)

section \<open>The counters\<close>

definition sizes :: "SendQueueSendBlock list \<Rightarrow> u64" where
  "sizes bs = sum_list (map block_size bs)"

definition sizes32 :: "SendQueueSendBlock list \<Rightarrow> u32" where
  "sizes32 bs = sum_list (map block_size32 bs)"

lemma sizes_simps [simp]:
  "sizes [] = 0" "sizes (b # bs) = block_size b + sizes bs" "sizes (as @ bs) = sizes as + sizes bs"
  "sizes32 [] = 0" "sizes32 (b # bs) = block_size32 b + sizes32 bs" "sizes32 (as @ bs) = sizes32 as + sizes32 bs"
  by (simp_all add: sizes_def sizes32_def)

section \<open>The invariant of the block lists\<close>

definition blocks_inv :: "SendQueue \<Rightarrow> bool" where
  "blocks_inv q \<longleftrightarrow>
     (\<forall>b \<in> set (flightBlocks q @ lostBlocks q). block_ok b \<and> endStreamPos b \<le> sc_streamPos q \<and>
        sc_ackStreamPos q < endStreamPos b) \<and>
     chain (flightBlocks q) \<and> chain (lostBlocks q) \<and> apart (set (flightBlocks q)) (set (lostBlocks q)) \<and>
     flight q = sizes32 (flightBlocks q) \<and> lost q = sizes (lostBlocks q) \<and>
     sc_ackStreamPos q \<le> sc_streamPos q \<and> latestAckStreamPos q \<le> sc_ackStreamPos q \<and>
     prevDupAckStreamPos q \<le> sc_ackStreamPos q"

section \<open>Confirming a range\<close>

text \<open>What the peer acknowledges: the bytes before \<open>ackPos\<close> and those of the ranges.\<close>

definition acked_by :: "u64 \<Rightarrow> BdtStreamRange list option \<Rightarrow> SendQueueSendBlock \<Rightarrow> bool" where
  "acked_by ackPos sack b \<longleftrightarrow>
     endStreamPos b \<le> ackPos \<or>
     (\<exists>rs r. sack = Some rs \<and> r \<in> set (sack_ranges rs) \<and> range_pos r \<le> startStreamPos b \<and>
             endStreamPos b \<le> range_pos r + ucast (range_length r))"

definition sack_ok :: "BdtStreamRange list option \<Rightarrow> bool" where
  "sack_ok sack \<longleftrightarrow> (case sack of None \<Rightarrow> True | Some rs \<Rightarrow> sack_ranges rs \<noteq> rs)"

lemma check_sack_acked:
  "check_sack b rs = Some SEND_BLOCK_CHECK_STATE_ACK \<Longrightarrow>
   \<exists>r \<in> set (sack_ranges rs). range_pos r \<le> startStreamPos b \<and> endStreamPos b \<le> range_pos r + ucast (range_length r)"
  by (induction b rs rule: check_sack.induct) (auto simp: sack_ranges_def split: if_splits)

lemma check_sack_lost: "check_sack b rs \<noteq> Some SEND_BLOCK_CHECK_STATE_LOST"
  by (induction b rs rule: check_sack.induct) auto

lemma check_sack_total: "sack_ranges rs \<noteq> rs \<Longrightarrow> check_sack b rs \<noteq> None"
  by (induction b rs rule: check_sack.induct) (auto simp: sack_ranges_def)

lemma check_state_acked:
  "CheckBlockStateByAck b ackPos sack = Some SEND_BLOCK_CHECK_STATE_ACK \<Longrightarrow> acked_by ackPos sack b"
  by (auto simp: CheckBlockStateByAck_def acked_by_def no_sack_def simp del: check_sack.simps
      dest!: check_sack_acked split: if_splits option.splits list.splits Option.bind_splits)

lemma check_state_open:
  "CheckBlockStateByAck b ackPos sack = Some state \<Longrightarrow> state \<noteq> SEND_BLOCK_CHECK_STATE_ACK \<Longrightarrow>
   ackPos < endStreamPos b"
  by (auto simp: CheckBlockStateByAck_def split: if_splits)

lemma check_state_out_of_range:
  "CheckBlockStateByAck b ackPos sack = Some SEND_BLOCK_CHECK_STATE_OUT_OF_RANGE \<Longrightarrow> ackPos \<le> startStreamPos b"
  by (auto simp: CheckBlockStateByAck_def split: if_splits)

lemma check_state_total: "sack_ok sack \<Longrightarrow> CheckBlockStateByAck b ackPos sack \<noteq> None"
  using check_sack_total
  by (auto simp: CheckBlockStateByAck_def no_sack_def sack_ok_def sack_ranges_def
      split: option.splits list.splits Option.bind_splits)

lemma confirm_total: "sack_ok sack \<Longrightarrow> confirm_loop sack fs ls acked q \<noteq> None"
proof (induction sack fs ls acked q rule: confirm_loop.induct)
  case (1 sack fs ls acked q)
  have known: "block_state sack b q \<noteq> None" for b
    using check_state_total [OF 1(2)] by (simp add: block_state_def)
  show ?case
    using 1 by (subst confirm_loop.simps) (auto simp: known split: prod.splits option.splits)
qed

text \<open>
  The loop invariant: \<open>fs\<close> and \<open>ls\<close> are still to be looked at, the lists of the queue
  hold what was kept. Whatever was kept lies in front of what is left.
\<close>

definition loop_inv :: "SendQueueSendBlock list \<Rightarrow> SendQueueSendBlock list \<Rightarrow> SendQueue \<Rightarrow> bool" where
  "loop_inv fs ls q \<longleftrightarrow>
     (\<forall>b \<in> set (flightBlocks q @ fs @ lostBlocks q @ ls). block_ok b) \<and>
     chain (flightBlocks q @ fs) \<and> chain (lostBlocks q @ ls) \<and>
     apart (set (flightBlocks q @ fs)) (set (lostBlocks q @ ls)) \<and>
     all_before (set (flightBlocks q @ lostBlocks q)) (set (fs @ ls)) \<and>
     flight q = sizes32 (flightBlocks q) + sizes32 fs \<and> lost q = sizes (lostBlocks q) + sizes ls \<and>
     (\<forall>b \<in> set (flightBlocks q @ lostBlocks q). sc_ackStreamPos q < endStreamPos b) \<and>
     (dupAckTimes q = 4 \<longrightarrow> (\<forall>b \<in> set (fs @ ls). sc_ackStreamPos q < endStreamPos b))"

lemma pick_cases:
  assumes "pick_block fs ls = (bFlight, b, fs', ls')" and "fs \<noteq> [] \<or> ls \<noteq> []"
  obtains (flight) "bFlight" "fs = b # fs'" "ls' = ls" "ls = [] \<or> startStreamPos b < startStreamPos (hd ls)"
  | (lost) "\<not> bFlight" "ls = b # ls'" "fs' = fs" "fs = [] \<or> startStreamPos b \<le> startStreamPos (hd fs)"
  using assms by (cases fs; cases ls) (auto simp: pick_block_def split: if_splits)

lemma pick_first:
  assumes "loop_inv fs ls q" and "pick_block fs ls = (bFlight, b, fs', ls')" and "fs \<noteq> [] \<or> ls \<noteq> []"
  shows "\<forall>c \<in> set (fs' @ ls'). before b c"
proof -
  have head: "\<forall>c \<in> set cs. before b c"
    if "chain cs" "\<forall>c \<in> set cs. block_ok c" "cs = [] \<or> startStreamPos b \<le> startStreamPos (hd cs)"
      "\<forall>c \<in> set cs. before b c \<or> before c b" for cs
  proof (cases cs)
    case (Cons c ds)
    then have "before b c" using that by (auto intro: apart_before)
    then show ?thesis using Cons that(1,2) by (auto intro: before_trans)
  qed simp
  show ?thesis
    using assms(2,3)
  proof (cases rule: pick_cases)
    case flight
    then have "\<forall>c \<in> set ls. before b c"
      using assms(1) by (intro head) (auto simp: loop_inv_def apart_def sorted_wrt_append)
    then show ?thesis
      using flight assms(1) by (auto simp: loop_inv_def sorted_wrt_append)
  next
    case lost
    then have "\<forall>c \<in> set fs. before b c"
      using assms(1) by (intro head) (auto simp: loop_inv_def apart_def sorted_wrt_append)
    then show ?thesis
      using lost assms(1) by (auto simp: loop_inv_def sorted_wrt_append)
  qed
qed

text \<open>Settling one block keeps the invariant, whatever its state.\<close>

lemma use_dup_ack_simps [simp]:
  "flightBlocks (use_dup_ack b q) = flightBlocks q" "lostBlocks (use_dup_ack b q) = lostBlocks q"
  "flight (use_dup_ack b q) = flight q" "lost (use_dup_ack b q) = lost q"
  "sc_ackStreamPos (use_dup_ack b q) = sc_ackStreamPos q"
  by (simp_all add: use_dup_ack_def)

lemma block_state_open:
  assumes "block_state sack b q = Some state" and "state \<noteq> SEND_BLOCK_CHECK_STATE_ACK"
    and "dupAckTimes q = 4 \<longrightarrow> sc_ackStreamPos q < endStreamPos b"
  shows "sc_ackStreamPos q < endStreamPos b"
  using assms by (auto simp: block_state_def is_dup_ack_def dest: check_state_open split: if_splits)

lemma settle_inv:
  assumes inv: "loop_inv fs ls q" and p: "pick_block fs ls = (bFlight, b, fs', ls')"
    and ne: "fs \<noteq> [] \<or> ls \<noteq> []" and s: "block_state sack b q = Some state"
    and n: "state \<noteq> SEND_BLOCK_CHECK_STATE_OUT_OF_RANGE"
  shows "loop_inv fs' ls' (settle_block state bFlight b (use_dup_ack b q))"
proof -
  have first: "\<forall>c \<in> set (fs' @ ls'). before b c"
    by (rule pick_first [OF inv p ne])
  have "b \<in> set (fs @ ls)"
    using p ne by (cases rule: pick_cases) auto
  then have o: "state \<noteq> SEND_BLOCK_CHECK_STATE_ACK \<Longrightarrow> sc_ackStreamPos q < endStreamPos b"
    using inv by (intro block_state_open [OF s]) (auto simp: loop_inv_def)
  have dup: "dupAckTimes (use_dup_ack b q) = 4 \<Longrightarrow> dupAckTimes q = 4"
    by (simp add: use_dup_ack_def split: if_splits)
  have times: "dupAckTimes (settle_block state bFlight b r) = dupAckTimes r"
      "sc_ackStreamPos (settle_block state bFlight b r) = sc_ackStreamPos r" for r
    by (auto simp: settle_block_def split: SendBlockCheckState.splits)
  show ?thesis
    using p ne
  proof (cases rule: pick_cases)
    case flight
    show ?thesis
      using inv first o dup n unfolding flight loop_inv_def times
      by (cases state) (auto simp: settle_block_def flight(1) sorted_wrt_append apart_def all_before_def)
  next
    case lost
    show ?thesis
      using inv first o dup n unfolding lost loop_inv_def times
      by (cases state) (auto simp: settle_block_def lost(1) sorted_wrt_append apart_def all_before_def)
  qed
qed

text \<open>
  The loop as a whole: it keeps every block that it does not free, frees only acknowledged
  blocks, counts them, and leaves no block behind that the cumulative acknowledgement covers.
\<close>

definition kept :: "SendQueue \<Rightarrow> SendQueueSendBlock multiset" where
  "kept q = mset (flightBlocks q) + mset (lostBlocks q)"

lemma settle_kept:
  assumes "pick_block fs ls = (bFlight, b, fs', ls')" and "fs \<noteq> [] \<or> ls \<noteq> []"
    and "state \<noteq> SEND_BLOCK_CHECK_STATE_OUT_OF_RANGE"
  shows "kept (settle_block state bFlight b (use_dup_ack b q)) + mset fs' + mset ls' +
           (if state = SEND_BLOCK_CHECK_STATE_ACK then {#b#} else {#}) = kept q + mset fs + mset ls"
  using assms(1,2)
  by (cases rule: pick_cases; cases state; use assms(3) in \<open>simp add: kept_def settle_block_def\<close>)

lemma block_state_acked:
  "block_state sack b q = Some SEND_BLOCK_CHECK_STATE_ACK \<Longrightarrow> acked_by (sc_ackStreamPos q) sack b"
  by (auto simp: block_state_def dest: check_state_acked split: if_splits)

lemma settle_same:
  "sc_ackStreamPos (settle_block state bFlight b (use_dup_ack b q)) = sc_ackStreamPos q"
  "sc_streamPos (settle_block state bFlight b (use_dup_ack b q)) = sc_streamPos q"
  "buffers (settle_block state bFlight b (use_dup_ack b q)) = buffers q"
  "curr (settle_block state bFlight b (use_dup_ack b q)) = curr q"
  "unSendLength (settle_block state bFlight b (use_dup_ack b q)) = unSendLength q"
  "sb_streamPos (settle_block state bFlight b (use_dup_ack b q)) = sb_streamPos q"
  "queue_mtu (settle_block state bFlight b (use_dup_ack b q)) = queue_mtu q"
  "next_base (settle_block state bFlight b (use_dup_ack b q)) = next_base q"
  by (auto simp: settle_block_def use_dup_ack_def split: SendBlockCheckState.splits)

definition same_stream :: "SendQueue \<Rightarrow> SendQueue \<Rightarrow> bool" where
  "same_stream q q' \<longleftrightarrow>
     sc_streamPos q' = sc_streamPos q \<and> buffers q' = buffers q \<and> curr q' = curr q \<and>
     unSendLength q' = unSendLength q \<and> sb_streamPos q' = sb_streamPos q \<and>
     queue_mtu q' = queue_mtu q \<and> next_base q' = next_base q"

definition dup_bounded :: "SendQueue \<Rightarrow> bool" where
  "dup_bounded q \<longleftrightarrow> latestAckStreamPos q \<le> sc_ackStreamPos q \<and> prevDupAckStreamPos q \<le> sc_ackStreamPos q"

lemma loop_inv_stop:
  assumes inv: "loop_inv fs ls q" and p: "pick_block fs ls = (bFlight, b, fs', ls')"
    and s: "block_state sack b q = Some SEND_BLOCK_CHECK_STATE_OUT_OF_RANGE" and ne: "\<not> (fs = [] \<and> ls = [])"
  shows "loop_inv [] [] (q\<lparr>flightBlocks := flightBlocks q @ fs, lostBlocks := lostBlocks q @ ls\<rparr>)"
proof -
  have ne': "fs \<noteq> [] \<or> ls \<noteq> []" using ne by blast
  have first: "\<forall>c \<in> set (fs' @ ls'). before b c"
    by (rule pick_first [OF inv p ne'])
  have c: "CheckBlockStateByAck b (sc_ackStreamPos q) sack = Some SEND_BLOCK_CHECK_STATE_OUT_OF_RANGE"
    using s by (simp add: block_state_def split: if_splits)
  have "set (fs @ ls) = insert b (set (fs' @ ls'))"
    using p ne' by (cases rule: pick_cases) auto
  moreover have "sc_ackStreamPos q < endStreamPos b" "sc_ackStreamPos q \<le> startStreamPos b"
    using check_state_open [OF c] check_state_out_of_range [OF c] by simp_all
  moreover have "sc_ackStreamPos q < endStreamPos d" if "d \<in> set (fs' @ ls')" for d
  proof -
    have "before b d" "block_ok d"
      using that first inv \<open>set (fs @ ls) = _\<close> by (auto simp: loop_inv_def)
    then show ?thesis
      using \<open>sc_ackStreamPos q < endStreamPos b\<close> by (auto simp: before_def block_ok_def)
  qed
  ultimately have "\<forall>d \<in> set (fs @ ls). sc_ackStreamPos q < endStreamPos d"
    by auto
  then show ?thesis
    using inv by (auto simp: loop_inv_def all_before_def)
qed

lemma confirm_loop_spec:
  assumes "confirm_loop sack fs ls acked q = Some (acked', q')" and "loop_inv fs ls q"
  shows "\<exists>gone. kept q' + mset gone = kept q + mset fs + mset ls \<and> acked' = acked + sizes32 gone \<and>
           (\<forall>b \<in> set gone. acked_by (sc_ackStreamPos q) sack b) \<and>
           loop_inv [] [] q' \<and> sc_ackStreamPos q' = sc_ackStreamPos q \<and> same_stream q q' \<and>
           (dup_bounded q \<longrightarrow> dup_bounded q')"
  using assms
proof (induction sack fs ls acked q rule: confirm_loop.induct)
  case (1 sack fs ls acked q)
  show ?case
  proof (cases "fs = [] \<and> ls = []")
    case True
    then have "acked' = acked" "q' = q"
      using 1(2) by (simp_all add: confirm_loop.simps [of sack "[]" "[]"])
    with 1(3) True show ?thesis
      by (intro exI [of _ "[]"]) (simp add: same_stream_def)
  next
    case ne: False
    obtain bFlight b fs' ls' where p: "pick_block fs ls = (bFlight, b, fs', ls')"
      by (metis prod_cases4)
    obtain state where s: "block_state sack b q = Some state"
      using 1(2) ne p by (subst (asm) confirm_loop.simps) (auto split: option.splits)
    let ?q = "settle_block state bFlight b (use_dup_ack b q)"
    show ?thesis
    proof (cases "state = SEND_BLOCK_CHECK_STATE_OUT_OF_RANGE")
      case True
      then have "acked' = acked" "q' = q\<lparr>flightBlocks := flightBlocks q @ fs, lostBlocks := lostBlocks q @ ls\<rparr>"
        using 1(2) ne p s by (simp_all add: confirm_loop.simps [of sack fs])
      moreover have "loop_inv [] [] (q\<lparr>flightBlocks := flightBlocks q @ fs, lostBlocks := lostBlocks q @ ls\<rparr>)"
        using s by (intro loop_inv_stop [OF 1(3) p, of sack]) (simp_all add: True ne)
      ultimately show ?thesis
        by (intro exI [of _ "[]"]) (simp add: same_stream_def kept_def dup_bounded_def)
    next
      case False
      let ?acked = "if state = SEND_BLOCK_CHECK_STATE_ACK then acked + block_size32 b else acked"
      have rec: "confirm_loop sack fs' ls' ?acked ?q = Some (acked', q')"
        using 1(2) ne p s False by (simp add: confirm_loop.simps [of sack fs])
      have "loop_inv fs' ls' ?q"
        using settle_inv [OF 1(3) p _ s False] ne by blast
      from 1(1) [OF ne p [symmetric] refl refl s False rec this] obtain gone where
        g: "kept q' + mset gone = kept ?q + mset fs' + mset ls'" "acked' = ?acked + sizes32 gone"
          "\<forall>b \<in> set gone. acked_by (sc_ackStreamPos q) sack b" "loop_inv [] [] q'"
          "sc_ackStreamPos q' = sc_ackStreamPos q" "same_stream ?q q'"
          "dup_bounded ?q \<longrightarrow> dup_bounded q'"
        by (auto simp: settle_same)
      let ?new = "if state = SEND_BLOCK_CHECK_STATE_ACK then [b] else []"
      have "kept q' + mset (?new @ gone) = kept q + mset fs + mset ls"
        using g(1) settle_kept [OF p _ False, of q] ne by (simp add: ac_simps split: if_splits)
      moreover have "acked' = acked + sizes32 (?new @ gone)"
        using g(2) by simp
      moreover have "\<forall>b \<in> set (?new @ gone). acked_by (sc_ackStreamPos q) sack b"
        using g(3) s by (auto dest: block_state_acked)
      moreover have "same_stream q q'"
        using g(6) by (simp add: same_stream_def settle_same)
      moreover have "dup_bounded q \<longrightarrow> dup_bounded q'"
        using g(7) by (auto simp: dup_bounded_def settle_same use_dup_ack_def settle_block_def
            split: SendBlockCheckState.splits if_splits)
      ultimately show ?thesis
        using g(4,5) by blast
    qed
  qed
qed

lemma loop_inv_start:
  assumes "blocks_inv q" and "ackPos \<le> sc_streamPos q"
  shows "loop_inv (flightBlocks q) (lostBlocks q) (note_ack ackPos q\<lparr>flightBlocks := [], lostBlocks := []\<rparr>)"
    and "dup_bounded (note_ack ackPos q\<lparr>flightBlocks := [], lostBlocks := []\<rparr>)"
  using assms by (auto simp: loop_inv_def blocks_inv_def note_ack_def all_before_def dup_bounded_def Let_def)

lemma note_ack_simps [simp]:
  "sc_ackStreamPos (note_ack ackPos q) = max ackPos (sc_ackStreamPos q)"
  "flightBlocks (note_ack ackPos q) = flightBlocks q" "lostBlocks (note_ack ackPos q) = lostBlocks q"
  by (auto simp: note_ack_def Let_def max_def)

lemma blocks_inv_end:
  assumes "blocks_inv q" and "loop_inv [] [] q'" and "dup_bounded q'" and "kept q' \<subseteq># kept q"
    and "sc_streamPos q' = sc_streamPos q" and "sc_ackStreamPos q' \<le> sc_streamPos q"
  shows "blocks_inv q'"
proof -
  have "b \<in> set (flightBlocks q @ lostBlocks q)" if "b \<in> set (flightBlocks q' @ lostBlocks q')" for b
    using assms(4) that by (auto simp: kept_def dest: mset_subset_eqD)
  then show ?thesis
    using assms by (auto simp: blocks_inv_def loop_inv_def dup_bounded_def)
qed

lemma no_sack_total: "sack_ok sack \<Longrightarrow> \<exists>none. no_sack sack = Some none"
  by (auto simp: no_sack_def sack_ok_def sack_ranges_def split: option.splits list.splits)

lemma confirm_spec:
  assumes inv: "blocks_inv q" and pos: "ackPos \<le> sc_streamPos q" and sack: "sack_ok sack"
  shows "\<exists>r acked q' gone. SendQueueConfirmRange ackPos sack q = Some (r, acked, q') \<and>
           kept q' + mset gone = kept q \<and> acked = sizes32 gone \<and>
           (\<forall>b \<in> set gone. acked_by (max ackPos (sc_ackStreamPos q)) sack b) \<and> blocks_inv q' \<and>
           sc_ackStreamPos q' = max ackPos (sc_ackStreamPos q) \<and> same_stream q q'"
proof -
  obtain none where none: "(if ackPos < sc_ackStreamPos q then no_sack sack else Some False) = Some none"
    using no_sack_total [OF sack] by (cases "ackPos < sc_ackStreamPos q") auto
  show ?thesis
  proof (cases none)
    case True
    then have "ackPos < sc_ackStreamPos q"
      using none by (simp split: if_splits)
    then have "max ackPos (sc_ackStreamPos q) = sc_ackStreamPos q" by (simp add: max_absorb2 less_imp_le)
    then show ?thesis
      using True none inv
      by (intro exI [of _ BFX_RESULT_NOT_CHANGED] exI [of _ 0] exI [of _ q] exI [of _ "[]"])
        (simp add: SendQueueConfirmRange_def same_stream_def)
  next
    case False
    let ?q = "note_ack ackPos q\<lparr>flightBlocks := [], lostBlocks := []\<rparr>"
    obtain acked q' where c: "confirm_loop sack (flightBlocks q) (lostBlocks q) 0 ?q = Some (acked, q')"
      using confirm_total [OF sack] by (metis not_None_eq prod.exhaust)
    from confirm_loop_spec [OF c loop_inv_start(1) [OF inv pos]] obtain gone where
      g: "kept q' + mset gone = kept q" "acked = sizes32 gone"
        "\<forall>b \<in> set gone. acked_by (max ackPos (sc_ackStreamPos q)) sack b" "loop_inv [] [] q'"
        "sc_ackStreamPos q' = max ackPos (sc_ackStreamPos q)" "same_stream ?q q'" "dup_bounded q'"
      using loop_inv_start(2) [OF inv pos] by (auto simp: kept_def)
    have same: "same_stream q q'"
      using g(6) by (simp add: same_stream_def note_ack_def Let_def split: if_splits)
    have "blocks_inv q'"
      using inv g(4,7)
    proof (rule blocks_inv_end)
      show "kept q' \<subseteq># kept q" using g(1) by (metis mset_subset_eq_add_left)
      show "sc_streamPos q' = sc_streamPos q" using same by (simp add: same_stream_def)
      show "sc_ackStreamPos q' \<le> sc_streamPos q" using g(5) pos inv by (simp add: blocks_inv_def)
    qed
    then show ?thesis
      using g same False none c
      by (intro exI [of _ "if acked \<noteq> 0 then BFX_RESULT_SUCCESS else BFX_RESULT_NOT_CHANGED"]
          exI [of _ acked] exI [of _ q'] exI [of _ gone])
        (simp add: SendQueueConfirmRange_def Let_def)
  qed
qed

section \<open>The buffers\<close>

text \<open>
  Against the stream \<open>S\<close> of all bytes the application has written: a buffer holds its part
  of \<open>S\<close>, the buffers follow one another up to the end of the stream, and \<open>curr\<close> is the
  buffer in which the first unsent byte, at \<open>pos\<close>, lies.
\<close>

definition bytes_at :: "(nat \<Rightarrow> u8) \<Rightarrow> nat \<Rightarrow> nat \<Rightarrow> u8 list \<Rightarrow> bool" where
  "bytes_at S pos n bs \<longleftrightarrow> n \<le> length bs \<and> (\<forall>i < n. bs ! i = S (pos + i))"

definition buffer_ok :: "(nat \<Rightarrow> u8) \<Rightarrow> SendQueueSendBuffer \<Rightarrow> bool" where
  "buffer_ok S b \<longleftrightarrow>
     buf_startStreamPos b < buf_endStreamPos b \<and> buf_startStreamPos b \<le> buf_offsetStreamPos b \<and>
     buf_offsetStreamPos b \<le> buf_endStreamPos b \<and>
     buf_len b = buf_endStreamPos b - buf_startStreamPos b \<and>
     bytes_at S (unat (buf_startStreamPos b)) (unat (buf_len b)) (buf_data b)"

fun contiguous :: "u64 \<Rightarrow> SendQueueSendBuffer list \<Rightarrow> u64 \<Rightarrow> bool" where
  "contiguous p [] e \<longleftrightarrow> p = e"
| "contiguous p (b # bs) e \<longleftrightarrow> buf_startStreamPos b = p \<and> contiguous (buf_endStreamPos b) bs e"

definition buffers_inv :: "(nat \<Rightarrow> u8) \<Rightarrow> u64 \<Rightarrow> SendQueue \<Rightarrow> bool" where
  "buffers_inv S pos q \<longleftrightarrow>
     list_all (buffer_ok S) (buffers q) \<and> (\<exists>p. contiguous p (buffers q) (sb_streamPos q)) \<and>
     distinct (map buf_base (buffers q)) \<and> (\<forall>b \<in> set (buffers q). buf_base b < next_base q) \<and>
     pos \<le> sb_streamPos q \<and> unSendLength q = sb_streamPos q - pos \<and>
     (if unSendLength q = 0 then curr q = NullBuffer
      else \<exists>us b vs. buffers q = us @ b # vs \<and> curr q = BufferAt (buf_base b) \<and>
             buf_offsetStreamPos b = pos \<and> pos < buf_endStreamPos b \<and>
             (\<forall>v \<in> set vs. buf_offsetStreamPos v = buf_startStreamPos v))"

lemma curr_buffer:
  "buffers_inv S pos q \<Longrightarrow> unSendLength q \<noteq> 0 \<Longrightarrow>
   \<exists>us b vs. buffers q = us @ b # vs \<and> curr q = BufferAt (buf_base b) \<and>
     buf_offsetStreamPos b = pos \<and> pos < buf_endStreamPos b \<and>
     (\<forall>v \<in> set vs. buf_offsetStreamPos v = buf_startStreamPos v)"
  unfolding buffers_inv_def by presburger

lemma contiguous_append:
  "contiguous p (us @ vs) e \<longleftrightarrow> (\<exists>m. contiguous p us m \<and> contiguous m vs e)"
  by (induction us arbitrary: p) auto

lemma contiguous_le: "contiguous p bs e \<Longrightarrow> list_all (buffer_ok S) bs \<Longrightarrow> p \<le> e \<and> (bs \<noteq> [] \<longrightarrow> p < e)"
  by (induction bs arbitrary: p) (fastforce simp: buffer_ok_def)+

lemma set_offset_absent: "a \<notin> buf_base ` set bs \<Longrightarrow> set_offset a pos bs = bs"
  by (induction bs) (auto simp: set_offset_def)

lemma buffer_lookup:
  assumes "distinct (map buf_base (us @ b # vs))"
  shows "buffer_at (buf_base b) (us @ b # vs) = Some b"
    and "next_buffer (buf_base b) (us @ b # vs) = (case vs of [] \<Rightarrow> NullBuffer | c # _ \<Rightarrow> BufferAt (buf_base c))"
    and "set_offset (buf_base b) pos (us @ b # vs) = us @ b\<lparr>buf_offsetStreamPos := pos\<rparr> # vs"
proof -
  have absent: "buf_base b \<notin> buf_base ` set us" "buf_base b \<notin> buf_base ` set vs"
    using assms by auto
  show "buffer_at (buf_base b) (us @ b # vs) = Some b"
    using absent(1) by (induction us) (auto simp: buffer_at_def)
  show "next_buffer (buf_base b) (us @ b # vs) = (case vs of [] \<Rightarrow> NullBuffer | c # _ \<Rightarrow> BufferAt (buf_base c))"
    using absent(1) by (induction us) auto
  have "set_offset (buf_base b) pos (us @ b # vs) =
      set_offset (buf_base b) pos us @ b\<lparr>buf_offsetStreamPos := pos\<rparr> # set_offset (buf_base b) pos vs"
    by (simp add: set_offset_def)
  then show "set_offset (buf_base b) pos (us @ b # vs) = us @ b\<lparr>buf_offsetStreamPos := pos\<rparr> # vs"
    using absent by (simp add: set_offset_absent)
qed

text \<open>The block cut from the buffers, and what is left.\<close>

definition block_bytes :: "(nat \<Rightarrow> u8) \<Rightarrow> SendQueueSendBlock \<Rightarrow> bool" where
  "block_bytes S b \<longleftrightarrow> bytes_at S (unat (startStreamPos b)) (unat (block_size b)) (blockData b)"

lemma bytes_at_drop:
  "bytes_at S pos n bs \<Longrightarrow> k + m \<le> n \<Longrightarrow> bytes_at S (pos + k) m (drop k bs)"
  by (auto simp: bytes_at_def add.assoc)

lemma generate_block:
  assumes inv: "buffers_inv S pos q" and more: "unSendLength q \<noteq> 0" and len: "len \<noteq> 0"
  shows "\<exists>b q'. SendQueueGenerateBlock len q = Some (Some b, q') \<and> startStreamPos b = pos \<and>
           block_ok b \<and> block_size b \<le> ucast len \<and> block_bytes S b \<and> buffers_inv S (endStreamPos b) q' \<and>
           endStreamPos b \<le> sb_streamPos q \<and> q' = q\<lparr>buffers := buffers q', curr := curr q', unSendLength := unSendLength q'\<rparr>"
proof -
  obtain us b vs where q: "buffers q = us @ b # vs" "curr q = BufferAt (buf_base b)"
      "buf_offsetStreamPos b = pos" "pos < buf_endStreamPos b"
      "\<forall>v \<in> set vs. buf_offsetStreamPos v = buf_startStreamPos v"
    using inv more by (auto simp: buffers_inv_def)
  have dist: "distinct (map buf_base (us @ b # vs))"
    using inv q(1) by (simp add: buffers_inv_def)
  note look = buffer_lookup [OF dist]
  have ok: "buffer_ok S b" "list_all (buffer_ok S) vs"
    using inv q(1) by (simp_all add: buffers_inv_def)
  obtain p where p: "contiguous p (us @ b # vs) (sb_streamPos q)"
    using inv q(1) by (auto simp: buffers_inv_def)
  have rest: "contiguous (buf_endStreamPos b) vs (sb_streamPos q)"
    using p by (auto simp: contiguous_append)
  let ?e = "buf_endStreamPos b" and ?left = "buf_endStreamPos b - pos" and ?len = "ucast len :: u64"
  let ?from = "drop (unat (buf_len b - ?left)) (buf_data b)"
  have sb: "?e \<le> sb_streamPos q" "vs \<noteq> [] \<Longrightarrow> ?e < sb_streamPos q" "unSendLength q = sb_streamPos q - pos"
    using contiguous_le [OF rest ok(2)] inv by (auto simp: buffers_inv_def)
  have n: "unat pos < unat ?e" "unat (buf_startStreamPos b) \<le> unat pos" "unat ?e \<le> unat (sb_streamPos q)"
      "unat (buf_len b) = unat ?e - unat (buf_startStreamPos b)" "unat ?left = unat ?e - unat pos"
      "unat (buf_len b - ?left) = unat pos - unat (buf_startStreamPos b)"
    using ok(1) q(3,4) sb(1) by (auto simp: buffer_ok_def word_to_nat)
  have data: "bytes_at S (unat pos) m ?from" if "m \<le> unat ?left" for m
    using bytes_at_drop [of S "unat (buf_startStreamPos b)" "unat (buf_len b)" "buf_data b"
        "unat pos - unat (buf_startStreamPos b)" m] ok(1) n that by (simp add: buffer_ok_def)
  have ok': "buffer_ok S (b\<lparr>buf_offsetStreamPos := r\<rparr>)" if "buf_startStreamPos b \<le> r" "r \<le> ?e" for r
    using ok(1) that by (auto simp: buffer_ok_def)
  have kept: "list_all (buffer_ok S) (us @ b\<lparr>buf_offsetStreamPos := r\<rparr> # vs) \<and>
      (\<exists>p. contiguous p (us @ b\<lparr>buf_offsetStreamPos := r\<rparr> # vs) (sb_streamPos q)) \<and>
      distinct (map buf_base (us @ b\<lparr>buf_offsetStreamPos := r\<rparr> # vs)) \<and>
      (\<forall>v \<in> set (us @ b\<lparr>buf_offsetStreamPos := r\<rparr> # vs). buf_base v < next_base q)"
    if "buf_startStreamPos b \<le> r" "r \<le> ?e" for r
    using inv q(1) ok' [OF that] p by (auto simp: buffers_inv_def contiguous_append)
  have gen: "SendQueueGenerateBlock len q =
      (if ?left \<le> ?len
       then Some (Some \<lparr>startStreamPos = pos, endStreamPos = ?e, blockSendTime = 0, blockData = ?from\<rparr>,
              q\<lparr>buffers := us @ b\<lparr>buf_offsetStreamPos := ?e\<rparr> # vs,
                curr := (case vs of [] \<Rightarrow> NullBuffer | c # _ \<Rightarrow> BufferAt (buf_base c)),
                unSendLength := unSendLength q - ?left\<rparr>)
       else Some (Some \<lparr>startStreamPos = pos, endStreamPos = pos + ?len, blockSendTime = 0, blockData = ?from\<rparr>,
              q\<lparr>buffers := us @ b\<lparr>buf_offsetStreamPos := pos + ?len\<rparr> # vs, curr := curr q,
                unSendLength := unSendLength q - ?len\<rparr>))"
    using more q(2,3,4) by (simp add: SendQueueGenerateBlock_def q(1) look Let_def block_size_def)
  show ?thesis
  proof (cases "?left \<le> ?len")
    case True
    let ?b = "\<lparr>startStreamPos = pos, endStreamPos = ?e, blockSendTime = 0, blockData = ?from\<rparr>"
    let ?q = "q\<lparr>buffers := us @ b\<lparr>buf_offsetStreamPos := ?e\<rparr> # vs,
        curr := (case vs of [] \<Rightarrow> NullBuffer | c # _ \<Rightarrow> BufferAt (buf_base c)),
        unSendLength := unSendLength q - ?left\<rparr>"
    have "block_ok ?b"
      using q(4) True unat_lt16 [of len] by (auto simp: block_ok_def block_size_def word_to_nat)
    moreover have "block_bytes S ?b"
      using data by (simp add: block_bytes_def block_size_def)
    moreover have "buffers_inv S ?e ?q"
    proof (cases vs)
      case Nil
      then show ?thesis
        using kept [of ?e] n(1,2) sb rest by (auto simp: buffers_inv_def word_to_nat)
    next
      case (Cons c cs)
      have "buf_startStreamPos b \<le> ?e" using n(1,2) by (simp add: word_to_nat)
      note kept = kept [OF this order.refl]
      have "buf_offsetStreamPos c = ?e" "?e < buf_endStreamPos c"
        using Cons rest q(5) ok(2) by (auto simp: buffer_ok_def)
      then have "\<exists>us' b' vs'. buffers ?q = us' @ b' # vs' \<and> curr ?q = BufferAt (buf_base b') \<and>
          buf_offsetStreamPos b' = ?e \<and> ?e < buf_endStreamPos b' \<and>
          (\<forall>v \<in> set vs'. buf_offsetStreamPos v = buf_startStreamPos v)"
        using Cons q(5) by (intro exI [of _ "us @ [b\<lparr>buf_offsetStreamPos := ?e\<rparr>]"] exI [of _ c] exI [of _ cs]) simp
      moreover have "unSendLength ?q = sb_streamPos q - ?e" "unSendLength ?q \<noteq> 0"
        using sb(2,3) Cons by auto
      ultimately show ?thesis
        using kept sb(1) unfolding buffers_inv_def by simp
    qed
    ultimately show ?thesis
      using gen True sb(1) by (intro exI [of _ ?b] exI [of _ ?q]) (auto simp: block_size_def)
  next
    case False
    let ?b = "\<lparr>startStreamPos = pos, endStreamPos = pos + ?len, blockSendTime = 0, blockData = ?from\<rparr>"
    let ?q = "q\<lparr>buffers := us @ b\<lparr>buf_offsetStreamPos := pos + ?len\<rparr> # vs, curr := curr q,
        unSendLength := unSendLength q - ?len\<rparr>"
    have l: "unat len < unat ?e - unat pos"
      using False n(5) by (simp add: word_to_nat)
    then have sum: "unat (pos + ?len) = unat pos + unat len"
      using unat_lt64 [of ?e] by (subst unat_add_no_overflow) auto
    have "0 < unat len" using len by (simp add: unat_gt_0)
    then have between: "pos < pos + ?len" "pos + ?len < ?e"
      using l sum by (auto simp: word_to_nat)
    have "block_ok ?b"
      using between unat_lt16 [of len] by (auto simp: block_ok_def block_size_def)
    moreover have "block_bytes S ?b"
      using data [of "unat len"] l n(5) by (simp add: block_bytes_def block_size_def)
    moreover have "buffers_inv S (pos + ?len) ?q"
    proof -
      have le: "buf_startStreamPos b \<le> pos + ?len" "pos + ?len \<le> ?e" "pos + ?len < sb_streamPos q"
        using between sb(1) n(2) by (auto simp: word_to_nat)
      have "\<exists>us' b' vs'. buffers ?q = us' @ b' # vs' \<and> curr ?q = BufferAt (buf_base b') \<and>
          buf_offsetStreamPos b' = pos + ?len \<and> pos + ?len < buf_endStreamPos b' \<and>
          (\<forall>v \<in> set vs'. buf_offsetStreamPos v = buf_startStreamPos v)"
        using between q(2,5) by (intro exI [of _ us] exI [of _ "b\<lparr>buf_offsetStreamPos := pos + ?len\<rparr>"] exI [of _ vs]) simp
      moreover have "unSendLength ?q = sb_streamPos q - (pos + ?len)" "unSendLength ?q \<noteq> 0"
        using sb(3) le(3) by (auto simp: diff_eq_eq add.commute)
      ultimately show ?thesis
        using kept [OF le(1,2)] le(3) unfolding buffers_inv_def by simp
    qed
    ultimately show ?thesis
      using gen False sb(1) between by (intro exI [of _ ?b] exI [of _ ?q]) (auto simp: block_size_def)
  qed
qed

section \<open>The lists of blocks under insertion and merging\<close>

lemma mset_insert_block [simp]: "mset (insert_block x bs) = add_mset x (mset bs)"
  by (induction bs) auto

lemma set_insert_block [simp]: "set (insert_block x bs) = insert x (set bs)"
  by (induction bs) auto

lemma chain_insert:
  "chain bs \<Longrightarrow> \<forall>b \<in> set bs. block_ok b \<and> (before x b \<or> before b x) \<Longrightarrow> block_ok x \<Longrightarrow> chain (insert_block x bs)"
proof (induction bs)
  case Nil
  show ?case by simp
next
  case (Cons b bs)
  show ?case
  proof (cases "startStreamPos x < startStreamPos b")
    case True
    then have "before x b"
      using Cons.prems by (auto intro: apart_before)
    then show ?thesis
      using True Cons.prems by (auto intro: before_trans)
  next
    case False
    then have "before b x"
      using Cons.prems apart_before [of b x] by auto
    then show ?thesis
      using False Cons by auto
  qed
qed

lemma mset_move [simp]: "mset (move_flight_to_lost xs qs) = mset xs + mset qs"
  by (induction xs qs rule: move_flight_to_lost.induct) auto

lemma set_move [simp]: "set (move_flight_to_lost xs qs) = set xs \<union> set qs"
  by (induction xs qs rule: move_flight_to_lost.induct) auto

lemma chain_move:
  "chain xs \<Longrightarrow> chain qs \<Longrightarrow> apart (set xs) (set qs) \<Longrightarrow> \<forall>b \<in> set xs \<union> set qs. block_ok b \<Longrightarrow>
   chain (move_flight_to_lost xs qs)"
proof (induction xs qs rule: move_flight_to_lost.induct)
  case (3 x xs b bs)
  show ?case
  proof (cases "endStreamPos x \<le> startStreamPos b")
    case True
    then have "\<forall>c \<in> set (b # bs). before x c"
      using 3(4,6) by (auto simp: before_def intro: order_trans [OF _ less_imp_le])
        (metis (no_types, lifting) True before_def before_trans)
    then show ?thesis
      using True 3 by (auto simp: apart_def)
  next
    case False
    then have "before b x"
      using 3(5) by (auto simp: apart_def before_def)
    then have "\<forall>c \<in> set (x # xs). before b c"
      using 3(3,6) before_trans by fastforce
    then show ?thesis
      using False 3 by (auto simp: apart_def)
  qed
qed (auto simp: apart_def)

lemma sizes_mset: "mset xs = mset ys \<Longrightarrow> sizes xs = sizes ys"
  unfolding sizes_def by (metis mset_map sum_mset_sum_list)

lemma sizes32_mset: "mset xs = mset ys \<Longrightarrow> sizes32 xs = sizes32 ys"
  unfolding sizes32_def by (metis mset_map sum_mset_sum_list)

section \<open>The invariant of the stream\<close>

definition stream_inv :: "(nat \<Rightarrow> u8) \<Rightarrow> SendQueue \<Rightarrow> bool" where
  "stream_inv S q \<longleftrightarrow>
     blocks_inv q \<and> (\<forall>b \<in> set (flightBlocks q @ lostBlocks q). block_bytes S b) \<and>
     buffers_inv S (sc_streamPos q) q"

lemma filled_bytes:
  assumes "block_ok b" and "block_bytes S b"
  shows "f_payload (filled_from b) = Some (blockData b)" and "f_streamPos (filled_from b) = startStreamPos b"
    and "unat (f_length (filled_from b)) = unat (block_size b)" and "0 < unat (block_size b)"
    and "bytes_at S (unat (startStreamPos b)) (unat (f_length (filled_from b))) (blockData b)"
proof -
  have "unat (ucast (block_size b) :: u16) = unat (block_size b)"
    using assms(1) by (simp add: block_ok_def unsigned_ucast_eq take_bit_nat_eq_self)
  moreover have "0 < unat (block_size b)"
    using assms(1) by (simp add: block_ok_def block_size_def word_to_nat)
  ultimately show "f_payload (filled_from b) = Some (blockData b)" "f_streamPos (filled_from b) = startStreamPos b"
      "unat (f_length (filled_from b)) = unat (block_size b)" "0 < unat (block_size b)"
      "bytes_at S (unat (startStreamPos b)) (unat (f_length (filled_from b))) (blockData b)"
    using assms(2) by (simp_all add: filled_from_def block_bytes_def)
qed

lemma resend_inv:
  assumes inv: "stream_inv S q" and l: "lostBlocks q = b # bs"
  shows "stream_inv S (resend_lost now b (q\<lparr>lostBlocks := bs\<rparr>))"
proof -
  let ?b = "b\<lparr>blockSendTime := now\<rparr>"
  have same: "block_ok ?b = block_ok b" "block_size ?b = block_size b" "block_size32 ?b = block_size32 b"
      "block_bytes S ?b = block_bytes S b" "before ?b c = before b c" "before c ?b = before c b" for c
    by (simp_all add: block_ok_def block_size_def block_size32_def block_bytes_def before_def)
  have "chain (insert_block ?b (flightBlocks q))"
    using inv l by (intro chain_insert) (auto simp: stream_inv_def blocks_inv_def apart_def same)
  moreover have "sizes32 (insert_block ?b (flightBlocks q)) = sizes32 (?b # flightBlocks q)"
    by (rule sizes32_mset) simp
  moreover have "apart (insert ?b (set (flightBlocks q))) (set bs)"
    using inv l by (auto simp: stream_inv_def blocks_inv_def apart_def same)
  ultimately show ?thesis
    using inv l unfolding stream_inv_def resend_lost_def SendQueueMoveLostToFlight_def
    by (auto simp: blocks_inv_def buffers_inv_def same add.commute)
qed

lemma send_new_inv:
  assumes inv: "blocks_inv q" "\<forall>b \<in> set (flightBlocks q @ lostBlocks q). block_bytes S b"
    and b: "startStreamPos b = sc_streamPos q" "block_ok b" "block_bytes S b"
    and buf: "buffers_inv S (endStreamPos b) q"
  shows "stream_inv S (send_new now b q)"
proof -
  let ?b = "b\<lparr>blockSendTime := now\<rparr>"
  have same: "block_ok ?b = block_ok b" "block_size ?b = block_size b" "block_size32 ?b = block_size32 b"
      "block_bytes S ?b = block_bytes S b" "endStreamPos ?b = endStreamPos b"
    by (simp_all add: block_ok_def block_size_def block_size32_def block_bytes_def)
  have "ucast (ucast (block_size b) :: u16) = block_size b"
    using b(2) by (simp add: block_ok_def word_unat_eq_iff unsigned_ucast_eq unsigned_take_bit_eq take_bit_nat_eq_self)
  then have pos: "sc_streamPos (send_new now b q) = endStreamPos b"
    using b(1) by (simp add: send_new_def block_size_def)
  have end': "sc_streamPos q < endStreamPos b"
    using b(1,2) by (simp add: block_ok_def)
  have behind: "\<forall>c \<in> set (flightBlocks q @ lostBlocks q). before c ?b \<and> endStreamPos c \<le> endStreamPos b"
    using inv(1) b(1) less_imp_le [OF end'] by (auto simp: blocks_inv_def before_def intro: order_trans)
  have "blocks_inv (send_new now b q)"
    using inv(1) behind b(2) end' pos same
    unfolding blocks_inv_def send_new_def
    by (auto simp: sorted_wrt_append apart_def add.commute)
  moreover have "buffers_inv S (endStreamPos b) (send_new now b q)"
    using buf by (simp add: buffers_inv_def send_new_def)
  moreover have "\<forall>c \<in> set (flightBlocks (send_new now b q) @ lostBlocks (send_new now b q)). block_bytes S c"
    using inv(2) b(3) same by (auto simp: send_new_def)
  ultimately show ?thesis
    using pos by (simp add: stream_inv_def)
qed

text \<open>Cutting a new block from the buffers and sending it.\<close>

lemma generate_send:
  assumes inv: "stream_inv S q" and more: "unSendLength q \<noteq> 0" and len: "len \<noteq> 0"
  shows "\<exists>b q'. SendQueueGenerateBlock len q = Some (Some b, q') \<and> startStreamPos b = sc_streamPos q \<and>
           block_ok b \<and> block_size b \<le> ucast len \<and> block_bytes S b \<and> stream_inv S (send_new now b q')"
proof -
  obtain b q' where g: "SendQueueGenerateBlock len q = Some (Some b, q')" "startStreamPos b = sc_streamPos q"
      "block_ok b" "block_size b \<le> ucast len" "block_bytes S b" "buffers_inv S (endStreamPos b) q'"
      "q' = q\<lparr>buffers := buffers q', curr := curr q', unSendLength := unSendLength q'\<rparr>"
    using generate_block [OF _ more len] inv by (metis stream_inv_def)
  have same: "flightBlocks q' = flightBlocks q" "lostBlocks q' = lostBlocks q" "sc_streamPos q' = sc_streamPos q"
      "blocks_inv q' = blocks_inv q"
    by (subst g(7), simp add: blocks_inv_def)+
  have "stream_inv S (send_new now b q')"
    using inv g(2,3,5,6) by (intro send_new_inv) (simp_all add: same stream_inv_def)
  then show ?thesis using g by blast
qed

lemma generate_none: "unSendLength q = 0 \<Longrightarrow> SendQueueGenerateBlock len q = Some (None, q)"
  by (simp add: SendQueueGenerateBlock_def)

text \<open>
  C21. Acknowledgements free exactly what the peer has: for every acknowledgement of sent bytes,
  \<open>SendQueueConfirmRange\<close> terminates, every block it does not keep in one of the two lists lies
  within the cumulative position or one of the selective ranges, and \<open>*outAcked\<close> is the size
  of those blocks.
\<close>

theorem confirm_range_frees_acked:
  assumes "blocks_inv q" and "ackPos \<le> sc_streamPos q" and "sack_ok sack"
  shows "\<exists>r acked q' gone. SendQueueConfirmRange ackPos sack q = Some (r, acked, q') \<and>
           kept q' + mset gone = kept q \<and> acked = sizes32 gone \<and>
           (\<forall>b \<in> set gone. acked_by (max ackPos (sc_ackStreamPos q)) sack b)"
  using confirm_spec [OF assms] by blast

lemma confirm_inv_spec:
  assumes "stream_inv S q" and "ackPos \<le> sc_streamPos q" and "sack_ok sack"
    and "SendQueueConfirmRange ackPos sack q = Some (r, acked, q')"
  shows "stream_inv S q' \<and> sc_ackStreamPos q' = max ackPos (sc_ackStreamPos q)"
proof -
  have inv: "blocks_inv q" using assms(1) by (simp add: stream_inv_def)
  from confirm_spec [OF inv assms(2,3)] assms(4) obtain gone where
    g: "kept q' + mset gone = kept q" "blocks_inv q'" "sc_ackStreamPos q' = max ackPos (sc_ackStreamPos q)"
      "same_stream q q'"
    by auto
  have "set_mset (kept q') \<subseteq> set_mset (kept q)"
    unfolding g(1) [symmetric] by simp
  then have "\<forall>b \<in> set (flightBlocks q' @ lostBlocks q'). block_bytes S b"
    using assms(1) by (auto simp: kept_def stream_inv_def)
  moreover have "buffers_inv S (sc_streamPos q') q'"
    using assms(1) g(4) by (simp add: stream_inv_def same_stream_def buffers_inv_def)
  ultimately show ?thesis using g by (simp add: stream_inv_def)
qed

text \<open>
  An acknowledgement preserves the whole invariant of the queue: sorted, disjoint lists,
  counters that are the sums of the block sizes, no block left that the cumulative position
  covers, every block pointing at its bytes of the stream.
\<close>

lemma confirm_range_inv:
  assumes "stream_inv S q" and "ackPos \<le> sc_streamPos q" and "sack_ok sack"
    and "SendQueueConfirmRange ackPos sack q = Some (r, acked, q')"
  shows "stream_inv S q' \<and> sc_ackStreamPos q' = max ackPos (sc_ackStreamPos q)"
  by (rule confirm_inv_spec [OF assms])

text \<open>What a filled package carries: at least one byte, and the right ones.\<close>

definition carries :: "(nat \<Rightarrow> u8) \<Rightarrow> Filled \<Rightarrow> bool" where
  "carries S out \<longleftrightarrow> (\<exists>bs. f_payload out = Some bs \<and> 0 < f_length out \<and>
     bytes_at S (unat (f_streamPos out)) (unat (f_length out)) bs)"

lemma carries_block: "block_ok b \<Longrightarrow> block_bytes S b \<Longrightarrow> carries S (filled_from b)"
  using filled_bytes [of b S] by (auto simp: carries_def word_to_nat)

text \<open>
  C22. Filling a package takes the first lost block, or else cuts the next unsent bytes; what it
  hands out is the stream's bytes at the position it reports, at least one and at most a 16-bit
  number of them, and the invariant is kept. It reports \<open>BFX_RESULT_NOT_CHANGED\<close> only when
  nothing is lost and nothing is unsent.
\<close>

theorem fill_payload_correct:
  assumes "stream_inv S q" and "queue_mtu q \<noteq> 0"
  shows "\<exists>r out q'. SendQueueFillPayload now q = Some (r, out, q') \<and> stream_inv S q' \<and>
           (if lostBlocks q \<noteq> [] then r = BFX_RESULT_SUCCESS \<and> out = filled_from (hd (lostBlocks q)) \<and> carries S out
            else if unSendLength q \<noteq> 0 then
              r = BFX_RESULT_SUCCESS \<and> f_streamPos out = sc_streamPos q \<and> carries S out \<and> f_length out \<le> queue_mtu q
            else r = BFX_RESULT_NOT_CHANGED \<and> q' = q \<and> f_payload out = None)"
proof (cases "lostBlocks q")
  case (Cons b bs)
  then have "block_ok b" "block_bytes S b"
    using assms(1) by (auto simp: stream_inv_def blocks_inv_def)
  then show ?thesis
    using Cons resend_inv [OF assms(1) Cons] by (simp add: SendQueueFillPayload_def carries_block)
next
  case Nil
  show ?thesis
  proof (cases "unSendLength q = 0")
    case True
    then show ?thesis
      using Nil assms(1) by (simp add: SendQueueFillPayload_def generate_none)
  next
    case False
    obtain b q' where g: "SendQueueGenerateBlock (queue_mtu q) q = Some (Some b, q')"
        "startStreamPos b = sc_streamPos q" "block_ok b" "block_size b \<le> ucast (queue_mtu q)" "block_bytes S b"
        "stream_inv S (send_new now b q')"
      using generate_send [OF assms(1) False assms(2)] by blast
    have "f_length (filled_from b) \<le> queue_mtu q"
      using filled_bytes(3) [OF g(3,5)] g(4) by (simp add: word_to_nat)
    then show ?thesis
      using Nil False g carries_block [OF g(3,5)] filled_bytes(2) [OF g(3,5)]
      by (simp add: SendQueueFillPayload_def)
  qed
qed

text \<open>
  \<open>SendQueueFillPayloadFromOld\<close> resends the first lost block if and only if it fits, hands
  out the stream's bytes and keeps the invariant; otherwise it leaves the queue alone.
\<close>

lemma fill_from_old_correct:
  assumes "stream_inv S q"
  shows "case SendQueueFillPayloadFromOld now out q of (r, out', q') \<Rightarrow>
           stream_inv S q' \<and>
           (r = BFX_RESULT_SUCCESS \<longleftrightarrow> lostBlocks q \<noteq> [] \<and> unat (block_size (hd (lostBlocks q))) \<le> unat (f_length out)) \<and>
           (if r = BFX_RESULT_SUCCESS then carries S out' \<and> f_length out' \<le> f_length out
            else q' = q \<and> f_length out' = 0)"
proof (cases "lostBlocks q")
  case Nil
  then show ?thesis using assms by (simp add: SendQueueFillPayloadFromOld_def)
next
  case (Cons b bs)
  then have b: "block_ok b" "block_bytes S b"
    using assms(1) by (auto simp: stream_inv_def blocks_inv_def)
  have len: "f_length (filled_from b) = ucast (block_size b)"
    by (simp add: filled_from_def)
  then have size: "unat (ucast (block_size b) :: u16) = unat (block_size b)"
    using filled_bytes(3) [OF b] by simp
  show ?thesis
  proof (cases "(ucast (block_size b) :: u16) \<le> f_length out")
    case True
    then show ?thesis
      using Cons resend_inv [OF assms Cons] carries_block [OF b] len size
      by (simp add: SendQueueFillPayloadFromOld_def word_le_unat)
  next
    case False
    then show ?thesis
      using Cons assms size by (simp add: SendQueueFillPayloadFromOld_def word_le_unat)
  qed
qed

text \<open>
  \<open>SendQueueFillPayloadFromNew\<close> sends the next unsent bytes, up to the length asked for,
  and reports \<open>BFX_RESULT_NO_MORE_DATA\<close> exactly when every byte has been sent.
\<close>

lemma fill_from_new_correct:
  assumes "stream_inv S q" and "f_length out \<noteq> 0"
  shows "\<exists>r out' q'. SendQueueFillPayloadFromNew now True out q = Some (r, out', q') \<and> stream_inv S q' \<and>
           f_streamPos out' = sc_streamPos q \<and>
           (if unSendLength q \<noteq> 0 then r = BFX_RESULT_SUCCESS \<and> carries S out' \<and> f_length out' \<le> f_length out
            else r = BFX_RESULT_NO_MORE_DATA \<and> q' = q \<and> f_length out' = 0)"
proof (cases "unSendLength q = 0")
  case True
  then show ?thesis
    using assms by (simp add: SendQueueFillPayloadFromNew_def Let_def generate_none)
next
  case False
  obtain b q' where g: "SendQueueGenerateBlock (f_length out) q = Some (Some b, q')"
      "startStreamPos b = sc_streamPos q" "block_ok b" "block_size b \<le> ucast (f_length out)" "block_bytes S b"
      "stream_inv S (send_new now b q')"
    using generate_send [OF assms(1) False assms(2)] by blast
  have "f_length (filled_from b) \<le> f_length out"
    using filled_bytes(3) [OF g(3,5)] g(4) by (simp add: word_to_nat)
  then show ?thesis
    using assms(2) False g carries_block [OF g(3,5)] filled_bytes(2) [OF g(3,5)]
    by (simp add: SendQueueFillPayloadFromNew_def Let_def)
qed

lemma add_buffer_spec:
  assumes "stream_inv S q" and "bytes_at S (unat (sb_streamPos q)) (unat len) bs"
    and "unat (sb_streamPos q) + unat len < 2 ^ 64" and "len \<noteq> 0"
  shows "case SendQueueAddBuffer (Some bs) len (Some cb) q of (r, q') \<Rightarrow>
           stream_inv S q' \<and> unat (sb_streamPos q') = unat (sb_streamPos q) + unat len \<and>
           unat (unSendLength q') = unat (unSendLength q) + unat len \<and>
           r = (if unSendLength q > 0 then BFX_RESULT_PENDING else BFX_RESULT_SUCCESS)"
proof -
  let ?sb = "sb_streamPos q" and ?pos = "sc_streamPos q"
  let ?b = "\<lparr>buf_base = next_base q, buf_data = bs, buf_len = len, buf_startStreamPos = ?sb,
      buf_offsetStreamPos = ?sb, buf_endStreamPos = ?sb + len, buf_callback = cb\<rparr>"
  let ?q = "q\<lparr>buffers := buffers q @ [?b], unSendLength := unSendLength q + len,
      curr := (if curr q = NullBuffer then BufferAt (next_base q) else curr q),
      sb_streamPos := ?sb + len, next_base := next_base q + 1\<rparr>"
  have inv: "buffers_inv S ?pos q" using assms(1) by (simp add: stream_inv_def)
  have sum: "unat (?sb + len) = unat ?sb + unat len"
    using assms(3) by (intro unat_add_no_overflow) simp
  have len: "0 < unat len" using assms(4) by (simp add: unat_gt_0)
  have "?sb < ?sb + len" using sum len by (simp add: word_to_nat)
  then have ok: "buffer_ok S ?b" using assms(2) by (auto simp: buffer_ok_def)
  have pos: "?pos \<le> ?sb" "unSendLength q = ?sb - ?pos" using inv by (simp_all add: buffers_inv_def)
  have unsent: "unat (unSendLength q + len) = unat (unSendLength q) + unat len"
    using pos sum assms(3) unat_lt64 [of "?sb + len"] by (intro unat_add_no_overflow) (simp add: word_to_nat)
  have "?pos \<le> ?sb + len" using pos(1) \<open>?sb < ?sb + len\<close> by simp
  moreover have "\<exists>us b vs. buffers ?q = us @ b # vs \<and> curr ?q = BufferAt (buf_base b) \<and>
      buf_offsetStreamPos b = ?pos \<and> ?pos < buf_endStreamPos b \<and>
      (\<forall>v \<in> set vs. buf_offsetStreamPos v = buf_startStreamPos v)"
  proof (cases "unSendLength q = 0")
    case True
    then have "?pos = ?sb" "curr q = NullBuffer" using pos inv by (auto simp: buffers_inv_def)
    then show ?thesis
      using \<open>?sb < ?sb + len\<close> by (intro exI [of _ "buffers q"] exI [of _ ?b] exI [of _ "[]"]) simp
  next
    case False
    then obtain us b vs where "buffers q = us @ b # vs" "curr q = BufferAt (buf_base b)"
        "buf_offsetStreamPos b = ?pos" "?pos < buf_endStreamPos b"
        "\<forall>v \<in> set vs. buf_offsetStreamPos v = buf_startStreamPos v"
      using inv by (auto simp: buffers_inv_def)
    then show ?thesis
      by (intro exI [of _ us] exI [of _ b] exI [of _ "vs @ [?b]"]) auto
  qed
  moreover have "unSendLength ?q \<noteq> 0"
  proof
    assume "unSendLength ?q = 0"
    then have "unat (unSendLength q + len) = 0" by simp
    then show False using unsent len by simp
  qed
  moreover have "list_all (buffer_ok S) (buffers ?q)" "\<exists>p. contiguous p (buffers ?q) (sb_streamPos ?q)"
      "distinct (map buf_base (buffers ?q))" "\<forall>b \<in> set (buffers ?q). buf_base b < next_base ?q"
      "unSendLength ?q = sb_streamPos ?q - ?pos"
    using inv ok pos(2) by (fastforce simp: buffers_inv_def contiguous_append)+
  ultimately have "buffers_inv S ?pos ?q"
    unfolding buffers_inv_def by simp
  then have "stream_inv S ?q"
    using assms(1) by (simp add: stream_inv_def blocks_inv_def)
  then show ?thesis
    using assms(4) sum unsent by (cases "curr q = NullBuffer") (simp_all add: SendQueueAddBuffer_def Let_def)
qed

text \<open>
  Adding a buffer appends its bytes to the stream and keeps the invariant; the result tells
  whether unsent bytes were waiting already. A null pointer or an empty buffer is rejected
  without effect.
\<close>

lemma add_buffer_correct:
  assumes "stream_inv S q" and "bytes_at S (unat (sb_streamPos q)) (unat len) bs"
    and "unat (sb_streamPos q) + unat len < 2 ^ 64" and "len \<noteq> 0"
  shows "case SendQueueAddBuffer (Some bs) len (Some cb) q of (r, q') \<Rightarrow>
           stream_inv S q' \<and> unat (sb_streamPos q') = unat (sb_streamPos q) + unat len \<and>
           unat (unSendLength q') = unat (unSendLength q) + unat len \<and>
           r = (if unSendLength q > 0 then BFX_RESULT_PENDING else BFX_RESULT_SUCCESS)"
  by (rule add_buffer_spec [OF assms])

text \<open>The two counters as numbers, while they are in range.\<close>

abbreviation nat_sizes :: "SendQueueSendBlock list \<Rightarrow> nat" where
  "nat_sizes bs \<equiv> sum_list (map (unat \<circ> block_size) bs)"

lemma sizes_nat: "nat_sizes bs < 2 ^ 32 \<Longrightarrow> unat (sizes32 bs) = nat_sizes bs \<and> unat (sizes bs) = nat_sizes bs"
proof (induction bs)
  case Nil
  show ?case by simp
next
  case (Cons b bs)
  have "unat (block_size32 b) = unat (block_size b)"
    using Cons.prems by (simp add: block_size32_def unsigned_ucast_eq take_bit_nat_eq_self)
  then show ?case
    using Cons by (simp add: unat_add_no_overflow)
qed

lemma nat_sizes_filter: "nat_sizes (filter P bs) + nat_sizes (filter (\<lambda>b. \<not> P b) bs) = nat_sizes bs"
  by (induction bs) auto

lemma sizes_filter: "sizes32 (filter P bs) + sizes32 (filter (\<lambda>b. \<not> P b) bs) = sizes32 bs"
  by (induction bs) (auto simp: algebra_simps)

lemma nat_sizes_pos: "\<forall>b \<in> set bs. block_ok b \<Longrightarrow> bs \<noteq> [] \<Longrightarrow> 0 < nat_sizes bs"
  by (cases bs) (auto simp: block_ok_def block_size_def word_to_nat)

lemma mark_timeout_spec:
  assumes "stream_inv S q" and "nat_sizes (flightBlocks q) < 2 ^ 32"
  shows "\<exists>n q'. SendQueueMarkRangeTimeout force rto now q = Some (n, q') \<and> stream_inv S q' \<and> kept q' = kept q \<and>
           flightBlocks q' = filter (\<lambda>b. \<not> timed_out force now rto b) (flightBlocks q) \<and>
           n = sizes32 (filter (timed_out force now rto) (flightBlocks q))"
proof -
  let ?P = "timed_out force now rto"
  let ?moved = "filter ?P (flightBlocks q)" and ?stay = "filter (\<lambda>b. \<not> ?P b) (flightBlocks q)"
  have inv: "blocks_inv q" using assms(1) by (simp add: stream_inv_def)
  have moved: "nat_sizes ?moved < 2 ^ 32" "nat_sizes ?moved \<le> nat_sizes (flightBlocks q)"
    using nat_sizes_filter [of ?P "flightBlocks q"] assms(2) by linarith+
  note n = sizes_nat [OF moved(1)] sizes_nat [OF assms(2)]
  have parts: "mset ?moved + mset ?stay = mset (flightBlocks q)"
    by (simp add: multiset_partition [symmetric])
  show ?thesis
  proof (cases "?moved = []")
    case True
    then have "?stay = flightBlocks q"
      by (simp add: filter_empty_conv filter_id_conv)
    then show ?thesis
      using True assms(1) by (simp add: SendQueueMarkRangeTimeout_def Let_def)
  next
    case False
    let ?q = "q\<lparr>flightBlocks := ?stay, lostBlocks := move_flight_to_lost ?moved (lostBlocks q),
        flight := flight q - sizes32 ?moved, lost := lost q + ucast (sizes32 ?moved)\<rparr>"
    have "0 < nat_sizes ?moved"
      using False inv by (intro nat_sizes_pos) (auto simp: blocks_inv_def)
    then have pos: "0 < sizes32 ?moved"
      using n(1) by (simp add: word_to_nat)
    have le: "\<not> flight q < sizes32 ?moved"
      using n moved(2) inv by (simp add: blocks_inv_def word_to_nat)
    have widen: "ucast (sizes32 ?moved) = sizes ?moved"
      using n(1) by (simp add: word_unat_eq_iff)
    have "chain (move_flight_to_lost ?moved (lostBlocks q))"
      using inv by (intro chain_move) (auto simp: blocks_inv_def apart_def sorted_wrt_filter)
    moreover have "sizes (move_flight_to_lost ?moved (lostBlocks q)) = sizes (?moved @ lostBlocks q)"
      by (rule sizes_mset) simp
    moreover have "apart (set ?stay) (set (move_flight_to_lost ?moved (lostBlocks q)))"
    proof -
      have "before a b \<or> before b a" if "a \<in> set ?stay" "b \<in> set ?moved" for a b
      proof -
        have "a \<noteq> b" using that by auto
        then show ?thesis
          using that inv by (auto simp: blocks_inv_def sorted_wrt_iff_nth_less in_set_conv_nth)
            (metis nat_neq_iff)
      qed
      then show ?thesis using inv by (auto simp: blocks_inv_def apart_def)
    qed
    moreover have "sizes32 ?stay = flight q - sizes32 ?moved"
      using sizes_filter [of ?P "flightBlocks q"] inv by (simp add: blocks_inv_def algebra_simps)
    ultimately have "blocks_inv ?q"
      using inv widen by (auto simp: blocks_inv_def sorted_wrt_filter)
    moreover have "kept ?q = kept q"
      using parts by (simp add: kept_def add.assoc [symmetric] add.commute [of "mset ?stay"])
    ultimately show ?thesis
      using assms(1) pos le
      by (auto simp: SendQueueMarkRangeTimeout_def Let_def MoveFlightToLost_def stream_inv_def buffers_inv_def
          sizes32_def)
  qed
qed

text \<open>
  A retransmission timeout moves exactly the blocks that have been in flight for longer than
  \<open>rto\<close> (all of them when forced) into their place in the lost list: no block disappears, the
  assertion on \<open>flight\<close> holds and the invariant is kept. The sizes of the blocks in flight are
  assumed to add up to less than \<open>2 ^ 32\<close>, the range of the counter.
\<close>

lemma mark_timeout_correct:
  assumes "stream_inv S q" and "nat_sizes (flightBlocks q) < 2 ^ 32"
  shows "\<exists>n q'. SendQueueMarkRangeTimeout force rto now q = Some (n, q') \<and> stream_inv S q' \<and> kept q' = kept q \<and>
           flightBlocks q' = filter (\<lambda>b. \<not> timed_out force now rto b) (flightBlocks q) \<and>
           n = sizes32 (filter (timed_out force now rto) (flightBlocks q))"
  by (rule mark_timeout_spec [OF assms])

lemma pop_complete_split:
  assumes "\<forall>b \<in> set bs. cur = BufferAt (buf_base b) \<longrightarrow> ackPos < buf_endStreamPos b"
  shows "pop_complete ackPos bs cur =
    (takeWhile (\<lambda>b. buf_endStreamPos b \<le> ackPos) bs, dropWhile (\<lambda>b. buf_endStreamPos b \<le> ackPos) bs, cur)"
  using assms by (induction ackPos bs cur rule: pop_complete.induct) (auto simp: not_less)

lemma ends_increase:
  "contiguous p bs e \<Longrightarrow> list_all (buffer_ok S) bs \<Longrightarrow> x < p \<Longrightarrow> b \<in> set bs \<Longrightarrow> x < buf_endStreamPos b"
  by (induction bs arbitrary: p) (auto simp: buffer_ok_def intro: less_trans)

lemma rest_open:
  "contiguous p bs e \<Longrightarrow> list_all (buffer_ok S) bs \<Longrightarrow>
   \<forall>b \<in> set (dropWhile (\<lambda>b. buf_endStreamPos b \<le> x) bs). x < buf_endStreamPos b"
  by (induction bs arbitrary: p) (auto simp: not_le dest: ends_increase)

lemma contiguous_suffix: "contiguous p bs e \<Longrightarrow> \<exists>m. contiguous m (dropWhile P bs) e"
  by (induction bs arbitrary: p) auto

lemma send_pop_spec:
  assumes "stream_inv S q"
  shows "case SendQueuePopCompleteBuffers q of (done, q') \<Rightarrow>
           buffers q = done @ buffers q' \<and> stream_inv S q' \<and>
           (\<forall>b \<in> set done. buf_endStreamPos b \<le> sc_ackStreamPos q) \<and>
           (\<forall>b \<in> set (buffers q'). sc_ackStreamPos q < buf_endStreamPos b)"
proof -
  let ?P = "\<lambda>b. buf_endStreamPos b \<le> sc_ackStreamPos q"
  have inv: "buffers_inv S (sc_streamPos q) q" and le: "sc_ackStreamPos q \<le> sc_streamPos q"
    using assms by (simp_all add: stream_inv_def blocks_inv_def)
  have cur: "\<forall>b \<in> set (buffers q). curr q = BufferAt (buf_base b) \<longrightarrow> sc_ackStreamPos q < buf_endStreamPos b"
  proof (cases "unSendLength q = 0")
    case True
    then show ?thesis using inv by (simp add: buffers_inv_def)
  next
    case False
    then obtain us b vs where b: "buffers q = us @ b # vs" "curr q = BufferAt (buf_base b)" "sc_streamPos q < buf_endStreamPos b"
      using inv by (auto simp: buffers_inv_def)
    have "c = b" if "c \<in> set (buffers q)" "buf_base c = buf_base b" for c
    proof -
      have "inj_on buf_base (set (buffers q))"
        using inv by (simp add: buffers_inv_def distinct_map)
      moreover have "b \<in> set (buffers q)" using b(1) by simp
      ultimately show ?thesis using that by (auto dest: inj_onD)
    qed
    then show ?thesis using b(2,3) le by auto
  qed
  obtain p where p: "contiguous p (buffers q) (sb_streamPos q)" "list_all (buffer_ok S) (buffers q)"
    using inv by (auto simp: buffers_inv_def)
  let ?q = "q\<lparr>buffers := dropWhile ?P (buffers q)\<rparr>"
  have sub: "set (dropWhile ?P (buffers q)) \<subseteq> set (buffers q)"
    by (auto dest: set_dropWhileD)
  have "\<exists>us b vs. dropWhile ?P (buffers q) = us @ b # vs \<and> curr q = BufferAt (buf_base b) \<and>
      buf_offsetStreamPos b = sc_streamPos q \<and> sc_streamPos q < buf_endStreamPos b \<and>
      (\<forall>v \<in> set vs. buf_offsetStreamPos v = buf_startStreamPos v)" if more: "unSendLength q \<noteq> 0"
  proof -
    obtain us b vs where b: "buffers q = us @ b # vs" "curr q = BufferAt (buf_base b)"
        "buf_offsetStreamPos b = sc_streamPos q" "sc_streamPos q < buf_endStreamPos b"
        "\<forall>v \<in> set vs. buf_offsetStreamPos v = buf_startStreamPos v"
      using curr_buffer [OF inv more] by blast
    have "\<not> ?P b" using b(4) le by auto
    then have "dropWhile ?P (us @ b # vs) = dropWhile ?P us @ b # vs"
      by (induction us) auto
    then show ?thesis using b by auto
  qed
  moreover have "distinct (map buf_base (dropWhile ?P (buffers q)))"
    using inv by (simp add: buffers_inv_def distinct_map inj_on_subset [OF _ sub])
  moreover have "list_all (buffer_ok S) (dropWhile ?P (buffers q))"
    using p(2) sub by (auto simp: list_all_iff)
  ultimately have "buffers_inv S (sc_streamPos q) ?q"
    using inv contiguous_suffix [OF p(1)] sub by (auto simp: buffers_inv_def)
  then have "stream_inv S ?q"
    using assms by (simp add: stream_inv_def blocks_inv_def)
  then show ?thesis
    using rest_open [OF p] pop_complete_split [OF cur]
    by (auto simp: SendQueuePopCompleteBuffers_def dest: set_takeWhileD)
qed

text \<open>
  Completed buffers are handed back in order, each exactly when all its bytes are
  acknowledged, and the invariant is kept, as long as the peer acknowledges sent bytes only.
\<close>

lemma pop_complete_correct:
  assumes "stream_inv S q"
  shows "case SendQueuePopCompleteBuffers q of (done, q') \<Rightarrow>
           buffers q = done @ buffers q' \<and> stream_inv S q' \<and>
           (\<forall>b \<in> set done. buf_endStreamPos b \<le> sc_ackStreamPos q) \<and>
           (\<forall>b \<in> set (buffers q'). sc_ackStreamPos q < buf_endStreamPos b)"
  by (rule send_pop_spec [OF assms])

section \<open>A queue in the middle of a transfer\<close>

text \<open>
  The queue from which the properties are exercised: the stream is the bytes 1, 2, 3, \<dots> from
  position 1 on, seven bytes were handed over, the first two are in flight, the next two lost.
\<close>

lemma create_inv: "stream_inv S (SendQueueCreate pos mtu)" if "0 < pos"
  by (simp add: stream_inv_def blocks_inv_def buffers_inv_def SendQueueCreate_def apart_def)

definition example_bytes :: "nat \<Rightarrow> u8" where
  "example_bytes i = of_nat i"

definition example_flight :: SendQueueSendBlock where
  "example_flight = \<lparr>startStreamPos = 1, endStreamPos = 3, blockSendTime = 10, blockData = [1, 2, 3, 4, 5, 6, 7]\<rparr>"

definition example_lost :: SendQueueSendBlock where
  "example_lost = \<lparr>startStreamPos = 3, endStreamPos = 5, blockSendTime = 11, blockData = [3, 4, 5, 6, 7]\<rparr>"

definition example_queue :: SendQueue where
  "example_queue = \<lparr>sc_ackStreamPos = 1, sc_streamPos = 5, lostBlocks = [example_lost], lost = 2,
     flightBlocks = [example_flight], flight = 2, latestAckStreamPos = 1, prevDupAckStreamPos = 0, dupAckTimes = 1,
     sb_streamPos = 8, unSendLength = 3, curr = BufferAt 1,
     buffers = [\<lparr>buf_base = 1, buf_data = [1, 2, 3, 4, 5, 6, 7], buf_len = 7, buf_startStreamPos = 1,
                 buf_offsetStreamPos = 5, buf_endStreamPos = 8, buf_callback = 0\<rparr>],
     queue_mtu = 1400, next_base = 2\<rparr>"

lemma example_bytes_at: "bytes_at example_bytes k n bs \<longleftrightarrow> n \<le> length bs \<and> list_all (\<lambda>i. bs ! i = of_nat (k + i)) [0..<n]"
  by (auto simp: bytes_at_def example_bytes_def list_all_iff)

lemma example_inv: "stream_inv example_bytes example_queue"
proof -
  have "blocks_inv example_queue"
    by (simp add: blocks_inv_def example_queue_def example_flight_def example_lost_def block_ok_def block_size_def
        block_size32_def apart_def before_def)
  moreover have "block_bytes example_bytes example_flight" "block_bytes example_bytes example_lost"
    by (simp_all add: block_bytes_def example_bytes_at block_size_def example_flight_def example_lost_def upt_rec)
  moreover have "buffers_inv example_bytes 5 example_queue"
    by (simp add: buffers_inv_def example_queue_def buffer_ok_def example_bytes_at upt_rec)
      (rule exI [of _ "[]"], simp)
  ultimately show ?thesis
    by (simp add: stream_inv_def) (simp add: example_queue_def)
qed

lemma example_facts:
  "blocks_inv example_queue" "3 \<le> sc_streamPos example_queue" "sack_ok None" "queue_mtu example_queue \<noteq> 0"
  "nat_sizes (flightBlocks example_queue) < 2 ^ 32" "bytes_at example_bytes (unat (sb_streamPos example_queue)) (unat (2 :: u64)) [8, 9]"
  "unat (sb_streamPos example_queue) + unat (2 :: u64) < 2 ^ 64"
  using example_inv
  by (simp_all add: stream_inv_def sack_ok_def example_bytes_at upt_rec)
    (simp_all add: example_queue_def example_flight_def block_size_def)

theorem confirm_range_frees_acked_witness:
  "\<exists>r acked q' gone. SendQueueConfirmRange 3 None example_queue = Some (r, acked, q') \<and>
     kept q' + mset gone = kept example_queue \<and> acked = sizes32 gone \<and>
     (\<forall>b \<in> set gone. acked_by (max 3 (sc_ackStreamPos example_queue)) None b)"
  by (rule confirm_range_frees_acked [OF example_facts(1-3)])

lemma confirm_range_inv_witness:
  "\<exists>r acked q'. SendQueueConfirmRange 3 None example_queue = Some (r, acked, q') \<and> stream_inv example_bytes q' \<and>
     sc_ackStreamPos q' = 3"
proof -
  obtain r acked q' where c: "SendQueueConfirmRange 3 None example_queue = Some (r, acked, q')"
    using confirm_spec [OF example_facts(1-3)] by blast
  have "max 3 (sc_ackStreamPos example_queue) = 3"
    by (simp add: example_queue_def)
  then show ?thesis
    using confirm_range_inv [OF example_inv example_facts(2,3) c] c by simp
qed

theorem fill_payload_correct_witness:
  "\<exists>r out q'. SendQueueFillPayload 50 example_queue = Some (r, out, q') \<and> stream_inv example_bytes q' \<and>
     out = filled_from example_lost"
  using fill_payload_correct [OF example_inv example_facts(4), where now = 50] by (auto simp: example_queue_def)

lemma fill_from_old_correct_witness:
  "stream_inv example_bytes (snd (snd (SendQueueFillPayloadFromOld 50
     \<lparr>f_streamPos = 0, f_payload = None, f_length = 100\<rparr> example_queue)))"
  using fill_from_old_correct [OF example_inv, where now = 50
      and out = "\<lparr>f_streamPos = 0, f_payload = None, f_length = 100\<rparr>"]
  by (auto split: prod.splits)

lemma fill_from_new_correct_witness:
  "\<exists>out' q'. SendQueueFillPayloadFromNew 50 True \<lparr>f_streamPos = 0, f_payload = None, f_length = 2\<rparr> example_queue =
     Some (BFX_RESULT_SUCCESS, out', q') \<and> stream_inv example_bytes q' \<and> carries example_bytes out' \<and> f_length out' \<le> 2"
proof -
  have "unSendLength example_queue \<noteq> 0" by (simp add: example_queue_def)
  then show ?thesis
    using fill_from_new_correct [OF example_inv, where now = 50
        and out = "\<lparr>f_streamPos = 0, f_payload = None, f_length = 2\<rparr>"] by auto
qed

lemma add_buffer_correct_witness:
  "case SendQueueAddBuffer (Some [8, 9]) 2 (Some 0) example_queue of (r, q') \<Rightarrow>
     stream_inv example_bytes q' \<and> r = BFX_RESULT_PENDING"
proof -
  have "0 < unSendLength example_queue" by (simp add: example_queue_def)
  then show ?thesis
    using add_buffer_correct [OF example_inv example_facts(6,7), where cb = 0] by (auto split: prod.splits)
qed

lemma mark_timeout_correct_witness:
  "\<exists>n q'. SendQueueMarkRangeTimeout True 0 60 example_queue = Some (n, q') \<and> stream_inv example_bytes q' \<and>
     kept q' = kept example_queue \<and> flightBlocks q' = []"
  using mark_timeout_correct [OF example_inv example_facts(5), where force = True and rto = 0 and now = 60] by (auto simp: timed_out_def)

lemma pop_complete_correct_witness:
  "case SendQueuePopCompleteBuffers example_queue of (done, q') \<Rightarrow>
     buffers example_queue = done @ buffers q' \<and> stream_inv example_bytes q'"
  using pop_complete_correct [OF example_inv] by (auto split: prod.splits)

text \<open>A buffer of three bytes, none of them sent, and an acknowledgement of all three.\<close>

definition overacked :: "SendQueue option" where
  "overacked =
     map_option (\<lambda>(r, acked, q). snd (SendQueuePopCompleteBuffers q))
       (SendQueueConfirmRange 4 None (snd (SendQueueAddBuffer (Some [1, 2, 3]) 3 (Some 0) (SendQueueCreate 1 1400))))"

text \<open>
  The acknowledged position is not checked against the sent one. After an acknowledgement
  of bytes that were never sent, handing back the completed buffers leaves \<open>curr\<close> pointing at
  the list head of the caller, and the next attempt to send dereferences it.
\<close>

lemma ack_beyond_sent_dangles:
  "case overacked of None \<Rightarrow> False
   | Some q \<Rightarrow> curr q = CallerListHead \<and> unSendLength q = 3 \<and> SendQueueGenerateBlock 10 q = None"
  by (simp add: overacked_def SendQueueConfirmRange_def SendQueueAddBuffer_def SendQueueCreate_def Let_def
      note_ack_def confirm_loop.simps SendQueuePopCompleteBuffers_def SendQueueGenerateBlock_def)

end
