(* ===== verification/SessionTypes.thy ===== *)
theory SessionTypes
  imports SendQueueFacts
begin

text \<open>
  What the decoder of session data packages guarantees to the queues behind it: every package it
  accepts is well formed, whatever bytes have arrived. A position that has passed through 48 bits
  leaves room for a length of 32 bits, so the ends of the ranges do not wrap, and the array of
  ranges is terminated, so the walk over it in the send queue stays inside.
\<close>

section \<open>Well-formed packages\<close>

definition range_fits :: "BdtStreamRange \<Rightarrow> bool" where
  "range_fits r \<longleftrightarrow> fits48 (range_pos r) \<and>
     unat (range_pos r + ucast (range_length r)) = unat (range_pos r) + unat (range_length r)"

definition sack_typed :: "BdtStreamRange list option \<Rightarrow> bool" where
  "sack_typed sack \<longleftrightarrow> (case sack of None \<Rightarrow> True
     | Some rs \<Rightarrow> 2 \<le> length rs \<and> length rs \<le> 11 \<and> range_length (last rs) = 0 \<and> list_all range_fits rs)"

definition package_typed :: "Bdt_SessionDataPackage \<Rightarrow> bool" where
  "package_typed p \<longleftrightarrow>
     fits48 (streamPos p) \<and> fits48 (ackStreamPos p) \<and>
     (\<forall>i. packageIDPart p = Some i \<longrightarrow> fits48 (totalRecv i)) \<and> sack_typed (sackArray p) \<and>
     (case payload p of None \<Rightarrow> payloadLength p = 0
      | Some bs \<Rightarrow> 0 < payloadLength p \<and> length bs = unat (payloadLength p))"

text \<open>The optional parts are there exactly if their flags are set.\<close>

definition parts_flagged :: "Bdt_SessionDataPackage \<Rightarrow> bool" where
  "parts_flagged p \<longleftrightarrow>
     (synPart p \<noteq> None) = has_flag (cmdflags p) BDT_SESSIONDATA_PACKAGE_FLAG_SYN \<and>
     (packageIDPart p \<noteq> None) = (has_flag (cmdflags p) BDT_SESSIONDATA_PACKAGE_FLAG_PACKAGEID \<or>
        has_flag (cmdflags p) BDT_SESSIONDATA_PACKAGE_FLAG_ACK_PACKAGEID) \<and>
     (sackArray p \<noteq> None) = has_flag (cmdflags p) BDT_SESSIONDATA_PACKAGE_FLAG_SACK \<and>
     (payload p \<noteq> None) = has_flag (cmdflags p) BDT_SESSIONDATA_PACKAGE_FLAG_PAYLOAD"

section \<open>What the readers return\<close>

lemma fits48_mask: "fits48 (v AND 0x0000ffffffffffff)"
proof -
  have "v AND mask 48 < 2 ^ 48" by (rule and_mask_less') simp
  moreover have "(mask 48 :: u64) = 0x0000ffffffffffff" by (simp add: mask_eq_exp_minus_1)
  ultimately show ?thesis unfolding fits48_def by simp
qed

lemma range_fitsI: "fits48 (range_pos r) \<Longrightarrow> range_fits r"
proof -
  assume f: "fits48 (range_pos r)"
  then have "unat (range_pos r) < 2 ^ 48" by (simp add: fits48_def word_less_unat)
  moreover have "unat (ucast (range_length r) :: u64) < 2 ^ 32" using unat_lt32 [of "range_length r"] by simp
  ultimately have "unat (range_pos r) + unat (ucast (range_length r) :: u64) < 2 ^ LENGTH(64)" by simp
  then show ?thesis using f by (simp add: range_fits_def unat_add_no_overflow)
qed

lemma read48_fits: "BfxBufferReadUInt48 s = Some (n, v, s') \<Longrightarrow> fits48 v"
  by (auto simp: BfxBufferReadUInt48_def fits48_mask split: if_splits Option.bind_splits)

lemma read48_keeps: "BfxBufferReadUInt48 s = Some (n, v, s') \<Longrightarrow> stream_buffer s' = stream_buffer s \<and> stream_length s' = stream_length s"
  by (auto simp: BfxBufferReadUInt48_def split: if_splits Option.bind_splits)

lemma decode_range_fits: "DecodeSackRange s = Some (n, r, s') \<Longrightarrow> range_fits r"
  by (auto simp: DecodeSackRange_def split: Option.bind_splits dest!: read48_fits intro!: range_fitsI)

lemma read_ranges_fit:
  "read_list DecodeSackRange k s = Some (n, rs, s') \<Longrightarrow> length rs = k \<and> list_all range_fits rs"
  by (induction k arbitrary: n rs s) (auto split: Option.bind_splits dest!: decode_range_fits)

lemma decode_sack_typed: "DecodeSackArray s = Some (n, sack, s') \<Longrightarrow> sack_typed sack"
proof -
  have zero: "range_fits \<lparr>range_pos = 0, range_length = 0\<rparr>" by (intro range_fitsI) (simp add: fits48_def)
  have pos: "c \<noteq> 0 \<Longrightarrow> 1 \<le> unat c" for c :: u8 by (simp add: Suc_le_eq unat_gt_0)
  show "DecodeSackArray s = Some (n, sack, s') \<Longrightarrow> ?thesis"
    by (auto simp: DecodeSackArray_def sack_typed_def zero split: Option.bind_splits if_splits dest!: read_ranges_fit pos)
qed

lemma decode_id_fits: "DecodePackageIdPart s = Some (n, i, s') \<Longrightarrow> fits48 (totalRecv i)"
  by (auto simp: DecodePackageIdPart_def split: Option.bind_splits dest!: read48_fits)

text \<open>A reader moves the position only.\<close>

lemma skip_keeps [simp]: "stream_buffer (skip n s) = stream_buffer s" "stream_length (skip n s) = stream_length s"
  by (simp_all add: skip_def)

lemma payload_length:
  assumes "BfxBufferStreamSetPos (pos + n) s = Some s'" and "stream_length s \<le> length (stream_buffer s)"
  shows "length (take n (drop pos (stream_buffer s))) = n"
  using assms by (auto simp: BfxBufferStreamSetPos_def split: if_splits)


lemma read_if_fits:
  "read_if c old BfxBufferReadUInt48 s = Some (n, v, s') \<Longrightarrow> fits48 old \<Longrightarrow> fits48 v"
  by (auto simp: read_if_def split: if_splits dest: read48_fits)

lemma read_part_present:
  "read_part c None rd s = Some (n, v, s') \<Longrightarrow> (v \<noteq> None) = c"
  by (auto simp: read_part_def split: if_splits Option.bind_splits)

lemma read_id_fits:
  "read_part c None DecodePackageIdPart s = Some (n, v, s') \<Longrightarrow> \<forall>i. v = Some i \<longrightarrow> fits48 (totalRecv i)"
  by (auto simp: read_part_def split: if_splits Option.bind_splits dest!: decode_id_fits)

lemma decode_tail_typed:
  assumes "DecodeSessionTail totallen readlen p s = Some (0, p', s')" and "stream_length s \<le> length (stream_buffer s)"
    and "payload p = None" and "payloadLength p = 0"
  shows "\<exists>to limit time pl len. p' = p\<lparr>toSessionId := to, recvSpeedlimit := limit, sendTime := time, payload := pl, payloadLength := len\<rparr> \<and>
     (pl \<noteq> None) = has_flag (cmdflags p) BDT_SESSIONDATA_PACKAGE_FLAG_PAYLOAD \<and>
     (case pl of None \<Rightarrow> len = 0 | Some bs \<Rightarrow> 0 < len \<and> length bs = unat len)"
proof -
  let ?flags = "cmdflags p"
  obtain n1 to s1 where 1: "read_if (has_flag ?flags BDT_SESSIONDATA_PACKAGE_FLAG_SYN \<and>
      has_flag ?flags BDT_SESSIONDATA_PACKAGE_FLAG_ACK) (toSessionId p) BfxBufferReadUInt32 s = Some (n1, to, s1)"
    using assms(1) by (auto simp: DecodeSessionTail_def Let_def split: Option.bind_splits)
  obtain n2 limit s2 where 2: "read_if (has_flag ?flags BDT_SESSIONDATA_PACKAGE_FLAG_SPEEDLIMIT)
      (recvSpeedlimit p) BfxBufferReadUInt32 s1 = Some (n2, limit, s2)"
    using assms(1) 1 by (auto simp: DecodeSessionTail_def Let_def split: Option.bind_splits)
  obtain n3 time s3 where 3: "read_if (has_flag ?flags BDT_SESSIONDATA_PACKAGE_FLAG_SENDTIME)
      (sendTime p) BfxBufferReadUInt64 s2 = Some (n3, time, s3)"
    using assms(1) 1 2 by (auto simp: DecodeSessionTail_def Let_def split: Option.bind_splits)
  have same: "stream_length s3 \<le> length (stream_buffer s3)"
    using assms(2) 1 2 3 by (auto dest!: reader_steps)
  show ?thesis
  proof (cases "has_flag ?flags BDT_SESSIONDATA_PACKAGE_FLAG_PAYLOAD")
    case False
    then have "p' = p\<lparr>toSessionId := to, recvSpeedlimit := limit, sendTime := time, payload := None, payloadLength := 0\<rparr>"
      using assms(1,3,4) 1 2 3 by (auto simp: DecodeSessionTail_def Let_def)
    then show ?thesis using False by auto
  next
    case True
    let ?len = "totallen - of_nat (readlen + n1 + n2 + n3)"
    let ?bs = "take (unat ?len) (drop (BfxBufferStreamGetPos s3) (stream_buffer s3))"
    have len: "0 < ?len" and pos: "BfxBufferStreamSetPos (BfxBufferStreamGetPos s3 + unat ?len) s3 \<noteq> None"
      and p': "p' = p\<lparr>toSessionId := to, recvSpeedlimit := limit, sendTime := time, payload := Some ?bs, payloadLength := ?len\<rparr>"
      using assms(1) 1 2 3 True by (auto simp: DecodeSessionTail_def Let_def split: if_splits Option.bind_splits)
    obtain t where t: "BfxBufferStreamSetPos (BfxBufferStreamGetPos s3 + unat ?len) s3 = Some t" using pos by blast
    have "length ?bs = unat ?len" by (rule payload_length [OF t same])
    then show ?thesis
      by (intro exI [of _ to] exI [of _ limit] exI [of _ time] exI [of _ "Some ?bs"] exI [of _ ?len] conjI)
        (use p' len True in auto)
  qed
qed

text \<open>
  C26. Every session data package the decoder accepts is well typed, whatever the bytes are: its
  positions fit into 48 bits, a sack array holds one to ten ranges and the terminating one, no end of a
  range wraps, the payload is as long as it says and not empty, and an optional part is there exactly
  if its flag is set. (A package of zero bytes, which the decoder accepts by mistake, is excluded.)
\<close>

theorem decoded_package_typed:
  assumes "DecodeSessionDataPackage Bdt_SessionDataPackageInit totallen s = Some (0, p, s')"
    and "2 \<le> unat totallen" and "stream_length s \<le> length (stream_buffer s)"
  shows "package_typed p \<and> parts_flagged p \<and> sack_ok (sackArray p)"
proof -
  let ?i = Bdt_SessionDataPackageInit
  have init: "synPart ?i = None" "packageIDPart ?i = None" "ackStreamPos ?i = 0" "sackArray ?i = None" "payload ?i = None"
    "payloadLength ?i = 0"
    by (simp_all add: Bdt_SessionDataPackageInit_def)
  have z: "fits48 0" by (simp add: fits48_def)
  have long: "\<not> unat totallen < Bdt_GetPackageMinSize BDT_SESSION_DATA_PACKAGE"
    using assms(2) by (simp add: Bdt_GetPackageMinSize_def)
  obtain n1 flags s1 where 1: "BfxBufferReadUInt16 s = Some (n1, flags, s1)"
    using assms(1) long by (auto simp: DecodeSessionDataPackage_def split: Option.bind_splits)
  obtain n2 sid s2 where 2: "BfxBufferReadUInt32 s1 = Some (n2, sid, s2)"
    using assms(1) long 1 by (auto simp: DecodeSessionDataPackage_def split: Option.bind_splits)
  obtain n3 pos s3 where 3: "BfxBufferReadUInt48 s2 = Some (n3, pos, s3)"
    using assms(1) long 1 2 by (auto simp: DecodeSessionDataPackage_def split: Option.bind_splits)
  obtain n4 syn s4 where 4: "read_part (has_flag flags BDT_SESSIONDATA_PACKAGE_FLAG_SYN) None DecodeSynPart s3 = Some (n4, syn, s4)"
    using assms(1) long 1 2 3 init(1) by (auto simp: DecodeSessionDataPackage_def split: Option.bind_splits)
  obtain n5 pid s5 where 5: "read_part (has_flag flags BDT_SESSIONDATA_PACKAGE_FLAG_PACKAGEID \<or>
      has_flag flags BDT_SESSIONDATA_PACKAGE_FLAG_ACK_PACKAGEID) None DecodePackageIdPart s4 = Some (n5, pid, s5)"
    using assms(1) long 1 2 3 4 init(1,2) by (auto simp: DecodeSessionDataPackage_def split: Option.bind_splits)
  obtain n6 ack s6 where 6: "read_if (has_flag flags BDT_SESSIONDATA_PACKAGE_FLAG_ACK) 0 BfxBufferReadUInt48 s5 = Some (n6, ack, s6)"
    using assms(1) long 1 2 3 4 5 init(1-3) by (auto simp: DecodeSessionDataPackage_def split: Option.bind_splits)
  let ?p = "?i\<lparr>cmdflags := flags, sessionId := sid, streamPos := pos, synPart := syn, packageIDPart := pid, ackStreamPos := ack\<rparr>"
  let ?n = "n1 + n2 + n3 + n4 + n5 + n6"
  have mem: "stream_length s6 \<le> length (stream_buffer s6)"
    using assms(3) 1 2 3 4 5 6 by (auto dest!: reader_steps)
  have fits: "fits48 pos" "fits48 ack" "\<forall>i. pid = Some i \<longrightarrow> fits48 (totalRecv i)"
    using read48_fits [OF 3] read_if_fits [OF 6 z] read_id_fits [OF 5] by simp_all
  note present = read_part_present [OF 4] read_part_present [OF 5]
  have rest: "(if has_flag flags BDT_SESSIONDATA_PACKAGE_FLAG_SACK then do {
          (n7, sack, s) \<leftarrow> DecodeSackArray s6;
          case sack of
            None \<Rightarrow> Some (decode_end totallen (?n + n7) (- 1), ?p, s)
          | Some rs \<Rightarrow> DecodeSessionTail totallen (?n + n7) (?p\<lparr>sackArray := Some rs\<rparr>) s
        } else DecodeSessionTail totallen ?n ?p s6) = Some (0, p, s')"
    using assms(1) long 1 2 3 4 5 6 init(1-3) by (simp add: DecodeSessionDataPackage_def Let_def)
  obtain sack n t where tail: "DecodeSessionTail totallen n (?p\<lparr>sackArray := sack\<rparr>) t = Some (0, p, s')"
    "sack_typed sack" "(sack \<noteq> None) = has_flag flags BDT_SESSIONDATA_PACKAGE_FLAG_SACK"
    "stream_length t \<le> length (stream_buffer t)"
  proof (cases "has_flag flags BDT_SESSIONDATA_PACKAGE_FLAG_SACK")
    case False
    then have "DecodeSessionTail totallen ?n (?p\<lparr>sackArray := None\<rparr>) s6 = Some (0, p, s')"
      using rest by (simp add: Bdt_SessionDataPackageInit_def)
    then show thesis by (rule that) (use False mem in \<open>simp_all add: sack_typed_def\<close>)
  next
    case True
    obtain n7 sack t where 7: "DecodeSackArray s6 = Some (n7, sack, t)"
      using rest True by (auto split: Option.bind_splits)
    obtain rs where rs: "sack = Some rs"
      using rest True 7 by (cases sack) (auto simp: decode_end_def split: if_splits)
    have "DecodeSessionTail totallen (?n + n7) (?p\<lparr>sackArray := sack\<rparr>) t = Some (0, p, s')"
      using rest True 7 rs by simp
    then show thesis
      by (rule that) (use True 7 rs mem decode_sack_typed [OF 7] in \<open>auto dest!: reader_steps\<close>)
  qed
  obtain to limit time pl len where p: "p = ?p\<lparr>sackArray := sack, toSessionId := to, recvSpeedlimit := limit,
      sendTime := time, payload := pl, payloadLength := len\<rparr>"
    "(pl \<noteq> None) = has_flag flags BDT_SESSIONDATA_PACKAGE_FLAG_PAYLOAD"
    "case pl of None \<Rightarrow> len = 0 | Some bs \<Rightarrow> 0 < len \<and> length bs = unat len"
    using decode_tail_typed [OF tail(1,4)] init(5,6) by auto
  have "sack_ok sack"
  proof (cases sack)
    case (Some rs)
    then have "rs \<noteq> []" "range_length (last rs) = 0" using tail(2) by (auto simp: sack_typed_def)
    then have "\<exists>r\<in>set rs. range_length r = 0" by (metis last_in_set)
    then show ?thesis by (auto simp: Some sack_ok_def sack_ranges_def takeWhile_eq_all_conv)
  qed (simp add: sack_ok_def)
  then show ?thesis
    using fits present tail(2,3) p(2,3) by (cases pl) (simp_all add: p(1) package_typed_def parts_flagged_def)
qed

theorem decoded_package_typed_witness:
  "package_typed (Bdt_SessionDataPackageInit\<lparr>sessionId := 7, streamPos := 9\<rparr>)"
proof -
  have "DecodeSessionDataPackage Bdt_SessionDataPackageInit 12 example_frame =
      Some (0, Bdt_SessionDataPackageInit\<lparr>sessionId := 7, streamPos := 9\<rparr>, skip 12 example_frame)"
    by code_simp
  from decoded_package_typed [OF this] show ?thesis by (simp add: example_frame_def)
qed

end
