(* ===== verification/RecvQueue.thy ===== *)
theory RecvQueue
  imports SessionData
begin

text \<open>
  The receive side of a package connection,
  \<^verbatim>\<open>BDTCore/Connection/PackageConnection/RecvQueue.imp.inl\<close>: which bytes of the stream have
  arrived (\<open>ackStreamPos\<close> and the out-of-order \<open>blocks\<close>), and the buffers of the
  application they are copied into.

  Lists are HOL lists of their items, as in the send queue. A block carries its address,
  because \<open>latest\<close> points at one. A receive buffer carries the address of its memory, which
  \<open>RecvQueueAddBuffer\<close> compares, and the memory itself. \<open>None\<close> is a failed assertion, a
  null dereference, or a copy that leaves the memory it may touch.
\<close>

section \<open>State\<close>

record RecvQueueRecvBlock =
  rblk_base :: nat
  rblk_start :: u64
  rblk_end :: u64

record RecvQueueRecvBuffer =
  rbuf_data :: nat
  rbuf_mem :: "u8 list"
  rbuf_len :: u64
  rbuf_startStreamPos :: u64
  rbuf_endStreamPos :: u64
  rbuf_callback :: nat

record RecvQueue =
  rq_ackStreamPos :: u64
  latest :: "nat option"
  blocks :: "RecvQueueRecvBlock list"
  readStreamPos :: u64
  rs_endStreamPos :: u64
  rbuffers :: "RecvQueueRecvBuffer list"
  rq_next_base :: nat

datatype RecvBlockRelativePos =
  RECV_BLOCK_RELATIVE_POS_NONE |
  RECV_BLOCK_RELATIVE_POS_PREV | RECV_BLOCK_RELATIVE_POS_INTERSECT |
  RECV_BLOCK_RELATIVE_POS_INCLUDE | RECV_BLOCK_RELATIVE_POS_NEXT

datatype RecvPackageType =
  RECV_PACKAGE_TYPE_NONE | RECV_PACKAGE_TYPE_OLD | RECV_PACKAGE_TYPE_OUT_OF_BUFFER |
  RECV_PACKAGE_TYPE_IN_ORDER | RECV_PACKAGE_TYPE_LOST_ORDER | RECV_PACKAGE_TYPE_PART

definition RecvQueueCreate :: "u64 \<Rightarrow> RecvQueue" where
  "RecvQueueCreate pos =
     \<lparr>rq_ackStreamPos = pos, latest = None, blocks = [], readStreamPos = pos, rs_endStreamPos = pos,
      rbuffers = [], rq_next_base = 1\<rparr>"

section \<open>Comparing two ranges\<close>

definition HelpRecvQueueMax :: "u64 \<Rightarrow> u64 \<Rightarrow> u64" where
  "HelpRecvQueueMax left right = (if left > right then left else right)"

definition HelpRecvQueueMin :: "u64 \<Rightarrow> u64 \<Rightarrow> u64" where
  "HelpRecvQueueMin left right = (if left > right then right else left)"

text \<open>The two blocks are given by their ends; \<open>s\<close>, \<open>e\<close> are those of the base block.\<close>

definition RecvQueueRecvBlockCalcRelaPos :: "u64 \<Rightarrow> u64 \<Rightarrow> u64 \<Rightarrow> u64 \<Rightarrow> RecvBlockRelativePos option" where
  "RecvQueueRecvBlockCalcRelaPos s e os oe =
     (let maxOffset = HelpRecvQueueMax e oe - HelpRecvQueueMin s os;
          totallen = e - s + oe - os;
          maxLen = HelpRecvQueueMax (e - s) (oe - os)
      in if \<not> maxOffset \<ge> maxLen then None
         else if maxOffset \<le> totallen then
           Some (if maxOffset = maxLen then RECV_BLOCK_RELATIVE_POS_INCLUDE else RECV_BLOCK_RELATIVE_POS_INTERSECT)
         else Some (if os < s then RECV_BLOCK_RELATIVE_POS_PREV else RECV_BLOCK_RELATIVE_POS_NEXT))"

definition touches :: "RecvBlockRelativePos \<Rightarrow> bool" where
  "touches p \<longleftrightarrow> p = RECV_BLOCK_RELATIVE_POS_INCLUDE \<or> p = RECV_BLOCK_RELATIVE_POS_INTERSECT"

section \<open>The out-of-order blocks\<close>

definition RecvQueueDeleteBlock :: "nat \<Rightarrow> RecvQueue \<Rightarrow> RecvQueue" where
  "RecvQueueDeleteBlock a q =
     q\<lparr>latest := (if latest q = Some a then None else latest q),
       blocks := filter (\<lambda>b. rblk_base b \<noteq> a) (blocks q)\<rparr>"

definition RecvQueueRecvBlockNew :: "u64 \<Rightarrow> u64 \<Rightarrow> RecvQueue \<Rightarrow> RecvQueueRecvBlock \<times> RecvQueue" where
  "RecvQueueRecvBlockNew s e q =
     (\<lparr>rblk_base = rq_next_base q, rblk_start = s, rblk_end = e\<rparr>, q\<lparr>rq_next_base := rq_next_base q + 1\<rparr>)"

text \<open>
  \<open>RecvQueueBlocksMerge\<close> walks away from the block in both directions, as long as the
  neighbour touches it. The blocks in front of it are given in reverse order, nearest first.
  The result is the merged block, the remaining neighbours and whether \<open>latest\<close> was deleted.
\<close>

fun merge_neighbours :: "nat option \<Rightarrow> RecvQueueRecvBlock \<Rightarrow> RecvQueueRecvBlock list \<Rightarrow>
    (RecvQueueRecvBlock \<times> RecvQueueRecvBlock list \<times> nat option) option" where
  "merge_neighbours lat b [] = Some (b, [], lat)"
| "merge_neighbours lat b (n # ns) = do {
     p \<leftarrow> RecvQueueRecvBlockCalcRelaPos (rblk_start b) (rblk_end b) (rblk_start n) (rblk_end n);
     if touches p
     then merge_neighbours (if lat = Some (rblk_base n) then None else lat)
            (b\<lparr>rblk_start := HelpRecvQueueMin (rblk_start b) (rblk_start n),
               rblk_end := HelpRecvQueueMax (rblk_end b) (rblk_end n)\<rparr>) ns
     else Some (b, n # ns, lat)
   }"

definition RecvQueueBlocksMerge :: "RecvQueueRecvBlock list \<Rightarrow> RecvQueueRecvBlock \<Rightarrow> RecvQueueRecvBlock list \<Rightarrow>
    RecvQueue \<Rightarrow> RecvQueue option" where
  "RecvQueueBlocksMerge front b behind q = do {
     (b, behind, lat) \<leftarrow> merge_neighbours (latest q) b behind;
     (b, front, lat) \<leftarrow> merge_neighbours lat b (rev front);
     Some (q\<lparr>blocks := rev front @ b # behind, latest := lat\<rparr>)
   }"

text \<open>
  The loop of \<open>RecvQueueAddToBlocks\<close>, from the current block on: \<open>front\<close> are the blocks in
  front of it, \<open>hasPrev\<close> tells whether \<open>prevBlock\<close> is set. The result is whether the range
  was old. (On \<open>RECV_BLOCK_RELATIVE_POS_NONE\<close>, which the comparison never returns, the code would
  loop on the same block for ever; that is \<open>None\<close> too.)
\<close>

fun add_to_blocks_loop :: "u64 \<Rightarrow> u64 \<Rightarrow> bool \<Rightarrow> RecvQueueRecvBlock list \<Rightarrow> RecvQueueRecvBlock list \<Rightarrow>
    RecvQueue \<Rightarrow> (bool \<times> RecvQueue) option" where
  "add_to_blocks_loop s e hasPrev front [] q =
     (let (new, q) = RecvQueueRecvBlockNew s e q
      in Some (False, q\<lparr>latest := Some (rblk_base new), blocks := front @ [new]\<rparr>))"
| "add_to_blocks_loop s e hasPrev front (b # bs) q = do {
     p \<leftarrow> RecvQueueRecvBlockCalcRelaPos (rblk_start b) (rblk_end b) s e;
     case p of
       RECV_BLOCK_RELATIVE_POS_INCLUDE \<Rightarrow>
         if s \<ge> rblk_start b \<and> e \<le> rblk_end b then Some (True, q)
         else map_option (Pair False)
                (RecvQueueBlocksMerge front
                   (b\<lparr>rblk_start := HelpRecvQueueMin s (rblk_start b), rblk_end := HelpRecvQueueMax e (rblk_end b)\<rparr>) bs
                   (q\<lparr>latest := Some (rblk_base b)\<rparr>))
     | RECV_BLOCK_RELATIVE_POS_INTERSECT \<Rightarrow>
         map_option (Pair False)
           (RecvQueueBlocksMerge front
              (b\<lparr>rblk_start := HelpRecvQueueMin s (rblk_start b), rblk_end := HelpRecvQueueMax e (rblk_end b)\<rparr>) bs q)
     | RECV_BLOCK_RELATIVE_POS_NEXT \<Rightarrow> add_to_blocks_loop s e True (front @ [b]) bs q
     | RECV_BLOCK_RELATIVE_POS_PREV \<Rightarrow>
         let (new, q) = RecvQueueRecvBlockNew s e q;
             q = q\<lparr>latest := Some (rblk_base new)\<rparr>
         in if \<not> hasPrev then Some (False, q\<lparr>blocks := new # front @ b # bs\<rparr>)
            else Some (False, q\<lparr>blocks := front @ new # b # bs\<rparr>)
     | RECV_BLOCK_RELATIVE_POS_NONE \<Rightarrow> None
   }"

definition block_at :: "nat option \<Rightarrow> RecvQueueRecvBlock list \<Rightarrow> RecvQueueRecvBlock option" where
  "block_at a bs = (case a of None \<Rightarrow> None | Some x \<Rightarrow> find (\<lambda>b. rblk_base b = x) bs)"

text \<open>
  The starting block is \<open>latest\<close>, or the first one when there is none or the range ends
  before it.
\<close>

definition RecvQueueAddToBlocks :: "u64 \<Rightarrow> u64 \<Rightarrow> RecvQueue \<Rightarrow> (bool \<times> RecvQueue) option" where
  "RecvQueueAddToBlocks s e q =
     (if blocks q = [] then
        let (new, q) = RecvQueueRecvBlockNew s e q
        in Some (False, q\<lparr>latest := Some (rblk_base new), blocks := [new]\<rparr>)
      else if latest q = None then add_to_blocks_loop s e False [] (blocks q) q
      else do {
        l \<leftarrow> block_at (latest q) (blocks q);
        if e < rblk_start l then add_to_blocks_loop s e False [] (blocks q) q
        else add_to_blocks_loop s e False (takeWhile (\<lambda>b. rblk_base b \<noteq> rblk_base l) (blocks q))
               (dropWhile (\<lambda>b. rblk_base b \<noteq> rblk_base l) (blocks q)) q
      })"

definition RecvQueueUpdateStreamPos :: "u64 \<Rightarrow> u64 \<Rightarrow> RecvQueue \<Rightarrow> (RecvPackageType \<times> RecvQueue) option" where
  "RecvQueueUpdateStreamPos s e q =
     (if e \<le> rq_ackStreamPos q then Some (RECV_PACKAGE_TYPE_OLD, q)
      else if s \<le> rq_ackStreamPos q then
        let q = q\<lparr>rq_ackStreamPos := e\<rparr>
        in case blocks q of
             [] \<Rightarrow> Some (RECV_PACKAGE_TYPE_IN_ORDER, q)
           | b # _ \<Rightarrow> do {
               p \<leftarrow> RecvQueueRecvBlockCalcRelaPos (rblk_start b) (rblk_end b) s e;
               if touches p
               then Some (RECV_PACKAGE_TYPE_IN_ORDER,
                      RecvQueueDeleteBlock (rblk_base b)
                        (q\<lparr>rq_ackStreamPos := HelpRecvQueueMax (rq_ackStreamPos q) (rblk_end b)\<rparr>))
               else Some (RECV_PACKAGE_TYPE_IN_ORDER, q)
             }
      else do {
        (old, q) \<leftarrow> RecvQueueAddToBlocks s e q;
        Some (if old then RECV_PACKAGE_TYPE_OLD else RECV_PACKAGE_TYPE_LOST_ORDER, q)
      })"

section \<open>Copying the payload\<close>

text \<open>
  The search of \<open>RecvQueueSavePayload\<close> for the buffer in which \<open>pos\<close> lies: the buffers
  passed, the position at which the found one begins, and the rest from it on.
\<close>

fun find_buffer :: "u64 \<Rightarrow> u64 \<Rightarrow> RecvQueueRecvBuffer list \<Rightarrow>
    RecvQueueRecvBuffer list \<times> u64 \<times> RecvQueueRecvBuffer list" where
  "find_buffer pos begin [] = ([], begin, [])"
| "find_buffer pos begin (b # bs) =
     (if pos \<ge> begin \<and> pos < begin + rbuf_len b then ([], begin, b # bs)
      else let (us, begin, rest) = find_buffer pos (begin + rbuf_len b) bs in (b # us, begin, rest))"

text \<open>
  The copy loop: \<open>bytes\<close> is what is left of the payload (\<open>data + save\<close>, \<open>len\<close> bytes);
  the result is the number of bytes copied, the buffers, and the end of the received data.
\<close>

fun copy_loop :: "u64 \<Rightarrow> u64 \<Rightarrow> u8 list \<Rightarrow> u64 \<Rightarrow> RecvQueueRecvBuffer list \<Rightarrow>
    (nat \<times> u64 \<times> RecvQueueRecvBuffer list) option" where
  "copy_loop pos begin bytes endPos [] = Some (0, endPos, [])"
| "copy_loop pos begin bytes endPos (b # bs) =
     (if bytes = [] then Some (0, endPos, b # bs)
      else
        let len = of_nat (length bytes);
            left = rbuf_len b - (pos - begin);
            n = unat (if len > left then left else len);
            at = unat (pos - begin);
            pos' = pos + of_nat n;
            bytes' = drop n bytes;
            bufEnd = (if rbuf_endStreamPos b < pos' then pos' else rbuf_endStreamPos b);
            endPos = (if endPos < bufEnd then bufEnd else endPos);
            begin' = begin + rbuf_len b
        in do {
          mem \<leftarrow> mem_store at (take n bytes) (rbuf_mem b);
          if \<not> bufEnd \<le> begin + rbuf_len b
             \<or> \<not> ((bytes' \<noteq> [] \<and> pos' = begin') \<or> (bytes' = [] \<and> pos' \<le> begin')) then None
          else do {
            (m, endPos, bs) \<leftarrow> copy_loop pos' begin' bytes' endPos bs;
            Some (n + m, endPos, b\<lparr>rbuf_mem := mem, rbuf_endStreamPos := bufEnd\<rparr> # bs)
          }
        })"

definition RecvQueueSavePayload :: "u64 \<Rightarrow> u8 list \<Rightarrow> RecvQueue \<Rightarrow> (nat \<times> RecvQueue) option" where
  "RecvQueueSavePayload pos bytes q =
     (let old = (if pos < readStreamPos q then unat (readStreamPos q - pos) else 0)
      in if pos < readStreamPos q \<and> \<not> old < length bytes then Some (length bytes, q)
         else
           let pos = pos + of_nat old;
               (us, begin, rest) = find_buffer pos (readStreamPos q) (rbuffers q)
           in if rest = [] then Some (old, q)
              else do {
                (n, endPos, rest) \<leftarrow> copy_loop pos begin (drop old bytes) (rs_endStreamPos q) rest;
                Some (old + n, q\<lparr>rbuffers := us @ rest, rs_endStreamPos := endPos\<rparr>)
              })"

text \<open>
  A package arrives: \<open>payload\<close> are the bytes from the payload pointer on, of which
  \<open>payloadLength\<close> belong to it.
\<close>

definition RecvQueueWriteData :: "u64 \<Rightarrow> u8 list \<Rightarrow> u16 \<Rightarrow> RecvQueue \<Rightarrow> (RecvPackageType \<times> RecvQueue) option" where
  "RecvQueueWriteData pos bytes len q =
     (if pos + ucast len \<le> rq_ackStreamPos q then Some (RECV_PACKAGE_TYPE_OLD, q)
      else if len = 0 then Some (RECV_PACKAGE_TYPE_IN_ORDER, q)
      else if length bytes < unat len then None
      else do {
        (saveLen, q) \<leftarrow> RecvQueueSavePayload pos (take (unat len) bytes) q;
        if saveLen \<noteq> 0 then do {
          (t, q) \<leftarrow> RecvQueueUpdateStreamPos pos (pos + of_nat saveLen) q;
          Some (if saveLen < unat len then RECV_PACKAGE_TYPE_PART else t, q)
        }
        else Some (RECV_PACKAGE_TYPE_OUT_OF_BUFFER, q)
      })"

section \<open>Delivering buffers\<close>

text \<open>The loop of \<open>RecvQueuePopCompleteBuffers\<close>: the buffers notified, the rest, the read position.\<close>

fun pop_received :: "bool \<Rightarrow> u64 \<Rightarrow> u64 \<Rightarrow> u64 \<Rightarrow> RecvQueueRecvBuffer list \<Rightarrow>
    (RecvQueueRecvBuffer list \<times> RecvQueueRecvBuffer list \<times> u64) option" where
  "pop_received force ackPos endPos readPos [] = Some ([], [], readPos)"
| "pop_received force ackPos endPos readPos (b # bs) =
     (if \<not> rbuf_endStreamPos b \<le> endPos then None
      else if (rbuf_endStreamPos b = readPos + rbuf_len b \<and> rbuf_endStreamPos b \<le> ackPos)
              \<or> (force \<and> rbuf_endStreamPos b \<noteq> 0 \<and> endPos \<le> ackPos)
      then do {
        (done, rest, readPos') \<leftarrow> pop_received force ackPos endPos (rbuf_endStreamPos b) bs;
        Some (b\<lparr>rbuf_startStreamPos := readPos\<rparr> # done, rest, readPos')
      }
      else Some ([], b # bs, readPos))"

definition RecvQueuePopCompleteBuffers :: "bool \<Rightarrow> RecvQueue \<Rightarrow> (RecvQueueRecvBuffer list \<times> RecvQueue) option" where
  "RecvQueuePopCompleteBuffers force q = do {
     (done, rest, readPos) \<leftarrow> pop_received force (rq_ackStreamPos q) (rs_endStreamPos q) (readStreamPos q) (rbuffers q);
     Some (done, q\<lparr>rbuffers := rest, readStreamPos := readPos\<rparr>)
   }"

definition RecvQueuePopAllBuffers :: "RecvQueue \<Rightarrow> RecvQueueRecvBuffer list \<times> RecvQueue" where
  "RecvQueuePopAllBuffers q = (rbuffers q, q\<lparr>rbuffers := []\<rparr>)"

definition RecvQueueAddBuffer :: "nat option \<Rightarrow> u8 list \<Rightarrow> u64 \<Rightarrow> nat option \<Rightarrow> RecvQueue \<Rightarrow> u32 \<times> RecvQueue" where
  "RecvQueueAddBuffer data mem len callback q =
     (case (data, callback) of
        (Some d, Some cb) \<Rightarrow>
          if len = 0 then (BFX_RESULT_INVALID_PARAM, q)
          else if find (\<lambda>b. rbuf_data b = d) (rbuffers q) = None
          then (BFX_RESULT_SUCCESS,
                q\<lparr>rbuffers := rbuffers q @ [\<lparr>rbuf_data = d, rbuf_mem = mem, rbuf_len = len, rbuf_startStreamPos = 0,
                                           rbuf_endStreamPos = 0, rbuf_callback = cb\<rparr>]\<rparr>)
          else (BFX_RESULT_ALREADY_EXISTS, q)
      | _ \<Rightarrow> (BFX_RESULT_INVALID_PARAM, q))"

section \<open>Acknowledging\<close>

definition block_range :: "RecvQueueRecvBlock \<Rightarrow> BdtStreamRange" where
  "block_range b = \<lparr>range_pos = rblk_start b, range_length = ucast (rblk_end b - rblk_start b)\<rparr>"

text \<open>
  The loop that fills the sack array: \<open>room\<close> entries are still free; the loop stops one
  before the last to leave room for \<open>latest\<close> when that has not been seen (\<open>seen\<close>).
\<close>

fun sack_loop :: "nat \<Rightarrow> nat option \<Rightarrow> bool \<Rightarrow> RecvQueueRecvBlock list \<Rightarrow> BdtStreamRange list \<times> bool" where
  "sack_loop 0 lat seen bs = ([], seen)"
| "sack_loop (Suc n) lat seen [] = ([], seen)"
| "sack_loop (Suc n) lat seen (b # bs) =
     (let seen = (seen \<or> lat = Some (rblk_base b))
      in if n = 1 \<and> \<not> seen then ([block_range b], seen)
         else let (rs, seen) = sack_loop n lat seen bs in (block_range b # rs, seen))"

text \<open>
  \<open>RecvQueueGetAckInfo\<close> with both pointers given: the position, and the array with its
  terminating entry, which may be more than one since the array is cleared first.
\<close>

definition RecvQueueGetAckInfo :: "RecvQueue \<Rightarrow> (u64 \<times> BdtStreamRange list option) option" where
  "RecvQueueGetAckInfo q =
     (if blocks q = [] then Some (rq_ackStreamPos q, None)
      else
        let count = min (length (blocks q)) PACKAGE_SESSIONDATA_SACK_RANGE_MAX_COUNT;
            (rs, seen) = sack_loop count (latest q) (latest q = None) (blocks q)
        in do {
          rs \<leftarrow> (if seen then Some rs
                else map_option (\<lambda>l. rs @ [block_range l]) (block_at (latest q) (blocks q)));
          Some (rq_ackStreamPos q,
                Some (rs @ replicate (count + 1 - length rs) \<lparr>range_pos = 0, range_length = 0\<rparr>))
        })"

end
