(* ===== verification/RecvQueueFacts.thy ===== *)
theory RecvQueueFacts
  imports RecvQueue SendQueueFacts "HOL-Library.Sublist"
begin

text \<open>
  Correctness of the receive queue. \<open>received q\<close> is the set of stream positions the queue has
  recorded as received: everything below \<open>ackStreamPos\<close> and the out-of-order blocks. The first
  part shows that \<open>RecvQueueUpdateStreamPos\<close> adds exactly the given range to that set while
  the blocks stay sorted, and what the acknowledgement built from it promises. The second part
  follows the bytes: what is copied into the buffers of the application and handed back is the
  stream.
\<close>

section \<open>Two ranges\<close>

lemma help_max [simp]: "HelpRecvQueueMax a b = max a b" and help_min [simp]: "HelpRecvQueueMin a b = min a b"
  by (auto simp: HelpRecvQueueMax_def HelpRecvQueueMin_def max_def min_def)

text \<open>The arithmetic of the comparison, on natural numbers.\<close>

lemma span_ge:
  fixes s e os oe :: nat
  assumes "s < e" and "os < oe"
  shows "max (e - s) (oe - os) \<le> max e oe - min s os"
  using assms by (auto simp: max_def min_def)

lemma span_touch:
  fixes s e os oe :: nat
  assumes "s < e" and "os < oe"
  shows "max e oe - min s os \<le> (e - s) + (oe - os) \<longleftrightarrow> s \<le> oe \<and> os \<le> e"
  using assms by (cases "e \<le> oe"; cases "s \<le> os") (auto simp: max_absorb1 max_absorb2 min_absorb1 min_absorb2)

lemma span_include:
  fixes s e os oe :: nat
  assumes "s < e" and "os < oe"
  shows "max e oe - min s os = max (e - s) (oe - os) \<longleftrightarrow> (s \<le> os \<and> oe \<le> e) \<or> (os \<le> s \<and> e \<le> oe)"
proof (cases "e \<le> oe"; cases "s \<le> os")
  assume "e \<le> oe" "s \<le> os"
  then show ?thesis using assms by (cases "e - s \<le> oe - os") (auto simp: max_absorb1 max_absorb2 min_absorb1 min_absorb2)
next
  assume "\<not> e \<le> oe" "\<not> s \<le> os"
  then show ?thesis using assms by (cases "e - s \<le> oe - os") (auto simp: max_absorb1 max_absorb2 min_absorb1 min_absorb2)
qed (use assms in \<open>auto simp: max_absorb1 max_absorb2 min_absorb1 min_absorb2\<close>)

lemma calc_pos:
  assumes "s < e" and "os < oe" and "unat e < 2 ^ 63" and "unat oe < 2 ^ 63"
  shows "RecvQueueRecvBlockCalcRelaPos s e os oe = Some (
    if s \<le> oe \<and> os \<le> e then
      if (s \<le> os \<and> oe \<le> e) \<or> (os \<le> s \<and> e \<le> oe)
      then RECV_BLOCK_RELATIVE_POS_INCLUDE else RECV_BLOCK_RELATIVE_POS_INTERSECT
    else if os < s then RECV_BLOCK_RELATIVE_POS_PREV else RECV_BLOCK_RELATIVE_POS_NEXT)"
proof -
  have n: "unat s < unat e" "unat os < unat oe"
    using assms(1,2) by (simp_all add: word_to_nat)
  have d: "unat (e - s) = unat e - unat s" "unat (oe - os) = unat oe - unat os"
    using assms(1,2) by simp_all
  have "unat (e - s + oe) = unat (e - s) + unat oe"
    using assms(3,4) d by (intro unat_add_no_overflow) simp
  then have l: "unat (e - s + oe - os) = (unat e - unat s) + (unat oe - unat os)"
    using n d by (subst unat_diff_le) (auto simp: word_le_unat)
  have m: "unat (max e oe - min s os) = max (unat e) (unat oe) - min (unat s) (unat os)"
    using n by (subst unat_diff_le) (auto simp: word_le_unat)
  have x: "unat (max (e - s) (oe - os)) = max (unat e - unat s) (unat oe - unat os)"
    by (simp add: d)
  have "max (e - s) (oe - os) \<le> max e oe - min s os"
    unfolding word_le_unat m x by (rule span_ge [OF n])
  moreover have "max e oe - min s os \<le> e - s + oe - os \<longleftrightarrow> s \<le> oe \<and> os \<le> e"
    unfolding word_le_unat m l by (rule span_touch [OF n])
  moreover have "max e oe - min s os = max (e - s) (oe - os) \<longleftrightarrow> (s \<le> os \<and> oe \<le> e) \<or> (os \<le> s \<and> e \<le> oe)"
    unfolding word_le_unat word_unat_eq_iff m x by (rule span_include [OF n])
  ultimately show ?thesis
    by (simp only: RecvQueueRecvBlockCalcRelaPos_def Let_def help_max help_min not_not simp_thms if_False if_True if_distrib [of Some, symmetric])
qed

section \<open>The received positions\<close>

definition range_of :: "RecvQueueRecvBlock \<Rightarrow> u64 set" where
  "range_of b = {rblk_start b..<rblk_end b}"

definition span :: "RecvQueueRecvBlock list \<Rightarrow> u64 set" where
  "span bs = (\<Union>b\<in>set bs. range_of b)"

definition received :: "RecvQueue \<Rightarrow> u64 set" where
  "received q = {x. x < rq_ackStreamPos q} \<union> span (blocks q)"

definition blk_ok :: "RecvQueueRecvBlock \<Rightarrow> bool" where
  "blk_ok b \<longleftrightarrow> rblk_start b < rblk_end b \<and> unat (rblk_end b) < 2 ^ 63"

definition before_blk :: "RecvQueueRecvBlock \<Rightarrow> RecvQueueRecvBlock \<Rightarrow> bool" where
  "before_blk a b \<longleftrightarrow> rblk_end a < rblk_start b"

definition blocks_ok :: "RecvQueueRecvBlock list \<Rightarrow> bool" where
  "blocks_ok bs \<longleftrightarrow> (\<forall>b\<in>set bs. blk_ok b) \<and> sorted_wrt before_blk bs"

text \<open>
  The invariant of the blocks. They are sorted and never touch one another, \<open>latest\<close> is one of
  them, and no position is in the upper half of the 64 bits, where the comparison of ranges wraps.
\<close>

definition rinv :: "RecvQueue \<Rightarrow> bool" where
  "rinv q \<longleftrightarrow> blocks_ok (blocks q) \<and> distinct (map rblk_base (blocks q)) \<and>
     (\<forall>b\<in>set (blocks q). rblk_base b < rq_next_base q) \<and>
     (\<forall>a. latest q = Some a \<longrightarrow> a \<in> rblk_base ` set (blocks q))"

text \<open>Every block is really out of order: it begins behind the acknowledged position.\<close>

definition canonical :: "RecvQueue \<Rightarrow> bool" where
  "canonical q \<longleftrightarrow> (\<forall>b\<in>set (blocks q). rq_ackStreamPos q < rblk_start b)"

definition same_buffers :: "RecvQueue \<Rightarrow> RecvQueue \<Rightarrow> bool" where
  "same_buffers q r \<longleftrightarrow> readStreamPos r = readStreamPos q \<and> rs_endStreamPos r = rs_endStreamPos q \<and>
     rbuffers r = rbuffers q"

lemma span_simps [simp]:
  "span [] = {}" "span (b # bs) = range_of b \<union> span bs" "span (xs @ ys) = span xs \<union> span ys"
  "span (rev xs) = span xs"
  by (auto simp: span_def)

lemma blocks_ok_simps [simp]:
  "blocks_ok []"
  "blocks_ok (b # bs) \<longleftrightarrow> blk_ok b \<and> (\<forall>c\<in>set bs. before_blk b c) \<and> blocks_ok bs"
  "blocks_ok (xs @ ys) \<longleftrightarrow> blocks_ok xs \<and> blocks_ok ys \<and> (\<forall>a\<in>set xs. \<forall>b\<in>set ys. before_blk a b)"
  by (auto simp: blocks_ok_def sorted_wrt_append)

lemma before_blk_trans: "before_blk a b \<Longrightarrow> blk_ok b \<Longrightarrow> before_blk b c \<Longrightarrow> before_blk a c"
  by (auto simp: before_blk_def blk_ok_def)

lemma calc_blocks:
  assumes "blk_ok b" and "s < e" and "unat e < 2 ^ 63"
  shows "RecvQueueRecvBlockCalcRelaPos (rblk_start b) (rblk_end b) s e = Some (
    if rblk_start b \<le> e \<and> s \<le> rblk_end b then
      if (rblk_start b \<le> s \<and> e \<le> rblk_end b) \<or> (s \<le> rblk_start b \<and> rblk_end b \<le> e)
      then RECV_BLOCK_RELATIVE_POS_INCLUDE else RECV_BLOCK_RELATIVE_POS_INTERSECT
    else if s < rblk_start b then RECV_BLOCK_RELATIVE_POS_PREV else RECV_BLOCK_RELATIVE_POS_NEXT)"
  using assms unfolding blk_ok_def by (intro calc_pos) simp_all

lemma touches_simps [simp]:
  "touches RECV_BLOCK_RELATIVE_POS_INCLUDE" "touches RECV_BLOCK_RELATIVE_POS_INTERSECT"
  "\<not> touches RECV_BLOCK_RELATIVE_POS_PREV" "\<not> touches RECV_BLOCK_RELATIVE_POS_NEXT"
  by (simp_all add: touches_def)

lemma calc_touches:
  assumes "blk_ok b" and "s < e" and "unat e < 2 ^ 63"
  obtains p where "RecvQueueRecvBlockCalcRelaPos (rblk_start b) (rblk_end b) s e = Some p"
    and "touches p \<longleftrightarrow> rblk_start b \<le> e \<and> s \<le> rblk_end b"
  using calc_blocks [OF assms] by (auto split: if_splits)

text \<open>An interval covered by blocks that do not touch lies in one of them.\<close>

lemma covered_in_one:
  assumes bs: "blocks_ok bs" and "s < e" and cov: "{s..<e} \<subseteq> span bs"
  shows "\<exists>b\<in>set bs. rblk_start b \<le> s \<and> e \<le> rblk_end b"
proof -
  have "s \<in> span bs" using cov \<open>s < e\<close> by auto
  then obtain b where b: "b \<in> set bs" "rblk_start b \<le> s" "s < rblk_end b"
    by (auto simp: span_def range_of_def)
  have "e \<le> rblk_end b"
  proof (rule ccontr)
    assume "\<not> e \<le> rblk_end b"
    then have "rblk_end b \<in> {s..<e}" using b by (simp add: less_imp_le)
    then have "rblk_end b \<in> span bs" using cov by blast
    then obtain c where c: "c \<in> set bs" "rblk_start c \<le> rblk_end b" "rblk_end b < rblk_end c"
      by (auto simp: span_def range_of_def)
    obtain us vs where v: "bs = us @ b # vs" using b(1) by (meson split_list)
    then show False using bs b c by (fastforce simp: before_blk_def blk_ok_def)
  qed
  then show ?thesis using b by blast
qed

lemma covered_iff:
  assumes "blocks_ok bs" and "s < e"
  shows "{s..<e} \<subseteq> span bs \<longleftrightarrow> (\<exists>b\<in>set bs. rblk_start b \<le> s \<and> e \<le> rblk_end b)"
proof
  assume "\<exists>b\<in>set bs. rblk_start b \<le> s \<and> e \<le> rblk_end b"
  then obtain b where "b \<in> set bs" and "{s..<e} \<subseteq> range_of b"
    by (auto simp: range_of_def)
  then show "{s..<e} \<subseteq> span bs" by (auto simp: span_def)
qed (rule covered_in_one [OF assms])

section \<open>Merging\<close>

text \<open>The union of two ranges that touch.\<close>

lemma range_union:
  assumes "blk_ok b" and "blk_ok n" and "rblk_start b \<le> rblk_end n" and "rblk_start n \<le> rblk_end b"
  shows "{min (rblk_start b) (rblk_start n)..<max (rblk_end b) (rblk_end n)} = range_of b \<union> range_of n"
  using assms by (auto simp: range_of_def blk_ok_def min_def max_def)

lemma merge_right:
  assumes "blk_ok b" and "blocks_ok ns" and "\<forall>n\<in>set ns. rblk_start b \<le> rblk_start n"
  shows "\<exists>c gone rest lat'. merge_neighbours lat b ns = Some (c, rest, lat') \<and> ns = gone @ rest \<and>
    blk_ok c \<and> rblk_base c = rblk_base b \<and> rblk_start c = rblk_start b \<and>
    range_of c = range_of b \<union> span gone \<and> (\<forall>n\<in>set rest. before_blk c n) \<and>
    lat' = (if \<exists>n\<in>set gone. lat = Some (rblk_base n) then None else lat)"
  using assms
proof (induction ns arbitrary: b lat)
  case Nil
  then show ?case by simp
next
  case (Cons n ns)
  have n: "blk_ok n" "rblk_start b \<le> rblk_start n" using Cons.prems by auto
  then obtain p where p: "RecvQueueRecvBlockCalcRelaPos (rblk_start b) (rblk_end b) (rblk_start n) (rblk_end n) = Some p"
    "touches p \<longleftrightarrow> rblk_start b \<le> rblk_end n \<and> rblk_start n \<le> rblk_end b"
    using calc_touches [OF Cons.prems(1), of "rblk_start n" "rblk_end n"] by (auto simp: blk_ok_def)
  show ?case
  proof (cases "touches p")
    case True
    let ?b = "b\<lparr>rblk_start := min (rblk_start b) (rblk_start n), rblk_end := max (rblk_end b) (rblk_end n)\<rparr>"
    have b: "blk_ok ?b" "rblk_start ?b = rblk_start b"
      using Cons.prems n by (auto simp: blk_ok_def min_def max_def)
    have r: "range_of ?b = range_of b \<union> range_of n"
      using range_union [OF Cons.prems(1) n(1)] True p by (simp add: range_of_def)
    obtain c gone rest lat' where "merge_neighbours (if lat = Some (rblk_base n) then None else lat) ?b ns = Some (c, rest, lat')"
      "ns = gone @ rest" "blk_ok c" "rblk_base c = rblk_base ?b" "rblk_start c = rblk_start ?b"
      "range_of c = range_of ?b \<union> span gone" "\<forall>n\<in>set rest. before_blk c n"
      "lat' = (if \<exists>m\<in>set gone. (if lat = Some (rblk_base n) then None else lat) = Some (rblk_base m) then None
               else if lat = Some (rblk_base n) then None else lat)"
      using Cons.IH [of ?b "if lat = Some (rblk_base n) then None else lat"] Cons.prems b by auto
    then show ?thesis using p True b r
      by (intro exI [of _ c] exI [of _ "n # gone"] exI [of _ rest] exI [of _ lat'])
        (cases "lat = Some (rblk_base n)"; simp add: Un_assoc)
  next
    case False
    then have "\<forall>m\<in>set (n # ns). before_blk b m"
      using p n Cons.prems by (fastforce simp: before_blk_def blk_ok_def)
    then show ?thesis using p False Cons.prems
      by (intro exI [of _ b] exI [of _ "[]"] exI [of _ "n # ns"] exI [of _ lat]) simp
  qed
qed

lemma merge_left:
  assumes "blk_ok b" and "blocks_ok (rev ns)" and "\<forall>n\<in>set ns. rblk_end n \<le> rblk_end b"
  shows "\<exists>c gone rest lat'. merge_neighbours lat b ns = Some (c, rest, lat') \<and> ns = gone @ rest \<and>
    blk_ok c \<and> rblk_base c = rblk_base b \<and> rblk_end c = rblk_end b \<and>
    range_of c = range_of b \<union> span gone \<and> (\<forall>n\<in>set rest. before_blk n c) \<and>
    lat' = (if \<exists>n\<in>set gone. lat = Some (rblk_base n) then None else lat)"
  using assms
proof (induction ns arbitrary: b lat)
  case Nil
  then show ?case by simp
next
  case (Cons n ns)
  have n: "blk_ok n" "rblk_end n \<le> rblk_end b" using Cons.prems by auto
  then obtain p where p: "RecvQueueRecvBlockCalcRelaPos (rblk_start b) (rblk_end b) (rblk_start n) (rblk_end n) = Some p"
    "touches p \<longleftrightarrow> rblk_start b \<le> rblk_end n \<and> rblk_start n \<le> rblk_end b"
    using calc_touches [OF Cons.prems(1), of "rblk_start n" "rblk_end n"] by (auto simp: blk_ok_def)
  show ?case
  proof (cases "touches p")
    case True
    let ?b = "b\<lparr>rblk_start := min (rblk_start b) (rblk_start n), rblk_end := max (rblk_end b) (rblk_end n)\<rparr>"
    have b: "blk_ok ?b" "rblk_end ?b = rblk_end b"
      using Cons.prems n by (auto simp: blk_ok_def min_def max_def)
    have r: "range_of ?b = range_of b \<union> range_of n"
      using range_union [OF Cons.prems(1) n(1)] True p by (simp add: range_of_def)
    obtain c gone rest lat' where "merge_neighbours (if lat = Some (rblk_base n) then None else lat) ?b ns = Some (c, rest, lat')"
      "ns = gone @ rest" "blk_ok c" "rblk_base c = rblk_base ?b" "rblk_end c = rblk_end ?b"
      "range_of c = range_of ?b \<union> span gone" "\<forall>n\<in>set rest. before_blk n c"
      "lat' = (if \<exists>m\<in>set gone. (if lat = Some (rblk_base n) then None else lat) = Some (rblk_base m) then None
               else if lat = Some (rblk_base n) then None else lat)"
      using Cons.IH [of ?b "if lat = Some (rblk_base n) then None else lat"] Cons.prems b by auto
    then show ?thesis using p True b r
      by (intro exI [of _ c] exI [of _ "n # gone"] exI [of _ rest] exI [of _ lat'])
        (cases "lat = Some (rblk_base n)"; simp add: Un_assoc)
  next
    case False
    have "rblk_end n < rblk_start b"
      using False p n Cons.prems(1) by (auto simp: blk_ok_def)
    moreover have "rblk_end m < rblk_start b" if "m \<in> set ns" for m
    proof -
      have "before_blk m n" using Cons.prems(2) that by simp
      then have "rblk_end m < rblk_end n" using n(1) by (auto simp: before_blk_def blk_ok_def)
      then show ?thesis using \<open>rblk_end n < rblk_start b\<close> by simp
    qed
    ultimately have "\<forall>m\<in>set (n # ns). before_blk m b" by (auto simp: before_blk_def)
    then show ?thesis using p False Cons.prems
      by (intro exI [of _ b] exI [of _ "[]"] exI [of _ "n # ns"] exI [of _ lat]) simp
  qed
qed

lemma blocks_merge:
  assumes ok: "blocks_ok (front @ behind)" "blk_ok b"
    and pos: "\<forall>n\<in>set behind. rblk_start b \<le> rblk_start n" "\<forall>n\<in>set front. rblk_end n \<le> rblk_end b"
    and dist: "distinct (map rblk_base (front @ b # behind))"
    and base: "\<forall>c\<in>set (front @ b # behind). rblk_base c < rq_next_base q"
    and lat: "\<forall>a. latest q = Some a \<longrightarrow> a \<in> rblk_base ` set (front @ b # behind)"
  shows "\<exists>q'. RecvQueueBlocksMerge front b behind q = Some q' \<and> rinv q' \<and>
    span (blocks q') = span (front @ b # behind) \<and> same_buffers q q' \<and>
    rq_ackStreamPos q' = rq_ackStreamPos q"
proof -
  have "blocks_ok behind" "blocks_ok front" "\<forall>a\<in>set front. \<forall>c\<in>set behind. before_blk a c"
    using ok(1) by auto
  obtain c gone rest lat1 where r: "merge_neighbours (latest q) b behind = Some (c, rest, lat1)"
    "behind = gone @ rest" "blk_ok c" "rblk_base c = rblk_base b" "rblk_start c = rblk_start b"
    "range_of c = range_of b \<union> span gone" "\<forall>n\<in>set rest. before_blk c n"
    "lat1 = (if \<exists>n\<in>set gone. latest q = Some (rblk_base n) then None else latest q)"
    using merge_right [OF ok(2) \<open>blocks_ok behind\<close> pos(1)] by blast
  have "rblk_end b \<le> rblk_end c"
  proof (rule ccontr)
    assume "\<not> rblk_end b \<le> rblk_end c"
    then have "rblk_end c \<in> range_of b" using ok(2) r(3,5) by (auto simp: range_of_def blk_ok_def)
    then have "rblk_end c \<in> range_of c" using r(6) by blast
    then show False by (simp add: range_of_def)
  qed
  then have e: "\<forall>n\<in>set (rev front). rblk_end n \<le> rblk_end c" using pos(2) by auto
  obtain d gone2 rest2 lat2 where l: "merge_neighbours lat1 c (rev front) = Some (d, rest2, lat2)"
    "rev front = gone2 @ rest2" "blk_ok d" "rblk_base d = rblk_base c" "rblk_end d = rblk_end c"
    "range_of d = range_of c \<union> span gone2" "\<forall>n\<in>set rest2. before_blk n d"
    "lat2 = (if \<exists>n\<in>set gone2. lat1 = Some (rblk_base n) then None else lat1)"
    using merge_left [OF r(3) _ e] \<open>blocks_ok front\<close> by fastforce
  have f: "front = rev rest2 @ rev gone2" using l(2) by (metis rev_append rev_rev_ident)
  let ?q = "q\<lparr>blocks := rev rest2 @ d # rest, latest := lat2\<rparr>"
  have "RecvQueueBlocksMerge front b behind q = Some ?q"
    by (simp add: RecvQueueBlocksMerge_def r(1) l(1))
  moreover have "blocks_ok (blocks ?q)"
    using ok(1) r(2,7) l(3,5,7) by (auto simp: f before_blk_def)
  moreover have "distinct (map rblk_base (blocks ?q))" "\<forall>c\<in>set (blocks ?q). rblk_base c < rq_next_base ?q"
    using dist base r(2,4) l(4) by (auto simp: f)
  moreover have "\<forall>a. lat2 = Some a \<longrightarrow> a \<in> rblk_base ` set (rev rest2 @ d # rest)"
    using lat r(2,4,8) l(4,8) by (auto simp: f split: if_splits)
  moreover have "span (blocks ?q) = span (front @ b # behind)"
    using r(2,6) l(6) by (auto simp: f)
  ultimately show ?thesis
    by (auto simp: rinv_def same_buffers_def)
qed

section \<open>Adding a range\<close>

lemma not_covered:
  assumes "blocks_ok bs" and "s < e" and "\<forall>c\<in>set bs. \<not> (rblk_start c \<le> s \<and> e \<le> rblk_end c)"
  shows "\<not> {s..<e} \<subseteq> span bs"
  using assms covered_iff by blast

text \<open>The range is put into the block it touches.\<close>

lemma add_touching:
  assumes q: "rinv q" "blocks q = front @ b # bs" and se: "s < e" "unat e < 2 ^ 63"
    and t: "rblk_start b \<le> e" "s \<le> rblk_end b"
    and q1: "q1 = q \<or> q1 = q\<lparr>latest := Some (rblk_base b)\<rparr>"
  shows "\<exists>q'. RecvQueueBlocksMerge front
      (b\<lparr>rblk_start := min s (rblk_start b), rblk_end := max e (rblk_end b)\<rparr>) bs q1 = Some q' \<and> rinv q' \<and>
    span (blocks q') = span (blocks q) \<union> {s..<e} \<and> same_buffers q q' \<and> rq_ackStreamPos q' = rq_ackStreamPos q"
proof -
  let ?b = "b\<lparr>rblk_start := min s (rblk_start b), rblk_end := max e (rblk_end b)\<rparr>"
  have b: "blk_ok b" "blocks_ok (front @ bs)" "\<forall>n\<in>set bs. before_blk b n" "\<forall>n\<in>set front. before_blk n b"
    using q by (auto simp: rinv_def)
  have ok: "blk_ok ?b"
    using b(1) se by (auto simp: blk_ok_def min_def max_def)
  have r: "range_of ?b = range_of b \<union> {s..<e}"
    using b(1) se t by (auto simp: range_of_def blk_ok_def min_def max_def)
  have right: "\<forall>n\<in>set bs. rblk_start ?b \<le> rblk_start n"
  proof
    fix n assume "n \<in> set bs"
    then have "rblk_end b < rblk_start n" using b(3) by (simp add: before_blk_def)
    then have "rblk_start b \<le> rblk_start n" using b(1) by (auto simp: blk_ok_def)
    then show "rblk_start ?b \<le> rblk_start n" by (simp add: min_le_iff_disj)
  qed
  have left: "\<forall>n\<in>set front. rblk_end n \<le> rblk_end ?b"
  proof
    fix n assume "n \<in> set front"
    then have "rblk_end n < rblk_start b" using b(4) by (simp add: before_blk_def)
    then have "rblk_end n \<le> rblk_end b" using b(1) by (auto simp: blk_ok_def)
    then show "rblk_end n \<le> rblk_end ?b" by (simp add: le_max_iff_disj)
  qed
  have "\<exists>q'. RecvQueueBlocksMerge front ?b bs q1 = Some q' \<and> rinv q' \<and>
    span (blocks q') = span (front @ ?b # bs) \<and> same_buffers q1 q' \<and> rq_ackStreamPos q' = rq_ackStreamPos q1"
    using q q1 b(2) ok right left by (intro blocks_merge) (auto simp: rinv_def)
  then show ?thesis using q(2) q1 r by (auto simp: same_buffers_def)
qed

lemma add_loop:
  assumes "rinv q" and "blocks q = front @ bs" and "s < e" and "unat e < 2 ^ 63"
    and "(hasPrev \<longleftrightarrow> front \<noteq> []) \<and> (\<forall>n\<in>set front. rblk_end n < s) \<or>
         bs \<noteq> [] \<and> rblk_start (hd bs) \<le> e"
  shows "\<exists>old q'. add_to_blocks_loop s e hasPrev front bs q = Some (old, q') \<and> rinv q' \<and>
    span (blocks q') = span (blocks q) \<union> {s..<e} \<and> (old \<longleftrightarrow> {s..<e} \<subseteq> span (blocks q)) \<and>
    same_buffers q q' \<and> rq_ackStreamPos q' = rq_ackStreamPos q"
  using assms
proof (induction bs arbitrary: front hasPrev)
  case Nil
  then have f: "\<forall>n\<in>set (blocks q). rblk_end n < s" by simp
  moreover have "\<not> {s..<e} \<subseteq> span (blocks q)"
    using f \<open>s < e\<close> by (fastforce simp: span_def range_of_def)
  ultimately show ?case using Nil.prems
    by (fastforce simp: RecvQueueRecvBlockNew_def rinv_def same_buffers_def blk_ok_def before_blk_def range_of_def)
next
  case (Cons b bs)
  have b: "blk_ok b" "blocks_ok (front @ b # bs)"
    using Cons.prems(1,2) by (auto simp: rinv_def)
  have bs: "\<forall>n\<in>set bs. rblk_end b < rblk_start n" "\<forall>n\<in>set front. rblk_end n < rblk_start b"
    using b(2) by (auto simp: before_blk_def)
  note calc = calc_blocks [OF b(1) \<open>s < e\<close> Cons.prems(4)]
  consider (touch) "rblk_start b \<le> e" "s \<le> rblk_end b" | (after) "rblk_end b < s"
    | (prev) "e < rblk_start b" by fastforce
  then show ?case
  proof cases
    case touch
    show ?thesis
    proof (cases "rblk_start b \<le> s \<and> e \<le> rblk_end b")
      case True
      then have "{s..<e} \<subseteq> span (blocks q)" using Cons.prems(2) by (auto simp: range_of_def)
      then show ?thesis using calc touch True Cons.prems by (auto simp: same_buffers_def)
    next
      case False
      have "\<not> {s..<e} \<subseteq> span (blocks q)"
      proof (rule not_covered)
        show "\<forall>c\<in>set (blocks q). \<not> (rblk_start c \<le> s \<and> e \<le> rblk_end c)"
          using False bs touch Cons.prems(2) by fastforce
      qed (use Cons.prems b in simp_all)
      then show ?thesis
        using calc touch False add_touching [OF Cons.prems(1,2) \<open>s < e\<close> Cons.prems(4) touch, of q]
          add_touching [OF Cons.prems(1,2) \<open>s < e\<close> Cons.prems(4) touch, of "q\<lparr>latest := Some (rblk_base b)\<rparr>"]
        by (cases "s \<le> rblk_start b \<and> rblk_end b \<le> e") auto
    qed
  next
    case after
    then have nt: "\<not> s \<le> rblk_end b" "\<not> s < rblk_start b" using b(1) by (auto simp: blk_ok_def)
    have "\<forall>n\<in>set (front @ [b]). rblk_end n < s"
    proof
      fix n assume "n \<in> set (front @ [b])"
      then show "rblk_end n < s" using after bs(2) b(1) by (force simp: blk_ok_def)
    qed
    then show ?thesis
      using calc nt Cons.IH [of "front @ [b]" True] Cons.prems by simp
  next
    case prev
    then have nt: "\<not> rblk_start b \<le> e" "s < rblk_start b" using \<open>s < e\<close> by auto
    then have f: "hasPrev \<longleftrightarrow> front \<noteq> []" "\<forall>n\<in>set front. rblk_end n < s" using Cons.prems(5) by auto
    let ?new = "\<lparr>rblk_base = rq_next_base q, rblk_start = s, rblk_end = e\<rparr>"
    let ?q = "q\<lparr>rq_next_base := rq_next_base q + 1, latest := Some (rq_next_base q), blocks := front @ ?new # b # bs\<rparr>"
    have step: "add_to_blocks_loop s e hasPrev front (b # bs) q = Some (False, ?q)"
      using calc nt f(1) by (simp add: RecvQueueRecvBlockNew_def Let_def)
    have after_e: "e < rblk_start n" if "n \<in> set bs" for n
      using prev bs(1) that b(1) by (force simp: blk_ok_def)
    have "rinv ?q"
      using Cons.prems(1,2) \<open>s < e\<close> Cons.prems(4) f(2) prev after_e
      by (auto simp: rinv_def blk_ok_def before_blk_def less_Suc_eq)
    moreover have "\<not> {s..<e} \<subseteq> span (blocks q)"
    proof (rule not_covered)
      show "\<forall>c\<in>set (blocks q). \<not> (rblk_start c \<le> s \<and> e \<le> rblk_end c)"
        using nt f(2) after_e \<open>s < e\<close> Cons.prems(2) by fastforce
    qed (use Cons.prems b in simp_all)
    moreover have "span (blocks ?q) = span (blocks q) \<union> {s..<e}"
      using Cons.prems(2) by (auto simp: range_of_def)
    ultimately show ?thesis
      unfolding step by (intro exI [of _ False] exI [of _ ?q]) (simp add: same_buffers_def)
  qed
qed

lemma block_at_split:
  assumes "rinv q" and "latest q = Some a"
  obtains b front bs where "block_at (latest q) (blocks q) = Some b" and "blocks q = front @ b # bs"
    and "rblk_base b = a"
    and "takeWhile (\<lambda>c. rblk_base c \<noteq> rblk_base b) (blocks q) = front"
    and "dropWhile (\<lambda>c. rblk_base c \<noteq> rblk_base b) (blocks q) = b # bs"
proof -
  obtain b where b: "b \<in> set (blocks q)" "rblk_base b = a"
    using assms by (auto simp: rinv_def)
  then obtain front bs where q: "blocks q = front @ b # bs" by (meson split_list)
  then have f: "\<forall>c\<in>set front. rblk_base c \<noteq> a"
    using assms(1) b(2) by (fastforce simp: rinv_def image_iff)
  have "find (\<lambda>c. rblk_base c = a) (front @ b # bs) = Some b"
    using f b(2) by (induction front) auto
  then have "block_at (latest q) (blocks q) = Some b"
    by (simp add: block_at_def assms(2) q)
  then show ?thesis
    using that [of b front bs] q f b(2) by (simp add: takeWhile_append2 dropWhile_append2)
qed

lemma add_to_blocks:
  assumes q: "rinv q" and se: "s < e" "unat e < 2 ^ 63"
  shows "\<exists>old q'. RecvQueueAddToBlocks s e q = Some (old, q') \<and> rinv q' \<and>
    span (blocks q') = span (blocks q) \<union> {s..<e} \<and> (old \<longleftrightarrow> {s..<e} \<subseteq> span (blocks q)) \<and>
    same_buffers q q' \<and> rq_ackStreamPos q' = rq_ackStreamPos q"
proof (cases "blocks q = []")
  case True
  then show ?thesis using assms
    by (auto simp: RecvQueueAddToBlocks_def RecvQueueRecvBlockNew_def rinv_def blk_ok_def range_of_def same_buffers_def)
next
  case False
  have first: ?thesis if "RecvQueueAddToBlocks s e q = add_to_blocks_loop s e False [] (blocks q) q"
    using add_loop [OF q _ se, of "[]" "blocks q" False] by (simp add: that)
  show ?thesis
  proof (cases "latest q")
    case None
    then show ?thesis using False by (intro first) (simp add: RecvQueueAddToBlocks_def)
  next
    case (Some a)
    then obtain b front bs where b: "block_at (latest q) (blocks q) = Some b" "blocks q = front @ b # bs"
      "takeWhile (\<lambda>c. rblk_base c \<noteq> rblk_base b) (blocks q) = front"
      "dropWhile (\<lambda>c. rblk_base c \<noteq> rblk_base b) (blocks q) = b # bs"
      by (rule block_at_split [OF q]) (rule that; assumption)+
    show ?thesis
    proof (cases "e < rblk_start b")
      case True
      then show ?thesis using False Some b(1) by (intro first) (simp add: RecvQueueAddToBlocks_def)
    next
      case nle: False
      then have "RecvQueueAddToBlocks s e q = add_to_blocks_loop s e False front (b # bs) q"
        using False Some b(1,3,4) by (simp add: RecvQueueAddToBlocks_def)
      moreover have "bs' \<noteq> [] \<and> rblk_start (hd bs') \<le> e" if "bs' = b # bs" for bs'
        using nle that by simp
      ultimately show ?thesis using add_loop [OF q b(2) se, of False] by (simp only: simp_thms)
    qed
  qed
qed

section \<open>A segment is recorded\<close>

lemma delete_first:
  assumes "rinv q" and "blocks q = b # bs"
  shows "rinv (RecvQueueDeleteBlock (rblk_base b) (q\<lparr>rq_ackStreamPos := p\<rparr>))"
    and "blocks (RecvQueueDeleteBlock (rblk_base b) (q\<lparr>rq_ackStreamPos := p\<rparr>)) = bs"
proof -
  have d: "filter (\<lambda>c. rblk_base c \<noteq> rblk_base b) (b # bs) = bs"
    using assms by (auto simp: rinv_def filter_id_conv image_iff)
  then show "blocks (RecvQueueDeleteBlock (rblk_base b) (q\<lparr>rq_ackStreamPos := p\<rparr>)) = bs"
    by (simp add: RecvQueueDeleteBlock_def assms(2))
  show "rinv (RecvQueueDeleteBlock (rblk_base b) (q\<lparr>rq_ackStreamPos := p\<rparr>))"
    using assms d by (auto simp: RecvQueueDeleteBlock_def rinv_def)
qed

lemma prefix_grows:
  fixes k :: "'a :: linorder"
  assumes "s \<le> k" and "k < e" and "a \<le> e"
  shows "x < max e f \<longleftrightarrow> x < k \<or> a \<le> x \<and> x < f \<or> s \<le> x \<and> x < e"
proof (cases "x < e")
  case True
  then have "x < max e f" by (simp add: less_max_iff_disj)
  moreover have "x < k \<or> s \<le> x" using assms(1) by fastforce
  ultimately show ?thesis using True by blast
next
  case False
  then have "a \<le> x" "\<not> x < k" using assms(2,3) by simp_all
  then show ?thesis using False by (simp add: less_max_iff_disj)
qed

lemma update_in_order:
  assumes q: "rinv q" and se: "s < e" "unat e < 2 ^ 63"
    and pos: "s \<le> rq_ackStreamPos q" "rq_ackStreamPos q < e"
  shows "\<exists>q'. RecvQueueUpdateStreamPos s e q = Some (RECV_PACKAGE_TYPE_IN_ORDER, q') \<and> rinv q' \<and>
    received q' = received q \<union> {s..<e} \<and> same_buffers q q' \<and> e \<le> rq_ackStreamPos q' \<and>
    (canonical q \<and> (\<forall>b\<in>set (tl (blocks q)). e < rblk_start b) \<longrightarrow> canonical q')"
proof (cases "blocks q")
  case Nil
  then show ?thesis using assms
    by (auto simp: RecvQueueUpdateStreamPos_def received_def rinv_def same_buffers_def canonical_def)
next
  case (Cons b bs)
  have b: "blk_ok b" "\<forall>n\<in>set bs. rblk_end b < rblk_start n"
    using q Cons by (auto simp: rinv_def before_blk_def)
  obtain p where p: "RecvQueueRecvBlockCalcRelaPos (rblk_start b) (rblk_end b) s e = Some p"
    "touches p \<longleftrightarrow> rblk_start b \<le> e \<and> s \<le> rblk_end b"
    using calc_touches [OF b(1) se] by blast
  show ?thesis
  proof (cases "touches p")
    case True
    let ?q = "RecvQueueDeleteBlock (rblk_base b) (q\<lparr>rq_ackStreamPos := max e (rblk_end b)\<rparr>)"
    have "x < max e (rblk_end b) \<longleftrightarrow>
        x < rq_ackStreamPos q \<or> rblk_start b \<le> x \<and> x < rblk_end b \<or> s \<le> x \<and> x < e" for x
      using pos True p(2) by (intro prefix_grows) simp_all
    then have r: "{x. x < max e (rblk_end b)} = {x. x < rq_ackStreamPos q} \<union> range_of b \<union> {s..<e}"
      unfolding range_of_def atLeastLessThan_def by blast
    have "RecvQueueUpdateStreamPos s e q = Some (RECV_PACKAGE_TYPE_IN_ORDER, ?q)"
      using pos p True by (simp add: RecvQueueUpdateStreamPos_def Cons RecvQueueDeleteBlock_def Let_def)
    moreover have "received ?q = received q \<union> {s..<e}"
      unfolding received_def delete_first(2) [OF q Cons] Cons span_simps
      using r by (auto simp: RecvQueueDeleteBlock_def)
    moreover have "canonical ?q" if "canonical q" "\<forall>b\<in>set (tl (blocks q)). e < rblk_start b"
      unfolding canonical_def delete_first(2) [OF q Cons]
      using that b(2) by (simp add: RecvQueueDeleteBlock_def Cons)
    ultimately show ?thesis
      using delete_first(1) [OF q Cons]
      by (intro exI [of _ ?q]) (simp add: same_buffers_def RecvQueueDeleteBlock_def)
  next
    case False
    let ?q = "q\<lparr>rq_ackStreamPos := e\<rparr>"
    have "RecvQueueUpdateStreamPos s e q = Some (RECV_PACKAGE_TYPE_IN_ORDER, ?q)"
      using pos p False by (simp add: RecvQueueUpdateStreamPos_def Cons Let_def)
    moreover have "received ?q = received q \<union> {s..<e}"
      using pos by (auto simp: received_def)
    moreover have "canonical ?q" if "canonical q"
    proof -
      have "rq_ackStreamPos q < rblk_start b" using that by (simp add: canonical_def Cons)
      then have "s \<le> rblk_end b" using pos(1) b(1) by (auto simp: blk_ok_def)
      then have "e < rblk_start b" using False p(2) by simp
      moreover have "e < rblk_start n" if "n \<in> set bs" for n
        using \<open>e < rblk_start b\<close> b that by (force simp: blk_ok_def)
      ultimately show ?thesis by (simp add: canonical_def Cons)
    qed
    ultimately show ?thesis using q
      by (auto simp: rinv_def same_buffers_def)
  qed
qed

text \<open>What \<open>RecvQueueUpdateStreamPos\<close> does, on every branch.\<close>

definition segment_type :: "u64 \<Rightarrow> u64 \<Rightarrow> RecvQueue \<Rightarrow> RecvPackageType" where
  "segment_type s e q =
     (if e \<le> rq_ackStreamPos q then RECV_PACKAGE_TYPE_OLD
      else if s \<le> rq_ackStreamPos q then RECV_PACKAGE_TYPE_IN_ORDER
      else if {s..<e} \<subseteq> span (blocks q) then RECV_PACKAGE_TYPE_OLD else RECV_PACKAGE_TYPE_LOST_ORDER)"

lemma canonical_span: "rinv q \<Longrightarrow> canonical q \<longleftrightarrow> (\<forall>x\<in>span (blocks q). rq_ackStreamPos q < x)"
  unfolding canonical_def span_def range_of_def
proof (intro iffI ballI)
  assume "rinv q" "\<forall>x\<in>(\<Union>b\<in>set (blocks q). {rblk_start b..<rblk_end b}). rq_ackStreamPos q < x" 
  moreover fix b assume "b \<in> set (blocks q)"
  ultimately show "rq_ackStreamPos q < rblk_start b"
    by (auto simp: rinv_def blocks_ok_def blk_ok_def)
next
  assume "\<forall>b\<in>set (blocks q). rq_ackStreamPos q < rblk_start b"
  moreover fix x assume "x \<in> (\<Union>b\<in>set (blocks q). {rblk_start b..<rblk_end b})"
  ultimately show "rq_ackStreamPos q < x" by fastforce
qed

lemma segment_type_old:
  assumes "rinv q" and "canonical q" and "s < e"
  shows "segment_type s e q = RECV_PACKAGE_TYPE_OLD \<longleftrightarrow> {s..<e} \<subseteq> received q"
proof -
  let ?k = "rq_ackStreamPos q"
  have out: "\<forall>x\<in>span (blocks q). ?k < x" using assms(1,2) canonical_span by blast
  consider "e \<le> ?k" | "s \<le> ?k" "?k < e" | "?k < s" by fastforce
  then show ?thesis
  proof cases
    case 2
    then have "?k \<in> {s..<e}" by simp
    moreover have "?k \<notin> received q" using out by (auto simp: received_def)
    ultimately show ?thesis using 2 by (auto simp: segment_type_def)
  next
    case 3
    then have "{s..<e} \<inter> {x. x < ?k} = {}" by auto
    then show ?thesis using 3 assms(3) by (auto simp: segment_type_def received_def)
  qed (auto simp: segment_type_def received_def)
qed

lemma update_spec:
  assumes q: "rinv q" and se: "s < e" "unat e < 2 ^ 63"
  shows "\<exists>q'. RecvQueueUpdateStreamPos s e q = Some (segment_type s e q, q') \<and> rinv q' \<and>
    received q' = received q \<union> {s..<e} \<and> same_buffers q q' \<and> rq_ackStreamPos q \<le> rq_ackStreamPos q' \<and>
    (canonical q \<and> (rq_ackStreamPos q < s \<or> (\<forall>b\<in>set (tl (blocks q)). e < rblk_start b)) \<longrightarrow> canonical q')"
proof -
  let ?k = "rq_ackStreamPos q"
  consider "e \<le> ?k" | "s \<le> ?k" "?k < e" | "?k < s" by fastforce
  then show ?thesis
  proof cases
    case 1
    then have "{s..<e} \<subseteq> received q" by (auto simp: received_def)
    then show ?thesis using 1 q
      by (auto simp: RecvQueueUpdateStreamPos_def segment_type_def same_buffers_def)
  next
    case 2
    then show ?thesis using update_in_order [OF q se] by (fastforce simp: segment_type_def)
  next
    case 3
    obtain old q' where a: "RecvQueueAddToBlocks s e q = Some (old, q')" "rinv q'"
      "span (blocks q') = span (blocks q) \<union> {s..<e}" "old \<longleftrightarrow> {s..<e} \<subseteq> span (blocks q)"
      "same_buffers q q'" "rq_ackStreamPos q' = ?k"
      using add_to_blocks [OF q se] by blast
    have "canonical q'" if "canonical q"
    proof -
      have "\<forall>x\<in>span (blocks q) \<union> {s..<e}. ?k < x"
        using that canonical_span [OF q] 3 by fastforce
      then show ?thesis using a(3,6) canonical_span [OF a(2)] by simp
    qed
    moreover have "received q' = received q \<union> {s..<e}"
      using a(3,6) by (auto simp: received_def)
    moreover have "\<not> e \<le> ?k" "\<not> s \<le> ?k" using 3 se(1) by auto
    ultimately show ?thesis using a
      by (simp add: RecvQueueUpdateStreamPos_def segment_type_def)
  qed
qed

section \<open>The acknowledgement\<close>

lemma sack_loop_seen: "n \<le> length bs \<Longrightarrow> sack_loop n lat True bs = (map block_range (take n bs), True)"
proof (induction n arbitrary: bs)
  case (Suc n)
  then show ?case by (cases bs) simp_all
qed simp

lemma sack_loop_unseen:
  assumes "2 \<le> n" and "n \<le> length bs"
  shows "sack_loop n lat False bs =
    (if \<exists>b\<in>set (take (n - 1) bs). lat = Some (rblk_base b) then (map block_range (take n bs), True)
     else (map block_range (take (n - 1) bs), False))"
  using assms
proof (induction n arbitrary: bs)
  case (Suc n)
  then obtain b cs where bs: "bs = b # cs" "n \<le> length cs" by (cases bs) auto
  show ?case
  proof (cases "lat = Some (rblk_base b)")
    case True
    have "n \<noteq> 0" using Suc.prems by simp
    then show ?thesis using bs True by (cases n) (simp_all add: sack_loop_seen)
  next
    case False
    show ?thesis
    proof (cases "n = 1")
      case True
      then show ?thesis using bs False by simp
    next
      case n: False
      then obtain m where m: "n = Suc m" "m \<noteq> 0" using Suc.prems by (cases n) auto
      then show ?thesis using bs False Suc.IH [of cs] by simp
    qed
  qed
qed simp

text \<open>Which blocks are acknowledged: the first ones, and the latest one in any case.\<close>

lemma get_ack_info_spec:
  assumes q: "rinv q" and ne: "blocks q \<noteq> []"
  obtains bs rest where "RecvQueueGetAckInfo q = Some (rq_ackStreamPos q,
      Some (map block_range bs @ \<lparr>range_pos = 0, range_length = 0\<rparr> # rest))"
    and "subseq bs (blocks q)" and "length bs = min (length (blocks q)) 10"
    and "\<forall>b\<in>set (blocks q). latest q = Some (rblk_base b) \<longrightarrow> b \<in> set bs"
proof -
  note result = that
  let ?z = "\<lparr>range_pos = 0, range_length = 0\<rparr> :: BdtStreamRange"
  let ?n = "min (length (blocks q)) 10"
  have n: "?n \<le> length (blocks q)" "?n \<noteq> 0" using ne by auto
  have pad: "replicate (?n + 1 - ?n) ?z = ?z # []" by simp
  have uniq: "b = c" if "b \<in> set (blocks q)" "c \<in> set (blocks q)" "rblk_base b = rblk_base c" for b c
    using q that by (auto simp: rinv_def distinct_map inj_on_def)
  show ?thesis
  proof (cases "latest q = None")
    case True
    have "RecvQueueGetAckInfo q = Some (rq_ackStreamPos q, Some (map block_range (take ?n (blocks q)) @ ?z # []))"
      using ne n sack_loop_seen [OF n(1)] True by (simp add: RecvQueueGetAckInfo_def Let_def)
    then show ?thesis using result [of "take ?n (blocks q)" "[]"] True by (simp add: prefix_imp_subseq take_is_prefix)
  next
    case False
    then obtain a where a: "latest q = Some a" by blast
    obtain l front bs where l: "block_at (latest q) (blocks q) = Some l" "blocks q = front @ l # bs"
      "rblk_base l = a"
      using block_at_split [OF q a] by blast
    have l_only: "latest q = Some (rblk_base b) \<longleftrightarrow> b = l" if "b \<in> set (blocks q)" for b
      using uniq [OF that, of l] a l(2,3) by (metis in_set_conv_decomp option.inject)
    have n2: ?thesis if two: "2 \<le> ?n"
    proof (cases "l \<in> set (take (?n - 1) (blocks q))")
      case True
      then have "\<exists>b\<in>set (take (?n - 1) (blocks q)). latest q = Some (rblk_base b)"
        using a l(3) by auto
      then have "RecvQueueGetAckInfo q = Some (rq_ackStreamPos q, Some (map block_range (take ?n (blocks q)) @ ?z # []))"
        using ne n sack_loop_unseen [OF two n(1), of "latest q"] a by (simp add: RecvQueueGetAckInfo_def Let_def)
      moreover have "l \<in> set (take ?n (blocks q))"
        by (rule subsetD [OF set_take_subset_set_take True]) (rule diff_le_self)
      ultimately show ?thesis using result [of "take ?n (blocks q)" "[]"] l_only
        by (simp add: prefix_imp_subseq take_is_prefix)
    next
      case False
      let ?bs = "take (?n - 1) (blocks q) @ [l]"
      have "\<not> (\<exists>b\<in>set (take (?n - 1) (blocks q)). latest q = Some (rblk_base b))"
        using False l_only by (auto dest: in_set_takeD)
      then have "RecvQueueGetAckInfo q = Some (rq_ackStreamPos q, Some (map block_range ?bs @ ?z # []))"
        using ne n sack_loop_unseen [OF two n(1), of "latest q"] a l(1)
        by (simp add: RecvQueueGetAckInfo_def Let_def)
      moreover have "subseq ?bs (take (?n - 1) (blocks q) @ drop (?n - 1) (blocks q))"
      proof (rule list_emb_append_mono)
        have "l \<in> set (blocks q)" using l(2) by simp
        then have "l \<in> set (take (?n - 1) (blocks q) @ drop (?n - 1) (blocks q))"
          by (simp only: append_take_drop_id)
        then have "l \<in> set (drop (?n - 1) (blocks q))" using False by (simp only: set_append Un_iff simp_thms)
        then show "subseq [l] (drop (?n - 1) (blocks q))" by (simp only: subseq_singleton_left)
      qed simp
      ultimately show ?thesis using result [of ?bs "[]"] l_only n by simp
    qed
    show ?thesis
    proof (cases "2 \<le> ?n")
      case True
      then show ?thesis by (rule n2)
    next
      case False
      moreover have "length (blocks q) \<noteq> 0" using ne by simp
      ultimately have one: "?n = Suc 0" "length (blocks q) = 1" by linarith+
      then have "blocks q = [l]" using l(2) by (cases front) auto
      then show ?thesis using one result [of "[l]" "[]"] a l(1,3)
        by (simp add: RecvQueueGetAckInfo_def Let_def)
    qed
  qed
qed

text \<open>A block whose size fits the 32 bits of a range is announced exactly.\<close>

definition fits_range :: "RecvQueueRecvBlock \<Rightarrow> bool" where
  "fits_range b \<longleftrightarrow> unat (rblk_end b - rblk_start b) < 2 ^ 32"

lemma block_range_exact:
  assumes "blk_ok b" and "fits_range b"
  shows "range_length (block_range b) \<noteq> 0"
    and "range_pos (block_range b) + ucast (range_length (block_range b)) = rblk_end b"
proof -
  have u: "ucast (ucast (rblk_end b - rblk_start b) :: u32) = rblk_end b - rblk_start b"
    using assms(2)
    by (simp add: fits_range_def word_unat_eq_iff unsigned_ucast_eq unsigned_take_bit_eq take_bit_nat_eq_self_iff del: unat_diff_le)
  show "range_pos (block_range b) + ucast (range_length (block_range b)) = rblk_end b"
    using u by (simp add: block_range_def)
  have "rblk_end b - rblk_start b \<noteq> 0" using assms(1) by (auto simp: blk_ok_def)
  then show "range_length (block_range b) \<noteq> 0"
    using u by (auto simp: block_range_def)
qed

lemma ack_info_spec:
  assumes q: "rinv q" and small: "\<forall>b\<in>set (blocks q). fits_range b"
  obtains sack bs where "RecvQueueGetAckInfo q = Some (rq_ackStreamPos q, sack)" and "sack_ok sack"
    and "sack = None \<longleftrightarrow> blocks q = []" and "subseq bs (blocks q)"
    and "length bs = min (length (blocks q)) PACKAGE_SESSIONDATA_SACK_RANGE_MAX_COUNT"
    and "\<forall>b\<in>set (blocks q). latest q = Some (rblk_base b) \<longrightarrow> b \<in> set bs"
    and "\<forall>rs. sack = Some rs \<longrightarrow> sack_ranges rs = map block_range bs"
proof (cases "blocks q = []")
  case True
  then show ?thesis by (intro that [of None "[]"]) (simp_all add: RecvQueueGetAckInfo_def sack_ok_def)
next
  case False
  note result = that
  obtain bs rest where b: "RecvQueueGetAckInfo q = Some (rq_ackStreamPos q,
      Some (map block_range bs @ \<lparr>range_pos = 0, range_length = 0\<rparr> # rest))"
    "subseq bs (blocks q)" "length bs = min (length (blocks q)) 10"
    "\<forall>b\<in>set (blocks q). latest q = Some (rblk_base b) \<longrightarrow> b \<in> set bs"
    using get_ack_info_spec [OF q False] by blast
  have "range_length (block_range c) \<noteq> 0" if "c \<in> set bs" for c
  proof -
    have "c \<in> set (blocks q)" using that b(2) by (auto elim: list_emb_set)
    then show ?thesis using q small by (intro block_range_exact(1)) (auto simp: rinv_def blocks_ok_def)
  qed
  then have "sack_ranges (map block_range bs @ \<lparr>range_pos = 0, range_length = 0\<rparr> # rest) = map block_range bs"
    unfolding sack_ranges_def by (subst takeWhile_append2) auto
  then show ?thesis using b False
    by (intro result [of _ bs]) (auto simp: sack_ok_def)
qed

section \<open>Properties of the recorded positions\<close>

text \<open>
  C28. A segment \<open>[s, e)\<close> that arrives: \<open>RecvQueueUpdateStreamPos\<close> never fails an assertion,
  keeps the blocks sorted and apart, and adds exactly the positions of the segment to those
  recorded as received. The acknowledged position never goes back. Where every block is out of
  order the segment is called old exactly when all of it had been received before; that stays so
  unless an in-order segment reaches a second block.
\<close>

theorem update_stream_pos_correct:
  assumes "rinv q" and "s < e" and "unat e < 2 ^ 63"
  shows "\<exists>t q'. RecvQueueUpdateStreamPos s e q = Some (t, q') \<and> rinv q' \<and>
    received q' = received q \<union> {s..<e} \<and> same_buffers q q' \<and> rq_ackStreamPos q \<le> rq_ackStreamPos q' \<and>
    (canonical q \<longrightarrow> (t = RECV_PACKAGE_TYPE_OLD \<longleftrightarrow> {s..<e} \<subseteq> received q)) \<and>
    (canonical q \<and> (rq_ackStreamPos q < s \<or> (\<forall>b\<in>set (tl (blocks q)). e < rblk_start b)) \<longrightarrow> canonical q')"
  using update_spec [OF assms] segment_type_old [OF assms(1) _ assms(2)] by fastforce

text \<open>
  The acknowledgement sent back: the position, and at most ten ranges, which are blocks of the
  queue in order, the latest one always among them. Every range covers exactly the bytes of its
  block, so nothing is acknowledged that has not been received, and the array is terminated.
\<close>

lemma ack_info_correct:
  assumes "rinv q" and "\<forall>b\<in>set (blocks q). fits_range b"
  shows "\<exists>sack bs. RecvQueueGetAckInfo q = Some (rq_ackStreamPos q, sack) \<and> sack_ok sack \<and>
    (sack = None \<longleftrightarrow> blocks q = []) \<and> subseq bs (blocks q) \<and>
    length bs = min (length (blocks q)) PACKAGE_SESSIONDATA_SACK_RANGE_MAX_COUNT \<and>
    (\<forall>b\<in>set (blocks q). latest q = Some (rblk_base b) \<longrightarrow> b \<in> set bs) \<and>
    (\<forall>rs. sack = Some rs \<longrightarrow> sack_ranges rs = map block_range bs \<and>
       (\<Union>r\<in>set (sack_ranges rs). {range_pos r..<range_pos r + ucast (range_length r)}) \<subseteq> received q)"
proof -
  obtain sack bs where a: "RecvQueueGetAckInfo q = Some (rq_ackStreamPos q, sack)" "sack_ok sack"
    "sack = None \<longleftrightarrow> blocks q = []" "subseq bs (blocks q)"
    "length bs = min (length (blocks q)) PACKAGE_SESSIONDATA_SACK_RANGE_MAX_COUNT"
    "\<forall>b\<in>set (blocks q). latest q = Some (rblk_base b) \<longrightarrow> b \<in> set bs"
    "\<forall>rs. sack = Some rs \<longrightarrow> sack_ranges rs = map block_range bs"
    by (rule ack_info_spec [OF assms]) (rule that)
  have "{range_pos (block_range b)..<range_pos (block_range b) + ucast (range_length (block_range b))} \<subseteq> received q"
    if "b \<in> set bs" for b
  proof -
    have b: "b \<in> set (blocks q)" using that a(4) by (auto elim: list_emb_set)
    then have "blk_ok b" "fits_range b" using assms by (auto simp: rinv_def blocks_ok_def)
    then show ?thesis using b block_range_exact(2) [of b]
      by (auto simp: received_def span_def range_of_def block_range_def)
  qed
  then show ?thesis using a by (intro exI [of _ sack] exI [of _ bs]) auto
qed

text \<open>A queue with two blocks, the second one the latest.\<close>

definition example_blocks :: RecvQueue where
  "example_blocks = (RecvQueueCreate 3)
     \<lparr>blocks := [\<lparr>rblk_base = 1, rblk_start = 5, rblk_end = 6\<rparr>, \<lparr>rblk_base = 2, rblk_start = 8, rblk_end = 9\<rparr>],
      latest := Some 2, rq_next_base := 3\<rparr>"

lemma example_rinv: "rinv example_blocks" "canonical example_blocks" "\<forall>b\<in>set (blocks example_blocks). fits_range b"
  by (simp_all add: example_blocks_def rinv_def canonical_def fits_range_def blk_ok_def before_blk_def RecvQueueCreate_def)

theorem update_stream_pos_correct_witness:
  "\<exists>t q'. RecvQueueUpdateStreamPos 2 5 example_blocks = Some (t, q') \<and> t \<noteq> RECV_PACKAGE_TYPE_OLD \<and>
     received q' = received example_blocks \<union> {2..<5} \<and> canonical q'"
proof -
  have "\<not> {2..<5} \<subseteq> received example_blocks"
    by (auto simp: received_def example_blocks_def RecvQueueCreate_def range_of_def subset_eq intro!: exI [of _ 4])
  moreover have "\<forall>b\<in>set (tl (blocks example_blocks)). 5 < rblk_start b"
    by (simp add: example_blocks_def)
  ultimately show ?thesis
    using update_stream_pos_correct [OF example_rinv(1), of 2 5] example_rinv(2) by fastforce
qed

lemma ack_info_correct_witness:
  "\<exists>sack. RecvQueueGetAckInfo example_blocks = Some (3, sack) \<and> sack_ok sack \<and> sack \<noteq> None"
  using ack_info_correct [OF example_rinv(1,3)] by (auto simp: example_blocks_def RecvQueueCreate_def)

fun update_all :: "(u64 \<times> u64) list \<Rightarrow> RecvQueue \<Rightarrow> RecvQueue option" where
  "update_all [] q = Some q"
| "update_all ((s, e) # segs) q = do {
     (t, q) \<leftarrow> RecvQueueUpdateStreamPos s e q;
     update_all segs q
   }"

text \<open>
  An in-order segment that reaches the second block: the first one is merged or left behind as
  stale, the second is not looked at.
\<close>

lemma update_stops_at_segment:
  assumes q: "rinv q" and bs: "blocks q = b1 # b2 # bs"
    and pos: "s \<le> rq_ackStreamPos q" "rq_ackStreamPos q < e" and e: "rblk_start b2 \<le> e" "e < rblk_end b2"
  shows "\<exists>q1. RecvQueueUpdateStreamPos s e q = Some (RECV_PACKAGE_TYPE_IN_ORDER, q1) \<and> rinv q1 \<and>
    rq_ackStreamPos q1 = e \<and> b2 \<in> set (blocks q1)"
proof -
  have ok: "blk_ok b1" "blk_ok b2" "rblk_end b1 < rblk_start b2"
    using q bs by (auto simp: rinv_def before_blk_def)
  have se: "s < e" using pos by simp
  have se': "unat e < 2 ^ 63" using e(2) ok(2) by (auto simp: blk_ok_def word_less_nat_alt)
  obtain p where p: "RecvQueueRecvBlockCalcRelaPos (rblk_start b1) (rblk_end b1) s e = Some p"
    using calc_touches [OF ok(1) se se'] by blast
  have max: "max e (rblk_end b1) = e" using ok(3) e(1) by simp
  have nle: "\<not> e \<le> rq_ackStreamPos q" using pos(2) by simp
  show ?thesis
  proof (cases "touches p")
    case True
    let ?q = "RecvQueueDeleteBlock (rblk_base b1) (q\<lparr>rq_ackStreamPos := e\<rparr>)"
    have "RecvQueueUpdateStreamPos s e q = Some (RECV_PACKAGE_TYPE_IN_ORDER, ?q)"
      using nle pos(1) p True max by (simp add: RecvQueueUpdateStreamPos_def bs RecvQueueDeleteBlock_def Let_def)
    then show ?thesis
      using delete_first [OF q bs, of e] by (intro exI [of _ ?q]) (simp add: RecvQueueDeleteBlock_def)
  next
    case False
    then have "RecvQueueUpdateStreamPos s e q = Some (RECV_PACKAGE_TYPE_IN_ORDER, q\<lparr>rq_ackStreamPos := e\<rparr>)"
      using nle pos(1) p by (simp add: RecvQueueUpdateStreamPos_def bs Let_def)
    then show ?thesis using q by (auto simp: rinv_def bs)
  qed
qed

text \<open>Segments that begin behind the acknowledged position are recorded, but never move it.\<close>

lemma update_all_ahead:
  assumes "rinv q" and "\<forall>(s, e)\<in>set segs. rq_ackStreamPos q < s \<and> s < e \<and> unat e < 2 ^ 63"
  shows "\<exists>q'. update_all segs q = Some q' \<and> rq_ackStreamPos q' = rq_ackStreamPos q \<and>
    received q' = received q \<union> (\<Union>(s, e)\<in>set segs. {s..<e})"
  using assms
proof (induction segs arbitrary: q)
  case (Cons seg segs)
  obtain s e where [simp]: "seg = (s, e)" by force
  then have se: "rq_ackStreamPos q < s" "s < e" "unat e < 2 ^ 63" using Cons.prems(2) by auto
  obtain old q1 where a: "RecvQueueAddToBlocks s e q = Some (old, q1)" "rinv q1"
    "rq_ackStreamPos q1 = rq_ackStreamPos q" "span (blocks q1) = span (blocks q) \<union> {s..<e}"
    using add_to_blocks [OF Cons.prems(1) se(2,3)] by blast
  have "\<not> e \<le> rq_ackStreamPos q" "\<not> s \<le> rq_ackStreamPos q" using se by auto
  moreover have "received q1 = received q \<union> {s..<e}" using a(3,4) by (auto simp: received_def)
  ultimately show ?case
    using a(1,3) Cons.IH [OF a(2)] Cons.prems(2) by (simp add: RecvQueueUpdateStreamPos_def Un_assoc)
qed simp

text \<open>
  C30. Whenever an in-order segment \<open>[s, e)\<close> reaches into the second of the blocks,
  \<open>RecvQueueUpdateStreamPos\<close> merges the first one at most: it acknowledges \<open>e\<close>, although every position
  below the end of the second block has been received. The ranges of the acknowledgement tell the
  sender of that block, so what it still sends begins behind \<open>e\<close>; and however many such segments come
  in, they are recorded as received and the acknowledged position stays at \<open>e\<close>. (Only a segment that
  begins at or before \<open>e\<close> would move it.)
\<close>

theorem stale_block_stalls:
  assumes "rinv q" and "blocks q = b1 # b2 # bs" and "s \<le> rq_ackStreamPos q" and "rq_ackStreamPos q < e"
    and "rblk_start b2 \<le> e" and "e < rblk_end b2"
  shows "\<exists>q1. RecvQueueUpdateStreamPos s e q = Some (RECV_PACKAGE_TYPE_IN_ORDER, q1) \<and>
    rq_ackStreamPos q1 = e \<and> {..<rblk_end b2} \<subseteq> received q1 \<and>
    (\<forall>segs. (\<forall>(s', e')\<in>set segs. e < s' \<and> s' < e' \<and> unat e' < 2 ^ 63) \<longrightarrow>
       (\<exists>q2. update_all segs q1 = Some q2 \<and> rq_ackStreamPos q2 = e \<and>
          received q2 = received q1 \<union> (\<Union>(s', e')\<in>set segs. {s'..<e'})))"
proof -
  obtain q1 where q1: "RecvQueueUpdateStreamPos s e q = Some (RECV_PACKAGE_TYPE_IN_ORDER, q1)" "rinv q1"
    "rq_ackStreamPos q1 = e" "b2 \<in> set (blocks q1)"
    using update_stops_at_segment [OF assms] by blast
  have "range_of b2 \<subseteq> span (blocks q1)" using q1(4) by (auto simp: span_def)
  moreover have "{..<rblk_end b2} \<subseteq> {..<e} \<union> range_of b2" using assms(5) by (auto simp: range_of_def)
  ultimately have "{..<rblk_end b2} \<subseteq> received q1" using q1(3) by (auto simp: received_def)
  then show ?thesis using q1(1,3) update_all_ahead [OF q1(2)] by auto
qed

text \<open>
  Five segments that come in out of order lead there: the third reaches the second block, and the
  stale block it leaves hides the next one from the fifth.
\<close>

definition nearly_stalled :: RecvQueue where
  "nearly_stalled = \<lparr>rq_ackStreamPos = 10, latest = Some 3,
     blocks = [\<lparr>rblk_base = 2, rblk_start = 8, rblk_end = 9\<rparr>, \<lparr>rblk_base = 3, rblk_start = 20, rblk_end = 25\<rparr>],
     readStreamPos = 0, rs_endStreamPos = 0, rbuffers = [], rq_next_base = 4\<rparr>"

lemma nearly_stalled_reached:
  "update_all [(5, 6), (8, 9), (0, 10), (20, 25)] (RecvQueueCreate 0) = Some nearly_stalled"
  by code_simp

lemma nearly_stalled_rinv: "rinv nearly_stalled"
  by (simp add: nearly_stalled_def rinv_def blk_ok_def before_blk_def)

theorem stale_block_stalls_witness:
  "\<exists>q1 q2. RecvQueueUpdateStreamPos 10 20 nearly_stalled = Some (RECV_PACKAGE_TYPE_IN_ORDER, q1) \<and>
     update_all [(25, 30), (30, 40)] q1 = Some q2 \<and> rq_ackStreamPos q2 = 20 \<and> 39 \<in> received q2"
proof -
  obtain q1 where q1: "RecvQueueUpdateStreamPos 10 20 nearly_stalled = Some (RECV_PACKAGE_TYPE_IN_ORDER, q1)"
    "\<forall>segs. (\<forall>(s', e')\<in>set segs. 20 < s' \<and> s' < e' \<and> unat e' < 2 ^ 63) \<longrightarrow>
       (\<exists>q2. update_all segs q1 = Some q2 \<and> rq_ackStreamPos q2 = 20 \<and>
          received q2 = received q1 \<union> (\<Union>(s', e')\<in>set segs. {s'..<e'}))"
    using stale_block_stalls [OF nearly_stalled_rinv, of _ _ _ 10 20] by (auto simp: nearly_stalled_def)
  then show ?thesis using q1(2) [THEN spec, of "[(25, 30), (30, 40)]"] by auto
qed

end
