(* ===== verification/RecvStream.thy ===== *)
theory RecvStream
  imports RecvQueueFacts
begin

text \<open>
  The bytes of the receive queue: what \<open>RecvQueueSavePayload\<close> copies into the buffers of the
  application and \<open>RecvQueuePopCompleteBuffers\<close> hands back. The buffers lie one behind the
  other from \<open>readStreamPos\<close> on, so their cells are the window of the stream that can be
  received; a mark (\<open>endStreamPos\<close>) says how far a buffer has been written. The invariant
  \<open>data_inv\<close> says that the cell of every received position holds the byte of the stream.
\<close>

section \<open>The window\<close>

definition cells :: "RecvQueueRecvBuffer list \<Rightarrow> u8 list" where
  "cells bs = concat (map rbuf_mem bs)"

text \<open>
  The buffers from position \<open>p\<close> on, with their marks; \<open>m\<close> bounds the marks. The second list are
  the positions below a mark.
\<close>

fun slots :: "nat \<Rightarrow> RecvQueueRecvBuffer list \<Rightarrow> u64 \<Rightarrow> bool" where
  "slots p [] m \<longleftrightarrow> True"
| "slots p (b # bs) m \<longleftrightarrow>
     length (rbuf_mem b) = unat (rbuf_len b) \<and> rbuf_len b \<noteq> 0 \<and>
     (rbuf_endStreamPos b = 0 \<or> p < unat (rbuf_endStreamPos b) \<and> unat (rbuf_endStreamPos b) \<le> p + unat (rbuf_len b)) \<and>
     rbuf_endStreamPos b \<le> m \<and> slots (p + unat (rbuf_len b)) bs m"

fun marked :: "nat \<Rightarrow> RecvQueueRecvBuffer list \<Rightarrow> nat set" where
  "marked p [] = {}"
| "marked p (b # bs) = {p..<unat (rbuf_endStreamPos b)} \<union> marked (p + unat (rbuf_len b)) bs"

lemma cells_simps [simp]:
  "cells [] = []" "cells (b # bs) = rbuf_mem b @ cells bs" "cells (xs @ ys) = cells xs @ cells ys"
  by (simp_all add: cells_def)

lemma slots_append [simp]:
  "slots p (us @ vs) m \<longleftrightarrow> slots p us m \<and> slots (p + length (cells us)) vs m"
  by (induction us arbitrary: p) (auto simp: add.assoc)

lemma marked_append:
  "slots p us m \<Longrightarrow> marked p (us @ vs) = marked p us \<union> marked (p + length (cells us)) vs"
  by (induction us arbitrary: p) (auto simp: add.assoc)

lemma slots_mono: "slots p bs m \<Longrightarrow> m \<le> n \<Longrightarrow> slots p bs n"
  by (induction bs arbitrary: p) auto

lemma marked_bounds: "slots p bs m \<Longrightarrow> x \<in> marked p bs \<Longrightarrow> p \<le> x \<and> x < p + length (cells bs) \<and> x < unat m"
  by (induction bs arbitrary: p) (auto simp: word_le_unat, fastforce+)

text \<open>What stays of a buffer when bytes are copied into it.\<close>

definition identity :: "RecvQueueRecvBuffer \<Rightarrow> nat \<times> u64 \<times> nat" where
  "identity b = (rbuf_data b, rbuf_len b, rbuf_callback b)"

section \<open>Copying\<close>

lemma unat_of_nat64 [simp]: "n < 2 ^ 63 \<Longrightarrow> unat (of_nat n :: u64) = n"
  by (simp add: unat_of_nat take_bit_nat_eq_self_iff)

lemma find_buffer_none:
  assumes "slots p bs m" and "p + length (cells bs) < 2 ^ 63" and "unat beg = p"
    and "p + length (cells bs) \<le> unat pos"
  shows "\<exists>us b. find_buffer pos beg bs = (us, b, [])"
  using assms
proof (induction bs arbitrary: p beg)
  case (Cons b bs)
  have u: "unat (beg + rbuf_len b) = p + unat (rbuf_len b)"
    using Cons.prems by (subst unat_add_no_overflow) auto
  have "\<exists>us c. find_buffer pos (beg + rbuf_len b) bs = (us, c, [])"
    using Cons.prems u by (intro Cons.IH) auto
  moreover have "\<not> (pos \<ge> beg \<and> pos < beg + rbuf_len b)"
    using Cons.prems by (simp add: word_to_nat u)
  ultimately show ?case by auto
qed simp

lemma find_buffer_some:
  assumes "slots p bs m" and "p + length (cells bs) < 2 ^ 63" and "unat beg = p"
    and "p \<le> unat pos" and "unat pos < p + length (cells bs)"
  shows "\<exists>us beg' b vs. find_buffer pos beg bs = (us, beg', b # vs) \<and> bs = us @ b # vs \<and>
    unat beg' = p + length (cells us) \<and> unat beg' \<le> unat pos \<and> unat pos < unat beg' + length (rbuf_mem b)"
  using assms
proof (induction bs arbitrary: p beg)
  case (Cons b bs)
  have u: "unat (beg + rbuf_len b) = p + unat (rbuf_len b)"
    using Cons.prems by (subst unat_add_no_overflow) auto
  show ?case
  proof (cases "unat pos < p + unat (rbuf_len b)")
    case True
    then have "pos \<ge> beg \<and> pos < beg + rbuf_len b"
      using Cons.prems by (simp add: word_to_nat u)
    then show ?thesis using True Cons.prems
      by (intro exI [of _ "[]"] exI [of _ beg] exI [of _ b] exI [of _ bs]) simp
  next
    case False
    then have no: "\<not> (pos \<ge> beg \<and> pos < beg + rbuf_len b)"
      by (simp add: word_to_nat u)
    obtain us beg' c vs where f: "find_buffer pos (beg + rbuf_len b) bs = (us, beg', c # vs)" "bs = us @ c # vs"
      "unat beg' = p + unat (rbuf_len b) + length (cells us)" "unat beg' \<le> unat pos"
      "unat pos < unat beg' + length (rbuf_mem c)"
      using Cons.IH [of "p + unat (rbuf_len b)" "beg + rbuf_len b"] Cons.prems u False by auto
    have "find_buffer pos beg (b # bs) = (b # us, beg', c # vs)"
      using no f(1) by (simp only: find_buffer.simps if_False split_conv Let_def)
    then show ?thesis using f(2-) Cons.prems(1)
      by (intro exI [of _ "b # us"] exI [of _ beg'] exI [of _ c] exI [of _ vs]) simp
  qed
qed simp

text \<open>\<open>bytes\<close> written over \<open>m\<close> from \<open>k\<close> on, as far as they fit.\<close>

definition overwrite :: "nat \<Rightarrow> 'a list \<Rightarrow> 'a list \<Rightarrow> 'a list" where
  "overwrite k bytes m = take k m @ take (length m - k) bytes @ drop (k + length bytes) m"

lemma overwrite_length [simp]: "k \<le> length m \<Longrightarrow> length (overwrite k bytes m) = length m"
  by (simp add: overwrite_def min_def)

lemma overwrite_nil [simp]: "overwrite k [] m = m"
  by (simp add: overwrite_def)

lemma overwrite_nth:
  assumes "i < length m" and "k \<le> length m"
  shows "overwrite k bytes m ! i = (if k \<le> i \<and> i < k + length bytes then bytes ! (i - k) else m ! i)"
  using assms by (auto simp: overwrite_def nth_append)

lemma overwrite_append_front:
  assumes "k \<le> length m"
  shows "overwrite k bytes (m @ r) = overwrite k bytes m @ overwrite 0 (drop (length m - k) bytes) r"
  using assms by (intro nth_equalityI) (auto simp: overwrite_nth nth_append)

lemma overwrite_append_behind: "overwrite (length u + k) bytes (u @ m) = u @ overwrite k bytes m"
  by (simp add: overwrite_def)

lemma copy_one:
  assumes "slots p (b # bs) m" and "p + length (cells (b # bs)) < 2 ^ 63" and "unat beg = p"
    and "unat pos = p + off" and "off < length (rbuf_mem b)" and "bytes \<noteq> []" and "length bytes < 2 ^ 63"
  defines "n \<equiv> min (length bytes) (length (rbuf_mem b) - off)"
  defines "e \<equiv> max (rbuf_endStreamPos b) (pos + of_nat n)"
  shows "copy_loop pos beg bytes m (b # bs) = do {
      (k, m', bs') \<leftarrow> copy_loop (pos + of_nat n) (beg + rbuf_len b) (drop n bytes) (max m e) bs;
      Some (n + k, m', b\<lparr>rbuf_mem := overwrite off bytes (rbuf_mem b), rbuf_endStreamPos := e\<rparr> # bs')
    }"
    and "unat (pos + of_nat n) = p + off + n" and "unat (beg + rbuf_len b) = p + length (rbuf_mem b)"
proof -
  let ?L = "rbuf_len b"
  have L: "length (rbuf_mem b) = unat ?L" "unat ?L \<noteq> 0" "p + unat ?L < 2 ^ 63"
    using assms(1,2) by (auto simp: unat_eq_0)
  have d: "unat (pos - beg) = off" using assms(3,4) by (simp add: word_le_unat)
  have left: "unat (?L - (pos - beg)) = unat ?L - off"
    using assms(5) L(1) d by (subst unat_diff_le) (auto simp: word_le_unat)
  have len: "unat (of_nat (length bytes) :: u64) = length bytes"
    using assms(7) by simp
  have n: "unat (if of_nat (length bytes) > ?L - (pos - beg) then ?L - (pos - beg) else of_nat (length bytes) :: u64) = n"
    using left len L(1) by (simp add: word_to_nat n_def min_def)
  have nb: "n \<le> unat ?L - off" "n \<le> length bytes" "n < 2 ^ 63" "off + n \<le> unat ?L"
    using assms(5,7) L by (auto simp: n_def)
  have nu: "unat (of_nat n :: u64) = n" using nb(3) by simp
  show u1: "unat (pos + of_nat n) = p + off + n"
    using assms(4) nu nb L by (subst unat_add_no_overflow) auto
  show u2: "unat (beg + ?L) = p + length (rbuf_mem b)"
    using assms(3) L by (subst unat_add_no_overflow) auto
  have store: "mem_store off (take n bytes) (rbuf_mem b) = Some (overwrite off bytes (rbuf_mem b))"
    using nb L by (auto simp: mem_store_def overwrite_def n_def min_def)
  have e: "(if rbuf_endStreamPos b < pos + of_nat n then pos + of_nat n else rbuf_endStreamPos b) = e"
    by (auto simp: e_def max_def)
  have m: "(if m < e then e else m) = max m e" by (auto simp: max_def)
  have marks: "e \<le> beg + ?L"
    using assms(1) u1 u2 nb L(1) by (auto simp: e_def word_le_unat)
  have done1: "(drop n bytes \<noteq> [] \<and> pos + of_nat n = beg + ?L) \<or> (drop n bytes = [] \<and> pos + of_nat n \<le> beg + ?L)"
  proof (cases "drop n bytes = []")
    case False
    then have "n = unat ?L - off" using L(1) nb(2) by (auto simp: n_def min_def split: if_splits)
    then have "unat (pos + of_nat n) = unat (beg + ?L)" using u1 u2 L(1) assms(5) by simp
    then show ?thesis using False by (simp add: word_unat_eq_iff)
  qed (use u1 u2 L(1) nb in \<open>simp add: word_le_unat\<close>)
  show "copy_loop pos beg bytes m (b # bs) = do {
      (k, m', bs') \<leftarrow> copy_loop (pos + of_nat n) (beg + ?L) (drop n bytes) (max m e) bs;
      Some (n + k, m', b\<lparr>rbuf_mem := overwrite off bytes (rbuf_mem b), rbuf_endStreamPos := e\<rparr> # bs')
    }"
    using assms(6) marks done1
    by (simp only: copy_loop.simps if_False Let_def n d e m store Option.bind.simps not_not simp_thms)
qed

lemma slots_written:
  assumes "length mem = unat (rbuf_len b)" and "rbuf_len b \<noteq> 0" and "p < unat e"
    and "unat e \<le> p + unat (rbuf_len b)" and "e \<le> m" and "slots (p + unat (rbuf_len b)) bs m"
  shows "slots p (b\<lparr>rbuf_mem := mem, rbuf_endStreamPos := e\<rparr> # bs) m"
  using assms by simp

lemma copy_loop_spec:
  assumes "slots p bs m" and "p + length (cells bs) < 2 ^ 63" and "unat beg = p" and "unat pos = p + off"
    and "bytes \<noteq> [] \<and> bs \<noteq> [] \<longrightarrow> off < length (rbuf_mem (hd bs))" and "length bytes < 2 ^ 63"
    and "bs = [] \<longrightarrow> off = 0"
  shows "\<exists>m' bs'. copy_loop pos beg bytes m bs = Some (min (length bytes) (length (cells bs) - off), m', bs') \<and>
    slots p bs' m' \<and> m \<le> m' \<and> cells bs' = overwrite off bytes (cells bs) \<and>
    marked p bs \<union> {p + off..<p + off + min (length bytes) (length (cells bs) - off)} \<subseteq> marked p bs' \<and>
    map identity bs' = map identity bs"
  using assms
proof (induction bs arbitrary: p beg pos off bytes m)
  case Nil
  then show ?case by (auto simp: overwrite_def)
next
  case (Cons b bs)
  show ?case
  proof (cases "bytes = []")
    case True
    then show ?thesis using Cons.prems by simp
  next
    case False
    define n where "n = min (length bytes) (length (rbuf_mem b) - off)"
    define e where "e = max (rbuf_endStreamPos b) (pos + of_nat n)"
    let ?L = "length (rbuf_mem b)"
    let ?b = "b\<lparr>rbuf_mem := overwrite off bytes (rbuf_mem b), rbuf_endStreamPos := e\<rparr>"
    have off: "off < ?L" using Cons.prems(5) False by simp
    note one = copy_one [OF Cons.prems(1-4) off False Cons.prems(6), folded n_def, folded e_def]
    have L: "?L = unat (rbuf_len b)" "rbuf_len b \<noteq> 0" using Cons.prems(1) by auto
    have n: "n \<noteq> 0" using False off by (simp add: n_def)
    have sl: "slots (p + ?L) bs (max m e)"
      using Cons.prems(1) L(1) by (simp add: slots_mono [of _ _ m])
    have "\<exists>m' bs'. copy_loop (pos + of_nat n) (beg + rbuf_len b) (drop n bytes) (max m e) bs =
        Some (min (length bytes - n) (length (cells bs)), m', bs') \<and>
      slots (p + ?L) bs' m' \<and> max m e \<le> m' \<and> cells bs' = overwrite 0 (drop n bytes) (cells bs) \<and>
      marked (p + ?L) bs \<union> {p + ?L..<p + ?L + min (length bytes - n) (length (cells bs))} \<subseteq> marked (p + ?L) bs' \<and>
      map identity bs' = map identity bs"
    proof (cases "drop n bytes = []")
      case True
      then have z: "length bytes - n = 0" by simp
      have stop: "copy_loop k l [] d bs = Some (0, d, bs)" for k l d by (cases bs) simp_all
      show ?thesis unfolding True z using sl by (simp add: stop le_max_iff_disj)
    next
      case more: False
      then have nL: "n = ?L - off" by (auto simp: n_def)
      have u: "unat (pos + of_nat n) = p + ?L + 0" using one(2) off nL by simp
      have h: "drop n bytes \<noteq> [] \<and> bs \<noteq> [] \<longrightarrow> 0 < length (rbuf_mem (hd bs))"
        using Cons.prems(1) by (cases bs) (auto simp: unat_gt_0)
      have "p + ?L + length (cells bs) < 2 ^ 63" "length (drop n bytes) < 2 ^ 63"
        using Cons.prems(2,6) by simp_all
      from Cons.IH [OF sl this(1) one(3) u h this(2)]
      show ?thesis by (simp only: length_drop diff_zero add_0_right simp_thms)
    qed
    then obtain m' bs' where r: "copy_loop (pos + of_nat n) (beg + rbuf_len b) (drop n bytes) (max m e) bs =
        Some (min (length bytes - n) (length (cells bs)), m', bs')"
      "slots (p + ?L) bs' m'" "max m e \<le> m'" "cells bs' = overwrite 0 (drop n bytes) (cells bs)"
      "marked (p + ?L) bs \<union> {p + ?L..<p + ?L + min (length bytes - n) (length (cells bs))} \<subseteq> marked (p + ?L) bs'"
      "map identity bs' = map identity bs"
      by blast
    have ue: "unat e = max (unat (rbuf_endStreamPos b)) (p + off + n)" using one(2) by (simp add: e_def)
    have "copy_loop pos beg bytes m (b # bs) =
        Some (n + min (length bytes - n) (length (cells bs)), m', ?b # bs')"
      by (subst one(1)) (simp only: r(1) Option.bind.simps split_conv)
    moreover have "n + min (length bytes - n) (length (cells bs)) = min (length bytes) (length (cells (b # bs)) - off)"
      using off by (auto simp: n_def)
    moreover have "slots p (?b # bs') m'"
    proof -
      have "p < unat e" "unat e \<le> p + ?L"
        unfolding ue using n off Cons.prems(1) L(1) by (auto simp: n_def)
      moreover have "e \<le> m'" using r(3) by simp
      ultimately show ?thesis
        using r(2) L off by (intro slots_written) (simp_all only: overwrite_length [OF less_imp_le] not_False_eq_True)
    qed
    moreover have "cells (?b # bs') = overwrite off bytes (cells (b # bs))"
      using off r(4) by (simp add: overwrite_append_front n_def min_def)
    moreover have "marked p (b # bs) \<union> {p + off..<p + off + min (length bytes) (length (cells (b # bs)) - off)}
        \<subseteq> marked p (?b # bs')"
    proof -
      have "{p..<unat (rbuf_endStreamPos b)} \<union> {p + off..<p + off + n} \<subseteq> {p..<unat e}"
        unfolding ue by auto
      moreover have "{p + off..<p + off + min (length bytes) (length (cells (b # bs)) - off)} \<subseteq>
          {p + off..<p + off + n} \<union> {p + ?L..<p + ?L + min (length bytes - n) (length (cells bs))}"
        using off by (auto simp: n_def)
      ultimately show ?thesis using r(5) L(1) by auto
    qed
    moreover have "m \<le> m'" using r(3) by simp
    moreover have "map identity (?b # bs') = map identity (b # bs)"
      using r(6) by (simp add: identity_def [of b] identity_def [of ?b])
    ultimately show ?thesis
      by (intro exI [of _ m'] exI [of _ "?b # bs'"] conjI) (simp_all only:)
  qed
qed

text \<open>The window of a queue, and where it ends.\<close>

definition window_end :: "RecvQueue \<Rightarrow> nat" where
  "window_end q = unat (readStreamPos q) + length (cells (rbuffers q))"

definition saved :: "u64 \<Rightarrow> u8 list \<Rightarrow> RecvQueue \<Rightarrow> nat" where
  "saved pos bytes q = min (unat pos + length bytes) (window_end q) - unat pos"

lemma copy_into_window:
  assumes sl: "slots (unat (readStreamPos q)) (rbuffers q) (rs_endStreamPos q)" and w: "window_end q < 2 ^ 63"
    and bytes: "bytes \<noteq> []" "length bytes < 2 ^ 63"
    and pos: "unat (readStreamPos q) \<le> unat pos" "unat pos < window_end q"
  shows "\<exists>us beg rest m' rest'. find_buffer pos (readStreamPos q) (rbuffers q) = (us, beg, rest) \<and> rest \<noteq> [] \<and>
    copy_loop pos beg bytes (rs_endStreamPos q) rest = Some (min (length bytes) (window_end q - unat pos), m', rest') \<and>
    slots (unat (readStreamPos q)) (us @ rest') m' \<and>
    cells (us @ rest') = overwrite (unat pos - unat (readStreamPos q)) bytes (cells (rbuffers q)) \<and>
    marked (unat (readStreamPos q)) (rbuffers q) \<union> {unat pos..<unat pos + min (length bytes) (window_end q - unat pos)}
      \<subseteq> marked (unat (readStreamPos q)) (us @ rest') \<and>
    map identity (us @ rest') = map identity (rbuffers q)"
proof -
  let ?p = "unat (readStreamPos q)" and ?m = "rs_endStreamPos q"
  have w': "?p + length (cells (rbuffers q)) < 2 ^ 63" using w by (simp add: window_end_def)
  obtain us beg b vs where f: "find_buffer pos (readStreamPos q) (rbuffers q) = (us, beg, b # vs)"
    "rbuffers q = us @ b # vs" "unat beg = ?p + length (cells us)" "unat beg \<le> unat pos"
    "unat pos < unat beg + length (rbuf_mem b)"
    using find_buffer_some [OF sl w' refl pos(1)] pos(2) by (auto simp: window_end_def)
  define off where "off = unat pos - unat beg"
  have off: "unat pos = ?p + length (cells us) + off" using f(3,4) by (simp add: off_def)
  have sls: "slots (?p + length (cells us)) (b # vs) ?m" "slots ?p us ?m" using sl f(2) by simp_all
  have n: "length (cells (b # vs)) - off = window_end q - unat pos"
    using off f(2) by (simp add: window_end_def)
  have bound: "?p + length (cells us) + length (cells (b # vs)) < 2 ^ 63" using w' f(2) by simp
  have hd: "bytes \<noteq> [] \<and> b # vs \<noteq> [] \<longrightarrow> off < length (rbuf_mem (hd (b # vs)))"
    using f(4,5) unfolding off_def list.sel by (intro impI) linarith
  obtain m' rest' where c: "copy_loop pos beg bytes ?m (b # vs) = Some (min (length bytes) (window_end q - unat pos), m', rest')"
    "slots (?p + length (cells us)) rest' m'" "?m \<le> m'" "cells rest' = overwrite off bytes (cells (b # vs))"
    "marked (?p + length (cells us)) (b # vs) \<union> {unat pos..<unat pos + min (length bytes) (window_end q - unat pos)}
      \<subseteq> marked (?p + length (cells us)) rest'"
    "map identity rest' = map identity (b # vs)"
    using copy_loop_spec [OF sls(1) bound f(3) off hd bytes(2)] unfolding n off [symmetric] by auto
  have "slots ?p (us @ rest') m'" using slots_mono [OF sls(2) c(3)] c(2) by simp
  moreover have "cells (us @ rest') = overwrite (unat pos - ?p) bytes (cells (rbuffers q))"
    using c(4) off overwrite_append_behind [of "cells us" off bytes "cells (b # vs)"] by (simp add: f(2))
  moreover have "marked ?p (rbuffers q) \<union> {unat pos..<unat pos + min (length bytes) (window_end q - unat pos)}
      \<subseteq> marked ?p (us @ rest')"
    unfolding f(2) marked_append [OF sls(2)] using c(5) by blast
  moreover have "map identity (us @ rest') = map identity (rbuffers q)"
    using c(6) by (simp add: f(2))
  ultimately show ?thesis using f(1) c(1)
    by (intro exI [of _ us] exI [of _ beg] exI [of _ "b # vs"] exI [of _ m'] exI [of _ rest'] conjI)
      (simp_all only: list.distinct not_False_eq_True)
qed

lemma clip:
  fixes p R T l :: nat
  assumes "R - p < l" and "max p R < T"
  shows "R - p + min (p + l - max p R) (T - max p R) = min (p + l) T - p"
  using assms by (cases "p \<le> R"; cases "p + l \<le> T") (simp_all add: max_def min_def)

lemma save_payload:
  assumes sl: "slots (unat (readStreamPos q)) (rbuffers q) (rs_endStreamPos q)" and w: "window_end q < 2 ^ 63"
    and bytes: "bytes \<noteq> []" "unat pos + length bytes < 2 ^ 63"
  shows "\<exists>m' bs'. RecvQueueSavePayload pos bytes q =
      Some (saved pos bytes q, q\<lparr>rbuffers := bs', rs_endStreamPos := m'\<rparr>) \<and>
    slots (unat (readStreamPos q)) bs' m' \<and> map identity bs' = map identity (rbuffers q) \<and>
    length (cells bs') = length (cells (rbuffers q)) \<and>
    (\<forall>x. unat (readStreamPos q) \<le> x \<and> x < window_end q \<longrightarrow>
       cells bs' ! (x - unat (readStreamPos q)) =
         (if unat pos \<le> x \<and> x < unat pos + length bytes then bytes ! (x - unat pos)
          else cells (rbuffers q) ! (x - unat (readStreamPos q)))) \<and>
    marked (unat (readStreamPos q)) (rbuffers q) \<union>
      {max (unat pos) (unat (readStreamPos q))..<unat pos + saved pos bytes q}
      \<subseteq> marked (unat (readStreamPos q)) bs'"
proof -
  let ?R = "unat (readStreamPos q)" and ?T = "window_end q"
  let ?old = "if pos < readStreamPos q then unat (readStreamPos q - pos) else 0"
  let ?pos = "pos + of_nat ?old" and ?bytes = "drop ?old bytes"
  have T: "?T = ?R + length (cells (rbuffers q))" by (simp add: window_end_def)
  have old: "?old = ?R - unat pos" by (auto simp: word_to_nat)
  have stay: ?thesis if "RecvQueueSavePayload pos bytes q = Some (saved pos bytes q, q)"
      "unat pos + length bytes \<le> ?R \<or> ?T \<le> max (unat pos) ?R"
  proof -
    have "unat pos + saved pos bytes q \<le> max (unat pos) ?R"
      using that(2) T by (auto simp: saved_def min_def max_def simp flip: length_0_conv)
    then show ?thesis using that sl
      by (intro exI [of _ "rs_endStreamPos q"] exI [of _ "rbuffers q"]) auto
  qed
  show ?thesis
  proof (cases "pos < readStreamPos q \<and> \<not> ?old < length bytes")
    case True
    then have "unat pos < ?R" "\<not> ?R - unat pos < length bytes"
      unfolding old by (simp_all only: word_less_unat simp_thms)
    then have "unat pos + length bytes \<le> ?R" by linarith
    then have "saved pos bytes q = length bytes" using T by (simp add: saved_def)
    moreover have "RecvQueueSavePayload pos bytes q = Some (length bytes, q)"
      unfolding RecvQueueSavePayload_def Let_def by (rule if_P [OF True])
    ultimately show ?thesis using \<open>unat pos + length bytes \<le> ?R\<close> by (intro stay) simp_all
  next
    case False
    then have lt: "?old < length bytes" using bytes(1) by (cases "pos < readStreamPos q") auto
    have pos': "unat ?pos = max (unat pos) ?R"
    proof -
      have "unat (of_nat ?old :: u64) = ?old" using lt bytes(2) by (intro unat_of_nat64) linarith
      then have "unat ?pos = unat pos + ?old" using lt bytes(2) by (subst unat_add_no_overflow) auto
      then show ?thesis using old by simp
    qed
    have len: "length ?bytes = unat pos + length bytes - max (unat pos) ?R" using old lt by auto
    have save: "RecvQueueSavePayload pos bytes q =
       (let (us, beg, rest) = find_buffer ?pos (readStreamPos q) (rbuffers q)
        in if rest = [] then Some (?old, q)
           else do {
             (n, endPos, rest) \<leftarrow> copy_loop ?pos beg ?bytes (rs_endStreamPos q) rest;
             Some (?old + n, q\<lparr>rbuffers := us @ rest, rs_endStreamPos := endPos\<rparr>)
           })"
      using False by (simp only: RecvQueueSavePayload_def Let_def if_False)
    show ?thesis
    proof (cases "?T \<le> max (unat pos) ?R")
      case True
      then obtain us b where "find_buffer ?pos (readStreamPos q) (rbuffers q) = (us, b, [])"
        using find_buffer_none [OF sl _ refl, of ?pos] w T pos' by auto
      then have "RecvQueueSavePayload pos bytes q = Some (?old, q)"
        unfolding save by (simp only: Let_def split_conv if_True simp_thms)
      moreover have "?old = saved pos bytes q" using True T old lt by (auto simp: saved_def)
      ultimately show ?thesis using True by (intro stay) (simp_all only: simp_thms)
    next
      case room: False
      have pre: "?bytes \<noteq> []" "length ?bytes < 2 ^ 63" "?R \<le> unat ?pos" "unat ?pos < ?T"
        using lt bytes(2) pos' room by (simp_all add: not_le)
      obtain us beg rest m' rest' where c: "find_buffer ?pos (readStreamPos q) (rbuffers q) = (us, beg, rest)" "rest \<noteq> []"
        "copy_loop ?pos beg ?bytes (rs_endStreamPos q) rest = Some (min (length ?bytes) (?T - unat ?pos), m', rest')"
        "slots ?R (us @ rest') m'" "cells (us @ rest') = overwrite (unat ?pos - ?R) ?bytes (cells (rbuffers q))"
        "marked ?R (rbuffers q) \<union> {unat ?pos..<unat ?pos + min (length ?bytes) (?T - unat ?pos)} \<subseteq> marked ?R (us @ rest')"
        "map identity (us @ rest') = map identity (rbuffers q)"
        using copy_into_window [OF sl w pre] by blast
      have n: "?old + min (length ?bytes) (?T - unat ?pos) = saved pos bytes q"
        unfolding pos' len saved_def using lt room unfolding old by (intro clip) (simp_all only: not_le)
      have "RecvQueueSavePayload pos bytes q =
          Some (saved pos bytes q, q\<lparr>rbuffers := us @ rest', rs_endStreamPos := m'\<rparr>)"
        unfolding save c(1) using c(2) by (simp only: Let_def split_conv if_False c(3) Option.bind.simps n)
      moreover have "length (cells (us @ rest')) = length (cells (rbuffers q))"
        unfolding c(5) using pre(4) T by (intro overwrite_length) simp
      moreover
      have nth: "cells (us @ rest') ! (x - ?R) = (if unat pos \<le> x \<and> x < unat pos + length bytes
          then bytes ! (x - unat pos) else cells (rbuffers q) ! (x - ?R))" if x: "?R \<le> x" "x < ?T" for x
      proof -
        have i: "x - ?R < length (cells (rbuffers q))" "unat ?pos - ?R \<le> length (cells (rbuffers q))"
          using x T pre(4) by simp_all
        have "unat ?pos - ?R \<le> x - ?R \<and> x - ?R < unat ?pos - ?R + length ?bytes \<longleftrightarrow>
            unat pos \<le> x \<and> x < unat pos + length bytes"
          unfolding pos' len using x(1) by auto
        moreover have "?bytes ! (x - ?R - (unat ?pos - ?R)) = bytes ! (x - unat pos)" if "unat pos \<le> x"
          using that x(1) lt old unfolding pos' by (simp add: max_def)
        ultimately show ?thesis unfolding c(5) overwrite_nth [OF i] by simp
      qed
      then have "\<forall>x. ?R \<le> x \<and> x < ?T \<longrightarrow> cells (us @ rest') ! (x - ?R) =
          (if unat pos \<le> x \<and> x < unat pos + length bytes
           then bytes ! (x - unat pos) else cells (rbuffers q) ! (x - ?R))" by blast
      moreover have "unat ?pos + min (length ?bytes) (?T - unat ?pos) = unat pos + saved pos bytes q"
        unfolding n [symmetric] using old pos' by auto
      ultimately show ?thesis using c(4,6,7) unfolding pos'
        by (intro exI [of _ m'] exI [of _ "us @ rest'"] conjI) (simp_all only: simp_thms)
    qed
  qed
qed

section \<open>The invariant\<close>

text \<open>
  Every position of \<open>X\<close> behind the read position lies in the window, below the mark of its
  buffer, and its cell holds the byte of the stream \<open>S\<close>.
\<close>

definition stored :: "(nat \<Rightarrow> u8) \<Rightarrow> nat set \<Rightarrow> nat \<Rightarrow> RecvQueueRecvBuffer list \<Rightarrow> bool" where
  "stored S X p bs \<longleftrightarrow>
     (\<forall>x\<in>X. p \<le> x \<longrightarrow> x < p + length (cells bs) \<and> x \<in> marked p bs \<and> cells bs ! (x - p) = S x)"

definition data_inv :: "(nat \<Rightarrow> u8) \<Rightarrow> RecvQueue \<Rightarrow> bool" where
  "data_inv S q \<longleftrightarrow> rinv q \<and> slots (unat (readStreamPos q)) (rbuffers q) (rs_endStreamPos q) \<and>
     window_end q < 2 ^ 63 \<and> readStreamPos q \<le> rq_ackStreamPos q \<and>
     stored S (unat ` received q) (unat (readStreamPos q)) (rbuffers q)"

lemma received_updates [simp]:
  "received (q\<lparr>rbuffers := bs\<rparr>) = received q" "received (q\<lparr>rs_endStreamPos := m\<rparr>) = received q"
  "received (q\<lparr>readStreamPos := p\<rparr>) = received q"
  by (simp_all add: received_def)

lemma rinv_updates [simp]:
  "rinv (q\<lparr>rbuffers := bs\<rparr>) = rinv q" "rinv (q\<lparr>rs_endStreamPos := m\<rparr>) = rinv q"
  "rinv (q\<lparr>readStreamPos := p\<rparr>) = rinv q"
  by (simp_all add: rinv_def)

lemma segment_type_updates [simp]:
  "segment_type s e (q\<lparr>rbuffers := bs\<rparr>) = segment_type s e q"
  "segment_type s e (q\<lparr>rs_endStreamPos := m\<rparr>) = segment_type s e q"
  by (simp_all add: segment_type_def)

lemma image_unat_range: "unat ` {s..<e} = {unat s..<unat (e :: u64)}"
proof
  show "{unat s..<unat e} \<subseteq> unat ` {s..<e}"
  proof
    fix x assume x: "x \<in> {unat s..<unat e}"
    then have "unat (of_nat x :: u64) = x"
      using unat_lt64 [of e] by (simp add: unat_of_nat take_bit_nat_eq_self_iff)
    then show "x \<in> unat ` {s..<e}" using x by (intro image_eqI [of _ _ "of_nat x"]) (auto simp: word_to_nat)
  qed
qed (auto simp: word_to_nat)

text \<open>Bytes of the stream that have been saved are stored.\<close>

lemma stored_save:
  assumes st: "stored S X R bs" and len: "length (cells bs') = length (cells bs)"
    and bytes: "\<forall>i<length bytes. bytes ! i = S (p + i)"
    and nth: "\<forall>x. R \<le> x \<and> x < R + length (cells bs) \<longrightarrow> cells bs' ! (x - R) =
       (if p \<le> x \<and> x < p + length bytes then bytes ! (x - p) else cells bs ! (x - R))"
    and mark: "marked R bs \<union> {max p R..<p + n} \<subseteq> marked R bs'"
    and n: "n = min (p + length bytes) (R + length (cells bs)) - p"
  shows "stored S (X \<union> {p..<p + n}) R bs'"
  unfolding stored_def
proof (intro ballI impI)
  fix x assume x: "x \<in> X \<union> {p..<p + n}" "R \<le> x"
  have S: "bytes ! (x - p) = S x" if "p \<le> x" "x < p + length bytes"
    using bytes that by (metis add_diff_cancel_left' le_Suc_ex nat_add_left_cancel_less)
  show "x < R + length (cells bs') \<and> x \<in> marked R bs' \<and> cells bs' ! (x - R) = S x"
  proof (cases "x \<in> X")
    case True
    then have "x < R + length (cells bs)" "x \<in> marked R bs" "cells bs ! (x - R) = S x"
      using st x(2) by (auto simp: stored_def)
    then show ?thesis using mark nth x(2) S len by auto
  next
    case False
    then have i: "p \<le> x" "x < p + n" using x(1) by auto
    then have "x < p + length bytes" "x < R + length (cells bs)" unfolding n by auto
    then show ?thesis using mark nth x(2) S len i by auto
  qed
qed

lemma write_data_inv:
  assumes inv: "data_inv S q" and b: "bytes_at S (unat pos) (unat len) bytes" and bound: "unat pos + unat len < 2 ^ 63"
    and new: "rq_ackStreamPos q < pos + ucast len" "len \<noteq> 0"
  shows "\<exists>m' bs' q'. RecvQueueSavePayload pos (take (unat len) bytes) q =
      Some (saved pos (take (unat len) bytes) q, q\<lparr>rbuffers := bs', rs_endStreamPos := m'\<rparr>) \<and>
    (if saved pos (take (unat len) bytes) q = 0 then q' = q\<lparr>rbuffers := bs', rs_endStreamPos := m'\<rparr>
     else RecvQueueUpdateStreamPos pos (pos + of_nat (saved pos (take (unat len) bytes) q))
        (q\<lparr>rbuffers := bs', rs_endStreamPos := m'\<rparr>) =
        Some (segment_type pos (pos + of_nat (saved pos (take (unat len) bytes) q)) q, q')) \<and>
    data_inv S q' \<and> map identity (rbuffers q') = map identity (rbuffers q) \<and>
    readStreamPos q' = readStreamPos q \<and>
    unat ` received q' = unat ` received q \<union> {unat pos..<unat pos + saved pos (take (unat len) bytes) q}"
proof -
  let ?R = "unat (readStreamPos q)" and ?bytes = "take (unat len) bytes" and ?p = "unat pos"
  have l: "length ?bytes = unat len" "\<forall>i<length ?bytes. ?bytes ! i = S (?p + i)"
    using b by (simp_all add: bytes_at_def)
  have sl: "slots ?R (rbuffers q) (rs_endStreamPos q)" "window_end q < 2 ^ 63" "rinv q"
    and st: "stored S (unat ` received q) ?R (rbuffers q)" and R: "readStreamPos q \<le> rq_ackStreamPos q"
    using inv by (simp_all add: data_inv_def)
  have ne: "?bytes \<noteq> []" using new(2) l(1) by (metis length_0_conv unat_eq_0)
  have bound': "?p + length ?bytes < 2 ^ 63" using bound l(1) by simp
  define n where "n = saved pos ?bytes q"
  obtain m' bs' where sv: "RecvQueueSavePayload pos ?bytes q = Some (n, q\<lparr>rbuffers := bs', rs_endStreamPos := m'\<rparr>)"
    "slots ?R bs' m'" "map identity bs' = map identity (rbuffers q)" "length (cells bs') = length (cells (rbuffers q))"
    "\<forall>x. ?R \<le> x \<and> x < window_end q \<longrightarrow> cells bs' ! (x - ?R) =
       (if ?p \<le> x \<and> x < ?p + length ?bytes then ?bytes ! (x - ?p) else cells (rbuffers q) ! (x - ?R))"
    "marked ?R (rbuffers q) \<union> {max ?p ?R..<?p + n} \<subseteq> marked ?R bs'"
    using save_payload [OF sl(1,2) ne bound'] unfolding n_def by blast
  let ?q = "q\<lparr>rbuffers := bs', rs_endStreamPos := m'\<rparr>"
  have st': "stored S (unat ` received q \<union> {?p..<?p + n}) ?R bs'"
    using stored_save [OF st sv(4) l(2) _ sv(6)] sv(5) by (simp add: n_def saved_def window_end_def)
  have w: "window_end q = ?R + length (cells bs')" using sv(4) by (simp add: window_end_def)
  have nl: "n \<le> unat len" using l(1) by (simp add: n_def saved_def)
  show ?thesis
  proof (cases "n = 0")
    case True
    then show ?thesis using sv st' sl w R unfolding n_def [symmetric]
      by (intro exI [of _ m'] exI [of _ bs'] exI [of _ ?q]) (simp add: data_inv_def window_end_def)
  next
    case False
    have "unat (of_nat n :: u64) = n" using nl bound by simp
    then have e: "unat (pos + of_nat n) = ?p + n" using nl bound by (subst unat_add_no_overflow) auto
    then have se: "pos < pos + of_nat n" "unat (pos + of_nat n) < 2 ^ 63"
      using False nl bound by (simp_all add: word_less_unat)
    have "rinv ?q" using sl(3) by simp
    then obtain q' where u: "RecvQueueUpdateStreamPos pos (pos + of_nat n) ?q = Some (segment_type pos (pos + of_nat n) ?q, q')"
      "rinv q'" "received q' = received ?q \<union> {pos..<pos + of_nat n}" "same_buffers ?q q'"
      "rq_ackStreamPos ?q \<le> rq_ackStreamPos q'"
      using update_spec [OF _ se] by blast
    have rec: "unat ` received q' = unat ` received q \<union> {?p..<?p + n}"
      using u(3) e by (simp add: image_Un image_unat_range)
    have sb: "readStreamPos q' = readStreamPos q" "rbuffers q' = bs'" "rs_endStreamPos q' = m'"
      using u(4) by (simp_all add: same_buffers_def)
    have "readStreamPos q \<le> rq_ackStreamPos q'" using R u(5) by simp
    then have "data_inv S q'"
      using u(2) sv(2) sl(2) w st' rec by (simp add: data_inv_def sb window_end_def)
    then show ?thesis using False sv(1,3) u(1) rec sb unfolding n_def [symmetric]
      by (intro exI [of _ m'] exI [of _ bs'] exI [of _ q']) simp
  qed
qed

lemma received_below_ack:
  assumes "n < unat (rq_ackStreamPos q)"
  shows "n \<in> unat ` received q"
proof -
  have n: "unat (of_nat n :: u64) = n"
    using assms unat_lt64 [of "rq_ackStreamPos q"] by (simp add: unat_of_nat take_bit_nat_eq_self_iff)
  then have "(of_nat n :: u64) \<in> received q" using assms by (simp add: received_def word_less_unat)
  then show ?thesis using n by (metis imageI)
qed

definition write_type :: "u64 \<Rightarrow> u16 \<Rightarrow> RecvQueue \<Rightarrow> RecvPackageType" where
  "write_type pos len q =
     (if pos + ucast len \<le> rq_ackStreamPos q then RECV_PACKAGE_TYPE_OLD
      else if len = 0 then RECV_PACKAGE_TYPE_IN_ORDER
      else if window_end q \<le> unat pos then RECV_PACKAGE_TYPE_OUT_OF_BUFFER
      else if window_end q < unat pos + unat len then RECV_PACKAGE_TYPE_PART
      else segment_type pos (pos + ucast len) q)"

lemma write_data_spec:
  assumes inv: "data_inv S q" and b: "bytes_at S (unat pos) (unat len) bytes" and bound: "unat pos + unat len < 2 ^ 63"
  shows "\<exists>q'. RecvQueueWriteData pos bytes len q = Some (write_type pos len q, q') \<and> data_inv S q' \<and>
    readStreamPos q' = readStreamPos q \<and> map identity (rbuffers q') = map identity (rbuffers q) \<and>
    unat ` received q' = unat ` received q \<union> {unat pos..<min (unat pos + unat len) (window_end q)}"
proof -
  have e: "unat (pos + ucast len) = unat pos + unat len"
    using bound by (subst unat_add_no_overflow) simp_all
  consider (old) "pos + ucast len \<le> rq_ackStreamPos q" | (none) "rq_ackStreamPos q < pos + ucast len" "len = 0"
    | (new) "rq_ackStreamPos q < pos + ucast len" "len \<noteq> 0" by fastforce
  then show ?thesis
  proof cases
    case old
    have "{unat pos..<min (unat pos + unat len) (window_end q)} \<subseteq> unat ` received q"
      using old e by (auto simp: word_le_unat intro!: received_below_ack)
    then show ?thesis using old inv by (auto simp: RecvQueueWriteData_def write_type_def)
  next
    case none
    then show ?thesis using inv by (auto simp: RecvQueueWriteData_def write_type_def)
  next
    case new
    have l: "unat len \<le> length bytes" "length (take (unat len) bytes) = unat len"
      using b by (simp_all add: bytes_at_def)
    define n where "n = saved pos (take (unat len) bytes) q"
    obtain m' bs' q' where w: "RecvQueueSavePayload pos (take (unat len) bytes) q =
        Some (n, q\<lparr>rbuffers := bs', rs_endStreamPos := m'\<rparr>)"
      "if n = 0 then q' = q\<lparr>rbuffers := bs', rs_endStreamPos := m'\<rparr>
       else RecvQueueUpdateStreamPos pos (pos + of_nat n) (q\<lparr>rbuffers := bs', rs_endStreamPos := m'\<rparr>) =
         Some (segment_type pos (pos + of_nat n) q, q')"
      "data_inv S q'" "map identity (rbuffers q') = map identity (rbuffers q)" "readStreamPos q' = readStreamPos q"
      "unat ` received q' = unat ` received q \<union> {unat pos..<unat pos + n}"
      using write_data_inv [OF inv b bound new] unfolding n_def by blast
    have n: "n = min (unat pos + unat len) (window_end q) - unat pos"
      unfolding n_def saved_def l(2) ..
    have pos: "\<not> pos + ucast len \<le> rq_ackStreamPos q" using new(1) by simp
    have step: "RecvQueueWriteData pos bytes len q =
        (if n = 0 then Some (RECV_PACKAGE_TYPE_OUT_OF_BUFFER, q')
         else Some (if n < unat len then RECV_PACKAGE_TYPE_PART else segment_type pos (pos + of_nat n) q, q'))"
      using pos new(2) l(1) w(1,2) by (cases "n = 0") (simp_all add: RecvQueueWriteData_def not_less)
    have len0: "unat len \<noteq> 0" using new(2) by (simp add: unat_eq_0)
    have "n = 0 \<longleftrightarrow> window_end q \<le> unat pos" "n < unat len \<longleftrightarrow> window_end q < unat pos + unat len"
      using len0 unfolding n by (auto simp: min_def)
    moreover have "pos + of_nat n = pos + ucast len" if "\<not> n < unat len"
    proof -
      have "n = unat len" using that n by simp
      then have "of_nat n = (ucast len :: u64)"
        by (simp add: word_unat_eq_iff)
      then show ?thesis by simp
    qed
    ultimately have "RecvQueueWriteData pos bytes len q = Some (write_type pos len q, q')"
      unfolding step write_type_def using pos new(2) by auto
    moreover have "{unat pos..<unat pos + n} = {unat pos..<min (unat pos + unat len) (window_end q)}"
      unfolding n by auto
    ultimately show ?thesis using w(3-6) by auto
  qed
qed

section \<open>Delivery\<close>

text \<open>
  What the application gets: buffers that follow one another from position \<open>p\<close> to \<open>e\<close>, each with
  at least one byte, and the bytes of the stream in their memory.
\<close>

fun delivered :: "(nat \<Rightarrow> u8) \<Rightarrow> u64 \<Rightarrow> RecvQueueRecvBuffer list \<Rightarrow> u64 \<Rightarrow> bool" where
  "delivered S p [] e \<longleftrightarrow> p = e"
| "delivered S p (b # bs) e \<longleftrightarrow> rbuf_startStreamPos b = p \<and> p < rbuf_endStreamPos b \<and>
     bytes_at S (unat p) (unat (rbuf_endStreamPos b - p)) (rbuf_mem b) \<and> delivered S (rbuf_endStreamPos b) bs e"

lemma slots_unmarked: "slots p bs m \<Longrightarrow> marked p bs = {} \<Longrightarrow> slots p' bs m"
  by (induction bs arbitrary: p p') auto

lemma stored_rest:
  assumes "stored S X p (b # bs)" and "length (rbuf_mem b) = unat (rbuf_len b)"
    and "unat (rbuf_endStreamPos b) \<le> p + unat (rbuf_len b)"
  shows "stored S X (p + unat (rbuf_len b)) bs"
  unfolding stored_def
proof (intro ballI impI)
  fix x assume x: "x \<in> X" "p + unat (rbuf_len b) \<le> x"
  then have "x < p + length (cells (b # bs))" "x \<in> marked p (b # bs)" "cells (b # bs) ! (x - p) = S x"
    using assms(1) by (auto simp: stored_def)
  then show "x < p + unat (rbuf_len b) + length (cells bs) \<and> x \<in> marked (p + unat (rbuf_len b)) bs \<and>
      cells bs ! (x - (p + unat (rbuf_len b))) = S x"
    using x(2) assms(2,3) by (auto simp: nth_append less_diff_conv2 diff_diff_left)
qed

lemma stored_bytes:
  assumes "stored S X p (b # bs)" and "length (rbuf_mem b) = unat (rbuf_len b)"
    and "\<forall>n<k. n \<in> X" and "p + n \<le> k" and "n \<le> unat (rbuf_len b)"
  shows "bytes_at S p n (rbuf_mem b)"
  unfolding bytes_at_def
proof (intro conjI allI impI)
  fix i assume i: "i < n"
  then have "p + i \<in> X" using assms(3,4) by simp
  then have "cells (b # bs) ! (p + i - p) = S (p + i)" using assms(1) unfolding stored_def by (metis le_add1)
  then show "rbuf_mem b ! i = S (p + i)" using i assms(2,5) by (simp add: nth_append)
qed (use assms in simp)

text \<open>When everything below the mark of a later buffer is received, the buffer in front is full.\<close>

lemma full_below_ack:
  assumes sl: "slots p (b # bs) m" and st: "stored S X p (b # bs)" and X: "\<forall>n<k. n \<in> X"
    and k: "p + unat (rbuf_len b) \<le> k"
  shows "unat (rbuf_endStreamPos b) = p + unat (rbuf_len b)"
proof -
  let ?x = "p + unat (rbuf_len b) - 1"
  have L: "unat (rbuf_len b) \<noteq> 0" using sl by (simp add: unat_eq_0)
  then have "?x \<in> X" "p \<le> ?x" using X k by auto
  then have "?x \<in> marked p (b # bs)" using st by (auto simp: stored_def)
  moreover have "?x \<notin> marked (p + unat (rbuf_len b)) bs"
    using marked_bounds [of "p + unat (rbuf_len b)" bs m ?x] sl L by auto
  ultimately have "?x < unat (rbuf_endStreamPos b)" by simp
  then show ?thesis using sl by auto
qed

lemma pop_received_spec:
  assumes "slots p bs m" and "p + length (cells bs) < 2 ^ 63" and "unat r = p" and "stored S X p bs"
    and "\<forall>n<unat a. n \<in> X" and "r \<le> a"
  shows "\<exists>ds rest r'. pop_received force a m r bs = Some (ds, rest, r') \<and> r \<le> r' \<and> r' \<le> a \<and>
    delivered S r ds r' \<and> slots (unat r') rest m \<and> stored S X (unat r') rest \<and>
    unat r' + length (cells rest) \<le> p + length (cells bs) \<and> map identity (ds @ rest) = map identity bs \<and>
    (rest \<noteq> [] \<longrightarrow> unat a < unat r' + unat (rbuf_len (hd rest)))"
  using assms
proof (induction bs arbitrary: p r)
  case Nil
  then show ?case by simp
next
  case (Cons b bs)
  let ?L = "unat (rbuf_len b)" and ?e = "rbuf_endStreamPos b"
  have b: "length (rbuf_mem b) = ?L" "?L \<noteq> 0" "?e = 0 \<or> p < unat ?e \<and> unat ?e \<le> p + ?L" "?e \<le> m"
    "slots (p + ?L) bs m"
    using Cons.prems(1) by (auto simp: unat_eq_0)
  have rL: "unat (r + rbuf_len b) = p + ?L"
    using Cons.prems(2,3) b(1) by (subst unat_add_no_overflow) auto
  let ?full = "?e = r + rbuf_len b \<and> ?e \<le> a" and ?forced = "force \<and> ?e \<noteq> 0 \<and> m \<le> a"
  have step: ?case if pop: "?full \<or> ?forced" and e: "p < unat ?e" "unat ?e \<le> p + ?L" "?e \<le> a"
    and sl: "slots (unat ?e) bs m" and st: "stored S X (unat ?e) bs"
  proof -
    have "unat ?e + length (cells bs) < 2 ^ 63" using e(2) Cons.prems(2) b(1) by simp
    then obtain ds rest r' where p: "pop_received force a m ?e bs = Some (ds, rest, r')" "?e \<le> r'" "r' \<le> a"
      "delivered S ?e ds r'" "slots (unat r') rest m" "stored S X (unat r') rest"
      "unat r' + length (cells rest) \<le> unat ?e + length (cells bs)" "map identity (ds @ rest) = map identity bs"
      "rest \<noteq> [] \<longrightarrow> unat a < unat r' + unat (rbuf_len (hd rest))"
      using Cons.IH [OF sl _ refl st Cons.prems(5) e(3)] by blast
    have re: "r < ?e" using e(1) Cons.prems(3) by (simp add: word_less_unat)
    then have ue: "unat (?e - r) = unat ?e - p" using Cons.prems(3) by simp
    have "bytes_at S p (unat (?e - r)) (rbuf_mem b)"
      unfolding ue using Cons.prems(4,5) b(1) e by (intro stored_bytes [where X = X and k = "unat a"]) (auto simp: word_le_unat)
    then have "delivered S r (b\<lparr>rbuf_startStreamPos := r\<rparr> # ds) r'"
      using p(4) re Cons.prems(3) by simp
    moreover have "pop_received force a m r (b # bs) = Some (b\<lparr>rbuf_startStreamPos := r\<rparr> # ds, rest, r')"
      using pop b(4) p(1) by simp
    moreover have "r \<le> r'" using re p(2) by simp
    moreover have "map identity ((b\<lparr>rbuf_startStreamPos := r\<rparr> # ds) @ rest) = map identity (b # bs)"
      using p(8) by (simp add: identity_def [of b] identity_def [of "b\<lparr>rbuf_startStreamPos := r\<rparr>"])
    moreover have "unat r' + length (cells rest) \<le> p + length (cells (b # bs))"
      using p(7) e(2) b(1) by simp
    ultimately show ?case using p(3,5,6,9)
      by (intro exI [of _ "b\<lparr>rbuf_startStreamPos := r\<rparr> # ds"] exI [of _ rest] exI [of _ r'] conjI) (simp_all only: simp_thms)
  qed
  consider (full) ?full | (forced) "\<not> ?full" ?forced | (stop) "\<not> ?full" "\<not> ?forced" by blast
  then show ?case
  proof cases
    case full
    then have "unat ?e = p + ?L" using rL by simp
    then show ?thesis using full b stored_rest [OF Cons.prems(4) b(1)] by (intro step) auto
  next
    case forced
    have me: "?e \<le> a" using forced(2) b(4) by (auto intro: order.trans)
    then have less: "unat ?e < p + ?L"
      using forced b(3) rL by (metis le_neq_implies_less word_unat_eq_iff)
    have ka: "unat a < p + ?L"
      using full_below_ack [OF Cons.prems(1,4,5)] less by fastforce
    have none: "marked (p + ?L) bs = {}"
      using marked_bounds [OF b(5)] forced(2) ka by (fastforce simp: word_le_unat)
    have "\<not> unat ?e \<le> x" if "x \<in> X" for x
    proof
      assume "unat ?e \<le> x"
      then have "p \<le> x" using b(3) forced(2) by auto
      then have "x \<in> marked p (b # bs)" using Cons.prems(4) that by (auto simp: stored_def)
      then show False using none \<open>unat ?e \<le> x\<close> by simp
    qed
    then have "stored S X (unat ?e) bs" by (simp add: stored_def)
    then show ?thesis using forced b me slots_unmarked [OF b(5) none] by (intro step) auto
  next
    case stop
    have "unat a < p + ?L"
    proof (rule ccontr)
      assume "\<not> unat a < p + ?L"
      then have "unat ?e = p + ?L" using full_below_ack [OF Cons.prems(1,4,5)] by simp
      then have "?e = r + rbuf_len b" "?e \<le> a"
        using rL \<open>\<not> unat a < p + ?L\<close> by (simp_all add: word_unat_eq_iff word_le_unat)
      then show False using stop(1) by blast
    qed
    moreover have "pop_received force a m r (b # bs) = Some ([], b # bs, r)"
      using stop b(4) by auto
    ultimately show ?thesis using Cons.prems
      by (intro exI [of _ "[]"] exI [of _ "b # bs"] exI [of _ r]) simp
  qed
qed

section \<open>Properties\<close>

text \<open>
  C29. A package arrives with the bytes of the stream at its position.
  \<open>RecvQueueWriteData\<close> fails no assertion and copies outside of no buffer; it records exactly the
  bytes of the package that lie in front of the end of the window, each of them is then stored at
  its place, and the report tells whether the package was old, out of the window, cut by its end,
  or taken as a whole.
\<close>

theorem write_data_correct:
  assumes "data_inv S q" and "bytes_at S (unat pos) (unat len) bytes" and "unat pos + unat len < 2 ^ 63"
  shows "\<exists>q'. RecvQueueWriteData pos bytes len q = Some (write_type pos len q, q') \<and> data_inv S q' \<and>
    readStreamPos q' = readStreamPos q \<and> map identity (rbuffers q') = map identity (rbuffers q) \<and>
    unat ` received q' = unat ` received q \<union> {unat pos..<min (unat pos + unat len) (window_end q)}"
  by (rule write_data_spec [OF assms])

lemma pop_complete_spec:
  assumes "data_inv S q"
  shows "\<exists>ds q'. RecvQueuePopCompleteBuffers force q = Some (ds, q') \<and> data_inv S q' \<and>
    delivered S (readStreamPos q) ds (readStreamPos q') \<and> received q' = received q \<and>
    rq_ackStreamPos q' = rq_ackStreamPos q \<and>
    map identity (ds @ rbuffers q') = map identity (rbuffers q) \<and>
    (rbuffers q' \<noteq> [] \<longrightarrow>
       unat (rq_ackStreamPos q) < unat (readStreamPos q') + unat (rbuf_len (hd (rbuffers q'))))"
proof -
  let ?R = "readStreamPos q"
  have i: "rinv q" "slots (unat ?R) (rbuffers q) (rs_endStreamPos q)" "unat ?R + length (cells (rbuffers q)) < 2 ^ 63"
    "stored S (unat ` received q) (unat ?R) (rbuffers q)" "?R \<le> rq_ackStreamPos q"
    using assms by (simp_all add: data_inv_def window_end_def)
  have X: "\<forall>n<unat (rq_ackStreamPos q). n \<in> unat ` received q"
    using received_below_ack by blast
  obtain ds rest r' where p: "pop_received force (rq_ackStreamPos q) (rs_endStreamPos q) ?R (rbuffers q) = Some (ds, rest, r')"
    "?R \<le> r'" "r' \<le> rq_ackStreamPos q" "delivered S ?R ds r'" "slots (unat r') rest (rs_endStreamPos q)"
    "stored S (unat ` received q) (unat r') rest"
    "unat r' + length (cells rest) \<le> unat ?R + length (cells (rbuffers q))" "map identity (ds @ rest) = map identity (rbuffers q)"
    "rest \<noteq> [] \<longrightarrow> unat (rq_ackStreamPos q) < unat r' + unat (rbuf_len (hd rest))"
    using pop_received_spec [OF i(2,3) refl i(4) X i(5), of force] by blast
  let ?q = "q\<lparr>rbuffers := rest, readStreamPos := r'\<rparr>"
  have "data_inv S ?q"
    using i(1,3) p(3,5,6,7) by (simp add: data_inv_def window_end_def)
  then show ?thesis using p(1,4,8,9)
    by (intro exI [of _ ds] exI [of _ ?q]) (simp add: RecvQueuePopCompleteBuffers_def)
qed

text \<open>
  \<open>RecvQueuePopCompleteBuffers\<close> hands back buffers whose memory holds the next bytes of the
  stream, one buffer after the other without a gap, and keeps the invariant for the rest, so the
  application reads the stream in order and every byte once. No buffer stays behind whose bytes
  have all been acknowledged.
\<close>

lemma pop_buffers_deliver:
  assumes "data_inv S q"
  shows "\<exists>ds q'. RecvQueuePopCompleteBuffers force q = Some (ds, q') \<and> data_inv S q' \<and>
    delivered S (readStreamPos q) ds (readStreamPos q') \<and> received q' = received q \<and>
    map identity (ds @ rbuffers q') = map identity (rbuffers q) \<and>
    (rbuffers q' \<noteq> [] \<longrightarrow>
       unat (rq_ackStreamPos q) < unat (readStreamPos q') + unat (rbuf_len (hd (rbuffers q'))))"
  using pop_complete_spec [OF assms] by blast

lemma stored_append:
  assumes "stored S X p bs" and "slots p bs m"
  shows "stored S X p (bs @ cs)"
  using assms by (auto simp: stored_def marked_append nth_append)

lemma add_recv_spec:
  assumes "data_inv S q" and "len \<noteq> 0" and "length mem = unat len" and "window_end q + unat len < 2 ^ 63"
    and "d \<notin> rbuf_data ` set (rbuffers q)"
  shows "\<exists>q'. RecvQueueAddBuffer (Some d) mem len (Some cb) q = (BFX_RESULT_SUCCESS, q') \<and> data_inv S q' \<and>
    received q' = received q \<and> window_end q' = window_end q + unat len \<and> readStreamPos q' = readStreamPos q \<and>
    map identity (rbuffers q') = map identity (rbuffers q) @ [(d, len, cb)]"
proof -
  let ?b = "\<lparr>rbuf_data = d, rbuf_mem = mem, rbuf_len = len, rbuf_startStreamPos = 0, rbuf_endStreamPos = 0, rbuf_callback = cb\<rparr>"
  let ?q = "q\<lparr>rbuffers := rbuffers q @ [?b]\<rparr>"
  have "find (\<lambda>b. rbuf_data b = d) (rbuffers q) = None"
    using assms(5) by (auto simp: find_None_iff)
  then have "RecvQueueAddBuffer (Some d) mem len (Some cb) q = (BFX_RESULT_SUCCESS, ?q)"
    using assms(2) by (simp add: RecvQueueAddBuffer_def)
  moreover have "data_inv S ?q"
    using assms by (auto simp: data_inv_def window_end_def intro: stored_append)
  ultimately show ?thesis using assms(3) by (simp add: window_end_def identity_def)
qed

text \<open>
  \<open>RecvQueueAddBuffer\<close> extends the window by the buffer and keeps what is stored. A null
  pointer, a missing callback or an empty buffer is refused, and so is memory that is in the queue
  already; then the queue does not change.
\<close>

lemma add_recv_buffer_correct:
  assumes "data_inv S q"
  shows "(len \<noteq> 0 \<and> length mem = unat len \<and> window_end q + unat len < 2 ^ 63 \<and> d \<notin> rbuf_data ` set (rbuffers q) \<longrightarrow>
      (\<exists>q'. RecvQueueAddBuffer (Some d) mem len (Some cb) q = (BFX_RESULT_SUCCESS, q') \<and> data_inv S q' \<and>
        received q' = received q \<and> window_end q' = window_end q + unat len \<and>
        map identity (rbuffers q') = map identity (rbuffers q) @ [(d, len, cb)])) \<and>
    (d \<in> rbuf_data ` set (rbuffers q) \<and> len \<noteq> 0 \<longrightarrow>
      RecvQueueAddBuffer (Some d) mem len (Some cb) q = (BFX_RESULT_ALREADY_EXISTS, q)) \<and>
    (data = None \<or> len = 0 \<or> callback = None \<longrightarrow>
      RecvQueueAddBuffer data mem len callback q = (BFX_RESULT_INVALID_PARAM, q))"
  using add_recv_spec [OF assms, of len mem d cb]
  by (auto simp: RecvQueueAddBuffer_def find_None_iff split: option.splits)

lemma create_data_inv: "unat pos < 2 ^ 63 \<Longrightarrow> data_inv S (RecvQueueCreate pos)"
  by (auto simp: data_inv_def rinv_def RecvQueueCreate_def window_end_def stored_def received_def word_to_nat)

text \<open>A queue from position 5 on with one buffer of two bytes.\<close>

definition example_recv :: RecvQueue where
  "example_recv = snd (RecvQueueAddBuffer (Some 1) [0, 0] 2 (Some 9) (RecvQueueCreate 5))"

lemma example_recv_value: "example_recv = (RecvQueueCreate 5)
   \<lparr>rbuffers := [\<lparr>rbuf_data = 1, rbuf_mem = [0, 0], rbuf_len = 2, rbuf_startStreamPos = 0, rbuf_endStreamPos = 0,
                 rbuf_callback = 9\<rparr>]\<rparr>"
  by (simp add: example_recv_def RecvQueueAddBuffer_def RecvQueueCreate_def)

lemma example_recv_inv: "data_inv example_bytes example_recv"
  using add_recv_spec [where S = example_bytes and q = "RecvQueueCreate 5" and len = 2 and mem = "[0, 0]" and d = 1 and cb = 9]
    create_data_inv [of 5 example_bytes]
  by (auto simp: example_recv_def RecvQueueCreate_def window_end_def)

text \<open>The package with the bytes 4 to 7: the first is old, the last does not fit.\<close>

lemma example_write_spec:
  "\<exists>q. RecvQueueWriteData 4 [4, 5, 6, 7] 4 example_recv = Some (RECV_PACKAGE_TYPE_PART, q) \<and>
     data_inv example_bytes q \<and> readStreamPos q = 5 \<and> unat ` received q = {..<7}"
proof -
  have b: "bytes_at example_bytes (unat (4 :: u64)) (unat (4 :: u16)) [4, 5, 6, 7]"
    by (simp add: example_bytes_at upt_rec)
  have r: "unat ` received example_recv = {..<5}"
    using image_unat_range [of 0 5] by (auto simp: received_def example_recv_value RecvQueueCreate_def atLeastLessThan_def atLeast_def lessThan_def)
  have t: "write_type 4 4 example_recv = RECV_PACKAGE_TYPE_PART"
    by (simp add: write_type_def example_recv_value RecvQueueCreate_def window_end_def)
  have "window_end example_recv = 7" "readStreamPos example_recv = 5"
    by (simp_all add: example_recv_value RecvQueueCreate_def window_end_def)
  then show ?thesis
    using write_data_spec [OF example_recv_inv b] r t by auto
qed

theorem write_data_correct_witness:
  "\<exists>q'. RecvQueueWriteData 4 [4, 5, 6, 7] 4 example_recv = Some (write_type 4 4 example_recv, q') \<and> data_inv example_bytes q'"
proof -
  have "bytes_at example_bytes (unat (4 :: u64)) (unat (4 :: u16)) [4, 5, 6, 7]"
    by (simp add: example_bytes_at upt_rec)
  then show ?thesis using write_data_correct [OF example_recv_inv, of 4 4 "[4, 5, 6, 7]"] by auto
qed

lemma pop_buffers_deliver_witness:
  "\<exists>q ds q'. RecvQueueWriteData 4 [4, 5, 6, 7] 4 example_recv = Some (RECV_PACKAGE_TYPE_PART, q) \<and>
     RecvQueuePopCompleteBuffers False q = Some (ds, q') \<and> delivered example_bytes 5 ds (readStreamPos q')"
proof -
  obtain q where q: "RecvQueueWriteData 4 [4, 5, 6, 7] 4 example_recv = Some (RECV_PACKAGE_TYPE_PART, q)"
    "data_inv example_bytes q" "readStreamPos q = 5"
    using example_write_spec by blast
  then show ?thesis using pop_buffers_deliver [OF q(2), of False] by auto
qed

lemma add_recv_buffer_correct_witness:
  "(\<exists>q'. RecvQueueAddBuffer (Some 2) [0, 0] 2 (Some 9) example_recv = (BFX_RESULT_SUCCESS, q') \<and> data_inv example_bytes q') \<and>
   RecvQueueAddBuffer (Some 1) [0, 0] 2 (Some 9) example_recv = (BFX_RESULT_ALREADY_EXISTS, example_recv) \<and>
   RecvQueueAddBuffer None [0, 0] 2 (Some 9) example_recv = (BFX_RESULT_INVALID_PARAM, example_recv)"
proof -
  have "window_end example_recv = 7" "rbuf_data ` set (rbuffers example_recv) = {1}"
    by (simp_all add: example_recv_value RecvQueueCreate_def window_end_def)
  then show ?thesis
    using add_recv_buffer_correct [OF example_recv_inv, of 2 "[0, 0]" 2 9 None "Some 9"]
      add_recv_buffer_correct [OF example_recv_inv, of 2 "[0, 0]" 1 9 None "Some 9"] by auto
qed

end
