(* ===== verification/Ledbat.thy ===== *)
theory Ledbat
  imports RecvQueue Complex_Main "HOL-Library.Signed_Division"
begin

text \<open>
  The congestion control of a package connection,
  \<^verbatim>\<open>BDTCore/Connection/PackageConnection/LedbatCc.imp.inl\<close>, behind the table of functions
  \<open>BaseCc\<close> of \<^verbatim>\<open>BaseCc.inl\<close>: a window \<open>wnd\<close> of bytes that may be in flight, moved by the
  delay that sampled packages see.

  A clock reading (\<open>BfxTimeGetNow\<close>) is an argument of the operation. Signed integers are words of
  their width read with \<open>sint\<close>. The arithmetic on \<open>double\<close> is arithmetic on reals in which every
  operation is followed by the rounding \<open>rnd\<close> of the machine, an argument too. \<open>None\<close> is an index
  outside of an array, a division by zero, or a conversion of a real that does not fit the integer
  type.
\<close>

section \<open>State\<close>

type_synonym i32 = "32 word"
type_synonym i64 = "64 word"

abbreviation (input) CONGESTION_LEDBAT_MAX :: i64 where "CONGESTION_LEDBAT_MAX \<equiv> push_bit 62 1"
abbreviation (input) CONGESTION_LEDBET_BASE_SAMPLE_COUNT :: nat where "CONGESTION_LEDBET_BASE_SAMPLE_COUNT \<equiv> 10"
abbreviation (input) CONGESTION_LEDBET_CURRENT_DELAY_SAMPLE_COUNT :: nat
  where "CONGESTION_LEDBET_CURRENT_DELAY_SAMPLE_COUNT \<equiv> 4"

record LedbatDelayEstimateSample =
  est_streamPos :: u64
  est_sendTime :: u64
  est_packageId :: u32

record LedbatCc =
  baseHeadIndex :: u32
  baseDelaySamples :: "i64 list"
  currHeadIndex :: u32
  currDelaySamples :: "i64 list"
  rollcoverTime :: i64
  maxStreamPos :: u64
  estimate :: "LedbatDelayEstimateSample list"
  sample_packageId :: i32
  prevEstTime :: u64
  wnd :: u32
  cc_mss :: u64
  cc_mtu :: u16
  newAck :: i32
  remotePackageId :: i32

datatype CcState = CC_STATE_OPEN | CC_STATE_LOST | CC_STATE_RTO | CC_STATE_CLOSE

definition LedbatCcNew :: "u16 \<Rightarrow> u32 \<Rightarrow> LedbatCc" where
  "LedbatCcNew mtu mss =
     \<lparr>baseHeadIndex = 0, baseDelaySamples = replicate CONGESTION_LEDBET_BASE_SAMPLE_COUNT CONGESTION_LEDBAT_MAX,
      currHeadIndex = 0, currDelaySamples = replicate CONGESTION_LEDBET_CURRENT_DELAY_SAMPLE_COUNT CONGESTION_LEDBAT_MAX,
      rollcoverTime = 0, maxStreamPos = 0, estimate = [], sample_packageId = 0, prevEstTime = 0,
      wnd = mss * 2, cc_mss = ucast mss, cc_mtu = mtu, newAck = 0, remotePackageId = 0\<rparr>"

definition array_set :: "u32 \<Rightarrow> 'a \<Rightarrow> 'a list \<Rightarrow> 'a list option" where
  "array_set i v xs = (if unat i < length xs then Some (xs[unat i := v]) else None)"

definition array_get :: "u32 \<Rightarrow> 'a list \<Rightarrow> 'a option" where
  "array_get i xs = (if unat i < length xs then Some (xs ! unat i) else None)"

section \<open>Delay samples\<close>

text \<open>\<open>sackArray\<close> is null or terminated by an entry of length 0; reading on is \<open>None\<close>.\<close>

fun in_sack :: "u64 \<Rightarrow> BdtStreamRange list \<Rightarrow> bool option" where
  "in_sack pos [] = None"
| "in_sack pos (r # rs) =
     (if range_length r = 0 then Some False
      else if pos > range_pos r \<and> pos \<le> range_pos r + ucast (range_length r) then Some True
      else in_sack pos rs)"

definition CompareStreamPosWith :: "u64 \<Rightarrow> BdtStreamRange list option \<Rightarrow> bool option" where
  "CompareStreamPosWith pos sack = (case sack of None \<Rightarrow> Some False | Some rs \<Rightarrow> in_sack pos rs)"

definition UpdateBaseDelay :: "i64 \<Rightarrow> i64 \<Rightarrow> LedbatCc \<Rightarrow> LedbatCc option" where
  "UpdateBaseDelay now delay c =
     (if sint (now - rollcoverTime c) < 60 * 1000 * 1000 then do {
        let tailIndex = (if baseHeadIndex c = 0 then of_nat CONGESTION_LEDBET_BASE_SAMPLE_COUNT - 1 else baseHeadIndex c - 1);
        old \<leftarrow> array_get tailIndex (baseDelaySamples c);
        bs \<leftarrow> array_set tailIndex (if sint old < sint delay then old else delay) (baseDelaySamples c);
        Some (c\<lparr>baseDelaySamples := bs\<rparr>)
      }
      else do {
        bs \<leftarrow> array_set (baseHeadIndex c) delay (baseDelaySamples c);
        let head = baseHeadIndex c + 1;
        Some (c\<lparr>rollcoverTime := now, baseDelaySamples := bs,
                baseHeadIndex := (if head = of_nat CONGESTION_LEDBET_BASE_SAMPLE_COUNT then 0 else head)\<rparr>)
      })"

definition UpdateCurrDelay :: "i64 \<Rightarrow> LedbatCc \<Rightarrow> LedbatCc option" where
  "UpdateCurrDelay delay c = do {
     cs \<leftarrow> array_set (currHeadIndex c) delay (currDelaySamples c);
     let head = currHeadIndex c + 1;
     Some (c\<lparr>currDelaySamples := cs,
             currHeadIndex := (if head = of_nat CONGESTION_LEDBET_CURRENT_DELAY_SAMPLE_COUNT then 0 else head)\<rparr>)
   }"

text \<open>
  The loop of \<open>UpdateSample\<close>: every sample the package acknowledges is dropped, the first one
  not acknowledged ends it. The delay is that of the last sample with the package id \<open>pid\<close> the
  other side has sent back.
\<close>

definition sample_delay :: "Bdt_SessionDataPackage \<Rightarrow> LedbatDelayEstimateSample \<Rightarrow> i64" where
  "sample_delay p s = word_of_int (sint (sendTime p - est_sendTime s) sdiv 1000)"

fun update_sample_loop :: "Bdt_SessionDataPackage \<Rightarrow> u32 \<Rightarrow> i64 \<Rightarrow> LedbatDelayEstimateSample list \<Rightarrow>
    (i64 \<times> LedbatDelayEstimateSample list) option" where
  "update_sample_loop p pid delay [] = Some (delay, [])"
| "update_sample_loop p pid delay (s # ss) = do {
     hit \<leftarrow> (if est_streamPos s \<le> ackStreamPos p then Some True
            else CompareStreamPosWith (est_streamPos s) (sackArray p));
     if hit
     then update_sample_loop p pid (if pid > 0 \<and> pid = est_packageId s then sample_delay p s else delay) ss
     else Some (delay, s # ss)
   }"

definition returned_id :: "Bdt_SessionDataPackage \<Rightarrow> u32" where
  "returned_id p = (case packageIDPart p of None \<Rightarrow> 0 | Some i \<Rightarrow> if totalRecv i = 0 then packageId i else 0)"

definition UpdateSample :: "i64 \<Rightarrow> Bdt_SessionDataPackage \<Rightarrow> LedbatCc \<Rightarrow> LedbatCc option" where
  "UpdateSample now p c = do {
     (delay, est) \<leftarrow> update_sample_loop p (returned_id p) CONGESTION_LEDBAT_MAX (estimate c);
     let c = c\<lparr>estimate := est\<rparr>;
     if delay \<noteq> CONGESTION_LEDBAT_MAX then do {
       c \<leftarrow> UpdateBaseDelay now delay c;
       UpdateCurrDelay delay c
     }
     else Some c
   }"

section \<open>The window\<close>

text \<open>The loops that search the least sample, from the first one on.\<close>

fun min_sample :: "i64 \<Rightarrow> i64 list \<Rightarrow> i64" where
  "min_sample m [] = m"
| "min_sample m (d # ds) = min_sample (if sint m > sint d then d else m) ds"

definition min_of :: "i64 list \<Rightarrow> i64 option" where
  "min_of ds = (case ds of [] \<Rightarrow> None | d # ds \<Rightarrow> Some (min_sample d ds))"

text \<open>The conversion of a real to \<open>uint32_t\<close> cuts off the fraction.\<close>

definition real_to_u32 :: "real \<Rightarrow> u32 option" where
  "real_to_u32 x = (if 0 \<le> x \<and> x < 2 ^ 32 then Some (of_nat (nat \<lfloor>x\<rfloor>)) else None)"

definition min_window :: "LedbatCc \<Rightarrow> u64" where
  "min_window c = 2 * cc_mss c"

definition scaled_gain :: "(real \<Rightarrow> real) \<Rightarrow> i64 \<Rightarrow> u32 \<Rightarrow> u32 \<Rightarrow> real" where
  "scaled_gain rnd queueDelay nAcks w =
     (let delayFactor = rnd (rnd (of_int (sint (100 - queueDelay))) / rnd 100);
          wndFactor = rnd (rnd (of_nat (unat (min nAcks w))) / rnd (of_nat (unat (max w nAcks))))
      in rnd (rnd (rnd 8000 * wndFactor) * delayFactor))"

definition LedbatCcOnAck :: "(real \<Rightarrow> real) \<Rightarrow> i64 \<Rightarrow> Bdt_SessionDataPackage \<Rightarrow> u32 \<Rightarrow> u64 \<Rightarrow> LedbatCc \<Rightarrow> LedbatCc option" where
  "LedbatCcOnAck rnd now p nAcks inFlight c = do {
     c \<leftarrow> UpdateSample now p c;
     minCurrDelay \<leftarrow> min_of (currDelaySamples c);
     minBaseDelay \<leftarrow> min_of (baseDelaySamples c);
     let queueDelay = minCurrDelay - minBaseDelay;
     if minBaseDelay = CONGESTION_LEDBAT_MAX then Some c
     else if max (wnd c) nAcks = 0 then None
     else do {
       let sum = rnd (scaled_gain rnd queueDelay nAcks (wnd c) + rnd (of_nat (unat (wnd c))));
       if sum < rnd (of_nat (unat (min_window c))) then Some (c\<lparr>wnd := ucast (min_window c)\<rparr>)
       else do {
         w \<leftarrow> real_to_u32 sum;
         Some (c\<lparr>wnd := w\<rparr>)
       }
     }
   }"

definition LedbatCcOnChangeState :: "CcState \<Rightarrow> CcState \<Rightarrow> LedbatCc \<Rightarrow> LedbatCc" where
  "LedbatCcOnChangeState oldState newState c =
     (case newState of
        CC_STATE_RTO \<Rightarrow> c\<lparr>wnd := ucast (min_window c)\<rparr>
      | CC_STATE_LOST \<Rightarrow>
          let w = wnd c div 2
          in c\<lparr>wnd := (if ucast w < min_window c then ucast (min_window c) else w)\<rparr>
      | _ \<Rightarrow> c)"

section \<open>Sending and receiving\<close>

text \<open>The walk that erases the first sample that ends at \<open>pos\<close>.\<close>

fun erase_sample :: "u64 \<Rightarrow> LedbatDelayEstimateSample list \<Rightarrow> LedbatDelayEstimateSample list" where
  "erase_sample pos [] = []"
| "erase_sample pos (s # ss) = (if est_streamPos s = pos then ss else s # erase_sample pos ss)"

definition answer_id :: "LedbatCc \<Rightarrow> Bdt_SessionDataPackage \<Rightarrow> Bdt_SessionDataPackage" where
  "answer_id c p = (if remotePackageId c \<noteq> 0
     then p\<lparr>packageIDPart := Some \<lparr>packageId = remotePackageId c, totalRecv = 0\<rparr>\<rparr> else p)"

definition note_sample :: "u64 \<Rightarrow> Bdt_SessionDataPackage \<Rightarrow> LedbatCc \<Rightarrow> LedbatCc \<times> Bdt_SessionDataPackage" where
  "note_sample now p c =
     (let end = streamPos p + ucast (payloadLength p)
      in if end > maxStreamPos c then
           if sendTime p - prevEstTime c \<ge> 30 * 1000 then
             let c = c\<lparr>prevEstTime := sendTime p, maxStreamPos := end\<rparr>
             in if packageIDPart p = None then
                  let pid = sample_packageId c + 1
                  in (c\<lparr>estimate := estimate c @ [\<lparr>est_streamPos = end, est_sendTime = now, est_packageId = pid\<rparr>],
                        sample_packageId := (if pid = 2147483647 then 0 else pid)\<rparr>,
                      p\<lparr>packageIDPart := Some \<lparr>packageId = pid, totalRecv = 1\<rparr>\<rparr>)
                else (c\<lparr>estimate := estimate c @ [\<lparr>est_streamPos = end, est_sendTime = now, est_packageId = 0\<rparr>]\<rparr>, p)
           else (c, p)
         else (c\<lparr>estimate := erase_sample end (estimate c)\<rparr>, p))"

definition LedbatCcOnSend :: "u64 \<Rightarrow> Bdt_SessionDataPackage \<Rightarrow> LedbatCc \<Rightarrow> LedbatCc \<times> Bdt_SessionDataPackage" where
  "LedbatCcOnSend now p c =
     (let p = (if sendTime p = 0 then p\<lparr>sendTime := now\<rparr> else p);
          p = answer_id c p;
          c = c\<lparr>remotePackageId := 0\<rparr>
      in if payloadLength p \<noteq> 0 then note_sample now p c else (c, p))"

text \<open>The package is null when an acknowledgement is only to be asked for.\<close>

definition LedbatCcOnData :: "Bdt_SessionDataPackage option \<Rightarrow> RecvPackageType \<Rightarrow> LedbatCc \<Rightarrow> u32 \<times> LedbatCc" where
  "LedbatCcOnData package type c =
     (if type \<noteq> RECV_PACKAGE_TYPE_NONE \<and> type \<noteq> RECV_PACKAGE_TYPE_OUT_OF_BUFFER then
        (BFX_RESULT_SUCCESS,
         case Option.bind package packageIDPart of
           None \<Rightarrow> c\<lparr>newAck := 1\<rparr>
         | Some i \<Rightarrow> if totalRecv i = 1 then c\<lparr>newAck := 1, remotePackageId := packageId i\<rparr> else c\<lparr>newAck := 1\<rparr>)
      else (BFX_RESULT_PENDING, c))"

definition LedbatCcTrySendPayload :: "u32 \<Rightarrow> LedbatCc \<Rightarrow> u32 \<times> u16" where
  "LedbatCcTrySendPayload flight c =
     (if wnd c > flight then
        let maxFree = wnd c - flight;
            maxFree = (if maxFree > ucast (cc_mtu c) then ucast (cc_mtu c) else maxFree)
        in (BFX_RESULT_SUCCESS, ucast maxFree)
      else (BFX_RESULT_TOO_SMALL, 0))"

definition LedbatCcTrySendAck :: "LedbatCc \<Rightarrow> u32 \<times> LedbatCc" where
  "LedbatCcTrySendAck c =
     (if newAck c = 1 then (BFX_RESULT_SUCCESS, c\<lparr>newAck := 0\<rparr>) else (BFX_RESULT_NOT_CHANGED, c))"

end
