(* ===== verification/LedbatFacts.thy ===== *)
theory LedbatFacts
  imports Ledbat SendQueueFacts
begin

text \<open>
  Correctness of the congestion control: the queueing delay that moves the window is never
  negative, because the base delays remember every current sample; the window never falls below
  two segments and grows by at most 8000 bytes per acknowledgement; a package that is sent again
  is never used to measure a delay.
\<close>

section \<open>The delay samples\<close>

text \<open>
  \<open>base_at c i\<close> is the \<open>i\<close>-th youngest base delay, \<open>curr_at c j\<close> the \<open>j\<close>-th youngest current
  delay. A new base slot is begun at most once per sample, so the slot of a current sample has
  not been reused.
\<close>

definition base_at :: "LedbatCc \<Rightarrow> nat \<Rightarrow> int" where
  "base_at c i = sint (baseDelaySamples c ! ((unat (baseHeadIndex c) + 9 - i) mod 10))"

definition curr_at :: "LedbatCc \<Rightarrow> nat \<Rightarrow> int" where
  "curr_at c j = sint (currDelaySamples c ! ((unat (currHeadIndex c) + 3 - j) mod 4))"

definition delay_ok :: "i64 \<Rightarrow> bool" where
  "delay_ok d \<longleftrightarrow> - (2 ^ 54) \<le> sint d \<and> sint d \<le> 2 ^ 62"

definition delay_inv :: "LedbatCc \<Rightarrow> bool" where
  "delay_inv c \<longleftrightarrow> length (baseDelaySamples c) = 10 \<and> length (currDelaySamples c) = 4 \<and>
     unat (baseHeadIndex c) < 10 \<and> unat (currHeadIndex c) < 4 \<and>
     list_all delay_ok (baseDelaySamples c) \<and> list_all delay_ok (currDelaySamples c) \<and>
     (\<forall>j<4. \<exists>i\<le>j. base_at c i \<le> curr_at c j)"

lemma min_sample_spec:
  "sint (min_sample m ds) \<le> sint m \<and> (\<forall>d\<in>set ds. sint (min_sample m ds) \<le> sint d) \<and> min_sample m ds \<in> set (m # ds)"
proof (induction ds arbitrary: m)
  case (Cons d ds)
  show ?case using Cons.IH [of "if sint m > sint d then d else m"] by (auto split: if_splits)
qed simp

lemma min_of_spec:
  assumes "ds \<noteq> []"
  obtains m where "min_of ds = Some m" and "m \<in> set ds" and "\<forall>d\<in>set ds. sint m \<le> sint d"
  using assms min_sample_spec by (cases ds) (fastforce simp: min_of_def)+

lemma sample_delay_ok: "delay_ok (sample_delay p s) \<and> sint (sample_delay p s) < 2 ^ 62"
proof -
  let ?x = "sint (sendTime p - est_sendTime s)"
  have x: "- (2 ^ 63) \<le> ?x" "?x < 2 ^ 63"
    using sint_greater_eq [of "sendTime p - est_sendTime s"] sint_less [of "sendTime p - est_sendTime s"] by simp_all
  have "\<bar>?x sdiv 1000\<bar> \<le> 2 ^ 63 div 1000"
  proof -
    have "\<bar>?x sdiv 1000\<bar> \<le> \<bar>?x\<bar> div 1000" by (simp add: signed_divide_int_def abs_mult sgn_if)
    also have "\<dots> \<le> 2 ^ 63 div 1000" using x by (intro zdiv_mono1) simp_all
    finally show ?thesis .
  qed
  then have b: "- (2 ^ 54) \<le> ?x sdiv 1000" "?x sdiv 1000 \<le> 2 ^ 54" by simp_all
  then have "sint (word_of_int (?x sdiv 1000) :: i64) = ?x sdiv 1000"
    by (subst sint_sbintrunc') (simp add: signed_take_bit_int_eq_self)
  then show ?thesis using b by (simp add: delay_ok_def sample_delay_def)
qed

text \<open>Walking back through the two rings of samples.\<close>

definition step_head :: "nat \<Rightarrow> nat \<Rightarrow> nat" where
  "step_head n h = (if h + 1 = n then 0 else h + 1)"

lemma mod_twice: "x < 2 * n \<Longrightarrow> x mod n = (if x < n then x else x - n)" for n :: nat
  by (simp add: mod_if)

lemma ring10:
  assumes "h < (10 :: nat)"
  shows "(step_head 10 h + 9) mod 10 = h" and "step_head 10 h < 10"
    and "i < 9 \<Longrightarrow> (step_head 10 h + 9 - Suc i) mod 10 = (h + 9 - i) mod 10"
    and "i < 9 \<Longrightarrow> (h + 9 - i) mod 10 \<noteq> h"
    and "i < 9 \<Longrightarrow> 0 < i \<Longrightarrow> (h + 9 - i) mod 10 \<noteq> (h + 9) mod 10"
  using assms by (auto simp: step_head_def mod_twice)

lemma ring4:
  assumes "h < (4 :: nat)"
  shows "(step_head 4 h + 3) mod 4 = h" and "step_head 4 h < 4"
    and "i < 3 \<Longrightarrow> (step_head 4 h + 3 - Suc i) mod 4 = (h + 3 - i) mod 4"
    and "i < 3 \<Longrightarrow> (h + 3 - i) mod 4 \<noteq> h"
  using assms by (auto simp: step_head_def mod_twice)

lemma word_head:
  assumes "unat (h :: u32) < n" and "n < 100"
  shows "unat (if h + 1 = of_nat n then 0 else h + 1) = step_head n (unat h)"
proof -
  have u: "unat (h + 1) = unat h + 1"
    using assms by (subst unat_add_no_overflow) simp_all
  have "unat (of_nat n :: u32) = n"
    using assms(2) by (simp add: unat_of_nat take_bit_nat_eq_self_iff)
  then show ?thesis using u by (auto simp: step_head_def word_unat_eq_iff)
qed

lemma list_all_set: "list_all P xs \<Longrightarrow> P v \<Longrightarrow> list_all P (xs[i := v])"
  using set_update_subset_insert [of xs i v] by (auto simp: list_all_iff)

text \<open>The base delays after an update still cover the samples they covered, and the new one.\<close>

lemma update_base:
  assumes inv: "delay_inv c" and d: "delay_ok d"
  shows "\<exists>c'. UpdateBaseDelay now d c = Some c' \<and> length (baseDelaySamples c') = 10 \<and> unat (baseHeadIndex c') < 10 \<and>
    list_all delay_ok (baseDelaySamples c') \<and> base_at c' 0 \<le> sint d \<and>
    (\<forall>i<9. base_at c' i \<le> base_at c i \<or> base_at c' (Suc i) \<le> base_at c i) \<and>
    c' = c\<lparr>rollcoverTime := rollcoverTime c', baseDelaySamples := baseDelaySamples c', baseHeadIndex := baseHeadIndex c'\<rparr>"
proof -
  let ?h = "unat (baseHeadIndex c)"
  have h: "?h < 10" "length (baseDelaySamples c) = 10" "list_all delay_ok (baseDelaySamples c)"
    using inv by (simp_all add: delay_inv_def)
  show ?thesis
  proof (cases "sint (now - rollcoverTime c) < 60 * 1000 * 1000")
    case True
    let ?t = "if baseHeadIndex c = 0 then of_nat 10 - 1 else baseHeadIndex c - 1 :: u32"
    have t: "unat ?t = (?h + 9) mod 10"
    proof (cases "baseHeadIndex c = 0")
      case False
      then have "1 \<le> baseHeadIndex c" by (simp add: word_le_unat unat_gt_0 Suc_le_eq)
      then have "unat (baseHeadIndex c - 1) = ?h - 1" "0 < ?h"
        using False by (simp_all add: unat_gt_0)
      then show ?thesis using False h(1) by (simp add: mod_if)
    qed simp
    let ?old = "baseDelaySamples c ! ((?h + 9) mod 10)"
    let ?new = "if sint ?old < sint d then ?old else d"
    let ?c = "c\<lparr>baseDelaySamples := (baseDelaySamples c)[(?h + 9) mod 10 := ?new]\<rparr>"
    have "UpdateBaseDelay now d c = Some ?c"
      using True h(2) t by (simp add: UpdateBaseDelay_def array_get_def array_set_def)
    moreover have "delay_ok ?new" using h d by (simp add: list_all_length)
    then have "list_all delay_ok (baseDelaySamples ?c)" using h(3) by (simp add: list_all_set)
    moreover have "base_at ?c 0 \<le> sint d" using h(2) by (simp add: base_at_def)
    moreover have "base_at ?c i \<le> base_at c i" if "i < 9" for i
      using h(2) ring10(5) [OF h(1) that] by (cases "i = 0") (simp_all add: base_at_def)
    ultimately show ?thesis using h by (intro exI [of _ ?c]) simp
  next
    case False
    let ?c = "c\<lparr>rollcoverTime := now, baseDelaySamples := (baseDelaySamples c)[?h := d],
       baseHeadIndex := (if baseHeadIndex c + 1 = of_nat 10 then 0 else baseHeadIndex c + 1)\<rparr>"
    have "UpdateBaseDelay now d c = Some ?c"
      using False h by (simp add: UpdateBaseDelay_def array_set_def)
    moreover have head: "unat (baseHeadIndex ?c) = step_head 10 ?h"
      using word_head [of "baseHeadIndex c" 10] h(1) by simp
    moreover have "base_at ?c 0 = sint d"
      unfolding base_at_def head using ring10(1) [OF h(1)] h(1,2) by simp
    moreover have "base_at ?c (Suc i) = base_at c i" if "i < 9" for i
      unfolding base_at_def head using ring10(3,4) [OF h(1) that] by simp
    moreover have "list_all delay_ok (baseDelaySamples ?c)" using h(3) d by (simp add: list_all_set)
    ultimately show ?thesis using h ring10(2) [OF h(1)] by (intro exI [of _ ?c]) simp
  qed
qed

lemma update_delays:
  assumes inv: "delay_inv c" and d: "delay_ok d"
  shows "\<exists>c1 c2. UpdateBaseDelay now d c = Some c1 \<and> UpdateCurrDelay d c1 = Some c2 \<and> delay_inv c2 \<and>
    estimate c2 = estimate c \<and> maxStreamPos c2 = maxStreamPos c \<and> wnd c2 = wnd c \<and> cc_mss c2 = cc_mss c \<and> cc_mtu c2 = cc_mtu c"
proof -
  let ?h = "unat (currHeadIndex c)"
  have h: "?h < 4" "length (currDelaySamples c) = 4" "list_all delay_ok (currDelaySamples c)"
    and rec: "\<forall>j<4. \<exists>i\<le>j. base_at c i \<le> curr_at c j"
    using inv by (simp_all add: delay_inv_def)
  obtain c1 where b: "UpdateBaseDelay now d c = Some c1" "length (baseDelaySamples c1) = 10" "unat (baseHeadIndex c1) < 10"
    "list_all delay_ok (baseDelaySamples c1)" "base_at c1 0 \<le> sint d"
    "\<forall>i<9. base_at c1 i \<le> base_at c i \<or> base_at c1 (Suc i) \<le> base_at c i"
    "c1 = c\<lparr>rollcoverTime := rollcoverTime c1, baseDelaySamples := baseDelaySamples c1, baseHeadIndex := baseHeadIndex c1\<rparr>"
    using update_base [OF assms] by blast
  have same: "currHeadIndex c1 = currHeadIndex c" "currDelaySamples c1 = currDelaySamples c" "estimate c1 = estimate c"
    "maxStreamPos c1 = maxStreamPos c" "wnd c1 = wnd c" "cc_mss c1 = cc_mss c" "cc_mtu c1 = cc_mtu c"
    by (subst b(7), simp)+
  let ?c = "c1\<lparr>currDelaySamples := (currDelaySamples c)[?h := d],
     currHeadIndex := (if currHeadIndex c + 1 = of_nat 4 then 0 else currHeadIndex c + 1)\<rparr>"
  have "UpdateCurrDelay d c1 = Some ?c"
    using h same by (simp add: UpdateCurrDelay_def array_set_def)
  moreover have head: "unat (currHeadIndex ?c) = step_head 4 ?h"
    using word_head [of "currHeadIndex c" 4] h(1) by simp
  have zero: "curr_at ?c 0 = sint d"
    unfolding curr_at_def head using ring4(1) [OF h(1)] h(1,2) by simp
  have suc: "curr_at ?c (Suc j) = curr_at c j" if "j < 3" for j
    unfolding curr_at_def head using ring4(3,4) [OF h(1) that] by simp
  have base: "base_at ?c i = base_at c1 i" for i by (simp add: base_at_def)
  have "\<exists>i\<le>j. base_at ?c i \<le> curr_at ?c j" if "j < 4" for j
  proof (cases j)
    case 0
    then show ?thesis using zero b(5) base by auto
  next
    case (Suc k)
    then obtain i where i: "i \<le> k" "base_at c i \<le> curr_at c k" using rec \<open>j < 4\<close> Suc_lessD [of k 4] by blast
    moreover have "i < 9" "k < 3" using i(1) Suc \<open>j < 4\<close> by simp_all
    ultimately have "base_at c1 i \<le> curr_at c k \<or> base_at c1 (Suc i) \<le> curr_at c k"
      by (meson b(6) order.trans)
    then show ?thesis unfolding Suc base suc [OF \<open>k < 3\<close>] using i(1) by (meson Suc_le_mono le_SucI)
  qed
  then have "delay_inv ?c"
    using b(2-4) h head d ring4(2) [OF h(1)] by (simp add: delay_inv_def list_all_set)
  ultimately show ?thesis using b(1) same by (intro exI [of _ c1] exI [of _ ?c]) simp
qed

section \<open>The samples in flight\<close>

text \<open>The samples are sorted by the position at which their package ends.\<close>

definition est_inv :: "LedbatCc \<Rightarrow> bool" where
  "est_inv c \<longleftrightarrow> sorted_wrt (<) (map est_streamPos (estimate c)) \<and>
     (\<forall>s\<in>set (estimate c). est_streamPos s \<le> maxStreamPos c)"

definition window_inv :: "LedbatCc \<Rightarrow> bool" where
  "window_inv c \<longleftrightarrow> 0 < unat (cc_mss c) \<and> 2 * unat (cc_mss c) < 2 ^ 32 \<and> 2 * unat (cc_mss c) \<le> unat (wnd c)"

definition ledbat_inv :: "LedbatCc \<Rightarrow> bool" where
  "ledbat_inv c \<longleftrightarrow> delay_inv c \<and> est_inv c \<and> window_inv c"

lemma in_sack_total: "sack_ranges rs \<noteq> rs \<Longrightarrow> in_sack pos rs \<noteq> None"
  by (induction pos rs rule: in_sack.induct) (auto simp: sack_ranges_def split: if_splits)

lemma compare_total: "sack_ok sack \<Longrightarrow> \<exists>hit. CompareStreamPosWith pos sack = Some hit"
  using in_sack_total by (fastforce simp: CompareStreamPosWith_def sack_ok_def split: option.splits)

lemma update_loop_spec:
  assumes "sack_ok (sackArray p)" and "delay_ok delay"
  shows "\<exists>d gone rest. update_sample_loop p pid delay ss = Some (d, rest) \<and> ss = gone @ rest \<and> delay_ok d"
  using assms
proof (induction ss arbitrary: delay)
  case (Cons s ss)
  obtain hit where hit: "(if est_streamPos s \<le> ackStreamPos p then Some True
      else CompareStreamPosWith (est_streamPos s) (sackArray p)) = Some hit"
    using compare_total [OF Cons.prems(1), of "est_streamPos s"] by (cases "est_streamPos s \<le> ackStreamPos p") auto
  let ?d = "if pid > 0 \<and> pid = est_packageId s then sample_delay p s else delay"
  have "delay_ok ?d" using Cons.prems(2) sample_delay_ok by simp
  then obtain d gone rest where "update_sample_loop p pid ?d ss = Some (d, rest)" "ss = gone @ rest" "delay_ok d"
    using Cons.IH [OF Cons.prems(1)] by blast
  moreover have "\<exists>gone. s # ss = gone @ s # ss" by (rule exI [of _ "[]"]) simp
  moreover have "\<exists>g. s # ss = g @ rest" if "ss = gone @ rest" by (rule exI [of _ "s # gone"]) (simp add: that)
  ultimately show ?case using hit Cons.prems(2) by (cases hit) auto
qed simp

lemma est_inv_suffix:
  assumes "est_inv c" and "estimate c = gone @ rest" and "estimate c' = rest" and "maxStreamPos c' = maxStreamPos c"
  shows "est_inv c'"
  using assms by (auto simp: est_inv_def sorted_wrt_append)

lemma max_delay: "sint (push_bit 62 1 :: i64) = 2 ^ 62"
  by simp

lemma update_sample_spec:
  assumes "delay_inv c" and "est_inv c" and "sack_ok (sackArray p)"
  shows "\<exists>c'. UpdateSample now p c = Some c' \<and> delay_inv c' \<and> est_inv c' \<and> wnd c' = wnd c \<and> cc_mss c' = cc_mss c \<and>
    cc_mtu c' = cc_mtu c"
proof -
  have "delay_ok (push_bit 62 1 :: i64)" unfolding delay_ok_def max_delay by simp
  then obtain d gone rest where l: "update_sample_loop p (returned_id p) (push_bit 62 1) (estimate c) = Some (d, rest)"
    "estimate c = gone @ rest" "delay_ok d"
    using update_loop_spec [OF assms(3)] by blast
  let ?c = "c\<lparr>estimate := rest\<rparr>"
  have inv: "delay_inv ?c" using assms(1) by (simp add: delay_inv_def base_at_def curr_at_def)
  obtain c1 c2 where u: "UpdateBaseDelay now d ?c = Some c1" "UpdateCurrDelay d c1 = Some c2" "delay_inv c2"
    "estimate c2 = rest" "maxStreamPos c2 = maxStreamPos c" "wnd c2 = wnd c" "cc_mss c2 = cc_mss c" "cc_mtu c2 = cc_mtu c"
    using update_delays [OF inv l(3), of now] by auto
  have "est_inv ?c" "est_inv c2"
    using est_inv_suffix [OF assms(2) l(2)] u(4,5) by simp_all
  then show ?thesis using l(1) u inv
    by (cases "d = push_bit 62 1") (simp_all add: UpdateSample_def)
qed

lemma queue_delay_nonneg:
  assumes "delay_inv c"
  obtains mc mb where "min_of (currDelaySamples c) = Some mc" and "min_of (baseDelaySamples c) = Some mb"
    and "0 \<le> sint (mc - mb)"
proof -
  have c: "length (baseDelaySamples c) = 10" "length (currDelaySamples c) = 4" "unat (currHeadIndex c) < 4"
    "list_all delay_ok (baseDelaySamples c)" "list_all delay_ok (currDelaySamples c)"
    "\<forall>j<4. \<exists>i\<le>j. base_at c i \<le> curr_at c j"
    using assms by (simp_all add: delay_inv_def)
  have ne: "currDelaySamples c \<noteq> []" "baseDelaySamples c \<noteq> []" using c(1,2) by auto
  obtain mc where mc: "min_of (currDelaySamples c) = Some mc" "mc \<in> set (currDelaySamples c)"
    by (rule min_of_spec [OF ne(1)]) (rule that)
  obtain mb where mb: "min_of (baseDelaySamples c) = Some mb" "mb \<in> set (baseDelaySamples c)"
    "\<forall>d\<in>set (baseDelaySamples c). sint mb \<le> sint d"
    by (rule min_of_spec [OF ne(2)]) (rule that)
  obtain k where k: "k < 4" "mc = currDelaySamples c ! k"
    using mc(2) c(2) by (auto simp: in_set_conv_nth)
  have "\<exists>j<4. (unat (currHeadIndex c) + 3 - j) mod 4 = k"
    using c(3) k(1) by (intro exI [of _ "(unat (currHeadIndex c) + 3 - k) mod 4"]) (auto simp: mod_twice)
  then obtain j where j: "j < 4" "curr_at c j = sint mc" unfolding curr_at_def k(2) by metis
  then obtain i where "i \<le> j" "base_at c i \<le> sint mc" using c(6) by metis
  moreover have "baseDelaySamples c ! ((unat (baseHeadIndex c) + 9 - i) mod 10) \<in> set (baseDelaySamples c)"
    using c(1) by (intro nth_mem) simp
  ultimately have le: "sint mb \<le> sint mc" using mb(3) unfolding base_at_def by fastforce
  have "delay_ok mc" "delay_ok mb" using mc(2) mb(2) c(4,5) by (auto simp: list_all_iff)
  then have "sint (mc - mb) = sint mc - sint mb"
    using le by (subst sint_word_ariths(2)) (simp add: delay_ok_def signed_take_bit_int_eq_self)
  then show ?thesis using that [OF mc(1) mb(1)] le by simp
qed

section \<open>The window\<close>

text \<open>
  What is used of the rounding of \<open>double\<close> (IEEE 754 binary64, any rounding direction): it is
  monotone and exact on the integers of at most 53 bits.
\<close>

definition ieee :: "(real \<Rightarrow> real) \<Rightarrow> bool" where
  "ieee rnd \<longleftrightarrow> mono rnd \<and> (\<forall>n::int. \<bar>n\<bar> \<le> 2 ^ 53 \<longrightarrow> rnd (of_int n) = of_int n)"

lemma ieee_mono: "ieee rnd \<Longrightarrow> x \<le> y \<Longrightarrow> rnd x \<le> rnd y"
  by (simp add: ieee_def monoD)

lemma ieee_int: "ieee rnd \<Longrightarrow> \<bar>n\<bar> \<le> 2 ^ 53 \<Longrightarrow> rnd (of_int n) = of_int n"
  by (simp add: ieee_def)

lemma ieee_nat: "ieee rnd \<Longrightarrow> n \<le> 2 ^ 53 \<Longrightarrow> rnd (of_nat n) = of_nat n"
  using ieee_int [of rnd "int n"] by simp

lemma frac_bounds:
  assumes "ieee rnd" and "a \<le> b" and "b \<le> 2 ^ 53" and "b \<noteq> 0"
  shows "0 \<le> rnd (of_nat a) / rnd (of_nat b) \<and> rnd (of_nat a) / rnd (of_nat b) \<le> 1"
  using assms by (simp add: ieee_nat divide_le_eq_1)

lemma scaled_gain_le:
  assumes r: "ieee rnd" and q: "0 \<le> sint q" and w: "max w n \<noteq> 0"
  shows "scaled_gain rnd q n w \<le> 8000"
proof -
  have const: "rnd 100 = 100" "rnd 8000 = 8000" "rnd 0 = 0" "rnd 1 = 1"
    using ieee_int [OF r, of 100] ieee_int [OF r, of 8000] ieee_int [OF r, of 0] ieee_int [OF r, of 1] by simp_all
  let ?d = "rnd (rnd (of_int (sint (100 - q))) / rnd 100)"
  let ?a = "unat (min n w)" and ?b = "unat (max w n)"
  let ?f = "rnd (rnd (of_nat ?a) / rnd (of_nat ?b))"
  have "sint (100 - q) = 100 - sint q"
    using q sint_less [of q] by (subst sint_word_ariths(2)) (simp add: signed_take_bit_int_eq_self)
  then have "sint (100 - q) \<le> 100" using q by simp
  then have "real_of_int (sint (100 - q)) \<le> real_of_int 100" by (simp only: of_int_le_iff)
  then have "rnd (of_int (sint (100 - q))) \<le> 100"
    using ieee_mono [OF r, of "of_int (sint (100 - q))" 100] const(1) by simp
  then have d: "?d \<le> 1"
    using ieee_mono [OF r, of "rnd (of_int (sint (100 - q))) / 100" 1] const by simp
  have "?a \<le> ?b" by (simp add: min_le_iff_disj le_max_iff_disj)
  moreover have "?b \<le> 2 ^ 53" using unat_lt32 [of "max w n"] by simp
  moreover have "?b \<noteq> 0" using w by (metis unat_eq_0)
  ultimately have "0 \<le> rnd (of_nat ?a) / rnd (of_nat ?b)" "rnd (of_nat ?a) / rnd (of_nat ?b) \<le> 1"
    using frac_bounds [OF r, of ?a ?b] by simp_all
  then have f: "0 \<le> ?f" "?f \<le> 1" using ieee_mono [OF r] const by fastforce+
  let ?x = "rnd (rnd 8000 * ?f)"
  have x: "0 \<le> ?x" "?x \<le> 8000"
    using ieee_mono [OF r, of 0 "8000 * ?f"] ieee_mono [OF r, of "8000 * ?f" 8000] f const by simp_all
  have "?x * ?d \<le> ?x" using x(1) d by (simp add: mult_left_le)
  then have "rnd (?x * ?d) \<le> rnd 8000" using x(2) by (intro ieee_mono [OF r]) simp
  then show ?thesis using const by (simp add: scaled_gain_def Let_def)
qed

lemma floor_u32:
  assumes "real_to_u32 x = Some w"
  shows "unat w = nat \<lfloor>x\<rfloor>"
proof -
  have x: "x < 2 ^ 32" "w = of_nat (nat \<lfloor>x\<rfloor>)" "0 \<le> x"
    using assms by (simp_all only: real_to_u32_def option.inject option.distinct split: if_splits)
  then have "nat \<lfloor>x\<rfloor> < 2 ^ 32" by (simp add: nat_less_iff floor_less_iff)
  moreover have "unat (of_nat n :: u32) = n" if "n < 2 ^ 32" for n
    using that by (simp add: unat_of_nat take_bit_nat_eq_self_iff)
  ultimately show ?thesis unfolding x(2) by blast
qed

lemma on_ack_spec:
  assumes inv: "ledbat_inv c" and r: "ieee rnd" and sack: "sack_ok (sackArray p)" and room: "unat (wnd c) + 8000 < 2 ^ 32"
  shows "\<exists>c'. LedbatCcOnAck rnd now p nAcks fl c = Some c' \<and> ledbat_inv c' \<and> unat (wnd c') \<le> unat (wnd c) + 8000 \<and>
    cc_mtu c' = cc_mtu c \<and> cc_mss c' = cc_mss c"
proof -
  have i: "delay_inv c" "est_inv c" "window_inv c" using inv by (simp_all add: ledbat_inv_def)
  obtain c1 where u: "UpdateSample now p c = Some c1" "delay_inv c1" "est_inv c1" "wnd c1 = wnd c" "cc_mss c1 = cc_mss c"
    "cc_mtu c1 = cc_mtu c"
    using update_sample_spec [OF i(1,2) sack] by blast
  obtain mc mb where m: "min_of (currDelaySamples c1) = Some mc" "min_of (baseDelaySamples c1) = Some mb" "0 \<le> sint (mc - mb)"
    by (rule queue_delay_nonneg [OF u(2)]) (rule that)
  have w: "0 < unat (cc_mss c)" "2 * unat (cc_mss c) < 2 ^ 32" "2 * unat (cc_mss c) \<le> unat (wnd c)"
    using i(3) by (simp_all add: window_inv_def)
  have mw: "unat (min_window c1) = 2 * unat (cc_mss c)"
    using w(2) u(5) by (simp add: min_window_def unat_word_ariths)
  have mw32: "unat (ucast (min_window c1) :: u32) = 2 * unat (cc_mss c)"
    using w(2) mw by (simp add: unsigned_ucast_eq take_bit_nat_eq_self_iff)
  have inv': "ledbat_inv (c1\<lparr>wnd := v\<rparr>)" if "2 * unat (cc_mss c) \<le> unat v" for v
    using that u w by (simp add: ledbat_inv_def delay_inv_def est_inv_def window_inv_def base_at_def curr_at_def)
  have "c1\<lparr>wnd := wnd c\<rparr> = c1" using u(4) by (cases c1) simp
  then have c1: "ledbat_inv c1" using inv' [of "wnd c"] w(3) by simp
  have nz: "max (wnd c1) nAcks \<noteq> 0"
  proof -
    have "0 < unat (wnd c1)" using w u(4) by simp
    then show ?thesis by (metis max.cobounded1 unat_gt_0 u(4) word_le_0_iff)
  qed
  define sum where "sum = rnd (scaled_gain rnd (mc - mb) nAcks (wnd c1) + rnd (of_nat (unat (wnd c1))))"
  have wr: "rnd (of_nat (unat (wnd c1))) = of_nat (unat (wnd c))"
    using ieee_nat [OF r, of "unat (wnd c1)"] unat_lt32 [of "wnd c1"] u(4) by simp
  have "sum \<le> rnd (of_nat (8000 + unat (wnd c)))"
    unfolding sum_def wr using scaled_gain_le [OF r m(3) nz] by (intro ieee_mono [OF r]) simp
  then have le: "sum \<le> of_nat (8000 + unat (wnd c))"
    using ieee_nat [OF r, of "8000 + unat (wnd c)"] room by simp
  have mwr: "rnd (of_nat (unat (min_window c1))) = of_nat (2 * unat (cc_mss c))"
    unfolding mw using w(2) by (intro ieee_nat [OF r]) simp
  show ?thesis
  proof (cases "mb = push_bit 62 1")
    case True
    then show ?thesis using u m c1 by (intro exI [of _ c1]) (simp add: LedbatCcOnAck_def)
  next
    case False
    show ?thesis
    proof (cases "sum < of_nat (2 * unat (cc_mss c))")
      case True
      then have "LedbatCcOnAck rnd now p nAcks fl c = Some (c1\<lparr>wnd := ucast (min_window c1)\<rparr>)"
        using u(1) m(1,2) False nz mwr by (simp add: LedbatCcOnAck_def Let_def sum_def [symmetric, simplified])
      then show ?thesis using inv' [of "ucast (min_window c1)"] mw32 w(3) u(5,6) by simp
    next
      case ge: False
      have "of_nat (8000 + unat (wnd c)) < (of_nat (2 ^ 32) :: real)"
        using room by (subst of_nat_less_iff) simp
      then have "sum < of_nat (2 ^ 32)" by (rule order.strict_trans1 [OF le])
      moreover have "0 \<le> sum" using ge by (meson not_less of_nat_0_le_iff order.trans)
      ultimately have b: "0 \<le> sum" "sum < 2 ^ 32" by simp_all
      then obtain v where v: "real_to_u32 sum = Some v" by (simp add: real_to_u32_def)
      then have "LedbatCcOnAck rnd now p nAcks fl c = Some (c1\<lparr>wnd := v\<rparr>)"
        using u(1) m(1,2) False nz mwr ge by (simp add: LedbatCcOnAck_def Let_def sum_def [symmetric, simplified])
      moreover have "2 * unat (cc_mss c) \<le> unat v"
        using floor_u32 [OF v] ge by (simp add: le_nat_floor not_less)
      moreover have "unat v \<le> unat (wnd c) + 8000"
        using floor_u32 [OF v] le b(1) by (simp add: nat_le_iff floor_le_iff)
      ultimately show ?thesis using inv' [of v] u(5,6) by simp
    qed
  qed
qed

lemma new_inv:
  assumes "0 < unat mss" and "unat mss < 2 ^ 31"
  shows "ledbat_inv (LedbatCcNew mtu mss)"
proof -
  have "unat (mss * 2) = 2 * unat mss" using assms(2) by (simp add: unat_word_ariths)
  moreover have "base_at (LedbatCcNew mtu mss) i = 2 ^ 62" "curr_at (LedbatCcNew mtu mss) j = 2 ^ 62" for i j
    by (simp_all add: base_at_def curr_at_def LedbatCcNew_def nth_replicate)
  ultimately show ?thesis using assms
    by (simp add: ledbat_inv_def delay_inv_def est_inv_def window_inv_def)
      (auto simp: LedbatCcNew_def delay_ok_def list_all_iff)
qed

lemma change_state_spec:
  assumes "ledbat_inv c"
  shows "ledbat_inv (LedbatCcOnChangeState s s' c)"
    and "unat (wnd (LedbatCcOnChangeState s CC_STATE_LOST c)) = max (unat (wnd c) div 2) (2 * unat (cc_mss c))"
    and "unat (wnd (LedbatCcOnChangeState s CC_STATE_RTO c)) = 2 * unat (cc_mss c)"
proof -
  have w: "2 * unat (cc_mss c) < 2 ^ 32" using assms by (simp add: ledbat_inv_def window_inv_def)
  have m: "unat (min_window c) = 2 * unat (cc_mss c)" "unat (ucast (min_window c) :: u32) = 2 * unat (cc_mss c)"
    using w by (simp_all add: min_window_def unat_word_ariths unsigned_ucast_eq take_bit_nat_eq_self_iff)
  have inv: "ledbat_inv (c\<lparr>wnd := v\<rparr>)" if "2 * unat (cc_mss c) \<le> unat v" for v
    using that assms by (simp add: ledbat_inv_def delay_inv_def est_inv_def window_inv_def base_at_def curr_at_def)
  have lost: "unat (if ucast (wnd c div 2) < min_window c then ucast (min_window c) else wnd c div 2 :: u32) =
      max (unat (wnd c) div 2) (2 * unat (cc_mss c))"
    using m by (auto simp: word_less_unat unat_div)
  show "unat (wnd (LedbatCcOnChangeState s CC_STATE_LOST c)) = max (unat (wnd c) div 2) (2 * unat (cc_mss c))"
    using lost by (simp add: LedbatCcOnChangeState_def Let_def)
  show "unat (wnd (LedbatCcOnChangeState s CC_STATE_RTO c)) = 2 * unat (cc_mss c)"
    using m by (simp add: LedbatCcOnChangeState_def)
  show "ledbat_inv (LedbatCcOnChangeState s s' c)"
    using assms m lost by (cases s') (simp_all add: LedbatCcOnChangeState_def Let_def inv del: unat_ucast_32_64)
qed

section \<open>Sending\<close>

lemma other_fields [simp]:
  "delay_inv (c\<lparr>estimate := x1\<rparr>) = delay_inv c" "delay_inv (c\<lparr>maxStreamPos := x2\<rparr>) = delay_inv c"
  "delay_inv (c\<lparr>prevEstTime := x2\<rparr>) = delay_inv c" "delay_inv (c\<lparr>sample_packageId := x3\<rparr>) = delay_inv c"
  "delay_inv (c\<lparr>remotePackageId := x3\<rparr>) = delay_inv c" "delay_inv (c\<lparr>newAck := x3\<rparr>) = delay_inv c"
  "window_inv (c\<lparr>estimate := x1\<rparr>) = window_inv c" "window_inv (c\<lparr>maxStreamPos := x2\<rparr>) = window_inv c"
  "window_inv (c\<lparr>prevEstTime := x2\<rparr>) = window_inv c" "window_inv (c\<lparr>sample_packageId := x3\<rparr>) = window_inv c"
  "window_inv (c\<lparr>remotePackageId := x3\<rparr>) = window_inv c" "window_inv (c\<lparr>newAck := x3\<rparr>) = window_inv c"
  "est_inv (c\<lparr>remotePackageId := x3\<rparr>) = est_inv c" "est_inv (c\<lparr>newAck := x3\<rparr>) = est_inv c"
  by (simp_all add: delay_inv_def window_inv_def est_inv_def base_at_def curr_at_def)

lemma erase_subset: "set (erase_sample pos ss) \<subseteq> set ss"
  by (induction ss) auto

lemma erase_sorted:
  assumes "sorted_wrt (<) (map est_streamPos ss)"
  shows "sorted_wrt (<) (map est_streamPos (erase_sample pos ss))"
    and "pos \<notin> est_streamPos ` set (erase_sample pos ss)"
proof -
  have "sorted_wrt (<) (map est_streamPos (erase_sample pos ss)) \<and> pos \<notin> est_streamPos ` set (erase_sample pos ss)"
    using assms
  proof (induction ss)
    case (Cons s ss)
    then have i: "sorted_wrt (<) (map est_streamPos (erase_sample pos ss))" "pos \<notin> est_streamPos ` set (erase_sample pos ss)"
      and lt: "\<forall>x\<in>set ss. est_streamPos s < est_streamPos x" by simp_all
    have lt': "\<forall>x\<in>set (erase_sample pos ss). est_streamPos s < est_streamPos x"
      using lt erase_subset by blast
    show ?case
    proof (cases "est_streamPos s = pos")
      case True
      then have "pos \<notin> est_streamPos ` set ss" using lt by fastforce
      then show ?thesis using True Cons.prems by simp
    next
      case False
      then show ?thesis using i lt' by auto
    qed
  qed simp
  then show "sorted_wrt (<) (map est_streamPos (erase_sample pos ss))"
    and "pos \<notin> est_streamPos ` set (erase_sample pos ss)" by blast+
qed

lemma on_send_spec:
  assumes inv: "ledbat_inv c" and send: "LedbatCcOnSend now p c = (c', p')"
    and "payloadLength p \<noteq> 0" and e: "e = streamPos p + ucast (payloadLength p)"
  shows "ledbat_inv c' \<and> wnd c' = wnd c \<and> cc_mtu c' = cc_mtu c \<and>
    (e \<le> maxStreamPos c \<longrightarrow> e \<notin> est_streamPos ` set (estimate c')) \<and>
    (\<forall>s\<in>set (estimate c'). s \<in> set (estimate c) \<or> maxStreamPos c < e \<and> est_streamPos s = e)"
proof -
  let ?p = "answer_id c (if sendTime p = 0 then p\<lparr>sendTime := now\<rparr> else p)"
  have s: "note_sample now ?p (c\<lparr>remotePackageId := 0\<rparr>) = (c', p')"
  proof -
    have "payloadLength ?p = payloadLength p" by (simp add: answer_id_def)
    then show ?thesis using send assms(3) by (simp only: LedbatCcOnSend_def Let_def if_True if_False simp_thms)
  qed
  have end_pos: "streamPos ?p + ucast (payloadLength ?p) = e"
    by (simp add: e answer_id_def)
  have i: "delay_inv c" "est_inv c" "window_inv c" using inv by (simp_all add: ledbat_inv_def)
  have frame: "delay_inv c'" "window_inv c'" "wnd c' = wnd c" "cc_mtu c' = cc_mtu c"
    using s i by (auto simp: note_sample_def Let_def split: if_splits)
  show ?thesis
  proof (cases "maxStreamPos c < e")
    case True
    then have "(\<exists>x. estimate c' = estimate c @ [x] \<and> est_streamPos x = e \<and> maxStreamPos c' = e) \<or>
        (estimate c' = estimate c \<and> maxStreamPos c' = maxStreamPos c)"
      using s end_pos by (auto simp: note_sample_def Let_def split: if_splits)
    then show ?thesis using True i frame
      by (fastforce simp: ledbat_inv_def est_inv_def sorted_wrt_append)
  next
    case False
    then have "estimate c' = erase_sample e (estimate c)" "maxStreamPos c' = maxStreamPos c"
      using s end_pos by (auto simp: note_sample_def Let_def)
    then show ?thesis using False i frame erase_sorted [of "estimate c" e] erase_subset [of e "estimate c"]
      by (auto simp: ledbat_inv_def est_inv_def)
  qed
qed

section \<open>Properties\<close>

text \<open>
  An acknowledgement: no index leaves its array, no conversion overflows, and the window stays
  at two segments or more and grows by at most 8000 bytes. The reason is that the queueing delay
  is never negative, since every current delay is remembered by a base delay that has not been
  overwritten yet.
\<close>

lemma on_ack_window:
  assumes "ledbat_inv c" and "ieee rnd" and "sack_ok (sackArray p)" and "unat (wnd c) + 8000 < 2 ^ 32"
  shows "\<exists>c'. LedbatCcOnAck rnd now p nAcks fl c = Some c' \<and> ledbat_inv c' \<and>
    2 * unat (cc_mss c') \<le> unat (wnd c') \<and> unat (wnd c') \<le> unat (wnd c) + 8000"
  using on_ack_spec [OF assms, of now nAcks fl] by (auto simp: ledbat_inv_def window_inv_def)

text \<open>
  The delay is only measured on packages sent once: sending a package again erases the sample
  taken when it was sent first, so that its acknowledgement, which may answer either, is not
  mistaken for the answer to one of them. Samples stay sorted by the end of their package.
\<close>

lemma on_send_samples_once:
  assumes "ledbat_inv c" and "LedbatCcOnSend now p c = (c', p')"
    and "payloadLength p \<noteq> 0" and "e = streamPos p + ucast (payloadLength p)"
  shows "ledbat_inv c' \<and> wnd c' = wnd c \<and>
    (e \<le> maxStreamPos c \<longrightarrow> e \<notin> est_streamPos ` set (estimate c')) \<and>
    (\<forall>s\<in>set (estimate c'). s \<in> set (estimate c) \<or> maxStreamPos c < e \<and> est_streamPos s = e)"
  using on_send_spec [OF assms] by blast

text \<open>A connection with segments of 1000 bytes that has sampled one package.\<close>

definition example_cc :: LedbatCc where
  "example_cc = fst (LedbatCcOnSend 50000 (Bdt_SessionDataPackageInit\<lparr>streamPos := 1, payloadLength := 1000\<rparr>)
     (LedbatCcNew 1000 1000))"

lemma example_cc_inv: "ledbat_inv example_cc"
proof -
  let ?p = "Bdt_SessionDataPackageInit\<lparr>streamPos := 1, payloadLength := 1000\<rparr>"
  have "payloadLength ?p \<noteq> 0" by simp
  from on_send_spec [OF new_inv [of 1000 1000] _ this refl, of 50000]
  show ?thesis unfolding example_cc_def by (cases "LedbatCcOnSend 50000 ?p (LedbatCcNew 1000 1000)") simp
qed

lemma example_cc_value: "wnd example_cc = 2000" "maxStreamPos example_cc = 1001"
  "est_streamPos ` set (estimate example_cc) = {1001}"
  by (simp_all add: example_cc_def LedbatCcOnSend_def note_sample_def answer_id_def LedbatCcNew_def
    Bdt_SessionDataPackageInit_def Let_def)

lemma on_ack_window_witness:
  "\<exists>c'. LedbatCcOnAck (\<lambda>x. x) 90000 (Bdt_SessionDataPackageInit\<lparr>ackStreamPos := 1001\<rparr>) 1000 0 example_cc = Some c' \<and>
     unat (wnd c') \<le> 10000"
proof -
  have "ieee (\<lambda>x. x)" by (simp add: ieee_def mono_def)
  moreover have "sack_ok (sackArray (Bdt_SessionDataPackageInit\<lparr>ackStreamPos := 1001\<rparr>))"
    by (simp add: sack_ok_def Bdt_SessionDataPackageInit_def)
  ultimately show ?thesis
    using on_ack_window [OF example_cc_inv, of "\<lambda>x. x" "Bdt_SessionDataPackageInit\<lparr>ackStreamPos := 1001\<rparr>" 90000 1000 0]
      example_cc_value(1) by auto
qed

lemma on_send_samples_once_witness:
  "1001 \<notin> est_streamPos ` set (estimate (fst (LedbatCcOnSend 60000
     (Bdt_SessionDataPackageInit\<lparr>streamPos := 1, payloadLength := 1000\<rparr>) example_cc)))"
proof -
  let ?p = "Bdt_SessionDataPackageInit\<lparr>streamPos := 1, payloadLength := 1000\<rparr>"
  obtain c' p' where s: "LedbatCcOnSend 60000 ?p example_cc = (c', p')" by force
  show ?thesis
    using on_send_samples_once [OF example_cc_inv s, of 1001] example_cc_value(2) s by simp
qed

end
