(* ===== verification/TimerHelper.thy ===== *)
theory TimerHelper
  imports Prelude
begin

text \<open>
  The restartable timer of \<^verbatim>\<open>BDTCore/Global/TimerHelper.imp.inl\<close>. The timers themselves belong to
  the framework the application supplies (\<open>BdtCreateTimeout\<close>, \<open>BdtDestroyTimeout\<close>), so what the
  framework answers is an argument: \<open>None\<close> is a null timer.

  \<open>Bdt_TimerHelperStart\<close> takes the lock twice and calls the framework in between. The two critical
  sections are operations of their own here, so that the threads of a process can be interleaved
  between them. \<open>BLOG_CHECK\<close> only writes a log line.
\<close>

section \<open>The operations\<close>

record 'i Bdt_TimerHelper =
  isStartPending :: bool
  activeTimeSeq :: "31 word"
  timerInstance :: "'i option"

definition Bdt_TimerHelperInit :: "'i Bdt_TimerHelper" where
  "Bdt_TimerHelperInit = \<lparr>isStartPending = False, activeTimeSeq = 1, timerInstance = None\<rparr>"

definition start_reserve :: "'i Bdt_TimerHelper \<Rightarrow> u32 \<times> 'i Bdt_TimerHelper" where
  "start_reserve t =
     (if timerInstance t = None \<and> \<not> isStartPending t
      then (ucast (activeTimeSeq t), t\<lparr>isStartPending := True\<rparr>) else (0, t))"

definition start_commit :: "u32 \<Rightarrow> 'i option \<Rightarrow> 'i Bdt_TimerHelper \<Rightarrow> bool \<times> 'i Bdt_TimerHelper" where
  "start_commit curActiveSeq newTimer t =
     (if ucast (activeTimeSeq t) = curActiveSeq
      then (False, t\<lparr>timerInstance := newTimer, isStartPending := False\<rparr>) else (True, t))"

text \<open>The result, the timer handed back to the framework (if any) and the new state.\<close>

definition Bdt_TimerHelperStart :: "'i option \<Rightarrow> 'i Bdt_TimerHelper \<Rightarrow> bool \<times> 'i option \<times> 'i Bdt_TimerHelper" where
  "Bdt_TimerHelperStart newTimer t =
     (let (curActiveSeq, t) = start_reserve t
      in if curActiveSeq = 0 then (False, None, t)
         else let (timerHasDestroy, t) = start_commit curActiveSeq newTimer t
              in (newTimer \<noteq> None, if timerHasDestroy then newTimer else None, t))"

definition Bdt_TimerHelperStop :: "'i Bdt_TimerHelper \<Rightarrow> 'i option \<times> 'i Bdt_TimerHelper" where
  "Bdt_TimerHelperStop t =
     (timerInstance t, t\<lparr>activeTimeSeq := activeTimeSeq t + 1, timerInstance := None, isStartPending := False\<rparr>)"

definition Bdt_TimerHelperRestart :: "'i option \<Rightarrow> 'i Bdt_TimerHelper \<Rightarrow> bool \<times> 'i option \<times> 'i Bdt_TimerHelper" where
  "Bdt_TimerHelperRestart newTimer t =
     (let (oldTimer, t) = Bdt_TimerHelperStop t;
          (started, destroyed, t) = Bdt_TimerHelperStart newTimer t
      in (started, if oldTimer = None then destroyed else oldTimer, t))"

end
