(* ===== verification/TimerThreads.thy ===== *)
theory TimerThreads
  imports TimerHelper
begin

text \<open>
  The threads of a process that start, stop and restart one timer (theory TimerHelper), as a step
  relation over the critical sections and the calls of the framework, and its invariant: every
  running timer has one owner.
\<close>

section \<open>Threads\<close>

text \<open>
  What a thread is about to do: \<open>Reserved\<close> and \<open>Created\<close> are inside \<open>Bdt_TimerHelperStart\<close>, before
  and behind the call of the framework; \<open>Dying\<close> has left the lock and is about to destroy a timer.
  \<open>live\<close> are the timers of the framework that run, \<open>stops\<close> counts the calls of
  \<open>Bdt_TimerHelperStop\<close>.
\<close>

datatype timer_thread = Outside | Reserved u32 | Created u32 "nat option" | Dying "nat option"

record timer_system =
  helper :: "nat Bdt_TimerHelper"
  thread :: "nat \<Rightarrow> timer_thread"
  live :: "nat set"
  fresh :: nat
  stops :: nat

definition timer_start :: timer_system where
  "timer_start = \<lparr>helper = Bdt_TimerHelperInit, thread = \<lambda>_. Outside, live = {}, fresh = 0, stops = 0\<rparr>"

inductive timer_step :: "timer_system \<Rightarrow> timer_system \<Rightarrow> bool" where
  reserve: "thread s i = Outside \<Longrightarrow> start_reserve (helper s) = (c, t) \<Longrightarrow>
    timer_step s (s\<lparr>helper := t, thread := (thread s)(i := if c = 0 then Outside else Reserved c)\<rparr>)"
| create: "thread s i = Reserved c \<Longrightarrow>
    timer_step s (s\<lparr>thread := (thread s)(i := Created c (Some (fresh s))), live := insert (fresh s) (live s),
                    fresh := Suc (fresh s)\<rparr>)"
| create_failed: "thread s i = Reserved c \<Longrightarrow> timer_step s (s\<lparr>thread := (thread s)(i := Created c None)\<rparr>)"
| commit: "thread s i = Created c x \<Longrightarrow> start_commit c x (helper s) = (destroy, t) \<Longrightarrow>
    timer_step s (s\<lparr>helper := t, thread := (thread s)(i := if destroy then Dying x else Outside)\<rparr>)"
| stop: "thread s i = Outside \<Longrightarrow> Bdt_TimerHelperStop (helper s) = (x, t) \<Longrightarrow>
    timer_step s (s\<lparr>helper := t, thread := (thread s)(i := if x = None then Outside else Dying x), stops := Suc (stops s)\<rparr>)"
| destroy: "thread s i = Dying x \<Longrightarrow>
    timer_step s (s\<lparr>thread := (thread s)(i := Outside), live := live s - set_option x\<rparr>)"

abbreviation timer_reachable :: "timer_system \<Rightarrow> bool" where
  "timer_reachable \<equiv> timer_step\<^sup>*\<^sup>* timer_start"

text \<open>The timer a thread holds, and the sequence number it has reserved.\<close>

fun holds :: "timer_thread \<Rightarrow> nat set" where
  "holds (Created c x) = set_option x"
| "holds (Dying x) = set_option x"
| "holds _ = {}"

fun reserved :: "timer_thread \<Rightarrow> u32 set" where
  "reserved (Reserved c) = {c}"
| "reserved (Created c x) = {c}"
| "reserved _ = {}"

text \<open>
  Every running timer belongs to the helper or to one thread. A start is pending exactly while one
  thread has reserved the current sequence number; then the helper has no timer.
\<close>

definition owned :: "timer_system \<Rightarrow> bool" where
  "owned s \<longleftrightarrow>
     live s = set_option (timerInstance (helper s)) \<union> (\<Union>i. holds (thread s i)) \<and>
     (\<forall>x\<in>live s. x < fresh s) \<and>
     (\<forall>i. holds (thread s i) \<inter> set_option (timerInstance (helper s)) = {}) \<and>
     (\<forall>i j. i \<noteq> j \<longrightarrow> holds (thread s i) \<inter> holds (thread s j) = {})"

definition current :: "timer_system \<Rightarrow> nat \<Rightarrow> bool" where
  "current s i \<longleftrightarrow> ucast (activeTimeSeq (helper s)) \<in> reserved (thread s i)"

definition numbered :: "timer_system \<Rightarrow> bool" where
  "numbered s \<longleftrightarrow>
     unat (activeTimeSeq (helper s)) = Suc (stops s) \<and>
     (\<forall>i c. c \<in> reserved (thread s i) \<longrightarrow> unat c \<le> Suc (stops s)) \<and>
     (\<forall>i j. current s i \<and> current s j \<longrightarrow> i = j) \<and>
     (isStartPending (helper s) \<longleftrightarrow> (\<exists>i. current s i)) \<and>
     (isStartPending (helper s) \<longrightarrow> timerInstance (helper s) = None)"

lemma unat_ucast_31_32 [simp]: "unat (ucast (x :: 31 word) :: u32) = unat x"
proof -
  have "unat x < 2 ^ 31" using unsigned_less [of x, where ?'a = nat] by simp
  then show ?thesis by (simp add: unsigned_ucast_eq take_bit_nat_eq_self_iff)
qed

lemma start_reserve_cases:
  assumes "start_reserve t = (c, t')"
  obtains "c = ucast (activeTimeSeq t)" "timerInstance t = None" "\<not> isStartPending t" "t' = t\<lparr>isStartPending := True\<rparr>"
  | "c = 0" "t' = t"
proof (cases "timerInstance t = None \<and> \<not> isStartPending t")
  case True
  then show ?thesis using assms by (intro that(1)) (simp_all add: start_reserve_def)
next
  case False
  then show ?thesis using assms by (intro that(2)) (simp_all only: start_reserve_def if_False prod.inject)
qed

lemma start_commit_cases:
  assumes "start_commit c x t = (d, t')"
  obtains "c = ucast (activeTimeSeq t)" "\<not> d" "t' = t\<lparr>timerInstance := x, isStartPending := False\<rparr>"
  | "c \<noteq> ucast (activeTimeSeq t)" "d" "t' = t"
proof (cases "ucast (activeTimeSeq t) = c")
  case True
  then show ?thesis using assms by (intro that(1)) (simp_all add: start_commit_def)
next
  case False
  then show ?thesis using assms by (intro that(2)) (auto simp: start_commit_def)
qed

lemma seq_nonzero: "numbered s \<Longrightarrow> (ucast (activeTimeSeq (helper s)) :: u32) \<noteq> 0"
  by (metis Suc_not_Zero numbered_def unat_0 unat_ucast_31_32)

text \<open>A step that keeps the helper, and every reservation that counts, keeps the numbering.\<close>

lemma numbered_keep:
  assumes "numbered s" and "helper s' = helper s" and "stops s' = stops s"
    and "\<And>j. reserved (thread s' j) \<subseteq> reserved (thread s j)"
    and "\<And>j. current s j \<Longrightarrow> current s' j"
  shows "numbered s'"
proof -
  have same: "current s' j = current s j" for j
    using assms(2,4,5) by (auto simp: current_def)
  show ?thesis
    unfolding numbered_def same assms(2,3) using assms(1,4) unfolding numbered_def by blast
qed

lemma numbered_reserve:
  assumes "numbered s" and "thread s i = Outside" and "start_reserve (helper s) = (c, t)"
  shows "numbered (s\<lparr>helper := t, thread := (thread s)(i := if c = 0 then Outside else Reserved c)\<rparr>)"
  using assms(3)
proof (cases rule: start_reserve_cases)
  case 1
  have cur: "current (s\<lparr>helper := t, thread := (thread s)(i := if c = 0 then Outside else Reserved c)\<rparr>) j \<longleftrightarrow> j = i" for j
    using 1 assms(1) seq_nonzero [OF assms(1)] by (auto simp: current_def numbered_def)
  show ?thesis
    unfolding numbered_def cur using 1 assms(1) by (auto simp: numbered_def)
next
  case 2
  then show ?thesis
    by (intro numbered_keep [OF assms(1)]) (use assms(2) in \<open>auto simp: current_def\<close>)
qed

lemma numbered_commit:
  assumes "numbered s" and "thread s i = Created c x" and "start_commit c x (helper s) = (d, t)"
  shows "numbered (s\<lparr>helper := t, thread := (thread s)(i := if d then Dying x else Outside)\<rparr>)"
  using assms(3)
proof (cases rule: start_commit_cases)
  case 1
  have "current s i" using 1(1) assms(2) by (simp add: current_def)
  then have cur: "\<not> current (s\<lparr>helper := t, thread := (thread s)(i := if d then Dying x else Outside)\<rparr>) j" for j
    using 1 assms(1) by (cases "j = i") (auto simp: current_def numbered_def)
  show ?thesis
    unfolding numbered_def using cur 1 assms(1) by (auto simp: numbered_def)
next
  case 2
  then show ?thesis
    by (intro numbered_keep [OF assms(1)]) (use assms(2) in \<open>auto simp: current_def\<close>)
qed

lemma numbered_stop:
  assumes "numbered s" and "Suc (stops s) < 2 ^ 31 - 1" and "Bdt_TimerHelperStop (helper s) = (x, t)"
    and "thread s i = Outside"
  shows "numbered (s\<lparr>helper := t, thread := (thread s)(i := if x = None then Outside else Dying x), stops := Suc (stops s)\<rparr>)"
proof -
  let ?s = "s\<lparr>helper := t, thread := (thread s)(i := if x = None then Outside else Dying x), stops := Suc (stops s)\<rparr>"
  have t: "t = (helper s)\<lparr>activeTimeSeq := activeTimeSeq (helper s) + 1, timerInstance := None, isStartPending := False\<rparr>"
    using assms(3) by (simp add: Bdt_TimerHelperStop_def)
  have seq: "unat (activeTimeSeq (helper s) + 1) = Suc (Suc (stops s))"
    using assms(1,2) by (subst unat_add_no_overflow) (simp_all add: numbered_def)
  have res: "reserved (thread ?s j) \<subseteq> reserved (thread s j)" for j using assms(4) by simp
  have cur: "\<not> current ?s j" for j
  proof
    assume "current ?s j"
    then have "ucast (activeTimeSeq (helper s) + 1) \<in> reserved (thread s j)"
      using res [of j] t by (auto simp: current_def)
    then have "unat (ucast (activeTimeSeq (helper s) + 1) :: u32) \<le> Suc (stops s)"
      using assms(1) unfolding numbered_def by blast
    then show False using seq by simp
  qed
  have "\<forall>j c. c \<in> reserved (thread ?s j) \<longrightarrow> unat c \<le> Suc (Suc (stops s))"
    using res assms(1) unfolding numbered_def by (blast intro: le_SucI)
  then show ?thesis
    unfolding numbered_def using cur t seq by auto
qed

lemma numbered_step:
  assumes "timer_step s s'" and "numbered s" and "stops s' < 2 ^ 31 - 1"
  shows "numbered s'"
  using assms
proof (cases rule: timer_step.cases)
  case (create i c)
  then show ?thesis by (intro numbered_keep [OF assms(2)]) (auto simp: current_def)
next
  case (create_failed i c)
  then show ?thesis by (intro numbered_keep [OF assms(2)]) (auto simp: current_def)
next
  case (destroy i x)
  then show ?thesis by (intro numbered_keep [OF assms(2)]) (auto simp: current_def)
next
  case (reserve i c t)
  then show ?thesis using numbered_reserve [OF assms(2)] by blast
next
  case (commit i c x d t)
  then show ?thesis using numbered_commit [OF assms(2)] by blast
next
  case (stop i x t)
  then show ?thesis using numbered_stop [OF assms(2) _ stop(3,2)] assms(3) by simp
qed

section \<open>Ownership\<close>

lemma owned_disjoint: "owned s \<Longrightarrow> x \<in> holds (thread s i) \<Longrightarrow> x \<in> holds (thread s j) \<Longrightarrow> i = j"
  unfolding owned_def by blast

text \<open>
  A step of thread \<open>i\<close> that exchanges what the helper and the thread hold, without losing or
  doubling a timer, keeps the ownership.
\<close>

lemma owned_exchange:
  assumes "owned s" and "fresh s' = fresh s"
    and "live s' = live s - gone" and "gone \<subseteq> holds (thread s i)"
    and "\<And>j. j \<noteq> i \<Longrightarrow> thread s' j = thread s j"
    and "set_option (timerInstance (helper s')) \<union> holds (thread s' i) =
         (set_option (timerInstance (helper s)) \<union> holds (thread s i)) - gone"
    and "set_option (timerInstance (helper s')) \<inter> holds (thread s' i) = {}"
  shows "owned s'"
proof -
  let ?own = "\<lambda>s i. set_option (timerInstance (helper s)) \<union> holds (thread s i)"
  have others: "holds (thread s j) \<inter> ?own s i = {}" if "j \<noteq> i" for j
    using assms(1) that unfolding owned_def by blast
  have sub: "set_option (timerInstance (helper s')) \<subseteq> ?own s i" "holds (thread s' i) \<subseteq> ?own s i"
    using assms(6) by auto
  have split_own: "set_option (timerInstance (helper r)) \<union> (\<Union>j. holds (thread r j)) =
      ?own r i \<union> (\<Union>j\<in>- {i}. holds (thread r j))" for r
    by auto
  have rest: "(\<Union>j\<in>- {i}. holds (thread s' j)) = (\<Union>j\<in>- {i}. holds (thread s j))"
    using assms(5) by auto
  have live: "live s = ?own s i \<union> (\<Union>j\<in>- {i}. holds (thread s j))"
    using assms(1) split_own [of s] by (simp add: owned_def)
  have "gone \<inter> (\<Union>j\<in>- {i}. holds (thread s j)) = {}"
    using others assms(4) by blast
  then have "live s' = ?own s' i \<union> (\<Union>j\<in>- {i}. holds (thread s' j))"
    unfolding assms(3,6) rest live by blast
  then have "live s' = set_option (timerInstance (helper s')) \<union> (\<Union>j. holds (thread s' j))"
    using split_own [of s'] by simp
  moreover have "\<forall>x\<in>live s'. x < fresh s'"
    using assms(1,2,3) by (auto simp: owned_def)
  moreover have "holds (thread s' j) \<inter> set_option (timerInstance (helper s')) = {}" for j
  proof (cases "j = i")
    case True
    then show ?thesis using assms(7) by blast
  next
    case False
    then show ?thesis using others [OF False] sub(1) assms(5) [OF False] by auto
  qed
  moreover have "holds (thread s' j) \<inter> holds (thread s' k) = {}" if "j \<noteq> k" for j k
  proof -
    have mine: "holds (thread s' m) \<inter> holds (thread s' i) = {}" if "m \<noteq> i" for m
      using others [OF that] sub(2) assms(5) [OF that] by auto
    have "holds (thread s' j) \<inter> holds (thread s' k) = {}" if "j \<noteq> i" "k \<noteq> i"
      using assms(1) assms(5) [OF that(1)] assms(5) [OF that(2)] \<open>j \<noteq> k\<close> by (simp add: owned_def)
    then show ?thesis using mine [of j] mine [of k] that by blast
  qed
  ultimately show ?thesis by (simp add: owned_def)
qed

lemma owned_step:
  assumes "timer_step s s'" and "owned s" and "numbered s"
  shows "owned s'"
  using assms(1)
proof (cases rule: timer_step.cases)
  case (reserve i c t)
  have "timerInstance t = timerInstance (helper s)"
    using reserve(3) by (cases rule: start_reserve_cases) auto
  then show ?thesis
    using reserve by (intro owned_exchange [OF assms(2), where i = i and gone = "{}"]) auto
next
  case (create i c)
  have new: "fresh s \<notin> live s" using assms(2) by (auto simp: owned_def)
  then have "fresh s \<notin> holds (thread s j)" "fresh s \<notin> set_option (timerInstance (helper s))" for j
    using assms(2) by (auto simp: owned_def)
  moreover have holds: "holds (thread s' j) = (if j = i then {fresh s} else holds (thread s j))"
    and "holds (thread s i) = {}" for j
    using create by simp_all
  moreover have "(\<Union>j. holds (thread s' j)) = insert (fresh s) (\<Union>j. holds (thread s j))"
  proof (intro set_eqI iffI)
    fix x assume "x \<in> insert (fresh s) (\<Union>j. holds (thread s j))"
    then consider "x = fresh s" | j where "x \<in> holds (thread s j)" by blast
    then show "x \<in> (\<Union>j. holds (thread s' j))"
    proof cases
      case 1
      then show ?thesis by (intro UN_I [of i]) (simp_all add: holds)
    next
      case (2 j)
      then have "j \<noteq> i" using create by auto
      then show ?thesis using 2 by (intro UN_I [of j]) (simp_all add: holds)
    qed
  qed (auto simp: holds split: if_splits)
  ultimately show ?thesis
    using assms(2) create unfolding owned_def holds by (auto simp: less_Suc_eq)
next
  case (create_failed i c)
  then show ?thesis
    by (intro owned_exchange [OF assms(2), where i = i and gone = "{}"]) auto
next
  case (commit i c x d t)
  from commit(3) show ?thesis
  proof (cases rule: start_commit_cases)
    case 1
    then have "current s i" using commit(2) by (simp add: current_def)
    then have "timerInstance (helper s) = None" using assms(3) by (auto simp: numbered_def)
    then show ?thesis
      using 1 commit by (intro owned_exchange [OF assms(2), where i = i and gone = "{}"]) auto
  next
    case 2
    have "holds (thread s i) \<inter> set_option (timerInstance (helper s)) = {}"
      using assms(2) by (auto simp: owned_def)
    then show ?thesis
      using 2 commit by (intro owned_exchange [OF assms(2), where i = i and gone = "{}"]) auto
  qed
next
  case (stop i x t)
  then show ?thesis
    by (intro owned_exchange [OF assms(2), where i = i and gone = "{}"])
      (auto simp: Bdt_TimerHelperStop_def)
next
  case (destroy i x)
  have "holds (thread s i) \<inter> set_option (timerInstance (helper s)) = {}"
    using assms(2) by (auto simp: owned_def)
  then show ?thesis
    using destroy by (intro owned_exchange [OF assms(2), where i = i and gone = "set_option x"]) auto
qed

lemma stops_mono: "timer_step s s' \<Longrightarrow> stops s \<le> stops s'"
  by (auto elim: timer_step.cases)

lemma timer_start_inv: "numbered timer_start \<and> owned timer_start"
  by (simp add: numbered_def owned_def current_def timer_start_def Bdt_TimerHelperInit_def)

lemma timer_reachable_inv:
  "timer_reachable s \<Longrightarrow> stops s < 2 ^ 31 - 1 \<Longrightarrow> numbered s \<and> owned s"
proof (induction rule: rtranclp_induct)
  case base
  show ?case by (rule timer_start_inv)
next
  case (step s s')
  have "stops s < 2 ^ 31 - 1"
    using step.prems stops_mono [OF step.hyps(2)] by (rule le_less_trans [rotated])
  then show ?case
    using step numbered_step [OF step.hyps(2)] owned_step [OF step.hyps(2)] by blast
qed

text \<open>
  C15. However the threads of a process interleave starts, stops and restarts of one timer: when none
  of them is inside an operation, the framework runs exactly the timer the helper knows of, at most
  one. No timer is leaked, none is destroyed twice, and a start that finds its helper idle succeeds
  in reserving. (Below \<open>2 ^ 31 - 1\<close> stops, where the 31-bit sequence number wraps around.)
\<close>

theorem no_timer_leaks:
  assumes "timer_reachable s" and "stops s < 2 ^ 31 - 1" and "\<forall>i. thread s i = Outside"
  shows "live s = set_option (timerInstance (helper s)) \<and> \<not> isStartPending (helper s) \<and>
    (live s = {} \<longrightarrow> fst (start_reserve (helper s)) \<noteq> 0)"
proof -
  have inv: "numbered s" "owned s" using timer_reachable_inv [OF assms(1,2)] by simp_all
  have "\<not> current s i" for i using assms(3) by (simp add: current_def)
  then have "\<not> isStartPending (helper s)" using inv(1) by (simp add: numbered_def)
  moreover have "live s = set_option (timerInstance (helper s))"
    using inv(2) assms(3) by (simp add: owned_def)
  ultimately show ?thesis
    using seq_nonzero [OF inv(1)] by (auto simp: start_reserve_def)
qed

text \<open>
  The sequence number is a bit field of 31 bits in which 0 means "could not reserve". When the
  counter has wrapped around to 0, a start marks the helper as pending and then reports failure: no
  timer is started, and every later start fails as well until the next stop.
\<close>

lemma start_fails_after_wrap:
  assumes "activeTimeSeq t = - 1" and "Bdt_TimerHelperRestart (Some x) t = (started, destroyed, t')"
  shows "\<not> started \<and> timerInstance t' = None \<and> isStartPending t' \<and>
    (\<forall>y. Bdt_TimerHelperStart (Some y) t' = (False, None, t'))"
  using assms by (auto simp: Bdt_TimerHelperRestart_def Bdt_TimerHelperStop_def Bdt_TimerHelperStart_def
      start_reserve_def Let_def)

text \<open>Two threads restart the same timer: the one that is overtaken destroys what it has created.\<close>

lemmas timer_reach = rtranclp.rtrancl_into_rtrancl [of timer_step timer_start]

definition overtaken :: timer_system where
  "overtaken = timer_start\<lparr>helper := \<lparr>isStartPending = False, activeTimeSeq = 2, timerInstance = None\<rparr>,
     thread := (\<lambda>_. Outside), live := {}, fresh := 1, stops := 1\<rparr>"

lemma overtaken_reachable: "timer_reachable overtaken"
proof -
  let ?r = "timer_start\<lparr>helper := \<lparr>isStartPending = True, activeTimeSeq = 1, timerInstance = None\<rparr>,
      thread := (\<lambda>_. Outside)(0 := Reserved 1)\<rparr>"
  let ?c = "?r\<lparr>thread := (thread ?r)(0 := Created 1 (Some 0)), live := {0}, fresh := 1\<rparr>"
  let ?s = "?c\<lparr>helper := \<lparr>isStartPending = False, activeTimeSeq = 2, timerInstance = None\<rparr>,
      thread := (thread ?c)(1 := Outside), stops := 1\<rparr>"
  let ?d = "?s\<lparr>helper := \<lparr>isStartPending = False, activeTimeSeq = 2, timerInstance = None\<rparr>,
      thread := (thread ?s)(0 := Dying (Some 0))\<rparr>"
  have 1: "timer_step timer_start ?r"
    using timer_step.reserve [of timer_start 0 1 "\<lparr>isStartPending = True, activeTimeSeq = 1, timerInstance = None\<rparr>"]
    by (simp add: timer_start_def Bdt_TimerHelperInit_def start_reserve_def)
  have 2: "timer_step ?r ?c"
    using timer_step.create [of ?r 0 1] by (simp add: timer_start_def)
  have 3: "timer_step ?c ?s"
    using timer_step.stop [of ?c 1 None "\<lparr>isStartPending = False, activeTimeSeq = 2, timerInstance = None\<rparr>"]
    by (simp add: timer_start_def Bdt_TimerHelperStop_def)
  have 4: "timer_step ?s ?d"
    using timer_step.commit [of ?s 0 1 "Some 0" True "\<lparr>isStartPending = False, activeTimeSeq = 2, timerInstance = None\<rparr>"]
    by (simp add: timer_start_def start_commit_def)
  have same: "(\<lambda>_. Outside)(Suc 0 := Outside, 0 := Outside) = (\<lambda>_. Outside)"
    by (simp add: fun_eq_iff)
  have 5: "timer_step ?d overtaken"
    using timer_step.destroy [of ?d 0 "Some 0"] unfolding overtaken_def by (simp add: timer_start_def same)
  show ?thesis
    by (rule timer_reach [OF timer_reach [OF timer_reach [OF timer_reach [OF r_into_rtranclp
      [of timer_step, OF 1] 2] 3] 4] 5])
qed

theorem no_timer_leaks_witness:
  "live overtaken = {} \<and> fst (start_reserve (helper overtaken)) \<noteq> 0"
  using no_timer_leaks [OF overtaken_reachable] by (simp add: overtaken_def)

lemma start_fails_after_wrap_witness:
  "\<forall>y. Bdt_TimerHelperStart (Some y)
     (snd (snd (Bdt_TimerHelperRestart (Some (5 :: nat)) \<lparr>isStartPending = False, activeTimeSeq = - 1, timerInstance = Some 4\<rparr>)))
     = (False, None, \<lparr>isStartPending = True, activeTimeSeq = 0, timerInstance = None\<rparr>)"
proof -
  let ?t = "\<lparr>isStartPending = False, activeTimeSeq = - 1, timerInstance = Some (4 :: nat)\<rparr>"
  have r: "Bdt_TimerHelperRestart (Some 5) ?t = (False, Some 4, \<lparr>isStartPending = True, activeTimeSeq = 0, timerInstance = None\<rparr>)"
    by (simp add: Bdt_TimerHelperRestart_def Bdt_TimerHelperStop_def Bdt_TimerHelperStart_def start_reserve_def)
  show ?thesis
    using start_fails_after_wrap [OF _ r] unfolding r by simp
qed

end
