(* ===== verification/PackageConnection.thy ===== *)
theory PackageConnection
  imports SendQueue RecvQueue Ledbat TimerHelper
begin

text \<open>
  A connection over packages,
  \<^verbatim>\<open>BDTCore/Connection/PackageConnection/PackageConnection.imp.inl\<close>: it cuts the stream of the send
  queue into packages as the congestion control allows, acknowledges what the receive queue has
  got, estimates the round trip time, and closes both directions with \<open>FIN\<close> and \<open>FINACK\<close>.

  An operation takes the state of the connection and returns the new one; \<open>None\<close> is an assertion
  or a bad pointer in the queues below. Packages handed to the tunnel and calls of the application's
  callbacks are recorded in \<open>pc_events\<close>, oldest first; a call that the application makes out of a
  callback is a later operation. One clock reading \<open>now\<close> serves a whole operation. The framework
  always returns a timer; a running timer is its callback and its timeout.
\<close>

section \<open>State\<close>

datatype PackageConnectionState =
  PACKAGE_CONNECTION_STATE_NONE | PACKAGE_CONNECTION_STATE_ESTABLISH |
  PACKAGE_CONNECTION_STATE_CLOSING | PACKAGE_CONNECTION_STATE_CLOSE

datatype PackageConnectionCloseSubState =
  PACKAGE_CONNECTION_CLOSE_SUBSTATE_NONE | PACKAGE_CONNECTION_CLOSE_SUBSTATE_FIN1 |
  PACKAGE_CONNECTION_CLOSE_SUBSTATE_FIN2 | PACKAGE_CONNECTION_CLOSE_SUBSTATE_CLOSING |
  PACKAGE_CONNECTION_CLOSE_SUBSTATE_TIMEWAIT | PACKAGE_CONNECTION_CLOSE_SUBSTATE_WAITCLOSE |
  PACKAGE_CONNECTION_CLOSE_SUBSTATE_LASTACK | PACKAGE_CONNECTION_CLOSE_SUBSTATE_CLOSED

datatype PackageConnectionRttEstimateState =
  PACKAGE_CONNECTION_RTT_ESTIMATE_STATE_NONE | PACKAGE_CONNECTION_RTT_ESTIMATE_STATE_PREPARE |
  PACKAGE_CONNECTION_RTT_ESTIMATE_STATE_WAIT | PACKAGE_CONNECTION_RTT_ESTIMATE_STATE_CANCEL |
  PACKAGE_CONNECTION_RTT_ESTIMATE_STATE_CALC

abbreviation (input) PACKAGE_CONNECTION_INIT_STREAM_POS :: u64 where "PACKAGE_CONNECTION_INIT_STREAM_POS \<equiv> 1"
abbreviation (input) PACKAGE_CONNECTION_FLAG_CLOSE_SLIENT :: u32 where "PACKAGE_CONNECTION_FLAG_CLOSE_SLIENT \<equiv> 1"
abbreviation (input) PACKAGE_CONNECTION_FLAG_CLOSE_RECV :: u32 where "PACKAGE_CONNECTION_FLAG_CLOSE_RECV \<equiv> 2"
abbreviation (input) PACKAGE_CONNECTION_FLAG_CLOSE_SEND :: u32 where "PACKAGE_CONNECTION_FLAG_CLOSE_SEND \<equiv> 4"
abbreviation (input) PACKAGE_CONNECTION_CHECK_RTO_INTERVAL :: u32 where "PACKAGE_CONNECTION_CHECK_RTO_INTERVAL \<equiv> 50"
abbreviation (input) PACKAGE_CONNECTION_MIN_RTO :: u32 where "PACKAGE_CONNECTION_MIN_RTO \<equiv> 200000"
abbreviation (input) PACKAGE_CONNECTION_INIT_RTO :: u32 where "PACKAGE_CONNECTION_INIT_RTO \<equiv> 1000000"

record BdtPackageConnectionConfig =
  cfg_resendInterval :: u32
  cfg_recvTimeout :: u32
  cfg_msl :: u32
  cfg_mtu :: u32
  cfg_mss :: u32
  cfg_halfOpen :: bool

text \<open>The fields \<open>rtt\<close>, \<open>rttval\<close> and \<open>rtt_seq\<close> of the estimator are never used.\<close>

record RttEstimate =
  srtt :: u32
  mdev :: u32
  mdev_max :: u32
  rttvar :: u32
  rtt_sendTime :: u64
  lastEstTime :: u64
  rtt_ackStreamPos :: u64
  prevAckStreamPos :: u64
  rtt_state :: PackageConnectionRttEstimateState

datatype PackageTimer = FinTimer | TimewaitTimer | RtoTimer | RecvTimer

text \<open>A callback is called with the bytes it is given, and a result or a length.\<close>

datatype PackageEvent =
  PackageSent Bdt_SessionDataPackage
| RecvCallback nat "u8 list" u64
| SendCallback nat u32 "u8 list" u64

record PackageConnection =
  pc_state :: PackageConnectionState
  closeSubState :: PackageConnectionCloseSubState
  pc_flags :: u32
  sendQueue :: SendQueue
  recvQueue :: RecvQueue
  cc :: LedbatCc
  closeTimer :: "(PackageTimer \<times> u32) Bdt_TimerHelper"
  rto :: u32
  lastRecvAckTime :: u64
  rtoTimer :: "(PackageTimer \<times> u32) Bdt_TimerHelper"
  recvTimer :: "(PackageTimer \<times> u32) Bdt_TimerHelper"
  trySendCnt :: i32
  remoteCloseStreamPos :: u64
  selfCloseStreamPos :: u64
  lastLostStateTime :: u64
  ready_buffers :: "RecvQueueRecvBuffer list"
  ready_streamPos :: u64
  onNotifying :: bool
  rttEst :: RttEstimate
  pc_config :: BdtPackageConnectionConfig
  remoteId :: u32
  pc_events :: "PackageEvent list"

definition fire :: "PackageEvent list \<Rightarrow> PackageConnection \<Rightarrow> PackageConnection" where
  "fire es c = c\<lparr>pc_events := pc_events c @ es\<rparr>"

section \<open>Timers\<close>

definition start_timer :: "PackageTimer \<Rightarrow> u32 \<Rightarrow> (PackageTimer \<times> u32) Bdt_TimerHelper \<Rightarrow> (PackageTimer \<times> u32) Bdt_TimerHelper" where
  "start_timer k timeout t = snd (snd (Bdt_TimerHelperStart (Some (k, timeout)) t))"

definition restart_timer :: "PackageTimer \<Rightarrow> u32 \<Rightarrow> (PackageTimer \<times> u32) Bdt_TimerHelper \<Rightarrow> (PackageTimer \<times> u32) Bdt_TimerHelper" where
  "restart_timer k timeout t = snd (snd (Bdt_TimerHelperRestart (Some (k, timeout)) t))"

definition stop_timer :: "(PackageTimer \<times> u32) Bdt_TimerHelper \<Rightarrow> (PackageTimer \<times> u32) Bdt_TimerHelper" where
  "stop_timer t = snd (Bdt_TimerHelperStop t)"

definition PackageConnectionBeginFinTimer :: "PackageConnection \<Rightarrow> PackageConnection" where
  "PackageConnectionBeginFinTimer c =
     c\<lparr>closeTimer := restart_timer FinTimer (cfg_resendInterval (pc_config c)) (closeTimer c)\<rparr>"

definition PackageConnectionBeginTimewaitTimer :: "PackageConnection \<Rightarrow> PackageConnection" where
  "PackageConnectionBeginTimewaitTimer c =
     c\<lparr>closeTimer := restart_timer TimewaitTimer (2 * cfg_msl (pc_config c)) (closeTimer c)\<rparr>"

definition PackageConnectionBeginRtoTimer :: "PackageConnection \<Rightarrow> PackageConnection" where
  "PackageConnectionBeginRtoTimer c =
     c\<lparr>rtoTimer := start_timer RtoTimer PACKAGE_CONNECTION_CHECK_RTO_INTERVAL (rtoTimer c)\<rparr>"

definition PackageConnectionBeginRecvTimer :: "PackageConnection \<Rightarrow> PackageConnection" where
  "PackageConnectionBeginRecvTimer c =
     c\<lparr>recvTimer := restart_timer RecvTimer (cfg_recvTimeout (pc_config c)) (recvTimer c)\<rparr>"

definition PackageConnectionCreate :: "BdtPackageConnectionConfig \<Rightarrow> u32 \<Rightarrow> PackageConnection" where
  "PackageConnectionCreate cfg remote =
     PackageConnectionBeginRtoTimer
       \<lparr>pc_state = PACKAGE_CONNECTION_STATE_ESTABLISH, closeSubState = PACKAGE_CONNECTION_CLOSE_SUBSTATE_NONE,
        pc_flags = 0,
        sendQueue = SendQueueCreate PACKAGE_CONNECTION_INIT_STREAM_POS (ucast (cfg_mtu cfg)),
        recvQueue = RecvQueueCreate PACKAGE_CONNECTION_INIT_STREAM_POS,
        cc = LedbatCcNew (ucast (cfg_mtu cfg)) (cfg_mss cfg),
        closeTimer = Bdt_TimerHelperInit, rto = PACKAGE_CONNECTION_INIT_RTO, lastRecvAckTime = 0,
        rtoTimer = Bdt_TimerHelperInit, recvTimer = Bdt_TimerHelperInit, trySendCnt = 0,
        remoteCloseStreamPos = 0, selfCloseStreamPos = 0, lastLostStateTime = 0,
        ready_buffers = [], ready_streamPos = PACKAGE_CONNECTION_INIT_STREAM_POS, onNotifying = False,
        rttEst = \<lparr>srtt = 0, mdev = 0, mdev_max = 0, rttvar = 0, rtt_sendTime = 0, lastEstTime = 0,
                  rtt_ackStreamPos = 0, prevAckStreamPos = 0,
                  rtt_state = PACKAGE_CONNECTION_RTT_ESTIMATE_STATE_NONE\<rparr>,
        pc_config = cfg, remoteId = remote, pc_events = []\<rparr>"

section \<open>Round trip time\<close>

text \<open>
  \<open>PackageConnectionEstimateRttFromLinuxTcp\<close>: \<open>m\<close> is a \<open>long\<close> of 64 bits, which the sums below
  never leave, and is stored back into fields of 32 bits.
\<close>

definition update_deviation :: "int \<Rightarrow> u32 \<Rightarrow> u32" where
  "update_deviation err dev =
     (let d = uint (drop_bit 2 dev);
          m = (if err < 0 then let m = - err - d in if m > 0 then m div 8 else m else err - d)
      in word_of_int (uint dev + m))"

definition PackageConnectionEstimateRttFromLinuxTcp :: "u32 \<Rightarrow> PackageConnection \<Rightarrow> PackageConnection" where
  "PackageConnectionEstimateRttFromLinuxTcp mrtt c =
     (let m = (if mrtt = 0 then 1 else uint mrtt);
          e = rttEst c;
          e = (if srtt e \<noteq> 0 then
                 let err = m - uint (drop_bit 3 (srtt e));
                     e = e\<lparr>srtt := word_of_int (uint (srtt e) + err), mdev := update_deviation err (mdev e)\<rparr>;
                     e = (if mdev e > mdev_max e
                          then e\<lparr>mdev_max := mdev e, rttvar := (if mdev e > rttvar e then mdev e else rttvar e)\<rparr> else e);
                     e = (if mdev_max e < rttvar e
                          then e\<lparr>rttvar := rttvar e - drop_bit 2 (rttvar e - mdev_max e)\<rparr> else e)
                 in e\<lparr>mdev_max := PACKAGE_CONNECTION_MIN_RTO\<rparr>
               else
                 let dev = word_of_int (m * 2);
                     var = (if dev > PACKAGE_CONNECTION_MIN_RTO then dev else PACKAGE_CONNECTION_MIN_RTO)
                 in e\<lparr>srtt := word_of_int (m * 8), mdev := dev, mdev_max := var, rttvar := var\<rparr>)
      in c\<lparr>rttEst := e, rto := drop_bit 3 (srtt e) + rttvar e\<rparr>)"

definition PackageConnectionEstimateRtt :: "u64 \<Rightarrow> Bdt_SessionDataPackage \<Rightarrow> PackageConnection \<Rightarrow> PackageConnection option" where
  "PackageConnectionEstimateRtt now p c =
     (if rtt_state (rttEst c) \<noteq> PACKAGE_CONNECTION_RTT_ESTIMATE_STATE_WAIT then Some c
      else do {
        acked \<leftarrow> (if rtt_ackStreamPos (rttEst c) = 0 then Some False
                 else if rtt_ackStreamPos (rttEst c) \<le> ackStreamPos p then Some True
                 else CompareStreamPosWith (rtt_ackStreamPos (rttEst c)) (sackArray p));
        if \<not> acked then Some c
        else
          let c = PackageConnectionEstimateRttFromLinuxTcp (ucast (now - rtt_sendTime (rttEst c))) c
          in Some (c\<lparr>rttEst := (rttEst c)\<lparr>lastEstTime := now, rtt_ackStreamPos := 0,
                                        rtt_state := PACKAGE_CONNECTION_RTT_ESTIMATE_STATE_NONE\<rparr>\<rparr>)
      })"

section \<open>Notifying the application\<close>

text \<open>
  The buffers \<open>bs\<close> are merged into the ready queue behind the last buffer that ends at or before
  their start; \<open>ready_walk\<close> goes backwards, the buffers in front are given in reverse order.
\<close>

fun ready_walk :: "RecvQueueRecvBuffer list \<Rightarrow> RecvQueueRecvBuffer list \<Rightarrow> RecvQueueRecvBuffer list \<Rightarrow>
    RecvQueueRecvBuffer list" where
  "ready_walk bs [] behind = bs @ behind"
| "ready_walk bs (d # ds) behind =
     (if rbuf_startStreamPos (hd bs) \<ge> rbuf_endStreamPos d then rev (d # ds) @ bs @ behind
      else ready_walk bs ds (d # behind))"

fun notify_ready :: "u64 \<Rightarrow> RecvQueueRecvBuffer list \<Rightarrow> RecvQueueRecvBuffer list \<times> u64 \<times> RecvQueueRecvBuffer list" where
  "notify_ready pos [] = ([], pos, [])"
| "notify_ready pos (b # bs) =
     (if rbuf_startStreamPos b = pos
      then let (done, pos, rest) = notify_ready (rbuf_endStreamPos b) bs in (b # done, pos, rest)
      else ([], pos, b # bs))"

definition recv_event :: "RecvQueueRecvBuffer \<Rightarrow> PackageEvent" where
  "recv_event b =
     (let size = rbuf_endStreamPos b - rbuf_startStreamPos b
      in RecvCallback (rbuf_callback b) (take (unat size) (rbuf_mem b)) size)"

definition PackageConnectionNotifyRecvReadyBuffers :: "RecvQueueRecvBuffer list \<Rightarrow> PackageConnection \<Rightarrow> PackageConnection" where
  "PackageConnectionNotifyRecvReadyBuffers bs c =
     (let ready = ready_walk bs (rev (ready_buffers c)) []
      in if onNotifying c then c\<lparr>ready_buffers := ready\<rparr>
         else let (done, pos, rest) = notify_ready (ready_streamPos c) ready
              in fire (map recv_event done) (c\<lparr>ready_buffers := rest, ready_streamPos := pos, onNotifying := False\<rparr>))"

definition send_event :: "SendQueueSendBuffer \<Rightarrow> PackageEvent" where
  "send_event b = SendCallback (buf_callback b) BFX_RESULT_SUCCESS (buf_data b) (buf_len b)"

definition PackageConnectionNotifySendCompleteBuffers :: "SendQueueSendBuffer list \<Rightarrow> PackageConnection \<Rightarrow> PackageConnection" where
  "PackageConnectionNotifySendCompleteBuffers bs c = fire (map send_event bs) c"

definition PackageConnectionMaybeCloseFinish :: "PackageConnection \<Rightarrow> PackageConnection" where
  "PackageConnectionMaybeCloseFinish c =
     (if closeSubState c = PACKAGE_CONNECTION_CLOSE_SUBSTATE_CLOSED \<and>
         pc_flags c AND (PACKAGE_CONNECTION_FLAG_CLOSE_RECV OR PACKAGE_CONNECTION_FLAG_CLOSE_SEND) \<noteq> 0 \<and>
         pc_state c = PACKAGE_CONNECTION_STATE_CLOSING
      then
        let (recvs, rq) = RecvQueuePopAllBuffers (recvQueue c);
            (sends, sq) = SendQueuePopAllBuffers (sendQueue c)
        in fire (map (\<lambda>b. RecvCallback (rbuf_callback b) [] 0) recvs @ map send_event sends)
             (c\<lparr>pc_state := PACKAGE_CONNECTION_STATE_CLOSE, closeTimer := stop_timer (closeTimer c),
                rtoTimer := stop_timer (rtoTimer c), recvTimer := stop_timer (recvTimer c),
                recvQueue := rq, sendQueue := sq\<rparr>)
      else c)"

section \<open>Sending\<close>

text \<open>\<open>PackageConnectionUpdateCloseSubState\<close> when a package is sent (\<open>recv\<close> false).\<close>

definition UpdateCloseSubState_sent :: "u16 \<Rightarrow> PackageConnection \<Rightarrow> PackageConnection" where
  "UpdateCloseSubState_sent flags c =
     (if has_flag flags BDT_SESSIONDATA_PACKAGE_FLAG_FIN then
        if closeSubState c = PACKAGE_CONNECTION_CLOSE_SUBSTATE_NONE
        then PackageConnectionBeginFinTimer (c\<lparr>closeSubState := PACKAGE_CONNECTION_CLOSE_SUBSTATE_FIN1\<rparr>)
        else if closeSubState c = PACKAGE_CONNECTION_CLOSE_SUBSTATE_WAITCLOSE
        then PackageConnectionBeginFinTimer
               (c\<lparr>closeSubState := PACKAGE_CONNECTION_CLOSE_SUBSTATE_LASTACK,
                  pc_flags := pc_flags c OR PACKAGE_CONNECTION_FLAG_CLOSE_RECV\<rparr>)
        else c
      else c)"

definition note_payload_time :: "u64 \<Rightarrow> Bdt_SessionDataPackage \<Rightarrow> PackageConnection \<Rightarrow> PackageConnection" where
  "note_payload_time now p c =
     (if lastRecvAckTime c = 0 \<and> payloadLength p \<noteq> 0 then c\<lparr>lastRecvAckTime := now\<rparr> else c)"

text \<open>Whether the package becomes the one whose round trip is measured, or was and is sent again.\<close>

definition choose_rtt_package :: "u64 \<Rightarrow> Bdt_SessionDataPackage \<Rightarrow> RttEstimate \<Rightarrow> RttEstimate" where
  "choose_rtt_package now p e =
     (let end = streamPos p + ucast (payloadLength p)
      in if payloadLength p = 0 then e
         else if rtt_ackStreamPos e = end then
           if rtt_state e = PACKAGE_CONNECTION_RTT_ESTIMATE_STATE_WAIT
           then e\<lparr>rtt_ackStreamPos := 0, rtt_state := PACKAGE_CONNECTION_RTT_ESTIMATE_STATE_NONE\<rparr> else e
         else if rtt_ackStreamPos e = 0 \<and> prevAckStreamPos e < end \<and> now > 200000 + lastEstTime e \<and>
                 rtt_state e = PACKAGE_CONNECTION_RTT_ESTIMATE_STATE_NONE
         then e\<lparr>rtt_ackStreamPos := end, prevAckStreamPos := end, rtt_sendTime := now,
                rtt_state := PACKAGE_CONNECTION_RTT_ESTIMATE_STATE_WAIT\<rparr>
         else e)"

definition PackageConnectionOnPreSendPackage :: "u64 \<Rightarrow> Bdt_SessionDataPackage \<Rightarrow> PackageConnection \<Rightarrow>
    Bdt_SessionDataPackage \<times> PackageConnection" where
  "PackageConnectionOnPreSendPackage now p c =
     (let p = p\<lparr>toSessionId := remoteId c, sessionId := remoteId c\<rparr>;
          c = UpdateCloseSubState_sent (cmdflags p) c;
          c = note_payload_time now p c;
          (l, p) = LedbatCcOnSend now p (cc c)
      in (p, c\<lparr>cc := l, rttEst := choose_rtt_package now p (rttEst c)\<rparr>))"

definition PackageConnectionSendPackage :: "u64 \<Rightarrow> Bdt_SessionDataPackage \<Rightarrow> PackageConnection \<Rightarrow> u32 \<times> PackageConnection" where
  "PackageConnectionSendPackage now p c =
     (if pc_state c = PACKAGE_CONNECTION_STATE_CLOSE then (BFX_RESULT_INVALID_STATE, c)
      else (BFX_RESULT_SUCCESS, note_payload_time now p (fire [PackageSent p] c)))"

text \<open>The payload, the flags and the acknowledgement of the next package.\<close>

definition fill_payload :: "u64 \<Rightarrow> u16 \<Rightarrow> Bdt_SessionDataPackage \<Rightarrow> PackageConnection \<Rightarrow>
    (u32 \<times> Bdt_SessionDataPackage \<times> PackageConnection) option" where
  "fill_payload now len p c =
     (if ucast len = cfg_mtu (pc_config c) then do {
        (r, out, q) \<leftarrow> SendQueueFillPayload now (sendQueue c);
        Some (r, p\<lparr>streamPos := f_streamPos out, payload := f_payload out, payloadLength := f_length out\<rparr>,
              c\<lparr>sendQueue := q\<rparr>)
      }
      else do {
        (r, out, q) \<leftarrow> SendQueueFillPayloadFromNew now False
          \<lparr>f_streamPos = streamPos p, f_payload = payload p, f_length = payloadLength p\<rparr> (sendQueue c);
        Some (BFX_RESULT_NOT_CHANGED, p\<lparr>streamPos := f_streamPos out\<rparr>, c\<lparr>sendQueue := q\<rparr>)
      })"

definition sends_fin :: "Bdt_SessionDataPackage \<Rightarrow> PackageConnection \<Rightarrow> bool" where
  "sends_fin p c \<longleftrightarrow>
     pc_state c = PACKAGE_CONNECTION_STATE_CLOSING \<and>
     streamPos p + ucast (payloadLength p) \<ge> selfCloseStreamPos c \<and>
     closeSubState c \<in> {PACKAGE_CONNECTION_CLOSE_SUBSTATE_NONE, PACKAGE_CONNECTION_CLOSE_SUBSTATE_FIN1,
       PACKAGE_CONNECTION_CLOSE_SUBSTATE_CLOSING, PACKAGE_CONNECTION_CLOSE_SUBSTATE_WAITCLOSE,
       PACKAGE_CONNECTION_CLOSE_SUBSTATE_LASTACK}"

definition sends_finack :: "PackageConnection \<Rightarrow> bool" where
  "sends_finack c \<longleftrightarrow> remoteCloseStreamPos c = rq_ackStreamPos (recvQueue c)"

definition set_ack :: "Bdt_SessionDataPackage \<Rightarrow> PackageConnection \<Rightarrow> Bdt_SessionDataPackage option" where
  "set_ack p c = do {
     (pos, sack) \<leftarrow> RecvQueueGetAckInfo (recvQueue c);
     Some (p\<lparr>ackStreamPos := pos, sackArray := sack\<rparr>)
   }"

definition add_flags :: "u32 \<Rightarrow> Bdt_SessionDataPackage \<Rightarrow> PackageConnection \<Rightarrow>
    (u32 \<times> Bdt_SessionDataPackage \<times> PackageConnection) option" where
  "add_flags r p c =
     (let (r, p) = (if sends_fin p c
                    then (BFX_RESULT_SUCCESS, p\<lparr>cmdflags := cmdflags p OR BDT_SESSIONDATA_PACKAGE_FLAG_FIN\<rparr>) else (r, p));
          (r, p) = (if sends_finack c
                    then (BFX_RESULT_SUCCESS, p\<lparr>cmdflags := cmdflags p OR BDT_SESSIONDATA_PACKAGE_FLAG_FINACK\<rparr>) else (r, p))
      in if r = BFX_RESULT_SUCCESS then do {
           p \<leftarrow> set_ack p c;
           Some (r, p, c)
         }
         else
           let (ra, l) = LedbatCcTrySendAck (cc c);
               c = c\<lparr>cc := l\<rparr>
           in if ra = BFX_RESULT_SUCCESS then do {
                p \<leftarrow> set_ack p c;
                Some (BFX_RESULT_SUCCESS, p, c)
              }
              else Some (r, p, c))"

definition PackageConnectionFillPackage :: "u64 \<Rightarrow> u16 \<Rightarrow> Bdt_SessionDataPackage \<Rightarrow> PackageConnection \<Rightarrow>
    (u32 \<times> Bdt_SessionDataPackage \<times> PackageConnection) option" where
  "PackageConnectionFillPackage now len p c = do {
     (r, p, c) \<leftarrow> fill_payload now len p c;
     add_flags r p c
   }"

text \<open>One round of the loop of \<open>PackageConnectionSendDrive\<close>; the result tells whether it goes on.\<close>

definition send_round :: "u64 \<Rightarrow> PackageConnection \<Rightarrow> (bool \<times> PackageConnection) option" where
  "send_round now c = do {
     let len = snd (LedbatCcTrySendPayload (SendQueueGetFilght (sendQueue c)) (cc c));
     (r, p, c) \<leftarrow> PackageConnectionFillPackage now len Bdt_SessionDataPackageInit c;
     if r \<noteq> BFX_RESULT_SUCCESS then Some (False, c)
     else
       let (p, c) = PackageConnectionOnPreSendPackage now p c;
           (rs, c) = PackageConnectionSendPackage now p c
       in if rs \<noteq> BFX_RESULT_SUCCESS then Some (False, c)
          else Some (\<not> (len = 0 \<or> SendQueueGetUnsendSize (sendQueue c) + SendQueueGetLostSize (sendQueue c) = 0), c)
   }"

text \<open>The loops may run for ever; that is \<open>None\<close> as well.\<close>

partial_function (option) PackageConnectionSendDrive :: "u64 \<Rightarrow> PackageConnection \<Rightarrow> PackageConnection option" where
  "PackageConnectionSendDrive now c = do {
     (more, c) \<leftarrow> send_round now c;
     if more then PackageConnectionSendDrive now c else Some c
   }"

partial_function (option) try_send_loop :: "u64 \<Rightarrow> i32 \<Rightarrow> PackageConnection \<Rightarrow> PackageConnection option" where
  "try_send_loop now v c = do {
     c \<leftarrow> PackageConnectionSendDrive now c;
     let v' = trySendCnt c - v;
     let c = c\<lparr>trySendCnt := v'\<rparr>;
     if v' \<noteq> 0 then try_send_loop now v' c else Some c
   }"

definition PackageConnectionTrySendPackage :: "u64 \<Rightarrow> PackageConnection \<Rightarrow> PackageConnection option" where
  "PackageConnectionTrySendPackage now c =
     (let v = trySendCnt c + 1;
          c = c\<lparr>trySendCnt := v\<rparr>
      in if sint v > 1 then Some c else try_send_loop now v c)"

definition PackageConnectionSend :: "u64 \<Rightarrow> u8 list option \<Rightarrow> u64 \<Rightarrow> nat option \<Rightarrow> PackageConnection \<Rightarrow>
    (u32 \<times> PackageConnection) option" where
  "PackageConnectionSend now bytes len callback c =
     (if pc_state c \<noteq> PACKAGE_CONNECTION_STATE_ESTABLISH then Some (BFX_RESULT_INVALID_STATE, c)
      else
        let (errcode, q) = SendQueueAddBuffer bytes len callback (sendQueue c);
            c = c\<lparr>sendQueue := q\<rparr>
        in if errcode \<noteq> BFX_RESULT_SUCCESS then Some (errcode, c)
           else do {
             c \<leftarrow> PackageConnectionTrySendPackage now c;
             Some (BFX_RESULT_PENDING, c)
           })"

definition PackageConnectionRecv :: "nat option \<Rightarrow> u8 list \<Rightarrow> u64 \<Rightarrow> nat option \<Rightarrow> PackageConnection \<Rightarrow> u32 \<times> PackageConnection" where
  "PackageConnectionRecv data mem len callback c =
     (if pc_state c = PACKAGE_CONNECTION_STATE_CLOSE then (BFX_RESULT_INVALID_STATE, c)
      else let (r, q) = RecvQueueAddBuffer data mem len callback (recvQueue c) in (r, c\<lparr>recvQueue := q\<rparr>))"

definition PackageConnectionSendAckAck :: "u64 \<Rightarrow> PackageConnection \<Rightarrow> (u32 \<times> PackageConnection) option" where
  "PackageConnectionSendAckAck now c =
     (let c = c\<lparr>cc := snd (LedbatCcOnData None RECV_PACKAGE_TYPE_IN_ORDER (cc c))\<rparr>
      in map_option (Pair BFX_RESULT_SUCCESS) (PackageConnectionTrySendPackage now c))"

section \<open>Closing\<close>

definition PackageConnectionClose :: "u64 \<Rightarrow> PackageConnection \<Rightarrow> (u32 \<times> PackageConnection) option" where
  "PackageConnectionClose now c =
     (if pc_state c = PACKAGE_CONNECTION_STATE_CLOSE then Some (BFX_RESULT_INVALID_STATE, c)
      else if pc_state c \<noteq> PACKAGE_CONNECTION_STATE_CLOSING then
        let c = (if pc_state c = PACKAGE_CONNECTION_STATE_ESTABLISH
                 then c\<lparr>pc_state := PACKAGE_CONNECTION_STATE_CLOSING\<rparr> else c);
            (r, pos) = SendQueueAddCloseOperation (sendQueue c);
            c = c\<lparr>selfCloseStreamPos := pos\<rparr>
        in map_option (Pair BFX_RESULT_SUCCESS)
             (if r = BFX_RESULT_SUCCESS then PackageConnectionTrySendPackage now c else Some c)
      else Some (BFX_RESULT_INVALID_STATE, c))"

definition PackageConnectionReset :: "PackageConnection \<Rightarrow> u32 \<times> PackageConnection" where
  "PackageConnectionReset c =
     (if pc_state c = PACKAGE_CONNECTION_STATE_ESTABLISH
      then (BFX_RESULT_SUCCESS,
            PackageConnectionMaybeCloseFinish
              (c\<lparr>pc_state := PACKAGE_CONNECTION_STATE_CLOSING, closeSubState := PACKAGE_CONNECTION_CLOSE_SUBSTATE_CLOSED,
                 pc_flags := pc_flags c OR (PACKAGE_CONNECTION_FLAG_CLOSE_RECV OR PACKAGE_CONNECTION_FLAG_CLOSE_SEND)\<rparr>))
      else (BFX_RESULT_INVALID_STATE, c))"

text \<open>\<open>PackageConnectionUpdateCloseSubState\<close> when a package has come in: its \<open>FIN\<close>, then its \<open>FINACK\<close>.\<close>

definition on_fin :: "u64 \<Rightarrow> PackageConnection \<Rightarrow> PackageConnection option" where
  "on_fin now c =
     (case closeSubState c of
        PACKAGE_CONNECTION_CLOSE_SUBSTATE_NONE \<Rightarrow>
          let c = c\<lparr>closeSubState := PACKAGE_CONNECTION_CLOSE_SUBSTATE_WAITCLOSE\<rparr>
          in if \<not> cfg_halfOpen (pc_config c) then map_option snd (PackageConnectionClose now c) else Some c
      | PACKAGE_CONNECTION_CLOSE_SUBSTATE_FIN1 \<Rightarrow>
          Some (c\<lparr>closeSubState := PACKAGE_CONNECTION_CLOSE_SUBSTATE_CLOSING\<rparr>)
      | PACKAGE_CONNECTION_CLOSE_SUBSTATE_FIN2 \<Rightarrow>
          Some (PackageConnectionBeginTimewaitTimer
            (c\<lparr>closeSubState := PACKAGE_CONNECTION_CLOSE_SUBSTATE_TIMEWAIT, closeTimer := stop_timer (closeTimer c)\<rparr>))
      | _ \<Rightarrow> Some c)"

definition on_finack :: "PackageConnection \<Rightarrow> PackageConnection" where
  "on_finack c =
     (let close_send = c\<lparr>pc_flags := pc_flags c OR PACKAGE_CONNECTION_FLAG_CLOSE_SEND,
                         closeTimer := stop_timer (closeTimer c)\<rparr>
      in case closeSubState c of
           PACKAGE_CONNECTION_CLOSE_SUBSTATE_FIN1 \<Rightarrow>
             close_send\<lparr>closeSubState := PACKAGE_CONNECTION_CLOSE_SUBSTATE_FIN2\<rparr>
         | PACKAGE_CONNECTION_CLOSE_SUBSTATE_CLOSING \<Rightarrow>
             PackageConnectionBeginTimewaitTimer
               (close_send\<lparr>closeSubState := PACKAGE_CONNECTION_CLOSE_SUBSTATE_TIMEWAIT\<rparr>)
         | PACKAGE_CONNECTION_CLOSE_SUBSTATE_LASTACK \<Rightarrow>
             PackageConnectionMaybeCloseFinish
               (close_send\<lparr>closeSubState := PACKAGE_CONNECTION_CLOSE_SUBSTATE_CLOSED\<rparr>)
         | _ \<Rightarrow> c)"

definition UpdateCloseSubState_recv :: "u64 \<Rightarrow> u16 \<Rightarrow> PackageConnection \<Rightarrow> PackageConnection option" where
  "UpdateCloseSubState_recv now flags c = do {
     c \<leftarrow> (if has_flag flags BDT_SESSIONDATA_PACKAGE_FLAG_FIN then on_fin now c else Some c);
     Some (if has_flag flags BDT_SESSIONDATA_PACKAGE_FLAG_FINACK then on_finack c else c)
   }"

section \<open>A package comes in\<close>

text \<open>The acknowledgement it carries, and the payload. \<open>rnd\<close> is the rounding of the congestion control.\<close>

definition pop_sent :: "PackageConnection \<Rightarrow> PackageConnection" where
  "pop_sent c =
     (let (done, q) = SendQueuePopCompleteBuffers (sendQueue c);
          c = c\<lparr>sendQueue := q\<rparr>
      in if done \<noteq> [] then PackageConnectionNotifySendCompleteBuffers done c else c)"

definition push_ack :: "(real \<Rightarrow> real) \<Rightarrow> u64 \<Rightarrow> Bdt_SessionDataPackage \<Rightarrow> PackageConnection \<Rightarrow> PackageConnection option" where
  "push_ack rnd now p c = do {
     (errcode, nAcked, q) \<leftarrow> SendQueueConfirmRange (ackStreamPos p) (sackArray p) (sendQueue c);
     let c = c\<lparr>sendQueue := q\<rparr>;
     if errcode \<noteq> BFX_RESULT_SUCCESS then Some c
     else do {
       c \<leftarrow> (if nAcked > 0
            then map_option (\<lambda>l. c\<lparr>cc := l\<rparr>)
                   (LedbatCcOnAck rnd now p nAcked (ucast (SendQueueGetFilght (sendQueue c))) (cc c))
            else Some c);
       c \<leftarrow> PackageConnectionTrySendPackage now c;
       Some (if nAcked > 0 then pop_sent c else c)
     }
   }"

definition deliver_ready :: "bool \<Rightarrow> PackageConnection \<Rightarrow> PackageConnection option" where
  "deliver_ready force c = do {
     (done, q) \<leftarrow> RecvQueuePopCompleteBuffers force (recvQueue c);
     let c = c\<lparr>recvQueue := q\<rparr>;
     Some (if done \<noteq> [] then PackageConnectionNotifyRecvReadyBuffers done c else c)
   }"

text \<open>The payload is stored; the result tells how it relates to what has been received.\<close>

definition save_payload :: "Bdt_SessionDataPackage \<Rightarrow> PackageConnection \<Rightarrow> (RecvPackageType \<times> PackageConnection) option" where
  "save_payload p c =
     (let fin = has_flag (cmdflags p) BDT_SESSIONDATA_PACKAGE_FLAG_FIN;
          c = (if fin then c\<lparr>remoteCloseStreamPos := streamPos p + ucast (payloadLength p)\<rparr> else c);
          recvType = (if fin then RECV_PACKAGE_TYPE_IN_ORDER else RECV_PACKAGE_TYPE_NONE)
      in case payload p of
           Some bytes \<Rightarrow>
             if payloadLength p \<noteq> 0 then
               map_option (\<lambda>(t, q). (t, c\<lparr>recvQueue := q\<rparr>))
                 (RecvQueueWriteData (streamPos p) bytes (payloadLength p) (recvQueue c))
             else Some (recvType, c)
         | None \<Rightarrow> Some (recvType, c))"

definition answer_payload :: "u64 \<Rightarrow> Bdt_SessionDataPackage \<Rightarrow> RecvPackageType \<Rightarrow> PackageConnection \<Rightarrow> PackageConnection option" where
  "answer_payload now p recvType c =
     (if recvType = RECV_PACKAGE_TYPE_NONE then Some c
      else do {
        let (r, l) = LedbatCcOnData (Some p) recvType (cc c);
        let c = c\<lparr>cc := l\<rparr>;
        c \<leftarrow> (if r = BFX_RESULT_SUCCESS then PackageConnectionTrySendPackage now c else Some c);
        if recvType \<in> {RECV_PACKAGE_TYPE_IN_ORDER, RECV_PACKAGE_TYPE_LOST_ORDER, RECV_PACKAGE_TYPE_PART}
        then deliver_ready (ucast (payloadLength p) < cfg_mtu (pc_config c)) (PackageConnectionBeginRecvTimer c)
        else Some c
      })"

definition push_payload :: "u64 \<Rightarrow> Bdt_SessionDataPackage \<Rightarrow> PackageConnection \<Rightarrow> PackageConnection option" where
  "push_payload now p c = do {
     (recvType, c) \<leftarrow> save_payload p c;
     answer_payload now p recvType c
   }"

definition PackageConnectionPushPackage :: "(real \<Rightarrow> real) \<Rightarrow> u64 \<Rightarrow> Bdt_SessionDataPackage \<Rightarrow> PackageConnection \<Rightarrow>
    (u32 \<times> PackageConnection) option" where
  "PackageConnectionPushPackage rnd now p c =
     (if has_flag (cmdflags p) BDT_SESSIONDATA_PACKAGE_FLAG_SYN then
        if has_flag (cmdflags p) BDT_SESSIONDATA_PACKAGE_FLAG_ACK
        then map_option (\<lambda>(_, c). (BFX_RESULT_SUCCESS, c)) (PackageConnectionSendAckAck now c)
        else Some (BFX_RESULT_SUCCESS, c)
      else do {
        let c = c\<lparr>lastRecvAckTime := now\<rparr>;
        c \<leftarrow> PackageConnectionEstimateRtt now p c;
        c \<leftarrow> UpdateCloseSubState_recv now (cmdflags p) c;
        c \<leftarrow> push_ack rnd now p c;
        c \<leftarrow> push_payload now p c;
        Some (BFX_RESULT_SUCCESS, c)
      })"

section \<open>Timers fire\<close>

definition PackageConnectionFinTimerCallback :: "u64 \<Rightarrow> PackageConnection \<Rightarrow> PackageConnection option" where
  "PackageConnectionFinTimerCallback now c =
     (let c = c\<lparr>closeTimer := stop_timer (closeTimer c)\<rparr>
      in if closeSubState c \<in> {PACKAGE_CONNECTION_CLOSE_SUBSTATE_FIN2, PACKAGE_CONNECTION_CLOSE_SUBSTATE_TIMEWAIT,
              PACKAGE_CONNECTION_CLOSE_SUBSTATE_CLOSED}
         then Some c
         else map_option PackageConnectionBeginFinTimer (PackageConnectionTrySendPackage now c))"

definition PackageConnectionTimewaitTimerCallback :: "PackageConnection \<Rightarrow> PackageConnection" where
  "PackageConnectionTimewaitTimerCallback c =
     PackageConnectionMaybeCloseFinish
       (c\<lparr>closeTimer := stop_timer (closeTimer c), pc_flags := pc_flags c OR PACKAGE_CONNECTION_FLAG_CLOSE_RECV,
          closeSubState := PACKAGE_CONNECTION_CLOSE_SUBSTATE_CLOSED\<rparr>)"

text \<open>The blocks that have timed out are sent again, and the congestion control is told.\<close>

definition note_lost :: "u64 \<Rightarrow> PackageConnection \<Rightarrow> PackageConnection" where
  "note_lost now c =
     (if now - lastLostStateTime c > 200000
      then c\<lparr>cc := LedbatCcOnChangeState CC_STATE_OPEN CC_STATE_LOST (cc c), lastLostStateTime := now\<rparr> else c)"

definition resend_timed_out :: "u64 \<Rightarrow> PackageConnection \<Rightarrow> PackageConnection option" where
  "resend_timed_out now c = do {
     (nCount, q) \<leftarrow> SendQueueMarkRangeTimeout False (ucast (rto c)) now (sendQueue c);
     let c = c\<lparr>sendQueue := q\<rparr>;
     if nCount > 0 then map_option (note_lost now) (PackageConnectionTrySendPackage now c)
     else Some c
   }"

definition PackageConnectionRtoTimerCallback :: "u64 \<Rightarrow> PackageConnection \<Rightarrow> PackageConnection option" where
  "PackageConnectionRtoTimerCallback now c =
     (let c = c\<lparr>rtoTimer := stop_timer (rtoTimer c)\<rparr>
      in if pc_state c = PACKAGE_CONNECTION_STATE_CLOSE then Some c
         else map_option PackageConnectionBeginRtoTimer
           (if SendQueueGetFilght (sendQueue c) > 0 \<or> SendQueueGetLostSize (sendQueue c) > 0 \<or>
               SendQueueGetUnsendSize (sendQueue c) > 0
            then resend_timed_out now c
            else Some (c\<lparr>lastRecvAckTime := 0\<rparr>)))"

definition PackageConnectionRecvTimerCallback :: "PackageConnection \<Rightarrow> PackageConnection option" where
  "PackageConnectionRecvTimerCallback c =
     (if pc_state c = PACKAGE_CONNECTION_STATE_CLOSE then Some c else deliver_ready True c)"

end
