(* ===== verification/PackageSend.thy ===== *)
theory PackageSend
  imports PackageConnection SendQueueFacts LedbatFacts RecvStream
begin

text \<open>
  What \<open>PackageConnectionSendDrive\<close> sends. One round of its loop is analysed against the
  invariants of the send queue, the receive queue and the window; they decide when the loop ends,
  that every package carries bytes of the stream at their positions, that the window is respected,
  and the one situation in which the loop never ends.
\<close>

section \<open>Filling a package\<close>

definition mtu_blocks :: "SendQueue \<Rightarrow> bool" where
  "mtu_blocks q \<longleftrightarrow> (\<forall>b\<in>set (flightBlocks q @ lostBlocks q). unat (block_size b) \<le> unat (queue_mtu q))"

text \<open>The bytes that wait to be sent, again or for the first time.\<close>

definition pending :: "SendQueue \<Rightarrow> nat" where
  "pending q = nat_sizes (lostBlocks q) + unat (unSendLength q)"

lemma stamped [simp]: "block_size (b\<lparr>blockSendTime := t\<rparr>) = block_size b"
  by (simp add: block_size_def)

lemma nat_sizes_mset: "mset xs = mset ys \<Longrightarrow> nat_sizes xs = nat_sizes ys"
  by (metis mset_map sum_mset_sum_list)

lemma fill_none:
  "lostBlocks q = [] \<Longrightarrow> unSendLength q = 0 \<Longrightarrow> SendQueueFillPayload now q =
     Some (BFX_RESULT_NOT_CHANGED, \<lparr>f_streamPos = sc_streamPos q, f_payload = None, f_length = 0\<rparr>, q)"
  by (simp add: SendQueueFillPayload_def generate_none)

text \<open>The positions whose blocks the queue keeps for a repetition.\<close>

definition held :: "SendQueue \<Rightarrow> u64 set" where
  "held q = (\<Union>b\<in>set (flightBlocks q @ lostBlocks q). {startStreamPos b..<endStreamPos b})"

definition sent_block :: "SendQueue \<Rightarrow> SendQueueSendBlock \<Rightarrow> SendQueue \<Rightarrow> bool" where
  "sent_block q b q' \<longleftrightarrow> held q' = held q \<union> {startStreamPos b..<endStreamPos b} \<and>
     endStreamPos b \<le> sc_streamPos q' \<and>
     (sc_streamPos q' = sc_streamPos q \<or> startStreamPos b = sc_streamPos q \<and> sc_streamPos q' = endStreamPos b)"

definition sends_on :: "SendQueue \<Rightarrow> SendQueue \<Rightarrow> bool" where
  "sends_on q q' \<longleftrightarrow> sc_streamPos q \<le> sc_streamPos q' \<and> held q \<subseteq> held q' \<and>
     {..<sc_streamPos q'} \<subseteq> {..<sc_streamPos q} \<union> held q'"

definition sent_below :: "SendQueue \<Rightarrow> Bdt_SessionDataPackage \<Rightarrow> bool" where
  "sent_below q p \<longleftrightarrow> (payload p \<noteq> None \<longrightarrow> unat (streamPos p) + unat (payloadLength p) \<le> unat (sc_streamPos q))"

lemma sends_on_refl [simp]: "sends_on q q"
  by (auto simp: sends_on_def)

lemma sends_on_trans: "sends_on q r \<Longrightarrow> sends_on r s \<Longrightarrow> sends_on q s"
  by (auto simp: sends_on_def)

lemma sends_on_below: "sends_on q r \<Longrightarrow> sent_below q p \<Longrightarrow> sent_below r p"
  by (auto simp: sends_on_def sent_below_def word_le_nat_alt)

lemma sent_block_on:
  assumes "sent_block q b r" and "block_ok b"
  shows "sends_on q r"
proof -
  have h: "held r = held q \<union> {startStreamPos b..<endStreamPos b}" using assms(1) by (simp add: sent_block_def)
  have lt: "startStreamPos b < endStreamPos b" using assms(2) by (simp add: block_ok_def)
  consider "sc_streamPos r = sc_streamPos q" | "startStreamPos b = sc_streamPos q" "sc_streamPos r = endStreamPos b"
    using assms(1) by (auto simp: sent_block_def)
  then show ?thesis
  proof cases
    case 1
    then show ?thesis using h by (auto simp: sends_on_def)
  next
    case 2
    then have "{..<sc_streamPos r} \<subseteq> {..<sc_streamPos q} \<union> {startStreamPos b..<endStreamPos b}" by auto
    then show ?thesis using h lt 2 unfolding sends_on_def by auto
  qed
qed

definition filled :: "(nat \<Rightarrow> u8) \<Rightarrow> SendQueue \<Rightarrow> SendQueueSendBlock \<Rightarrow> SendQueue \<Rightarrow> bool" where
  "filled S q b q' \<longleftrightarrow>
     block_ok b \<and> block_bytes S b \<and> unat (block_size b) \<le> unat (queue_mtu q) \<and>
     stream_inv S q' \<and> mtu_blocks q' \<and> queue_mtu q' = queue_mtu q \<and>
     pending q' + unat (block_size b) = pending q \<and>
     nat_sizes (flightBlocks q') = nat_sizes (flightBlocks q) + unat (block_size b) \<and>
     sb_streamPos q' = sb_streamPos q \<and> sc_ackStreamPos q' = sc_ackStreamPos q \<and>
     set (lostBlocks q') \<subseteq> set (lostBlocks q) \<and> sent_block q b q'"

lemma stamped_range [simp]:
  "startStreamPos (b\<lparr>blockSendTime := t\<rparr>) = startStreamPos b" "endStreamPos (b\<lparr>blockSendTime := t\<rparr>) = endStreamPos b"
  by simp_all

lemma sent_lost:
  assumes "blocks_inv q" and "lostBlocks q = b # bs"
  shows "sent_block q b (resend_lost now b (q\<lparr>lostBlocks := bs\<rparr>))"
proof -
  have "endStreamPos b \<le> sc_streamPos q" using assms by (simp add: blocks_inv_def)
  then show ?thesis
    using assms(2) by (auto simp: sent_block_def held_def resend_lost_def SendQueueMoveLostToFlight_def)
qed

lemma sent_new:
  assumes "startStreamPos b = sc_streamPos q" and "block_ok b"
  shows "sent_block q b (send_new now b q)" and "sc_streamPos (send_new now b q) = endStreamPos b"
proof -
  have "ucast (ucast (block_size b) :: u16) = block_size b"
    using assms(2) by (simp add: block_ok_def word_unat_eq_iff unsigned_ucast_eq unsigned_take_bit_eq take_bit_nat_eq_self)
  then show pos: "sc_streamPos (send_new now b q) = endStreamPos b"
    using assms(1) by (simp add: send_new_def block_size_def)
  have "held (send_new now b q) = held q \<union> {startStreamPos b..<endStreamPos b}"
    by (auto simp: held_def send_new_def)
  then show "sent_block q b (send_new now b q)"
    using assms(1) pos by (simp add: sent_block_def)
qed

lemma fill_lost:
  assumes inv: "stream_inv S q" and mtu: "mtu_blocks q" and l: "lostBlocks q = b # bs"
  shows "filled S q b (resend_lost now b (q\<lparr>lostBlocks := bs\<rparr>))"
proof -
  have b: "block_ok b" "block_bytes S b" using inv l by (auto simp: stream_inv_def blocks_inv_def)
  have m: "mset (insert_block (b\<lparr>blockSendTime := now\<rparr>) (flightBlocks q)) = mset (b\<lparr>blockSendTime := now\<rparr> # flightBlocks q)"
    by simp
  show ?thesis
    using b mtu l resend_inv [OF inv l, of now] nat_sizes_mset [OF m] sent_lost [OF _ l, of now] inv
    by (auto simp: filled_def resend_lost_def SendQueueMoveLostToFlight_def mtu_blocks_def pending_def stream_inv_def)
qed

lemma fill_new:
  assumes inv: "stream_inv S q" and mtu: "mtu_blocks q" and len: "queue_mtu q \<noteq> 0"
    and l: "lostBlocks q = []" and more: "unSendLength q \<noteq> 0"
  shows "\<exists>b q'. SendQueueGenerateBlock (queue_mtu q) q = Some (Some b, q') \<and> filled S q b (send_new now b q')"
proof -
  obtain b q' where g: "SendQueueGenerateBlock (queue_mtu q) q = Some (Some b, q')" "startStreamPos b = sc_streamPos q"
      "block_ok b" "block_size b \<le> ucast (queue_mtu q)" "block_bytes S b" "buffers_inv S (endStreamPos b) q'"
      "endStreamPos b \<le> sb_streamPos q"
      "q' = q\<lparr>buffers := buffers q', curr := curr q', unSendLength := unSendLength q'\<rparr>"
    using generate_block [OF _ more len] inv by (metis stream_inv_def)
  have same: "flightBlocks q' = flightBlocks q" "lostBlocks q' = lostBlocks q" "sc_streamPos q' = sc_streamPos q"
      "blocks_inv q' = blocks_inv q" "sb_streamPos q' = sb_streamPos q" "sc_ackStreamPos q' = sc_ackStreamPos q"
      "queue_mtu q' = queue_mtu q"
    by (subst g(8), simp add: blocks_inv_def)+
  have inv': "stream_inv S (send_new now b q')"
    using inv g(2,3,5,6) by (intro send_new_inv) (simp_all add: same stream_inv_def)
  have size: "unat (block_size b) \<le> unat (queue_mtu q)" using g(4) by (simp add: word_to_nat)
  have "unSendLength q' = sb_streamPos q - endStreamPos b"
    using g(6) by (simp add: buffers_inv_def same)
  moreover have "unSendLength q = sb_streamPos q - sc_streamPos q" "sc_streamPos q \<le> sb_streamPos q"
    using inv by (simp_all add: stream_inv_def buffers_inv_def)
  moreover have "sc_streamPos q < endStreamPos b" using g(2,3) by (simp add: block_ok_def)
  ultimately have "unat (unSendLength q') + unat (block_size b) = unat (unSendLength q)"
    using g(2,7) by (simp add: block_size_def word_to_nat)
  moreover have "sent_block q b (send_new now b q')"
    using sent_new(1) [of b q' now] g(2,3) by (simp add: same sent_block_def held_def)
  ultimately have "filled S q b (send_new now b q')"
    using inv' g(3,5) size mtu l
    by (auto simp: filled_def send_new_def same mtu_blocks_def pending_def)
  then show ?thesis using g(1) by blast
qed

lemma fill_spec:
  assumes "stream_inv S q" and "mtu_blocks q" and "queue_mtu q \<noteq> 0"
  shows "if pending q = 0 then SendQueueFillPayload now q =
       Some (BFX_RESULT_NOT_CHANGED, \<lparr>f_streamPos = sc_streamPos q, f_payload = None, f_length = 0\<rparr>, q)
     else \<exists>b q'. SendQueueFillPayload now q = Some (BFX_RESULT_SUCCESS, filled_from b, q') \<and> filled S q b q'"
proof (cases "lostBlocks q")
  case (Cons b bs)
  then have "pending q \<noteq> 0"
    using assms(1) filled_bytes(4) [of b S] by (auto simp: pending_def stream_inv_def blocks_inv_def)
  then show ?thesis
    using Cons fill_lost [OF assms(1,2) Cons, of now] by (auto simp: SendQueueFillPayload_def)
next
  case Nil
  show ?thesis
  proof (cases "unSendLength q = 0")
    case True
    then show ?thesis using Nil by (simp add: pending_def fill_none)
  next
    case False
    obtain b q' where "SendQueueGenerateBlock (queue_mtu q) q = Some (Some b, q')" "filled S q b (send_new now b q')"
      using fill_new [OF assms Nil False] by blast
    moreover have "pending q \<noteq> 0" using False by (simp add: pending_def unat_eq_zero)
    ultimately show ?thesis using Nil by (auto simp: SendQueueFillPayload_def)
  qed
qed


section \<open>What the connection relies on in the congestion control\<close>

text \<open>
  A package keeps its payload while the congestion control stamps it.
\<close>

definition same_payload :: "Bdt_SessionDataPackage \<Rightarrow> Bdt_SessionDataPackage \<Rightarrow> bool" where
  "same_payload p p' \<longleftrightarrow> streamPos p' = streamPos p \<and> payload p' = payload p \<and> payloadLength p' = payloadLength p"

text \<open>
  The interface \<open>BaseCc\<close> as the sending loop uses it: \<open>trySendPayload\<close> grants what is free in the
  window, at most \<open>mtu\<close>, and neither \<open>onSend\<close> nor \<open>trySendAck\<close> moves the window.
\<close>

locale base_cc =
  fixes try_send_payload :: "u32 \<Rightarrow> 'c \<Rightarrow> u32 \<times> u16"
    and on_send :: "u64 \<Rightarrow> Bdt_SessionDataPackage \<Rightarrow> 'c \<Rightarrow> 'c \<times> Bdt_SessionDataPackage"
    and try_send_ack :: "'c \<Rightarrow> u32 \<times> 'c"
    and window :: "'c \<Rightarrow> nat"
    and mtu :: "'c \<Rightarrow> nat"
  assumes granted: "unat (snd (try_send_payload flying c)) = min (window c - unat flying) (mtu c)"
    and on_send_keeps: "on_send now p c = (c', p') \<Longrightarrow> window c' = window c \<and> mtu c' = mtu c \<and> same_payload p p'"
    and try_send_ack_keeps: "try_send_ack c = (r, c') \<Longrightarrow> window c' = window c \<and> mtu c' = mtu c"
begin

lemma no_grant: "snd (try_send_payload flying c) = 0 \<longleftrightarrow> window c \<le> unat flying \<or> mtu c = 0"
proof -
  have "snd (try_send_payload flying c) = 0 \<longleftrightarrow> unat (snd (try_send_payload flying c)) = 0"
    by (simp add: unat_eq_zero)
  then show ?thesis by (auto simp: granted min_def)
qed

text \<open>What is sent on a whole grant stays inside the window.\<close>

lemma whole_grant_fits:
  assumes "unat (snd (try_send_payload flying c)) = mtu c" and "mtu c \<noteq> 0" and "n \<le> mtu c"
  shows "unat flying + n \<le> window c"
  using assms by (simp add: granted)

lemma window_after_round:
  assumes "try_send_ack c = (r, d)" and "on_send now p d = (e, p')"
  shows "window e = window c \<and> mtu e = mtu c"
  using try_send_ack_keeps [OF assms(1)] on_send_keeps [OF assms(2)] by simp

end

lemma on_send_frame:
  assumes "LedbatCcOnSend now p l = (l', p')"
  shows "wnd l' = wnd l" "cc_mtu l' = cc_mtu l" "newAck l' = newAck l" "same_payload p p'"
    "ackStreamPos p' = ackStreamPos p" "sackArray p' = sackArray p" "cmdflags p' = cmdflags p"
  using assms by (auto simp: LedbatCcOnSend_def note_sample_def answer_id_def same_payload_def Let_def split: if_splits)

lemma ledbat_grant:
  "unat (snd (LedbatCcTrySendPayload flying l)) = min (unat (wnd l) - unat flying) (unat (cc_mtu l))"
proof (cases "flying < wnd l")
  case True
  let ?free = "wnd l - flying"
  have free: "unat ?free = unat (wnd l) - unat flying"
    using True by simp
  have "unat (if ?free > ucast (cc_mtu l) then ucast (cc_mtu l) else ?free) = min (unat (wnd l) - unat flying) (unat (cc_mtu l))"
    using free by (auto simp: word_less_unat)
  moreover have "min (unat (wnd l) - unat flying) (unat (cc_mtu l)) < 2 ^ 16"
    using unat_lt16 [of "cc_mtu l"] by (simp add: min_def)
  ultimately show ?thesis
    using True by (simp add: LedbatCcTrySendPayload_def Let_def unsigned_ucast_eq take_bit_nat_eq_self_iff)
next
  case False
  then show ?thesis by (simp add: LedbatCcTrySendPayload_def word_less_unat)
qed

interpretation ledbat: base_cc LedbatCcTrySendPayload LedbatCcOnSend LedbatCcTrySendAck "unat \<circ> wnd" "unat \<circ> cc_mtu"
proof unfold_locales
  fix flying l
  show "unat (snd (LedbatCcTrySendPayload flying l)) = min ((unat \<circ> wnd) l - unat flying) ((unat \<circ> cc_mtu) l)"
    by (simp add: ledbat_grant)
next
  fix now p l l' p'
  assume "LedbatCcOnSend now p l = (l', p')"
  from on_send_frame [OF this]
  show "(unat \<circ> wnd) l' = (unat \<circ> wnd) l \<and> (unat \<circ> cc_mtu) l' = (unat \<circ> cc_mtu) l \<and> same_payload p p'" by simp
next
  fix l r l'
  assume "LedbatCcTrySendAck l = (r, l')"
  then show "(unat \<circ> wnd) l' = (unat \<circ> wnd) l \<and> (unat \<circ> cc_mtu) l' = (unat \<circ> cc_mtu) l"
    by (auto simp: LedbatCcTrySendAck_def split: if_splits)
qed

section \<open>One round\<close>

text \<open>
  The state between two rounds. \<open>mtu\<close> is the same everywhere, the blocks in flight fit the
  counter, the receive queue can be asked for its acknowledgement, and the stream is short of the
  64 bits of its positions.
\<close>

definition send_inv :: "(nat \<Rightarrow> u8) \<Rightarrow> PackageConnection \<Rightarrow> bool" where
  "send_inv S c \<longleftrightarrow>
     stream_inv S (sendQueue c) \<and> mtu_blocks (sendQueue c) \<and> queue_mtu (sendQueue c) \<noteq> 0 \<and>
     cc_mtu (cc c) = queue_mtu (sendQueue c) \<and> cfg_mtu (pc_config c) = ucast (queue_mtu (sendQueue c)) \<and>
     nat_sizes (flightBlocks (sendQueue c)) < 2 ^ 32 \<and>
     rinv (recvQueue c) \<and> (\<forall>b\<in>set (blocks (recvQueue c)). fits_range b)"

text \<open>The bytes the congestion control grants: those free in the window, at most \<open>mtu\<close>.\<close>

definition grant :: "PackageConnection \<Rightarrow> nat" where
  "grant c = min (unat (wnd (cc c)) - unat (flight (sendQueue c))) (unat (cc_mtu (cc c)))"

lemma grant_word: "unat (snd (LedbatCcTrySendPayload (flight (sendQueue c)) (cc c))) = grant c"
  by (simp add: ledbat.granted grant_def)

lemma flight_nat: "send_inv S c \<Longrightarrow> unat (flight (sendQueue c)) = nat_sizes (flightBlocks (sendQueue c))"
  by (simp add: send_inv_def stream_inv_def blocks_inv_def sizes_nat)

lemma chain_sizes:
  "chain bs \<Longrightarrow> \<forall>b\<in>set bs. block_ok b \<and> endStreamPos b \<le> e \<Longrightarrow> nat_sizes bs \<le> unat e"
proof (induction bs arbitrary: e rule: rev_induct)
  case (snoc b bs)
  have "\<forall>a\<in>set bs. block_ok a \<and> endStreamPos a \<le> startStreamPos b"
    using snoc.prems by (auto simp: sorted_wrt_append before_def)
  then have "nat_sizes bs \<le> unat (startStreamPos b)"
    using snoc.IH [of "startStreamPos b"] snoc.prems(1) unfolding sorted_wrt_append by blast
  moreover have "unat (startStreamPos b) < unat (endStreamPos b)" "unat (endStreamPos b) \<le> unat e"
    using snoc.prems(2) by (auto simp: block_ok_def word_to_nat)
  moreover have "unat (block_size b) = unat (endStreamPos b) - unat (startStreamPos b)"
    using snoc.prems(2) by (auto simp: block_ok_def block_size_def)
  moreover have "nat_sizes (bs @ [b]) = nat_sizes bs + unat (block_size b)" by simp
  ultimately show ?case by linarith
qed simp

text \<open>The test whether anything is left to send adds without overflow.\<close>

lemma pending_word:
  assumes "stream_inv S q"
  shows "SendQueueGetUnsendSize q + SendQueueGetLostSize q = 0 \<longleftrightarrow> pending q = 0"
proof -
  have b: "blocks_inv q" "buffers_inv S (sc_streamPos q) q" using assms by (simp_all add: stream_inv_def)
  have le: "nat_sizes (lostBlocks q) \<le> unat (sc_streamPos q)"
    using b(1) by (intro chain_sizes) (auto simp: blocks_inv_def)
  have "unat (sizes bs) = nat_sizes bs" if "nat_sizes bs < 2 ^ 64" for bs
    using that
  proof (induction bs)
    case (Cons a bs)
    then show ?case by (simp add: unat_add_no_overflow)
  qed simp
  then have lost: "unat (lost q) = nat_sizes (lostBlocks q)"
    using b(1) le unat_lt64 [of "sc_streamPos q"] by (simp add: blocks_inv_def)
  have "unat (unSendLength q) = unat (sb_streamPos q) - unat (sc_streamPos q)" "unat (sc_streamPos q) \<le> unat (sb_streamPos q)"
    using b(2) by (simp_all add: buffers_inv_def word_to_nat)
  then have "unat (unSendLength q) + unat (lost q) < 2 ^ 64"
    using le lost unat_lt64 [of "sb_streamPos q"] by simp
  then have "unat (unSendLength q + lost q) = pending q"
    using lost by (simp add: unat_add_no_overflow pending_def)
  then show ?thesis
    by (metis SendQueueGetUnsendSize_def SendQueueGetLostSize_def unat_eq_zero)
qed


text \<open>\<open>FIN\<close> is due when every byte before the close has been sent at least once.\<close>

definition fin_due :: "PackageConnection \<Rightarrow> bool" where
  "fin_due c \<longleftrightarrow> sends_fin (Bdt_SessionDataPackageInit\<lparr>streamPos := sc_streamPos (sendQueue c)\<rparr>) c"

definition acks :: "RecvQueue \<Rightarrow> Bdt_SessionDataPackage \<Rightarrow> bool" where
  "acks q p \<longleftrightarrow> RecvQueueGetAckInfo q = Some (ackStreamPos p, sackArray p) \<and> sack_ok (sackArray p)"

lemma add_flags_spec:
  assumes "rinv (recvQueue c)" and "\<forall>b\<in>set (blocks (recvQueue c)). fits_range b"
  shows "if r = 0 \<or> sends_fin p c \<or> sends_finack c
     then \<exists>p'. add_flags r p c = Some (0, p', c) \<and> same_payload p p' \<and> acks (recvQueue c) p'
     else if newAck (cc c) = 1
     then \<exists>p'. add_flags r p c = Some (0, p', c\<lparr>cc := (cc c)\<lparr>newAck := 0\<rparr>\<rparr>) \<and> same_payload p p' \<and> acks (recvQueue c) p'
     else \<exists>p'. add_flags r p c = Some (r, p', c)"
proof -
  obtain sack where a: "RecvQueueGetAckInfo (recvQueue c) = Some (rq_ackStreamPos (recvQueue c), sack)" "sack_ok sack"
    by (rule ack_info_spec [OF assms])
  then show ?thesis
    by (auto simp: add_flags_def set_ack_def LedbatCcTrySendAck_def same_payload_def acks_def)
qed

lemma same_payload_trans: "same_payload p p' \<Longrightarrow> same_payload p' p'' \<Longrightarrow> same_payload p p''"
  by (simp add: same_payload_def)

text \<open>What a round leaves alone.\<close>

definition same_conn :: "PackageConnection \<Rightarrow> PackageConnection \<Rightarrow> bool" where
  "same_conn c c' \<longleftrightarrow>
     pc_state c' = pc_state c \<and> recvQueue c' = recvQueue c \<and> pc_config c' = pc_config c \<and>
     remoteCloseStreamPos c' = remoteCloseStreamPos c \<and> selfCloseStreamPos c' = selfCloseStreamPos c \<and>
     trySendCnt c' = trySendCnt c \<and> wnd (cc c') = wnd (cc c) \<and> cc_mtu (cc c') = cc_mtu (cc c) \<and>
     ready_buffers c' = ready_buffers c \<and> ready_streamPos c' = ready_streamPos c \<and> onNotifying c' = onNotifying c"

definition sends_closing :: "PackageConnectionCloseSubState \<Rightarrow> bool" where
  "sends_closing s \<longleftrightarrow> s \<in> {PACKAGE_CONNECTION_CLOSE_SUBSTATE_NONE, PACKAGE_CONNECTION_CLOSE_SUBSTATE_FIN1,
     PACKAGE_CONNECTION_CLOSE_SUBSTATE_CLOSING, PACKAGE_CONNECTION_CLOSE_SUBSTATE_WAITCLOSE,
     PACKAGE_CONNECTION_CLOSE_SUBSTATE_LASTACK}"

lemma update_sent_frame:
  "sendQueue (UpdateCloseSubState_sent f c) = sendQueue c" "cc (UpdateCloseSubState_sent f c) = cc c"
  "rttEst (UpdateCloseSubState_sent f c) = rttEst c" "same_conn c (UpdateCloseSubState_sent f c)"
  "pc_events (UpdateCloseSubState_sent f c) = pc_events c"
  "sends_closing (closeSubState (UpdateCloseSubState_sent f c)) = sends_closing (closeSubState c)"
  by (auto simp: UpdateCloseSubState_sent_def PackageConnectionBeginFinTimer_def same_conn_def sends_closing_def)

lemma pre_send_frame:
  assumes "PackageConnectionOnPreSendPackage now p c = (p', c')"
  shows "sendQueue c' = sendQueue c" "same_conn c c'" "pc_events c' = pc_events c"
    "newAck (cc c') = newAck (cc c)" "same_payload p p'" "ackStreamPos p' = ackStreamPos p" "sackArray p' = sackArray p"
    "cmdflags p' = cmdflags p" "sends_closing (closeSubState c') = sends_closing (closeSubState c)"
proof -
  let ?p = "p\<lparr>toSessionId := remoteId c, sessionId := remoteId c\<rparr>"
  let ?c = "note_payload_time now ?p (UpdateCloseSubState_sent (cmdflags p) c)"
  have n: "sendQueue ?c = sendQueue c" "cc ?c = cc c" "same_conn c ?c" "pc_events ?c = pc_events c"
    "sends_closing (closeSubState ?c) = sends_closing (closeSubState c)"
    using update_sent_frame [where f = "cmdflags p" and c = c] by (auto simp: note_payload_time_def same_conn_def)
  obtain l q where s: "LedbatCcOnSend now ?p (cc c) = (l, q)" by force
  have c': "c' = ?c\<lparr>cc := l, rttEst := choose_rtt_package now q (rttEst ?c)\<rparr>" "p' = q"
    using assms s n(2) by (auto simp: PackageConnectionOnPreSendPackage_def Let_def)
  note f = on_send_frame [OF s]
  show "sendQueue c' = sendQueue c" "same_conn c c'" "pc_events c' = pc_events c"
    "newAck (cc c') = newAck (cc c)" "same_payload p p'" "ackStreamPos p' = ackStreamPos p" "sackArray p' = sackArray p"
    "cmdflags p' = cmdflags p" "sends_closing (closeSubState c') = sends_closing (closeSubState c)"
    using n f unfolding c' by (simp_all add: same_conn_def same_payload_def)
qed


section \<open>The specification of a round\<close>

definition package_ok :: "(nat \<Rightarrow> u8) \<Rightarrow> PackageConnection \<Rightarrow> Bdt_SessionDataPackage \<Rightarrow> bool" where
  "package_ok S c p \<longleftrightarrow> acks (recvQueue c) p \<and>
     (case payload p of
        None \<Rightarrow> payloadLength p = 0
      | Some bs \<Rightarrow> bytes_at S (unat (streamPos p)) (unat (payloadLength p)) bs \<and> 0 < payloadLength p \<and>
          unat (payloadLength p) \<le> unat (cc_mtu (cc c)))"

lemma package_ok_same:
  "package_ok S c p \<Longrightarrow> same_payload p p' \<Longrightarrow> ackStreamPos p' = ackStreamPos p \<Longrightarrow> sackArray p' = sackArray p \<Longrightarrow>
   package_ok S c p'"
  by (auto simp: package_ok_def same_payload_def acks_def split: option.splits)

definition in_flight :: "PackageConnection \<Rightarrow> nat" where
  "in_flight c = nat_sizes (flightBlocks (sendQueue c))"

text \<open>What sending a filled package does to the connection.\<close>

definition full_window :: "PackageConnection \<Rightarrow> bool" where
  "full_window c \<longleftrightarrow> grant c = unat (cc_mtu (cc c))"

definition sent_round :: "PackageConnection \<Rightarrow> Bdt_SessionDataPackage \<Rightarrow> PackageConnection \<Rightarrow> bool" where
  "sent_round c p c' \<longleftrightarrow> same_conn c c' \<and> pc_events c' = pc_events c @ [PackageSent p] \<and>
     sends_closing (closeSubState c') = sends_closing (closeSubState c)"

lemma send_tail:
  assumes pre: "PackageConnectionOnPreSendPackage now p c = (p', c1)" and state: "pc_state c \<noteq> PACKAGE_CONNECTION_STATE_CLOSE"
  shows "\<exists>c2. PackageConnectionSendPackage now p' c1 = (BFX_RESULT_SUCCESS, c2) \<and> sendQueue c2 = sendQueue c \<and>
    newAck (cc c2) = newAck (cc c) \<and> same_payload p p' \<and> ackStreamPos p' = ackStreamPos p \<and> sackArray p' = sackArray p \<and>
    sent_round c p' c2"
proof -
  note f = pre_send_frame [OF pre]
  have "pc_state c1 \<noteq> PACKAGE_CONNECTION_STATE_CLOSE" using f(2) state by (simp add: same_conn_def)
  then show ?thesis
    using f by (auto simp: PackageConnectionSendPackage_def note_payload_time_def fire_def same_conn_def sent_round_def)
qed

text \<open>The window has no room for a whole package: no payload is sent.\<close>

lemma fill_partial:
  assumes inv: "send_inv S c" and len: "unat len = grant c" and "\<not> full_window c"
  defines "p \<equiv> Bdt_SessionDataPackageInit\<lparr>streamPos := sc_streamPos (sendQueue c)\<rparr>"
  shows "fill_payload now len Bdt_SessionDataPackageInit c = Some (BFX_RESULT_NOT_CHANGED, p, c)"
proof -
  have "(ucast len :: u32) \<noteq> cfg_mtu (pc_config c)"
  proof
    assume "(ucast len :: u32) = cfg_mtu (pc_config c)"
    then have "unat (ucast len :: u32) = unat (ucast (cc_mtu (cc c)) :: u32)"
      using inv by (simp add: send_inv_def)
    then show False using len assms(3) by (simp add: full_window_def)
  qed
  then show ?thesis
    by (simp add: fill_payload_def SendQueueFillPayloadFromNew_def p_def Let_def)
qed

text \<open>The window has room for a whole package.\<close>

lemma fill_full:
  assumes inv: "send_inv S c" and len: "unat len = grant c" and "full_window c"
  shows "if pending (sendQueue c) = 0
     then fill_payload now len Bdt_SessionDataPackageInit c =
       Some (BFX_RESULT_NOT_CHANGED, Bdt_SessionDataPackageInit\<lparr>streamPos := sc_streamPos (sendQueue c)\<rparr>, c)
     else \<exists>b q p. fill_payload now len Bdt_SessionDataPackageInit c = Some (BFX_RESULT_SUCCESS, p, c\<lparr>sendQueue := q\<rparr>) \<and>
       filled S (sendQueue c) b q \<and> streamPos p = startStreamPos b \<and> payload p = Some (blockData b) \<and>
       unat (payloadLength p) = unat (block_size b)"
proof -
  have q: "stream_inv S (sendQueue c)" "mtu_blocks (sendQueue c)" "queue_mtu (sendQueue c) \<noteq> 0"
    using inv by (simp_all add: send_inv_def)
  have "unat (ucast len :: u32) = unat (cfg_mtu (pc_config c))"
    using len assms(3) inv by (simp add: full_window_def send_inv_def)
  then have l: "(ucast len :: u32) = cfg_mtu (pc_config c)" by (simp add: word_unat_eq_iff)
  show ?thesis
  proof (cases "pending (sendQueue c) = 0")
    case True
    then show ?thesis
      using l fill_spec [OF q, of now] by (simp add: fill_payload_def Bdt_SessionDataPackageInit_def)
  next
    case False
    then obtain b q' where f: "SendQueueFillPayload now (sendQueue c) = Some (BFX_RESULT_SUCCESS, filled_from b, q')"
      "filled S (sendQueue c) b q'"
      using fill_spec [OF q, of now] by auto
    have b: "block_ok b" "block_bytes S b" using f(2) by (simp_all add: filled_def)
    show ?thesis
      using l f False filled_bytes [OF b]
      by (auto simp: fill_payload_def intro!: exI [of _ b] exI [of _ q'])
  qed
qed


text \<open>Whether a round without payload sends a package all the same.\<close>

definition must_send :: "PackageConnection \<Rightarrow> bool" where
  "must_send c \<longleftrightarrow> fin_due c \<or> sends_finack c"

lemma send_round_eq:
  assumes fill: "fill_payload now len Bdt_SessionDataPackageInit c = Some (r, p, c1)"
    and len: "len = snd (LedbatCcTrySendPayload (flight (sendQueue c)) (cc c))"
    and flags: "add_flags r p c1 = Some (0, p1, c2)" and state: "pc_state c2 \<noteq> PACKAGE_CONNECTION_STATE_CLOSE"
    and inv: "stream_inv S (sendQueue c2)"
  shows "\<exists>p2 c3. send_round now c = Some (grant c \<noteq> 0 \<and> pending (sendQueue c2) \<noteq> 0, c3) \<and>
    sendQueue c3 = sendQueue c2 \<and> newAck (cc c3) = newAck (cc c2) \<and> sent_round c2 p2 c3 \<and>
    same_payload p1 p2 \<and> ackStreamPos p2 = ackStreamPos p1 \<and> sackArray p2 = sackArray p1"
proof -
  obtain p2 c2' where pre: "PackageConnectionOnPreSendPackage now p1 c2 = (p2, c2')" by force
  obtain c3 where c3: "PackageConnectionSendPackage now p2 c2' = (BFX_RESULT_SUCCESS, c3)" "sendQueue c3 = sendQueue c2"
    "newAck (cc c3) = newAck (cc c2)" "same_payload p1 p2" "ackStreamPos p2 = ackStreamPos p1" "sackArray p2 = sackArray p1"
    "sent_round c2 p2 c3"
    using send_tail [OF pre state] by blast
  have zero: "len = 0 \<longleftrightarrow> grant c = 0"
    using grant_word [of c] len by (metis unat_eq_zero)
  have "send_round now c = Some (grant c \<noteq> 0 \<and> pending (sendQueue c2) \<noteq> 0, c3)"
    using fill flags pre c3(1) zero pending_word [OF inv] c3(2)
    by (simp add: send_round_def PackageConnectionFillPackage_def SendQueueGetFilght_def len [symmetric])
  then show ?thesis using c3 by blast
qed

definition without_ack :: "PackageConnection \<Rightarrow> PackageConnection" where
  "without_ack c = (if must_send c then c else c\<lparr>cc := (cc c)\<lparr>newAck := 0\<rparr>\<rparr>)"

lemma round_idle:
  assumes inv: "send_inv S c" and state: "pc_state c \<noteq> PACKAGE_CONNECTION_STATE_CLOSE"
    and idle: "\<not> full_window c \<or> pending (sendQueue c) = 0"
  shows "if must_send c \<or> newAck (cc c) = 1
     then \<exists>p c'. send_round now c = Some (grant c \<noteq> 0 \<and> pending (sendQueue c) \<noteq> 0, c') \<and>
       sent_round (without_ack c) p c' \<and> payload p = None \<and> package_ok S c p \<and> sendQueue c' = sendQueue c \<and>
       newAck (cc c') = newAck (cc (without_ack c))
     else send_round now c = Some (False, c)"
proof -
  define len where "len = snd (LedbatCcTrySendPayload (flight (sendQueue c)) (cc c))"
  define p where "p = Bdt_SessionDataPackageInit\<lparr>streamPos := sc_streamPos (sendQueue c)\<rparr>"
  have len: "unat len = grant c" by (simp add: len_def grant_word)
  have fill: "fill_payload now len Bdt_SessionDataPackageInit c = Some (BFX_RESULT_NOT_CHANGED, p, c)"
    using idle fill_partial [OF inv len] fill_full [OF inv len] unfolding p_def by (metis (full_types))
  have rq: "rinv (recvQueue c)" "\<forall>b\<in>set (blocks (recvQueue c)). fits_range b" and si: "stream_inv S (sendQueue c)"
    using inv by (simp_all add: send_inv_def)
  have due: "sends_fin p c = fin_due c" by (simp add: fin_due_def p_def)
  have nopay: "payload p = None" "payloadLength p = 0" by (simp_all add: p_def Bdt_SessionDataPackageInit_def)
  note flags = add_flags_spec [OF rq, of BFX_RESULT_NOT_CHANGED p, unfolded due]
  show ?thesis
  proof (cases "must_send c \<or> newAck (cc c) = 1")
    case True
    then obtain p1 where p1: "add_flags BFX_RESULT_NOT_CHANGED p c = Some (0, p1, without_ack c)" "same_payload p p1"
      "acks (recvQueue c) p1"
      using flags by (fastforce simp: must_send_def without_ack_def split: if_splits)
    have w: "pc_state (without_ack c) \<noteq> PACKAGE_CONNECTION_STATE_CLOSE" "stream_inv S (sendQueue (without_ack c))"
      "sendQueue (without_ack c) = sendQueue c"
      using state si by (simp_all add: without_ack_def)
    obtain p2 c3 where s: "send_round now c = Some (grant c \<noteq> 0 \<and> pending (sendQueue c) \<noteq> 0, c3)"
      "sendQueue c3 = sendQueue c" "newAck (cc c3) = newAck (cc (without_ack c))" "sent_round (without_ack c) p2 c3"
      "same_payload p1 p2" "ackStreamPos p2 = ackStreamPos p1" "sackArray p2 = sackArray p1"
      using send_round_eq [OF fill len_def p1(1) w(1,2)] w(3) by auto
    have "payload p2 = None" "payloadLength p2 = 0" "acks (recvQueue c) p2"
      using nopay p1(2,3) s(5-7) by (simp_all add: same_payload_def acks_def)
    then show ?thesis using True s by (auto simp: package_ok_def)
  next
    case False
    then obtain p1 where "add_flags BFX_RESULT_NOT_CHANGED p c = Some (BFX_RESULT_NOT_CHANGED, p1, c)"
      using flags by (auto simp: must_send_def)
    then show ?thesis
      using False fill by (simp add: send_round_def PackageConnectionFillPackage_def SendQueueGetFilght_def len_def [symmetric])
  qed
qed

lemma round_data:
  assumes inv: "send_inv S c" and state: "pc_state c \<noteq> PACKAGE_CONNECTION_STATE_CLOSE"
    and full: "full_window c" and more: "pending (sendQueue c) \<noteq> 0"
  shows "\<exists>b p c'. send_round now c = Some (pending (sendQueue c') \<noteq> 0, c') \<and> sent_round c p c' \<and>
    filled S (sendQueue c) b (sendQueue c') \<and> sent_below (sendQueue c') p \<and>
    package_ok S c p \<and> newAck (cc c') = newAck (cc c)"
proof -
  define len where "len = snd (LedbatCcTrySendPayload (flight (sendQueue c)) (cc c))"
  have len: "unat len = grant c" by (simp add: len_def grant_word)
  obtain b q p where f: "fill_payload now len Bdt_SessionDataPackageInit c = Some (BFX_RESULT_SUCCESS, p, c\<lparr>sendQueue := q\<rparr>)"
    "filled S (sendQueue c) b q" "streamPos p = startStreamPos b" "payload p = Some (blockData b)"
    "unat (payloadLength p) = unat (block_size b)"
    using fill_full [OF inv len full, of now, unfolded if_not_P [OF more]] by blast
  let ?c = "c\<lparr>sendQueue := q\<rparr>"
  have rq: "rinv (recvQueue ?c)" "\<forall>b\<in>set (blocks (recvQueue ?c)). fits_range b"
    using inv by (simp_all add: send_inv_def)
  obtain p1 where p1: "add_flags BFX_RESULT_SUCCESS p ?c = Some (0, p1, ?c)" "same_payload p p1" "acks (recvQueue c) p1"
    using add_flags_spec [OF rq, of BFX_RESULT_SUCCESS p] by auto
  have w: "pc_state ?c \<noteq> PACKAGE_CONNECTION_STATE_CLOSE" "stream_inv S (sendQueue ?c)"
    using state f(2) by (simp_all add: filled_def)
  have g: "grant c \<noteq> 0" using full inv by (simp add: full_window_def send_inv_def unat_eq_zero)
  obtain p2 c3 where s: "send_round now c = Some (pending q \<noteq> 0, c3)"
    "sendQueue c3 = q" "newAck (cc c3) = newAck (cc c)" "sent_round ?c p2 c3"
    "same_payload p1 p2" "ackStreamPos p2 = ackStreamPos p1" "sackArray p2 = sackArray p1"
    using send_round_eq [OF f(1) len_def p1(1) w] g by auto
  have b: "block_ok b" "block_bytes S b" "unat (block_size b) \<le> unat (cc_mtu (cc c))"
    using f(2) inv by (simp_all add: filled_def send_inv_def)
  have p2: "payload p2 = Some (blockData b)" "streamPos p2 = startStreamPos b" "acks (recvQueue c) p2"
    "unat (payloadLength p2) = unat (block_size b)"
    using f(3-5) p1(2,3) s(5-7) by (simp_all add: same_payload_def acks_def)
  moreover have "package_ok S c p2"
    using p2 b filled_bytes(4) [OF b(1,2)] by (simp add: package_ok_def block_bytes_def word_less_unat)
  moreover have "sent_below (sendQueue c3) p2"
    using p2(2,4) s(2) f(2) b(1)
    by (simp add: sent_below_def filled_def sent_block_def block_ok_def block_size_def word_to_nat)
  moreover have "sent_round c p2 c3" using s(4) by (simp add: sent_round_def same_conn_def)
  ultimately show ?thesis using s f(2) by blast
qed


section \<open>The loop\<close>

text \<open>
  A connection is stuck when less than a whole package is free in the window while something is
  left to send, and the round sends a package all the same, because \<open>FIN\<close> or \<open>FINACK\<close> is due.
\<close>

definition stuck :: "PackageConnection \<Rightarrow> bool" where
  "stuck c \<longleftrightarrow> pc_state c \<noteq> PACKAGE_CONNECTION_STATE_CLOSE \<and> grant c \<noteq> 0 \<and> \<not> full_window c \<and>
     pending (sendQueue c) \<noteq> 0 \<and> must_send c"

definition work :: "PackageConnection \<Rightarrow> nat" where
  "work c = 2 * pending (sendQueue c) + (if newAck (cc c) = 1 then 1 else 0)"

text \<open>The effect of any number of rounds.\<close>

definition drive_ok :: "(nat \<Rightarrow> u8) \<Rightarrow> PackageConnection \<Rightarrow> PackageConnection \<Rightarrow> bool" where
  "drive_ok S c c' \<longleftrightarrow> send_inv S c' \<and> same_conn c c' \<and> pending (sendQueue c') \<le> pending (sendQueue c) \<and>
     in_flight c' + pending (sendQueue c') = in_flight c + pending (sendQueue c) \<and>
     in_flight c' \<le> max (in_flight c) (unat (wnd (cc c))) \<and>
     sb_streamPos (sendQueue c') = sb_streamPos (sendQueue c) \<and>
     sc_ackStreamPos (sendQueue c') = sc_ackStreamPos (sendQueue c) \<and>
     set (lostBlocks (sendQueue c')) \<subseteq> set (lostBlocks (sendQueue c)) \<and> sends_on (sendQueue c) (sendQueue c') \<and>
     (\<exists>ps. pc_events c' = pc_events c @ map PackageSent ps \<and>
        (\<forall>p\<in>set ps. package_ok S c p \<and> sent_below (sendQueue c') p))"

lemma drive_ok_refl: "send_inv S c \<Longrightarrow> drive_ok S c c"
  by (auto simp: drive_ok_def same_conn_def)

lemma same_conn_trans: "same_conn c d \<Longrightarrow> same_conn d e \<Longrightarrow> same_conn c e"
  by (simp add: same_conn_def)

lemma drive_ok_trans:
  assumes "drive_ok S c d" and "drive_ok S d e"
  shows "drive_ok S c e"
proof -
  have same: "recvQueue d = recvQueue c" "cc_mtu (cc d) = cc_mtu (cc c)" "wnd (cc d) = wnd (cc c)"
    using assms(1) by (simp_all add: drive_ok_def same_conn_def)
  then have ok: "package_ok S d p = package_ok S c p" for p by (simp add: package_ok_def split: option.splits)
  have on: "sends_on (sendQueue c) (sendQueue d)" "sends_on (sendQueue d) (sendQueue e)"
    using assms by (simp_all add: drive_ok_def)
  obtain ps qs where "pc_events d = pc_events c @ map PackageSent ps" "\<forall>p\<in>set ps. package_ok S c p \<and> sent_below (sendQueue d) p"
    "pc_events e = pc_events d @ map PackageSent qs" "\<forall>p\<in>set qs. package_ok S c p \<and> sent_below (sendQueue e) p"
    using assms by (auto simp: drive_ok_def ok)
  then have "pc_events e = pc_events c @ map PackageSent (ps @ qs) \<and>
      (\<forall>p\<in>set (ps @ qs). package_ok S c p \<and> sent_below (sendQueue e) p)"
    using sends_on_below [OF on(2)] by auto
  then have ev: "\<exists>ps. pc_events e = pc_events c @ map PackageSent ps \<and>
      (\<forall>p\<in>set ps. package_ok S c p \<and> sent_below (sendQueue e) p)" by blast
  have "same_conn c e" using assms same_conn_trans [of c d e] by (simp add: drive_ok_def)
  moreover have "in_flight e \<le> max (in_flight c) (unat (wnd (cc c)))"
    using assms same(3) by (auto simp: drive_ok_def)
  moreover have "set (lostBlocks (sendQueue e)) \<subseteq> set (lostBlocks (sendQueue c))"
    using assms unfolding drive_ok_def by blast
  ultimately show ?thesis
    using assms ev sends_on_trans [OF on] unfolding drive_ok_def by auto
qed

lemma sent_same: "sent_round (without_ack c) p c' \<Longrightarrow> sent_round c p c'"
  by (simp add: sent_round_def same_conn_def without_ack_def split: if_splits)

lemma send_inv_sent:
  assumes "send_inv S c" and "same_conn c c'" and "sendQueue c' = sendQueue c"
  shows "send_inv S c'"
  using assms by (simp add: send_inv_def same_conn_def)

lemma drive_ok_idle:
  assumes "send_inv S c" and "sent_round c p c'" and "sendQueue c' = sendQueue c" and "package_ok S c p"
    and "payload p = None"
  shows "drive_ok S c c'"
  using assms send_inv_sent [OF assms(1) _ assms(3)]
  by (auto simp: drive_ok_def sent_round_def in_flight_def sent_below_def intro!: exI [of _ "[p]"])

lemma drive_ok_data:
  assumes inv: "send_inv S c" and sent: "sent_round c p c'" and f: "filled S (sendQueue c) b (sendQueue c')"
    and full: "full_window c" and ok: "package_ok S c p" and below: "sent_below (sendQueue c') p"
  shows "drive_ok S c c'"
proof -
  have on: "sends_on (sendQueue c) (sendQueue c')" using f sent_block_on by (auto simp: filled_def)
  have m: "in_flight c' = in_flight c + unat (block_size b)" "unat (block_size b) \<le> unat (cc_mtu (cc c))"
    using f inv by (simp_all add: filled_def send_inv_def in_flight_def)
  have "unat (cc_mtu (cc c)) \<noteq> 0" using inv by (simp add: send_inv_def unat_eq_zero)
  moreover have "unat (flight (sendQueue c)) = in_flight c" using flight_nat [OF inv] by (simp add: in_flight_def)
  ultimately have w: "in_flight c' \<le> unat (wnd (cc c))"
    using m full ledbat.whole_grant_fits [of "flight (sendQueue c)" "cc c" "unat (block_size b)"]
    by (simp add: full_window_def grant_word)
  then have "in_flight c' < 2 ^ 32" using unat_lt32 [of "wnd (cc c)"] by simp
  then have "send_inv S c'"
    using inv f sent by (simp add: send_inv_def filled_def sent_round_def same_conn_def in_flight_def)
  then show ?thesis
    using sent f ok w m below on by (auto simp: drive_ok_def sent_round_def filled_def intro!: exI [of _ "[p]"])
qed

lemma same_grant:
  assumes "same_conn c c'" and "sendQueue c' = sendQueue c"
  shows "grant c' = grant c" and "full_window c' = full_window c"
  using assms by (simp_all add: grant_def full_window_def same_conn_def)

lemma round_spec:
  assumes inv: "send_inv S c" and state: "pc_state c \<noteq> PACKAGE_CONNECTION_STATE_CLOSE"
  shows "\<exists>more c'. send_round now c = Some (more, c') \<and> drive_ok S c c' \<and>
    (more \<longrightarrow> work c' < work c \<or> stuck c) \<and>
    (\<not> more \<longrightarrow> pending (sendQueue c') = 0 \<or> \<not> full_window c') \<and> (stuck c \<longrightarrow> more)"
proof (cases "full_window c \<and> pending (sendQueue c) \<noteq> 0")
  case True
  obtain b p c' where r: "send_round now c = Some (pending (sendQueue c') \<noteq> 0, c')" "sent_round c p c'"
    "filled S (sendQueue c) b (sendQueue c')" "package_ok S c p" "newAck (cc c') = newAck (cc c)"
    "sent_below (sendQueue c') p"
    using round_data [OF inv state] True by blast
  have "drive_ok S c c'" using drive_ok_data [OF inv r(2,3) _ r(4,6)] True by blast
  moreover have "pending (sendQueue c') < pending (sendQueue c)"
    using r(3) filled_bytes(4) [of b S] by (simp add: filled_def)
  then have "work c' < work c" using r(5) by (simp add: work_def)
  moreover have "\<not> stuck c" using True by (simp add: stuck_def)
  ultimately show ?thesis using r(1) by blast
next
  case False
  then have idle: "\<not> full_window c \<or> pending (sendQueue c) = 0" by simp
  note r = round_idle [OF inv state idle, of now]
  show ?thesis
  proof (cases "must_send c \<or> newAck (cc c) = 1")
    case True
    then obtain p c' where s: "send_round now c = Some (grant c \<noteq> 0 \<and> pending (sendQueue c) \<noteq> 0, c')"
      "sent_round (without_ack c) p c'" "payload p = None" "package_ok S c p" "sendQueue c' = sendQueue c"
      "newAck (cc c') = newAck (cc (without_ack c))"
      using r by auto
    have "drive_ok S c c'" using drive_ok_idle [OF inv sent_same [OF s(2)] s(5,4,3)] .
    moreover have "work c' < work c \<or> stuck c" if "grant c \<noteq> 0 \<and> pending (sendQueue c) \<noteq> 0"
    proof (cases "must_send c")
      case True
      then show ?thesis using that idle state by (simp add: stuck_def)
    next
      case False
      then show ?thesis using \<open>must_send c \<or> newAck (cc c) = 1\<close> s(5,6) by (simp add: work_def without_ack_def)
    qed
    moreover have "pending (sendQueue c') = 0 \<or> \<not> full_window c'"
      using idle s(5) same_grant [of c c'] sent_same [OF s(2)] by (auto simp: sent_round_def)
    moreover have "stuck c \<longrightarrow> grant c \<noteq> 0 \<and> pending (sendQueue c) \<noteq> 0" by (simp add: stuck_def)
    ultimately show ?thesis using s(1) by blast
  next
    case False
    then show ?thesis using r drive_ok_refl [OF inv] idle by (auto simp: stuck_def)
  qed
qed

text \<open>Once stuck, a connection stays stuck, and sends an empty package in every round.\<close>

lemma stuck_round:
  assumes inv: "send_inv S c" and st: "stuck c"
  shows "\<exists>p c'. send_round now c = Some (True, c') \<and> stuck c' \<and> send_inv S c' \<and>
    payload p = None \<and> pc_events c' = pc_events c @ [PackageSent p]"
proof -
  have s: "pc_state c \<noteq> PACKAGE_CONNECTION_STATE_CLOSE" "grant c \<noteq> 0" "\<not> full_window c" "pending (sendQueue c) \<noteq> 0" "must_send c"
    using st by (simp_all add: stuck_def)
  obtain p c' where r: "send_round now c = Some (True, c')" "sent_round (without_ack c) p c'" "payload p = None"
    "sendQueue c' = sendQueue c"
    using round_idle [OF inv s(1), of now] s by auto
  have sr: "sent_round c p c'" using sent_same [OF r(2)] .
  have g: "grant c' = grant c" "full_window c' = full_window c"
    using same_grant [of c c'] sr r(4) by (simp_all add: sent_round_def)
  have "must_send c' = must_send c"
    using sr r(4) by (simp add: must_send_def fin_due_def sends_fin_def sends_finack_def sent_round_def same_conn_def
        sends_closing_def)
  then have "stuck c'"
    using s g r(4) sr by (simp add: stuck_def sent_round_def same_conn_def)
  moreover have "send_inv S c'" using send_inv_sent [OF inv _ r(4)] sr by (simp add: sent_round_def)
  ultimately show ?thesis using r sr by (auto simp: sent_round_def)
qed


section \<open>Termination\<close>

text \<open>The state in which round \<open>n\<close> starts.\<close>

fun drive_rounds :: "nat \<Rightarrow> u64 \<Rightarrow> PackageConnection \<Rightarrow> PackageConnection option" where
  "drive_rounds 0 now c = Some c"
| "drive_rounds (Suc n) now c = do {
     (more, c) \<leftarrow> send_round now c;
     if more then drive_rounds n now c else None
   }"

definition drive_done :: "PackageConnection \<Rightarrow> bool" where
  "drive_done c \<longleftrightarrow> pending (sendQueue c) = 0 \<or> \<not> full_window c"

lemma drive_ok_state: "drive_ok S c c' \<Longrightarrow> pc_state c' = pc_state c \<and> send_inv S c'"
  by (simp add: drive_ok_def same_conn_def)

lemma drive_spec:
  assumes "send_inv S c" and "pc_state c \<noteq> PACKAGE_CONNECTION_STATE_CLOSE"
  shows "(\<exists>c'. PackageConnectionSendDrive now c = Some c' \<and> drive_ok S c c' \<and> drive_done c') \<or>
    (\<exists>n d. drive_rounds n now c = Some d \<and> drive_ok S c d \<and> stuck d)"
  using assms
proof (induction "work c" arbitrary: c rule: less_induct)
  case less
  obtain more c1 where r: "send_round now c = Some (more, c1)" "drive_ok S c c1"
    "more \<longrightarrow> work c1 < work c \<or> stuck c" "\<not> more \<longrightarrow> pending (sendQueue c1) = 0 \<or> \<not> full_window c1"
    using round_spec [OF less.prems] by blast
  show ?case
  proof (cases "stuck c")
    case True
    then show ?thesis using drive_ok_refl [OF less.prems(1)] by (intro disjI2 exI [of _ 0]) auto
  next
    case False
    show ?thesis
    proof (cases more)
      case True
      then have "work c1 < work c" using r(3) False by simp
      then consider c' where "PackageConnectionSendDrive now c1 = Some c'" "drive_ok S c1 c'" "drive_done c'"
        | n d where "drive_rounds n now c1 = Some d" "drive_ok S c1 d" "stuck d"
        using less.hyps [of c1] drive_ok_state [OF r(2)] less.prems(2) by auto
      then show ?thesis
      proof cases
        case (1 c')
        then show ?thesis
          using r(1) True drive_ok_trans [OF r(2)] by (subst PackageConnectionSendDrive.simps) auto
      next
        case (2 n d)
        then have "drive_rounds (Suc n) now c = Some d" using r(1) True by simp
        then show ?thesis using 2 drive_ok_trans [OF r(2)] by blast
      qed
    next
      case False
      then show ?thesis
        using r by (subst PackageConnectionSendDrive.simps) (auto simp: drive_done_def)
    qed
  qed
qed

lemma stuck_never_returns:
  assumes "PackageConnectionSendDrive now c = Some c'"
  shows "send_inv S c \<longrightarrow> \<not> stuck c"
proof (rule PackageConnectionSendDrive.raw_induct [where P = "\<lambda>now c y. send_inv S c \<longrightarrow> \<not> stuck c", OF _ assms], intro impI notI)
  fix drive now c c'
  assume IH: "\<And>now c c'. drive now c = Some c' \<Longrightarrow> send_inv S c \<longrightarrow> \<not> stuck c"
    and body: "send_round now c \<bind> (\<lambda>(more, c). if more then drive now c else Some c) = Some c'"
    and inv: "send_inv S c" and st: "stuck c"
  obtain d where d: "send_round now c = Some (True, d)" "stuck d" "send_inv S d"
    using stuck_round [OF inv st] by blast
  then have "drive now d = Some c'" using body by simp
  then show False using IH d(2,3) by blast
qed

lemma rounds_return:
  assumes "drive_rounds n now c = Some d" and "PackageConnectionSendDrive now c = Some c'"
  shows "PackageConnectionSendDrive now d = Some c'"
  using assms
proof (induction n arbitrary: c)
  case (Suc n)
  obtain c1 where "send_round now c = Some (True, c1)" "drive_rounds n now c1 = Some d"
    using Suc.prems(1) by (auto split: Option.bind_splits if_splits)
  then show ?case
    using Suc.IH Suc.prems(2) by (subst (asm) PackageConnectionSendDrive.simps) simp
qed simp

lemma stuck_rounds:
  "send_inv S c \<Longrightarrow> stuck c \<Longrightarrow> \<exists>d ps. drive_rounds n now c = Some d \<and> stuck d \<and> length ps = n \<and>
     (\<forall>p\<in>set ps. payload p = None) \<and> pc_events d = pc_events c @ map PackageSent ps"
proof (induction n arbitrary: c)
  case (Suc n)
  obtain p c1 where r: "send_round now c = Some (True, c1)" "stuck c1" "send_inv S c1"
    "payload p = None" "pc_events c1 = pc_events c @ [PackageSent p]"
    using stuck_round [OF Suc.prems] by blast
  obtain d ps where "drive_rounds n now c1 = Some d" "stuck d" "length ps = n"
    "\<forall>p\<in>set ps. payload p = None" "pc_events d = pc_events c1 @ map PackageSent ps"
    using Suc.IH [OF r(3,2)] by blast
  then show ?case using r by (intro exI [of _ d] exI [of _ "p # ps"]) simp
qed simp

text \<open>
  Sending is calm while the peer has not closed and, once this side has, nothing is lost. A calm
  connection is never stuck.
\<close>

definition calm :: "PackageConnection \<Rightarrow> bool" where
  "calm c \<longleftrightarrow> \<not> sends_finack c \<and>
     (pc_state c = PACKAGE_CONNECTION_STATE_CLOSING \<longrightarrow>
        lostBlocks (sendQueue c) = [] \<and> sb_streamPos (sendQueue c) \<le> selfCloseStreamPos c)"

lemma calm_not_stuck: "send_inv S c \<Longrightarrow> calm c \<Longrightarrow> \<not> stuck c"
proof
  assume inv: "send_inv S c" and "calm c" "stuck c"
  then have c: "fin_due c" "pending (sendQueue c) \<noteq> 0" "\<not> sends_finack c"
    by (simp_all add: calm_def stuck_def must_send_def)
  then have "pc_state c = PACKAGE_CONNECTION_STATE_CLOSING" "selfCloseStreamPos c \<le> sc_streamPos (sendQueue c)"
    by (simp_all add: fin_due_def sends_fin_def Bdt_SessionDataPackageInit_def)
  then have "lostBlocks (sendQueue c) = []" "sb_streamPos (sendQueue c) \<le> sc_streamPos (sendQueue c)"
    using \<open>calm c\<close> by (auto simp: calm_def)
  moreover have "unSendLength (sendQueue c) = sb_streamPos (sendQueue c) - sc_streamPos (sendQueue c)"
    "sc_streamPos (sendQueue c) \<le> sb_streamPos (sendQueue c)"
    using inv by (simp_all add: send_inv_def stream_inv_def buffers_inv_def)
  ultimately show False using c(2) by (simp add: pending_def)
qed

lemma calm_drive: "calm c \<Longrightarrow> drive_ok S c d \<Longrightarrow> calm d"
  by (auto simp: calm_def drive_ok_def same_conn_def sends_finack_def)

lemma drive_calm:
  assumes "send_inv S c" and "pc_state c \<noteq> PACKAGE_CONNECTION_STATE_CLOSE" and "calm c"
  shows "\<exists>c'. PackageConnectionSendDrive now c = Some c' \<and> drive_ok S c c' \<and> drive_done c'"
  using drive_spec [OF assms(1,2), of now] calm_drive [OF assms(3)] calm_not_stuck drive_ok_state by blast


section \<open>Trying to send\<close>

lemma trySendCnt_irrelevant [simp]:
  "send_inv S (c\<lparr>trySendCnt := v\<rparr>) = send_inv S c" "package_ok S (c\<lparr>trySendCnt := v\<rparr>) p = package_ok S c p"
  "in_flight (c\<lparr>trySendCnt := v\<rparr>) = in_flight c" "full_window (c\<lparr>trySendCnt := v\<rparr>) = full_window c"
  "grant (c\<lparr>trySendCnt := v\<rparr>) = grant c" "calm (c\<lparr>trySendCnt := v\<rparr>) = calm c"
  by (simp_all add: send_inv_def package_ok_def in_flight_def full_window_def grant_def calm_def sends_finack_def split: option.splits)

lemma try_send_calm:
  assumes "send_inv S c" and "pc_state c \<noteq> PACKAGE_CONNECTION_STATE_CLOSE" and "calm c" and "trySendCnt c = 0"
  shows "\<exists>c'. PackageConnectionTrySendPackage now c = Some c' \<and> drive_ok S c c' \<and> drive_done c'"
proof -
  let ?c = "c\<lparr>trySendCnt := 1\<rparr>"
  have "send_inv S ?c" "pc_state ?c \<noteq> PACKAGE_CONNECTION_STATE_CLOSE" "calm ?c"
    using assms by simp_all
  then obtain c' where d: "PackageConnectionSendDrive now ?c = Some c'" "drive_ok S ?c c'" "drive_done c'"
    using drive_calm by blast
  have one: "trySendCnt c' = 1" using d(2) by (simp add: drive_ok_def same_conn_def)
  have "try_send_loop now 1 ?c = Some (c'\<lparr>trySendCnt := 0\<rparr>)"
    using d(1) one by (subst try_send_loop.simps) simp
  then have "PackageConnectionTrySendPackage now c = Some (c'\<lparr>trySendCnt := 0\<rparr>)"
    using assms(4) by (simp add: PackageConnectionTrySendPackage_def)
  moreover have "drive_ok S c (c'\<lparr>trySendCnt := 0\<rparr>)"
    using d(2) assms(4) by (simp add: drive_ok_def same_conn_def)
  moreover have "drive_done (c'\<lparr>trySendCnt := 0\<rparr>)"
    using d(3) by (simp add: drive_done_def)
  ultimately show ?thesis by blast
qed

lemma rounds_spec:
  "send_inv S c \<Longrightarrow> pc_state c \<noteq> PACKAGE_CONNECTION_STATE_CLOSE \<Longrightarrow> drive_rounds n now c = Some d \<Longrightarrow> drive_ok S c d"
proof (induction n arbitrary: c)
  case 0
  then show ?case by (simp add: drive_ok_refl)
next
  case (Suc n)
  obtain more c1 where r: "send_round now c = Some (more, c1)" "drive_ok S c c1"
    using round_spec [OF Suc.prems(1,2)] by blast
  then have "drive_rounds n now c1 = Some d" using Suc.prems(3) by (cases more) simp_all
  then show ?case
    using Suc.IH [of c1] drive_ok_state [OF r(2)] Suc.prems(2) drive_ok_trans [OF r(2)] by auto
qed

section \<open>Properties\<close>

text \<open>
  C3. In an open connection, while the peer has not closed and, once this side is closing, nothing is
  lost (\<open>calm\<close>), \<open>PackageConnectionTrySendPackage\<close> returns: each round of its loop sends bytes that were waiting or
  uses up the wish to acknowledge. It returns only when nothing is left to send or the window has
  no room for a whole package.
\<close>

theorem try_send_terminates:
  assumes "send_inv S c" and "pc_state c \<noteq> PACKAGE_CONNECTION_STATE_CLOSE" and "calm c" and "trySendCnt c = 0"
  shows "\<exists>c'. PackageConnectionTrySendPackage now c = Some c' \<and> send_inv S c' \<and> trySendCnt c' = 0 \<and>
    (pending (sendQueue c') = 0 \<or> grant c' \<noteq> unat (cc_mtu (cc c')))"
  using try_send_calm [OF assms, of now] assms(4)
  by (auto simp: drive_ok_def same_conn_def drive_done_def full_window_def)


text \<open>
  C13. The loop fails to return exactly when it runs into a stuck state, where \<open>FIN\<close> or \<open>FINACK\<close>
  is due, something is left to send, and the window has room for less than a whole package.
\<close>

theorem drive_diverges_iff_stuck:
  assumes "send_inv S c" and "pc_state c \<noteq> PACKAGE_CONNECTION_STATE_CLOSE"
  shows "PackageConnectionSendDrive now c = None \<longleftrightarrow> (\<exists>n d. drive_rounds n now c = Some d \<and> stuck d)"
proof
  assume "PackageConnectionSendDrive now c = None"
  then show "\<exists>n d. drive_rounds n now c = Some d \<and> stuck d"
    using drive_spec [OF assms, of now] by auto
next
  assume "\<exists>n d. drive_rounds n now c = Some d \<and> stuck d"
  then obtain n d where d: "drive_rounds n now c = Some d" "stuck d" by blast
  have "send_inv S d" using rounds_spec [OF assms d(1)] drive_ok_state by blast
  then show "PackageConnectionSendDrive now c = None"
    using d rounds_return [OF d(1)] stuck_never_returns by (metis not_None_eq)
qed

text \<open>
  C14. A stuck connection floods the network: the loop never returns, and round after round it sends
  another package without payload.
\<close>

theorem stuck_floods:
  assumes "send_inv S c" and "stuck c"
  shows "PackageConnectionSendDrive now c = None \<and>
    (\<forall>n. \<exists>d ps. drive_rounds n now c = Some d \<and> length ps = n \<and> (\<forall>p\<in>set ps. payload p = None) \<and>
       pc_events d = pc_events c @ map PackageSent ps)"
  using stuck_rounds [OF assms, of _ now] stuck_never_returns [of now c] assms by (metis not_None_eq)

section \<open>Two connections in the middle of a transfer\<close>

definition example_config :: BdtPackageConnectionConfig where
  "example_config = \<lparr>cfg_resendInterval = 500, cfg_recvTimeout = 200, cfg_msl = 20000, cfg_mtu = 1400, cfg_mss = 1300,
     cfg_halfOpen = False\<rparr>"

definition example_sender :: PackageConnection where
  "example_sender = (PackageConnectionCreate example_config 7)\<lparr>sendQueue := example_queue\<rparr>"

text \<open>The peer has sent \<open>FIN\<close> without data, and 998 bytes are free in the window.\<close>

definition example_stuck :: PackageConnection where
  "example_stuck = example_sender\<lparr>remoteCloseStreamPos := 1, cc := (cc example_sender)\<lparr>wnd := 1000\<rparr>\<rparr>"

lemma example_sender_fields:
  "sendQueue example_sender = example_queue" "recvQueue example_sender = RecvQueueCreate 1"
  "cc example_sender = LedbatCcNew 1400 1300" "pc_config example_sender = example_config"
  "pc_state example_sender = PACKAGE_CONNECTION_STATE_ESTABLISH" "trySendCnt example_sender = 0"
  "remoteCloseStreamPos example_sender = 0" "pc_events example_sender = []"
  by (simp_all add: example_sender_def PackageConnectionCreate_def PackageConnectionBeginRtoTimer_def example_config_def)

lemma example_queue_sizes:
  "nat_sizes (flightBlocks example_queue) = 2" "nat_sizes (lostBlocks example_queue) = 2"
  "unSendLength example_queue = 3" "flight example_queue = 2" "queue_mtu example_queue = 1400"
  "mtu_blocks example_queue"
  by (simp_all add: example_queue_def example_flight_def example_lost_def block_size_def mtu_blocks_def)

lemma example_send_inv: "send_inv example_bytes example_sender" "send_inv example_bytes example_stuck"
  using example_inv example_queue_sizes
  by (simp_all add: send_inv_def example_sender_fields example_stuck_def LedbatCcNew_def example_config_def
      rinv_def blocks_ok_def RecvQueueCreate_def)

lemma example_calm: "calm example_sender"
  by (simp add: calm_def sends_finack_def example_sender_fields RecvQueueCreate_def)

lemma example_is_stuck: "stuck example_stuck"
  by (simp add: stuck_def example_stuck_def example_sender_fields grant_def full_window_def pending_def
      example_queue_sizes LedbatCcNew_def must_send_def sends_finack_def RecvQueueCreate_def)

theorem try_send_terminates_witness:
  "\<exists>c'. PackageConnectionTrySendPackage 100 example_sender = Some c' \<and> trySendCnt c' = 0"
  using try_send_terminates [OF example_send_inv(1) _ example_calm, of 100] by (auto simp: example_sender_fields)


theorem drive_diverges_iff_stuck_witness:
  "PackageConnectionSendDrive 100 example_stuck = None"
proof -
  have "drive_rounds 0 100 example_stuck = Some example_stuck" by simp
  then show ?thesis
    using drive_diverges_iff_stuck [OF example_send_inv(2), of 100] example_is_stuck
    by (metis stuck_def)
qed

theorem stuck_floods_witness:
  "\<exists>d ps. drive_rounds 1000 100 example_stuck = Some d \<and> length ps = 1000 \<and> pc_events d = map PackageSent ps"
proof -
  have "pc_events example_stuck = []" by (simp add: example_stuck_def example_sender_fields)
  then show ?thesis using stuck_floods [OF example_send_inv(2) example_is_stuck, of 100] by (metis append_Nil)
qed

end
