(* ===== verification/PackageClose.thy ===== *)
theory PackageClose
  imports PackageSend
begin

text \<open>
  Closing a package connection. \<open>conn_step\<close> is one operation of the application, one package from
  the peer or one timer that fires; \<open>close_edge\<close> is the diagram of the close state machine, as the
  comments of the protocol draw it after TCP. Every step but a reset stays on the diagram, which
  has two ways out; the diagram and the state of the connection agree, and a closed connection stays
  closed and silent.
\<close>

section \<open>The diagram\<close>

inductive close_edge :: "PackageConnectionCloseSubState \<Rightarrow> PackageConnectionCloseSubState \<Rightarrow> bool" where
  send_fin: "close_edge PACKAGE_CONNECTION_CLOSE_SUBSTATE_NONE PACKAGE_CONNECTION_CLOSE_SUBSTATE_FIN1"
| recv_fin: "close_edge PACKAGE_CONNECTION_CLOSE_SUBSTATE_NONE PACKAGE_CONNECTION_CLOSE_SUBSTATE_WAITCLOSE"
| answer_fin: "close_edge PACKAGE_CONNECTION_CLOSE_SUBSTATE_WAITCLOSE PACKAGE_CONNECTION_CLOSE_SUBSTATE_LASTACK"
| both_fin: "close_edge PACKAGE_CONNECTION_CLOSE_SUBSTATE_FIN1 PACKAGE_CONNECTION_CLOSE_SUBSTATE_CLOSING"
| fin_acked: "close_edge PACKAGE_CONNECTION_CLOSE_SUBSTATE_FIN1 PACKAGE_CONNECTION_CLOSE_SUBSTATE_FIN2"
| fin_after_ack: "close_edge PACKAGE_CONNECTION_CLOSE_SUBSTATE_FIN2 PACKAGE_CONNECTION_CLOSE_SUBSTATE_TIMEWAIT"
| ack_after_fin: "close_edge PACKAGE_CONNECTION_CLOSE_SUBSTATE_CLOSING PACKAGE_CONNECTION_CLOSE_SUBSTATE_TIMEWAIT"
| last_acked: "close_edge PACKAGE_CONNECTION_CLOSE_SUBSTATE_LASTACK PACKAGE_CONNECTION_CLOSE_SUBSTATE_CLOSED"
| waited: "close_edge PACKAGE_CONNECTION_CLOSE_SUBSTATE_TIMEWAIT PACKAGE_CONNECTION_CLOSE_SUBSTATE_CLOSED"

inductive_cases close_edgeE: "close_edge s t"
inductive_simps close_edge_into_closed: "close_edge s PACKAGE_CONNECTION_CLOSE_SUBSTATE_CLOSED"
inductive_simps close_edge_from_closed: "close_edge PACKAGE_CONNECTION_CLOSE_SUBSTATE_CLOSED s"

abbreviation close_path :: "PackageConnectionCloseSubState \<Rightarrow> PackageConnectionCloseSubState \<Rightarrow> bool" where
  "close_path \<equiv> close_edge\<^sup>*\<^sup>*"

text \<open>The edges taken by sending \<open>FIN\<close>.\<close>

definition fin_edge :: "PackageConnectionCloseSubState \<Rightarrow> PackageConnectionCloseSubState \<Rightarrow> bool" where
  "fin_edge s t \<longleftrightarrow>
     (s = PACKAGE_CONNECTION_CLOSE_SUBSTATE_NONE \<and> t = PACKAGE_CONNECTION_CLOSE_SUBSTATE_FIN1) \<or>
     (s = PACKAGE_CONNECTION_CLOSE_SUBSTATE_WAITCLOSE \<and> t = PACKAGE_CONNECTION_CLOSE_SUBSTATE_LASTACK)"

section \<open>Steps\<close>

text \<open>The callback that a timer helper runs.\<close>

definition running :: "(PackageTimer \<times> u32) Bdt_TimerHelper \<Rightarrow> PackageTimer option" where
  "running t = map_option fst (timerInstance t)"

inductive conn_step :: "PackageConnection \<Rightarrow> PackageConnection \<Rightarrow> bool" where
  send: "PackageConnectionSend now bytes len cb c = Some (r, c') \<Longrightarrow> conn_step c c'"
| recv: "PackageConnectionRecv data mem len cb c = (r, c') \<Longrightarrow> conn_step c c'"
| push: "PackageConnectionPushPackage rnd now p c = Some (r, c') \<Longrightarrow> conn_step c c'"
| ackack: "PackageConnectionSendAckAck now c = Some (r, c') \<Longrightarrow> conn_step c c'"
| close: "PackageConnectionClose now c = Some (r, c') \<Longrightarrow> conn_step c c'"
| reset: "PackageConnectionReset c = (r, c') \<Longrightarrow> conn_step c c'"
| fin_timer: "running (closeTimer c) = Some FinTimer \<Longrightarrow> PackageConnectionFinTimerCallback now c = Some c' \<Longrightarrow> conn_step c c'"
| timewait_timer: "running (closeTimer c) = Some TimewaitTimer \<Longrightarrow>
    PackageConnectionTimewaitTimerCallback c = c' \<Longrightarrow> conn_step c c'"
| rto_timer: "running (rtoTimer c) = Some RtoTimer \<Longrightarrow> PackageConnectionRtoTimerCallback now c = Some c' \<Longrightarrow> conn_step c c'"
| recv_timer: "running (recvTimer c) = Some RecvTimer \<Longrightarrow> PackageConnectionRecvTimerCallback c = Some c' \<Longrightarrow> conn_step c c'"

section \<open>The invariant\<close>

definition fin_was_sent :: "PackageConnectionCloseSubState \<Rightarrow> bool" where
  "fin_was_sent s \<longleftrightarrow> s \<in> {PACKAGE_CONNECTION_CLOSE_SUBSTATE_FIN1, PACKAGE_CONNECTION_CLOSE_SUBSTATE_FIN2,
     PACKAGE_CONNECTION_CLOSE_SUBSTATE_CLOSING, PACKAGE_CONNECTION_CLOSE_SUBSTATE_TIMEWAIT,
     PACKAGE_CONNECTION_CLOSE_SUBSTATE_LASTACK}"

definition fin_unanswered :: "PackageConnectionCloseSubState \<Rightarrow> bool" where
  "fin_unanswered s \<longleftrightarrow> s \<in> {PACKAGE_CONNECTION_CLOSE_SUBSTATE_FIN1, PACKAGE_CONNECTION_CLOSE_SUBSTATE_CLOSING,
     PACKAGE_CONNECTION_CLOSE_SUBSTATE_LASTACK}"

definition close_inv :: "PackageConnection \<Rightarrow> bool" where
  "close_inv c \<longleftrightarrow>
     (pc_state c = PACKAGE_CONNECTION_STATE_CLOSE \<longleftrightarrow> closeSubState c = PACKAGE_CONNECTION_CLOSE_SUBSTATE_CLOSED) \<and>
     (fin_was_sent (closeSubState c) \<longrightarrow> pc_state c = PACKAGE_CONNECTION_STATE_CLOSING) \<and>
     (running (closeTimer c) = Some FinTimer \<longrightarrow> fin_unanswered (closeSubState c)) \<and>
     (running (closeTimer c) = Some TimewaitTimer \<longrightarrow> closeSubState c = PACKAGE_CONNECTION_CLOSE_SUBSTATE_TIMEWAIT) \<and>
     (pc_state c = PACKAGE_CONNECTION_STATE_CLOSE \<longrightarrow> running (closeTimer c) = None \<and> running (rtoTimer c) = None)"

text \<open>A step forward: along the diagram, and no package once closed.\<close>

definition advances :: "PackageConnection \<Rightarrow> PackageConnection \<Rightarrow> bool" where
  "advances c c' \<longleftrightarrow> close_path (closeSubState c) (closeSubState c') \<and>
     (pc_state c = PACKAGE_CONNECTION_STATE_CLOSE \<longrightarrow> pc_state c' = PACKAGE_CONNECTION_STATE_CLOSE) \<and>
     (\<exists>es. pc_events c' = pc_events c @ es \<and>
        (pc_state c = PACKAGE_CONNECTION_STATE_CLOSE \<longrightarrow> (\<forall>p. PackageSent p \<notin> set es)))"

lemma advances_refl [simp]: "advances c c"
  by (simp add: advances_def)

lemma advances_trans:
  assumes "advances c d" and "advances d e"
  shows "advances c e"
proof -
  obtain es fs where "pc_events d = pc_events c @ es" "pc_events e = pc_events c @ es @ fs"
    "pc_state c = PACKAGE_CONNECTION_STATE_CLOSE \<longrightarrow> (\<forall>p. PackageSent p \<notin> set (es @ fs))"
    using assms by (auto simp: advances_def)
  then have "\<exists>gs. pc_events e = pc_events c @ gs \<and>
      (pc_state c = PACKAGE_CONNECTION_STATE_CLOSE \<longrightarrow> (\<forall>p. PackageSent p \<notin> set gs))" by blast
  then show ?thesis
    using assms by (auto simp: advances_def)
qed

text \<open>
  Keeping the invariant while advancing; the two are proved together. Most operations cannot close
  the connection (\<open>good_step\<close>); the others may be the last step (\<open>last_step\<close>).
\<close>

definition last_step :: "PackageConnection \<Rightarrow> PackageConnection \<Rightarrow> bool" where
  "last_step c c' \<longleftrightarrow> (close_inv c \<longrightarrow> close_inv c' \<and> advances c c')"

definition good_step :: "PackageConnection \<Rightarrow> PackageConnection \<Rightarrow> bool" where
  "good_step c c' \<longleftrightarrow> (close_inv c \<longrightarrow> close_inv c' \<and> advances c c' \<and>
     (pc_state c' = PACKAGE_CONNECTION_STATE_CLOSE \<longrightarrow> pc_state c = PACKAGE_CONNECTION_STATE_CLOSE))"

lemma good_step_last: "good_step c c' \<Longrightarrow> last_step c c'"
  by (simp add: good_step_def last_step_def)

lemma good_step_trans: "good_step c d \<Longrightarrow> good_step d e \<Longrightarrow> good_step c e"
  by (auto simp: good_step_def intro: advances_trans)

lemma last_step_trans: "last_step c d \<Longrightarrow> last_step d e \<Longrightarrow> last_step c e"
  by (auto simp: last_step_def intro: advances_trans)

lemma good_step_refl [simp]: "good_step c c"
  by (simp add: good_step_def)

text \<open>Updates that do not touch what the invariant is about.\<close>

definition same_close :: "PackageConnection \<Rightarrow> PackageConnection \<Rightarrow> bool" where
  "same_close c c' \<longleftrightarrow> pc_state c' = pc_state c \<and> closeSubState c' = closeSubState c \<and> closeTimer c' = closeTimer c \<and>
     rtoTimer c' = rtoTimer c \<and> (\<exists>es. pc_events c' = pc_events c @ es \<and> (\<forall>p. PackageSent p \<notin> set es))"

lemma same_close_good:
  assumes "same_close c c'"
  shows "good_step c c'"
proof -
  have "close_inv c' = close_inv c" using assms by (simp add: same_close_def close_inv_def)
  moreover have "advances c c'" "pc_state c' = pc_state c" using assms by (auto simp: same_close_def advances_def)
  ultimately show ?thesis by (simp add: good_step_def)
qed

lemma same_closeI:
  "pc_state c' = pc_state c \<Longrightarrow> closeSubState c' = closeSubState c \<Longrightarrow> closeTimer c' = closeTimer c \<Longrightarrow>
   rtoTimer c' = rtoTimer c \<Longrightarrow> pc_events c' = pc_events c \<Longrightarrow> good_step c c'"
  by (rule same_close_good) (auto simp: same_close_def)

section \<open>Timers\<close>

lemma running_simps [simp]:
  "running (stop_timer t) = None" "running Bdt_TimerHelperInit = None"
  by (simp_all add: running_def stop_timer_def Bdt_TimerHelperStop_def Bdt_TimerHelperInit_def)

lemma running_start: "running (start_timer k n t) \<in> {running t, Some k}"
  by (auto simp: running_def start_timer_def Bdt_TimerHelperStart_def start_reserve_def start_commit_def)

lemma running_restart: "running (restart_timer k n t) \<in> {None, Some k}"
  by (auto simp: running_def restart_timer_def Bdt_TimerHelperRestart_def Bdt_TimerHelperStop_def
      Bdt_TimerHelperStart_def start_reserve_def start_commit_def Let_def)

section \<open>Sending\<close>

lemma fill_payload_frame:
  assumes "fill_payload now len p c = Some (r, p', c')"
  shows "\<exists>q. c' = c\<lparr>sendQueue := q\<rparr>"
  using assms by (auto simp: fill_payload_def split: Option.bind_splits if_splits prod.splits)

lemma finack_is_not_fin [simp]:
  "has_flag (f OR BDT_SESSIONDATA_PACKAGE_FLAG_FINACK) BDT_SESSIONDATA_PACKAGE_FLAG_FIN = has_flag f BDT_SESSIONDATA_PACKAGE_FLAG_FIN"
  by (simp add: has_flag_def flag_def bit.conj_disj_distrib2)

lemma fill_payload_flags:
  assumes "fill_payload now len p c = Some (r, p', c')"
  shows "cmdflags p' = cmdflags p"
  using assms by (auto simp: fill_payload_def split: Option.bind_splits if_splits prod.splits)

lemma set_ack_flags: "set_ack p c = Some p' \<Longrightarrow> cmdflags p' = cmdflags p"
  by (auto simp: set_ack_def split: Option.bind_splits)

lemma add_flags_frame:
  assumes "add_flags r p c = Some (r', p', c')"
  shows "\<exists>l. c' = c\<lparr>cc := l\<rparr>"
    and "has_flag (cmdflags p') BDT_SESSIONDATA_PACKAGE_FLAG_FIN \<longrightarrow>
      has_flag (cmdflags p) BDT_SESSIONDATA_PACKAGE_FLAG_FIN \<or> pc_state c = PACKAGE_CONNECTION_STATE_CLOSING"
proof -
  have "c' = c \<or> (\<exists>l. c' = c\<lparr>cc := l\<rparr>)"
    using assms by (auto simp: add_flags_def Let_def split: Option.bind_splits if_splits prod.splits)
  moreover have "c = c\<lparr>cc := cc c\<rparr>" by simp
  ultimately show "\<exists>l. c' = c\<lparr>cc := l\<rparr>" by metis
  show "has_flag (cmdflags p') BDT_SESSIONDATA_PACKAGE_FLAG_FIN \<longrightarrow>
      has_flag (cmdflags p) BDT_SESSIONDATA_PACKAGE_FLAG_FIN \<or> pc_state c = PACKAGE_CONNECTION_STATE_CLOSING"
  proof (cases "sends_fin p c")
    case True
    then show ?thesis by (simp add: sends_fin_def)
  next
    case False
    then show ?thesis
      using assms by (auto simp: add_flags_def Let_def dest!: set_ack_flags
        split: Option.bind_splits if_splits prod.splits)
  qed
qed

text \<open>What sending a package does to the state of the close.\<close>

definition sent_step :: "PackageConnection \<Rightarrow> PackageConnection \<Rightarrow> bool" where
  "sent_step c c' \<longleftrightarrow> pc_state c' = pc_state c \<and> rtoTimer c' = rtoTimer c \<and>
     (\<exists>ps. pc_events c' = pc_events c @ map PackageSent ps \<and> (pc_state c = PACKAGE_CONNECTION_STATE_CLOSE \<longrightarrow> ps = [])) \<and>
     (closeSubState c' = closeSubState c \<and> closeTimer c' = closeTimer c \<or>
      pc_state c = PACKAGE_CONNECTION_STATE_CLOSING \<and> fin_edge (closeSubState c) (closeSubState c') \<and>
      running (closeTimer c') \<in> {None, Some FinTimer})"

lemma sent_step_refl: "sent_step c c"
  by (auto simp: sent_step_def)

lemma sent_step_trans:
  assumes "sent_step c d" and "sent_step d e"
  shows "sent_step c e"
proof -
  obtain ps qs where "pc_events d = pc_events c @ map PackageSent ps" "pc_events e = pc_events c @ map PackageSent (ps @ qs)"
    "pc_state c = PACKAGE_CONNECTION_STATE_CLOSE \<longrightarrow> ps @ qs = []"
    using assms by (auto simp: sent_step_def)
  then have "\<exists>rs. pc_events e = pc_events c @ map PackageSent rs \<and> (pc_state c = PACKAGE_CONNECTION_STATE_CLOSE \<longrightarrow> rs = [])"
    by blast
  moreover have "\<not> (fin_edge s t \<and> fin_edge t u)" for s t u by (auto simp: fin_edge_def)
  ultimately show ?thesis using assms unfolding sent_step_def by metis
qed

lemma update_sent_step:
  "has_flag f BDT_SESSIONDATA_PACKAGE_FLAG_FIN \<longrightarrow> pc_state c = PACKAGE_CONNECTION_STATE_CLOSING \<Longrightarrow>
   sent_step c (UpdateCloseSubState_sent f c)"
  using running_restart [of FinTimer "cfg_resendInterval (pc_config c)" "closeTimer c"]
  by (auto simp: UpdateCloseSubState_sent_def PackageConnectionBeginFinTimer_def sent_step_def fin_edge_def)

lemma sent_step_frame:
  assumes "sent_step c d" and "pc_state e = pc_state d" and "closeSubState e = closeSubState d"
    and "closeTimer e = closeTimer d" and "rtoTimer e = rtoTimer d" and "pc_events e = pc_events d"
  shows "sent_step c e"
  using assms by (simp add: sent_step_def)

lemma pre_send_step:
  assumes "PackageConnectionOnPreSendPackage now p c = (p', c')"
    and "has_flag (cmdflags p) BDT_SESSIONDATA_PACKAGE_FLAG_FIN \<longrightarrow> pc_state c = PACKAGE_CONNECTION_STATE_CLOSING"
  shows "sent_step c c'"
  by (rule sent_step_frame [OF update_sent_step [OF assms(2)]])
    (use assms(1) in \<open>auto simp: PackageConnectionOnPreSendPackage_def note_payload_time_def Let_def split: prod.splits\<close>)

lemma send_package_step:
  "PackageConnectionSendPackage now p c = (r, c') \<Longrightarrow> sent_step c c'"
  by (auto simp: PackageConnectionSendPackage_def note_payload_time_def fire_def sent_step_def
      intro!: exI [of _ "[p]"] split: if_splits)

lemma send_round_step:
  assumes "send_round now c = Some (go, c')"
  shows "sent_step c c'"
proof -
  define len where "len = snd (LedbatCcTrySendPayload (SendQueueGetFilght (sendQueue c)) (cc c))"
  obtain r1 p1 c1 r p2 c2 where f: "fill_payload now len Bdt_SessionDataPackageInit c = Some (r1, p1, c1)"
    "add_flags r1 p1 c1 = Some (r, p2, c2)"
    using assms by (auto simp: send_round_def PackageConnectionFillPackage_def len_def [symmetric] Let_def
        split: Option.bind_splits)
  obtain q l where c2: "c2 = c\<lparr>sendQueue := q, cc := l\<rparr>" and c1: "pc_state c1 = pc_state c"
    using fill_payload_frame [OF f(1)] add_flags_frame(1) [OF f(2)] by auto
  have "\<not> has_flag (cmdflags p1) BDT_SESSIONDATA_PACKAGE_FLAG_FIN"
    using fill_payload_flags [OF f(1)] by (simp add: Bdt_SessionDataPackageInit_def has_flag_def)
  then have fin: "has_flag (cmdflags p2) BDT_SESSIONDATA_PACKAGE_FLAG_FIN \<longrightarrow> pc_state c2 = PACKAGE_CONNECTION_STATE_CLOSING"
    using add_flags_frame(2) [OF f(2)] c1 c2 by simp
  have 1: "sent_step c c2" unfolding c2 by (rule sent_step_frame [OF sent_step_refl]) simp_all
  obtain p3 c3 where pre: "PackageConnectionOnPreSendPackage now p2 c2 = (p3, c3)" by force
  obtain rs c4 where s: "PackageConnectionSendPackage now p3 c3 = (rs, c4)" by force
  have "c' = c2 \<or> c' = c4"
    using assms f pre s by (auto simp: send_round_def PackageConnectionFillPackage_def len_def [symmetric] Let_def
        split: if_splits)
  then show ?thesis
    using 1 sent_step_trans [OF 1] sent_step_trans [OF pre_send_step [OF pre fin] send_package_step [OF s]] by auto
qed

text \<open>
  What every round of the loop does, and what the count of waiting callers cannot undo, holds of
  \<open>PackageConnectionTrySendPackage\<close> as a whole, whenever it returns.
\<close>

locale sending =
  fixes step :: "PackageConnection \<Rightarrow> PackageConnection \<Rightarrow> bool"
  assumes step_trans: "step c d \<Longrightarrow> step d e \<Longrightarrow> step c e"
    and step_round: "send_round now c = Some (go, d) \<Longrightarrow> step c d"
    and step_count: "step c (c\<lparr>trySendCnt := v\<rparr>)"
begin

lemma after_drive:
  assumes "PackageConnectionSendDrive now c = Some c'"
  shows "step c c'"
proof (rule PackageConnectionSendDrive.raw_induct [where P = "\<lambda>now c y. step c y", OF _ assms])
  fix drive now c c'
  assume IH: "\<And>now c c'. drive now c = Some c' \<Longrightarrow> step c c'"
    and body: "send_round now c \<bind> (\<lambda>(more, c). if more then drive now c else Some c) = Some c'"
  then obtain go d where "send_round now c = Some (go, d)" "c' = d \<or> drive now d = Some c'"
    by (auto split: Option.bind_splits if_splits)
  then show "step c c'" using IH step_trans step_round by blast
qed

lemma after_loop:
  assumes "try_send_loop now v c = Some c'"
  shows "step c c'"
proof (rule try_send_loop.raw_induct [where P = "\<lambda>now v c y. step c y", OF _ assms])
  fix loop now v c c'
  assume IH: "\<And>now v c c'. loop now v c = Some c' \<Longrightarrow> step c c'"
    and body: "PackageConnectionSendDrive now c \<bind> (\<lambda>c. let v' = trySendCnt c - v; c = c\<lparr>trySendCnt := v'\<rparr>
      in if v' \<noteq> 0 then loop now v' c else Some c) = Some c'"
  then obtain d v' where d: "PackageConnectionSendDrive now c = Some d"
    "c' = d\<lparr>trySendCnt := v'\<rparr> \<or> loop now v' (d\<lparr>trySendCnt := v'\<rparr>) = Some c'"
    by (auto simp: Let_def split: Option.bind_splits if_splits)
  have "step c (d\<lparr>trySendCnt := v'\<rparr>)"
    using after_drive [OF d(1)] step_count step_trans by blast
  then show "step c c'" using d(2) IH step_trans by blast
qed

lemma after_try:
  assumes "PackageConnectionTrySendPackage now c = Some c'"
  shows "step c c'"
proof -
  let ?c = "c\<lparr>trySendCnt := trySendCnt c + 1\<rparr>"
  have "c' = ?c \<or> try_send_loop now (trySendCnt c + 1) ?c = Some c'"
    using assms by (auto simp: PackageConnectionTrySendPackage_def Let_def split: if_splits)
  then show ?thesis using step_count step_trans [OF step_count after_loop] by auto
qed

end

interpretation sent: sending sent_step
  by unfold_locales
    (blast intro: sent_step_trans send_round_step sent_step_frame [OF sent_step_refl], blast intro: send_round_step,
     rule sent_step_frame [OF sent_step_refl], simp_all)

lemmas try_send_step = sent.after_try

lemma fin_edge_edge: "fin_edge s t \<Longrightarrow> close_edge s t"
  by (auto simp: fin_edge_def intro: close_edge.intros)

lemma sent_step_good:
  assumes "sent_step c c'"
  shows "good_step c c'"
proof -
  obtain ps where e: "pc_events c' = pc_events c @ map PackageSent ps" "pc_state c = PACKAGE_CONNECTION_STATE_CLOSE \<longrightarrow> ps = []"
    using assms by (auto simp: sent_step_def)
  have s: "pc_state c' = pc_state c" "rtoTimer c' = rtoTimer c" using assms by (simp_all add: sent_step_def)
  consider "closeSubState c' = closeSubState c" "closeTimer c' = closeTimer c"
    | "pc_state c = PACKAGE_CONNECTION_STATE_CLOSING" "fin_edge (closeSubState c) (closeSubState c')"
      "running (closeTimer c') \<in> {None, Some FinTimer}"
    using assms by (auto simp: sent_step_def)
  then show ?thesis
  proof cases
    case 1
    then have "close_inv c' = close_inv c" using s by (simp add: close_inv_def)
    then show ?thesis using 1 s e by (auto simp: good_step_def advances_def)
  next
    case 2
    then have "fin_unanswered (closeSubState c')" "closeSubState c' \<noteq> PACKAGE_CONNECTION_CLOSE_SUBSTATE_CLOSED"
      by (auto simp: fin_edge_def fin_unanswered_def)
    then have "close_inv c'" using 2 s by (auto simp: close_inv_def)
    moreover have "advances c c'" using 2 s e fin_edge_edge [OF 2(2)] by (auto simp: advances_def)
    ultimately show ?thesis using s by (simp add: good_step_def)
  qed
qed


section \<open>The operations\<close>

lemma closing_flags [simp]:
  "((f :: u32) OR PACKAGE_CONNECTION_FLAG_CLOSE_SEND) AND
     (PACKAGE_CONNECTION_FLAG_CLOSE_RECV OR PACKAGE_CONNECTION_FLAG_CLOSE_SEND) \<noteq> 0"
  "((f :: u32) OR PACKAGE_CONNECTION_FLAG_CLOSE_RECV) AND
     (PACKAGE_CONNECTION_FLAG_CLOSE_RECV OR PACKAGE_CONNECTION_FLAG_CLOSE_SEND) \<noteq> 0"
  "((f :: u32) OR (PACKAGE_CONNECTION_FLAG_CLOSE_RECV OR PACKAGE_CONNECTION_FLAG_CLOSE_SEND)) AND
     (PACKAGE_CONNECTION_FLAG_CLOSE_RECV OR PACKAGE_CONNECTION_FLAG_CLOSE_SEND) \<noteq> 0"
proof -
  have "bit (((f :: u32) OR 4) AND (2 OR 4)) 2" "bit ((f OR 2) AND (2 OR 4)) 1"
    "bit ((f OR (2 OR 4)) AND (2 OR 4)) 1"
    by (simp_all add: bit_simps)
  then show "(f OR 4) AND (2 OR 4) \<noteq> 0" "(f OR 2) AND (2 OR 4) \<noteq> 0" "(f OR (2 OR 4)) AND (2 OR 4) \<noteq> 0"
    by (auto simp del: bit_and_iff bit_or_iff)
qed

text \<open>Finishing the close of a connection whose last state has been reached.\<close>

lemma finish_closed:
  assumes "pc_state c = PACKAGE_CONNECTION_STATE_CLOSING" and "closeSubState c = PACKAGE_CONNECTION_CLOSE_SUBSTATE_CLOSED"
    and "pc_flags c AND (PACKAGE_CONNECTION_FLAG_CLOSE_RECV OR PACKAGE_CONNECTION_FLAG_CLOSE_SEND) \<noteq> 0"
  shows "close_inv (PackageConnectionMaybeCloseFinish c)"
    and "closeSubState (PackageConnectionMaybeCloseFinish c) = PACKAGE_CONNECTION_CLOSE_SUBSTATE_CLOSED"
    and "pc_state (PackageConnectionMaybeCloseFinish c) = PACKAGE_CONNECTION_STATE_CLOSE"
    and "\<exists>es. pc_events (PackageConnectionMaybeCloseFinish c) = pc_events c @ es \<and> (\<forall>p. PackageSent p \<notin> set es)"
proof -
  let ?es = "map (\<lambda>b. RecvCallback (rbuf_callback b) [] 0) (rbuffers (recvQueue c)) @ map send_event (buffers (sendQueue c))"
  let ?c = "c\<lparr>pc_state := PACKAGE_CONNECTION_STATE_CLOSE, closeTimer := stop_timer (closeTimer c),
      rtoTimer := stop_timer (rtoTimer c), recvTimer := stop_timer (recvTimer c),
      recvQueue := (recvQueue c)\<lparr>rbuffers := []\<rparr>, sendQueue := (sendQueue c)\<lparr>buffers := []\<rparr>, pc_events := pc_events c @ ?es\<rparr>"
  have c: "PackageConnectionMaybeCloseFinish c = ?c"
    using assms by (simp add: PackageConnectionMaybeCloseFinish_def RecvQueuePopAllBuffers_def SendQueuePopAllBuffers_def fire_def)
  show "close_inv (PackageConnectionMaybeCloseFinish c)"
    unfolding c using assms(2) by (simp add: close_inv_def fin_was_sent_def)
  show "closeSubState (PackageConnectionMaybeCloseFinish c) = PACKAGE_CONNECTION_CLOSE_SUBSTATE_CLOSED"
    "pc_state (PackageConnectionMaybeCloseFinish c) = PACKAGE_CONNECTION_STATE_CLOSE"
    unfolding c using assms(2) by simp_all
  show "\<exists>es. pc_events (PackageConnectionMaybeCloseFinish c) = pc_events c @ es \<and> (\<forall>p. PackageSent p \<notin> set es)"
    unfolding c by (auto simp: send_event_def)
qed

text \<open>One edge of the diagram, in a connection that is being closed.\<close>

lemma edge_good:
  assumes "close_edge (closeSubState c) s" and "s \<noteq> PACKAGE_CONNECTION_CLOSE_SUBSTATE_CLOSED"
    and "fin_was_sent s \<longrightarrow> pc_state c = PACKAGE_CONNECTION_STATE_CLOSING"
    and "running t = Some FinTimer \<longrightarrow> fin_unanswered s"
    and "running t = Some TimewaitTimer \<longrightarrow> s = PACKAGE_CONNECTION_CLOSE_SUBSTATE_TIMEWAIT"
    and "pc_state c' = pc_state c" "closeSubState c' = s" "closeTimer c' = t" "rtoTimer c' = rtoTimer c"
      "pc_events c' = pc_events c"
  shows "good_step c c'"
proof -
  have "closeSubState c \<noteq> PACKAGE_CONNECTION_CLOSE_SUBSTATE_CLOSED"
    using assms(1) by (auto elim: close_edgeE)
  then show ?thesis
    using assms by (auto simp: good_step_def close_inv_def advances_def)
qed

lemma close_good:
  assumes "PackageConnectionClose now c = Some (r, c')"
  shows "good_step c c'"
proof (cases "pc_state c = PACKAGE_CONNECTION_STATE_CLOSE \<or> pc_state c = PACKAGE_CONNECTION_STATE_CLOSING")
  case True
  then show ?thesis using assms by (auto simp: PackageConnectionClose_def split: if_splits)
next
  case False
  define d where "d = c\<lparr>pc_state := (if pc_state c = PACKAGE_CONNECTION_STATE_ESTABLISH
      then PACKAGE_CONNECTION_STATE_CLOSING else pc_state c), selfCloseStreamPos := sb_streamPos (sendQueue c)\<rparr>"
  have d: "good_step c d"
    using False by (auto simp: d_def good_step_def close_inv_def advances_def)
  have "c' = d \<or> PackageConnectionTrySendPackage now d = Some c'"
    using assms False
    by (auto simp: PackageConnectionClose_def d_def SendQueueAddCloseOperation_def Let_def split: if_splits)
  then show ?thesis using d good_step_trans [OF d sent_step_good [OF try_send_step]] by auto
qed

lemma on_fin_good:
  assumes "on_fin now c = Some c'"
  shows "good_step c c'"
proof (cases "close_inv c")
  case inv: True
  show ?thesis
  proof (cases "closeSubState c")
    case PACKAGE_CONNECTION_CLOSE_SUBSTATE_NONE
    let ?d = "c\<lparr>closeSubState := PACKAGE_CONNECTION_CLOSE_SUBSTATE_WAITCLOSE\<rparr>"
    have "good_step c ?d"
      by (rule edge_good [where s = PACKAGE_CONNECTION_CLOSE_SUBSTATE_WAITCLOSE and t = "closeTimer c"])
        (use inv PACKAGE_CONNECTION_CLOSE_SUBSTATE_NONE in
          \<open>auto simp: close_inv_def fin_was_sent_def fin_unanswered_def intro: close_edge.intros\<close>)
    moreover have "c' = ?d \<or> (\<exists>r. PackageConnectionClose now ?d = Some (r, c'))"
      using assms PACKAGE_CONNECTION_CLOSE_SUBSTATE_NONE by (auto simp: on_fin_def Let_def split: if_splits)
    ultimately show ?thesis using good_step_trans close_good by blast
  next
    case PACKAGE_CONNECTION_CLOSE_SUBSTATE_FIN1
    then show ?thesis
      by (intro edge_good [where s = PACKAGE_CONNECTION_CLOSE_SUBSTATE_CLOSING and t = "closeTimer c"])
        (use inv assms in \<open>auto simp: on_fin_def close_inv_def fin_was_sent_def fin_unanswered_def intro: close_edge.intros\<close>)
  next
    case PACKAGE_CONNECTION_CLOSE_SUBSTATE_FIN2
    then show ?thesis
      using running_restart [of TimewaitTimer "2 * cfg_msl (pc_config c)" "stop_timer (closeTimer c)"]
      by (intro edge_good [where s = PACKAGE_CONNECTION_CLOSE_SUBSTATE_TIMEWAIT and t = "closeTimer c'"])
        (use inv assms in \<open>auto simp: on_fin_def close_inv_def fin_was_sent_def fin_unanswered_def
            PackageConnectionBeginTimewaitTimer_def intro: close_edge.intros\<close>)
  qed (use assms in \<open>simp_all add: on_fin_def\<close>)
qed (simp add: good_step_def)

lemma on_finack_good:
  assumes "closeSubState c \<noteq> PACKAGE_CONNECTION_CLOSE_SUBSTATE_LASTACK"
  shows "good_step c (on_finack c)"
proof (cases "close_inv c")
  case inv: True
  show ?thesis
  proof (cases "closeSubState c")
    case PACKAGE_CONNECTION_CLOSE_SUBSTATE_FIN1
    then show ?thesis
      by (intro edge_good [where s = PACKAGE_CONNECTION_CLOSE_SUBSTATE_FIN2 and t = "stop_timer (closeTimer c)"])
        (use inv in \<open>auto simp: on_finack_def close_inv_def fin_was_sent_def Let_def intro: close_edge.intros\<close>)
  next
    case PACKAGE_CONNECTION_CLOSE_SUBSTATE_CLOSING
    then show ?thesis
      using running_restart [of TimewaitTimer "2 * cfg_msl (pc_config c)" "stop_timer (closeTimer c)"]
      by (intro edge_good [where s = PACKAGE_CONNECTION_CLOSE_SUBSTATE_TIMEWAIT and t = "closeTimer (on_finack c)"])
        (use inv in \<open>auto simp: on_finack_def close_inv_def fin_was_sent_def Let_def
            PackageConnectionBeginTimewaitTimer_def intro: close_edge.intros\<close>)
  qed (use assms in \<open>simp_all add: on_finack_def\<close>)
qed (simp add: good_step_def)

lemma on_finack_last: "last_step c (on_finack c)"
proof (cases "close_inv c \<and> closeSubState c = PACKAGE_CONNECTION_CLOSE_SUBSTATE_LASTACK")
  case inv: True
  let ?d = "c\<lparr>pc_flags := pc_flags c OR PACKAGE_CONNECTION_FLAG_CLOSE_SEND, closeTimer := stop_timer (closeTimer c),
      closeSubState := PACKAGE_CONNECTION_CLOSE_SUBSTATE_CLOSED\<rparr>"
  have state: "pc_state c = PACKAGE_CONNECTION_STATE_CLOSING"
    using inv by (auto simp: close_inv_def fin_was_sent_def)
  have f: "on_finack c = PackageConnectionMaybeCloseFinish ?d"
    using inv by (simp add: on_finack_def Let_def)
  have "pc_state ?d = PACKAGE_CONNECTION_STATE_CLOSING" "closeSubState ?d = PACKAGE_CONNECTION_CLOSE_SUBSTATE_CLOSED"
    "pc_flags ?d AND (PACKAGE_CONNECTION_FLAG_CLOSE_RECV OR PACKAGE_CONNECTION_FLAG_CLOSE_SEND) \<noteq> 0"
    using state closing_flags(1) by simp_all
  note fin = finish_closed [OF this]
  have "close_path (closeSubState c) PACKAGE_CONNECTION_CLOSE_SUBSTATE_CLOSED"
    using inv by (auto intro: close_edge.intros)
  then show ?thesis
    using fin state unfolding last_step_def advances_def f by auto
next
  case False
  then show ?thesis using good_step_last [OF on_finack_good [of c]] by (auto simp: last_step_def)
qed

lemma timewait_last:
  assumes "running (closeTimer c) = Some TimewaitTimer"
  shows "last_step c (PackageConnectionTimewaitTimerCallback c)"
proof (cases "close_inv c")
  case inv: True
  let ?d = "c\<lparr>closeTimer := stop_timer (closeTimer c), pc_flags := pc_flags c OR PACKAGE_CONNECTION_FLAG_CLOSE_RECV,
      closeSubState := PACKAGE_CONNECTION_CLOSE_SUBSTATE_CLOSED\<rparr>"
  have sub: "closeSubState c = PACKAGE_CONNECTION_CLOSE_SUBSTATE_TIMEWAIT"
    using inv assms by (simp add: close_inv_def)
  then have state: "pc_state c = PACKAGE_CONNECTION_STATE_CLOSING"
    using inv by (simp add: close_inv_def fin_was_sent_def)
  have "pc_state ?d = PACKAGE_CONNECTION_STATE_CLOSING" "closeSubState ?d = PACKAGE_CONNECTION_CLOSE_SUBSTATE_CLOSED"
    "pc_flags ?d AND (PACKAGE_CONNECTION_FLAG_CLOSE_RECV OR PACKAGE_CONNECTION_FLAG_CLOSE_SEND) \<noteq> 0"
    using state closing_flags(2) by simp_all
  note fin = finish_closed [OF this]
  have "close_path (closeSubState c) PACKAGE_CONNECTION_CLOSE_SUBSTATE_CLOSED"
    using sub by (auto intro: close_edge.intros)
  then show ?thesis
    using fin state unfolding last_step_def advances_def PackageConnectionTimewaitTimerCallback_def by auto
qed (simp add: last_step_def)

lemma reset_spec:
  assumes "PackageConnectionReset c = (r, c')" and "close_inv c"
  shows "close_inv c' \<and> (c' = c \<or> pc_state c = PACKAGE_CONNECTION_STATE_ESTABLISH \<and> pc_state c' = PACKAGE_CONNECTION_STATE_CLOSE)"
proof (cases "pc_state c = PACKAGE_CONNECTION_STATE_ESTABLISH")
  case True
  let ?d = "c\<lparr>pc_state := PACKAGE_CONNECTION_STATE_CLOSING, closeSubState := PACKAGE_CONNECTION_CLOSE_SUBSTATE_CLOSED,
     pc_flags := pc_flags c OR (PACKAGE_CONNECTION_FLAG_CLOSE_RECV OR PACKAGE_CONNECTION_FLAG_CLOSE_SEND)\<rparr>"
  have "pc_state ?d = PACKAGE_CONNECTION_STATE_CLOSING" "closeSubState ?d = PACKAGE_CONNECTION_CLOSE_SUBSTATE_CLOSED"
    "pc_flags ?d AND (PACKAGE_CONNECTION_FLAG_CLOSE_RECV OR PACKAGE_CONNECTION_FLAG_CLOSE_SEND) \<noteq> 0"
    using closing_flags(3) [of "pc_flags c"] by simp_all
  note fin = finish_closed [OF this]
  show ?thesis using fin True assms(1) by (auto simp: PackageConnectionReset_def)
next
  case False
  then show ?thesis using assms by (simp add: PackageConnectionReset_def)
qed


section \<open>Packages and timers\<close>

lemma stopped_timers_inv:
  assumes "close_inv c"
  shows "close_inv (c\<lparr>closeTimer := stop_timer t\<rparr>)" and "close_inv (c\<lparr>rtoTimer := stop_timer t\<rparr>)"
proof -
  have f: "pc_state (c\<lparr>closeTimer := stop_timer t\<rparr>) = pc_state c"
    "closeSubState (c\<lparr>closeTimer := stop_timer t\<rparr>) = closeSubState c"
    "running (closeTimer (c\<lparr>closeTimer := stop_timer t\<rparr>)) = None" "rtoTimer (c\<lparr>closeTimer := stop_timer t\<rparr>) = rtoTimer c"
    and g: "pc_state (c\<lparr>rtoTimer := stop_timer t\<rparr>) = pc_state c"
    "closeSubState (c\<lparr>rtoTimer := stop_timer t\<rparr>) = closeSubState c"
    "running (rtoTimer (c\<lparr>rtoTimer := stop_timer t\<rparr>)) = None" "closeTimer (c\<lparr>rtoTimer := stop_timer t\<rparr>) = closeTimer c"
    by simp_all
  show "close_inv (c\<lparr>closeTimer := stop_timer t\<rparr>)"
    using assms unfolding close_inv_def f by blast
  show "close_inv (c\<lparr>rtoTimer := stop_timer t\<rparr>)"
    using assms unfolding close_inv_def g by blast
qed

lemma stop_rto_good: "good_step c (c\<lparr>rtoTimer := stop_timer t\<rparr>)"
  using stopped_timers_inv(2) by (simp add: good_step_def advances_def)

lemma try_send_good: "PackageConnectionTrySendPackage now c = Some c' \<Longrightarrow> good_step c c'"
  by (rule sent_step_good [OF try_send_step])

lemma good_then_same: "good_step c d \<Longrightarrow> same_close d e \<Longrightarrow> good_step c e"
  by (rule good_step_trans [OF _ same_close_good])

lemma same_then_good: "same_close c d \<Longrightarrow> good_step d e \<Longrightarrow> good_step c e"
  by (rule good_step_trans [OF same_close_good])

lemma estimate_same:
  assumes "PackageConnectionEstimateRtt now p c = Some c'"
  shows "same_close c c'"
  using assms
  by (auto simp: PackageConnectionEstimateRtt_def PackageConnectionEstimateRttFromLinuxTcp_def same_close_def Let_def
      split: Option.bind_splits if_splits)

lemma estimate_config:
  assumes "PackageConnectionEstimateRtt now p c = Some c'"
  shows "pc_config c' = pc_config c"
  using assms
  by (auto simp: PackageConnectionEstimateRtt_def PackageConnectionEstimateRttFromLinuxTcp_def Let_def
      split: Option.bind_splits if_splits)

text \<open>
  Only \<open>FINACK\<close> ends the close here, and only once \<open>FIN\<close> has been sent in answer to the peer's: before
  the package, or by \<open>PackageConnectionClose\<close> when the same package has brought the peer's \<open>FIN\<close>.
\<close>

lemma on_fin_lastack:
  assumes "on_fin now c = Some d" and "closeSubState d = PACKAGE_CONNECTION_CLOSE_SUBSTATE_LASTACK" and "close_inv c"
  shows "closeSubState c = PACKAGE_CONNECTION_CLOSE_SUBSTATE_LASTACK \<or>
    closeSubState c = PACKAGE_CONNECTION_CLOSE_SUBSTATE_NONE \<and> pc_state c = PACKAGE_CONNECTION_STATE_ESTABLISH \<and>
    \<not> cfg_halfOpen (pc_config c)"
proof (cases "closeSubState c = PACKAGE_CONNECTION_CLOSE_SUBSTATE_NONE")
  case True
  have closed: "pc_state c \<noteq> PACKAGE_CONNECTION_STATE_CLOSE" using assms(3) True by (simp add: close_inv_def)
  have no: False if "PackageConnectionTrySendPackage now e = Some d" "pc_state e = PACKAGE_CONNECTION_STATE_NONE"
    "closeSubState e = PACKAGE_CONNECTION_CLOSE_SUBSTATE_WAITCLOSE" for e
    using try_send_step [OF that(1)] that(2,3) assms(2) by (simp add: sent_step_def)
  show ?thesis
    using assms(1,2) True closed
    by (cases "pc_state c") (auto simp: on_fin_def PackageConnectionClose_def SendQueueAddCloseOperation_def Let_def
        dest: no split: if_splits)
next
  case False
  then show ?thesis
    using assms(1,2) by (auto simp: on_fin_def PackageConnectionBeginTimewaitTimer_def
        split: PackageConnectionCloseSubState.splits)
qed

definition answers_fin :: "u16 \<Rightarrow> PackageConnection \<Rightarrow> bool" where
  "answers_fin f c \<longleftrightarrow> has_flag f BDT_SESSIONDATA_PACKAGE_FLAG_FINACK \<and>
     (closeSubState c = PACKAGE_CONNECTION_CLOSE_SUBSTATE_LASTACK \<or>
      closeSubState c = PACKAGE_CONNECTION_CLOSE_SUBSTATE_NONE \<and> pc_state c = PACKAGE_CONNECTION_STATE_ESTABLISH \<and>
      has_flag f BDT_SESSIONDATA_PACKAGE_FLAG_FIN \<and> \<not> cfg_halfOpen (pc_config c))"

lemma update_recv_last:
  assumes "UpdateCloseSubState_recv now f c = Some c'"
  shows "last_step c c'" and "\<not> answers_fin f c \<Longrightarrow> good_step c c'"
proof -
  obtain d where d: "(if has_flag f BDT_SESSIONDATA_PACKAGE_FLAG_FIN then on_fin now c else Some c) = Some d"
    "c' = (if has_flag f BDT_SESSIONDATA_PACKAGE_FLAG_FINACK then on_finack d else d)"
    using assms by (auto simp: UpdateCloseSubState_recv_def split: Option.bind_splits)
  have 1: "good_step c d" using d(1) on_fin_good by (auto split: if_splits)
  then show "last_step c c'"
    using d(2) last_step_trans [OF good_step_last on_finack_last] good_step_last by auto
  assume no: "\<not> answers_fin f c"
  show "good_step c c'"
  proof (cases "close_inv c \<and> has_flag f BDT_SESSIONDATA_PACKAGE_FLAG_FINACK")
    case True
    have "closeSubState d \<noteq> PACKAGE_CONNECTION_CLOSE_SUBSTATE_LASTACK"
      using True no d(1) on_fin_lastack [of now c d] by (auto simp: answers_fin_def split: if_splits)
    then show ?thesis using d(2) True good_step_trans [OF 1 on_finack_good] by simp
  next
    case False
    then show ?thesis using 1 d(2) by (auto simp: good_step_def)
  qed
qed

lemma notify_sent_same: "same_close c (PackageConnectionNotifySendCompleteBuffers bs c)"
  by (auto simp: PackageConnectionNotifySendCompleteBuffers_def fire_def same_close_def send_event_def)

lemma notify_ready_same: "same_close c (PackageConnectionNotifyRecvReadyBuffers bs c)"
  by (auto simp: PackageConnectionNotifyRecvReadyBuffers_def fire_def same_close_def recv_event_def Let_def
      split: prod.splits)

lemma pop_sent_good: "good_step c (pop_sent c)"
proof -
  obtain ds q where pop: "SendQueuePopCompleteBuffers (sendQueue c) = (ds, q)" by force
  have "good_step c (c\<lparr>sendQueue := q\<rparr>)" by (rule same_closeI) simp_all
  then show ?thesis
    using pop good_then_same [OF _ notify_sent_same] by (simp add: pop_sent_def Let_def)
qed

lemma push_ack_good:
  assumes "push_ack rnd now p c = Some c'"
  shows "good_step c c'"
proof -
  obtain r n q where q: "SendQueueConfirmRange (ackStreamPos p) (sackArray p) (sendQueue c) = Some (r, n, q)"
    using assms by (auto simp: push_ack_def split: Option.bind_splits)
  let ?c = "c\<lparr>sendQueue := q\<rparr>"
  have c: "good_step c ?c" by (rule same_closeI) simp_all
  show ?thesis
  proof (cases "r = BFX_RESULT_SUCCESS")
    case False
    then show ?thesis using assms q c by (simp add: push_ack_def)
  next
    case True
    obtain d e where d: "d = ?c \<or> (\<exists>l. d = ?c\<lparr>cc := l\<rparr>)"
      "PackageConnectionTrySendPackage now d = Some e" "c' = (if n > 0 then pop_sent e else e)"
      using assms q True by (auto simp: push_ack_def Let_def split: Option.bind_splits if_splits)
    have "good_step ?c d" using d(1) by (auto intro!: same_closeI)
    then have "good_step c e" using c try_send_good [OF d(2)] by (blast intro: good_step_trans)
    moreover have "good_step e c'" using d(3) pop_sent_good by simp
    ultimately show ?thesis by (rule good_step_trans)
  qed
qed

lemma deliver_good:
  assumes "deliver_ready force c = Some c'"
  shows "good_step c c'"
proof -
  obtain ds q where q: "RecvQueuePopCompleteBuffers force (recvQueue c) = Some (ds, q)"
    "c' = (if ds \<noteq> [] then PackageConnectionNotifyRecvReadyBuffers ds (c\<lparr>recvQueue := q\<rparr>) else c\<lparr>recvQueue := q\<rparr>)"
    using assms by (auto simp: deliver_ready_def Let_def split: Option.bind_splits)
  have "good_step c (c\<lparr>recvQueue := q\<rparr>)" by (rule same_closeI) simp_all
  then show ?thesis using q(2) good_then_same [OF _ notify_ready_same] by (simp split: if_splits)
qed

lemma recv_timer_good: "good_step c (PackageConnectionBeginRecvTimer c)"
  by (rule same_closeI) (simp_all add: PackageConnectionBeginRecvTimer_def)

lemma save_payload_good:
  assumes "save_payload p c = Some (t, c')"
  shows "good_step c c'"
  using assms
  by (auto simp: save_payload_def Let_def split: option.splits if_splits intro!: same_closeI)

lemma answer_payload_good:
  assumes "answer_payload now p t c = Some c'"
  shows "good_step c c'"
proof (cases "t = RECV_PACKAGE_TYPE_NONE")
  case True
  then show ?thesis using assms by (simp add: answer_payload_def)
next
  case False
  obtain r l where l: "LedbatCcOnData (Some p) t (cc c) = (r, l)" by force
  have 1: "good_step c (c\<lparr>cc := l\<rparr>)" by (rule same_closeI) simp_all
  obtain d where d: "(if r = BFX_RESULT_SUCCESS then PackageConnectionTrySendPackage now (c\<lparr>cc := l\<rparr>)
      else Some (c\<lparr>cc := l\<rparr>)) = Some d"
    and c': "c' = d \<or> (\<exists>force. deliver_ready force (PackageConnectionBeginRecvTimer d) = Some c')"
    using assms l False by (auto simp: answer_payload_def Let_def split: Option.bind_splits if_splits)
  have "good_step (c\<lparr>cc := l\<rparr>) d" using d try_send_good by (auto split: if_splits)
  then have "good_step c d" using 1 by (blast intro: good_step_trans)
  moreover have "good_step d c'" using c' deliver_good recv_timer_good good_step_trans good_step_refl by blast
  ultimately show ?thesis by (rule good_step_trans)
qed

lemma push_payload_good:
  assumes "push_payload now p c = Some c'"
  shows "good_step c c'"
proof -
  obtain t d where "save_payload p c = Some (t, d)" "answer_payload now p t d = Some c'"
    using assms by (auto simp: push_payload_def split: Option.bind_splits)
  then show ?thesis using save_payload_good answer_payload_good good_step_trans by blast
qed

lemma ackack_good:
  assumes "PackageConnectionSendAckAck now c = Some (r, c')"
  shows "good_step c c'"
proof -
  let ?c = "c\<lparr>cc := snd (LedbatCcOnData None RECV_PACKAGE_TYPE_IN_ORDER (cc c))\<rparr>"
  have "good_step c ?c" by (rule same_closeI) simp_all
  moreover have "PackageConnectionTrySendPackage now ?c = Some c'"
    using assms by (auto simp: PackageConnectionSendAckAck_def Let_def)
  ultimately show ?thesis using try_send_good good_step_trans by blast
qed

lemma push_last:
  assumes "PackageConnectionPushPackage rnd now p c = Some (r, c')"
  shows "last_step c c' \<and> (\<not> answers_fin (cmdflags p) c \<longrightarrow> good_step c c')"
proof (cases "has_flag (cmdflags p) BDT_SESSIONDATA_PACKAGE_FLAG_SYN")
  case True
  then have "c' = c \<or> (\<exists>r. PackageConnectionSendAckAck now c = Some (r, c'))"
    using assms by (auto simp: PackageConnectionPushPackage_def split: if_splits)
  then show ?thesis using ackack_good good_step_last good_step_refl by auto
next
  case False
  let ?c = "c\<lparr>lastRecvAckTime := now\<rparr>"
  obtain d e f where s: "PackageConnectionEstimateRtt now p ?c = Some d" "UpdateCloseSubState_recv now (cmdflags p) d = Some e"
    "push_ack rnd now p e = Some f" "push_payload now p f = Some c'"
    using assms False by (auto simp: PackageConnectionPushPackage_def Let_def split: Option.bind_splits)
  have "good_step c ?c" by (rule same_closeI) simp_all
  then have 1: "good_step c d" using same_close_good [OF estimate_same [OF s(1)]] by (rule good_step_trans)
  have 2: "good_step e c'" using push_ack_good [OF s(3)] push_payload_good [OF s(4)] by (rule good_step_trans)
  have "answers_fin (cmdflags p) d = answers_fin (cmdflags p) c"
    using estimate_same [OF s(1)] estimate_config [OF s(1)] by (simp add: answers_fin_def same_close_def)
  then show ?thesis
    using update_recv_last [OF s(2)] 1 2 last_step_trans good_step_trans good_step_last by meson
qed

lemma send_good:
  assumes "PackageConnectionSend now bytes len cb c = Some (r, c')"
  shows "good_step c c'"
proof -
  obtain e q where q: "SendQueueAddBuffer bytes len cb (sendQueue c) = (e, q)" by force
  have "good_step c (c\<lparr>sendQueue := q\<rparr>)" by (rule same_closeI) simp_all
  moreover have "c' = c \<or> c' = c\<lparr>sendQueue := q\<rparr> \<or> PackageConnectionTrySendPackage now (c\<lparr>sendQueue := q\<rparr>) = Some c'"
    using assms q by (auto simp: PackageConnectionSend_def Let_def split: if_splits Option.bind_splits)
  ultimately show ?thesis using try_send_good good_step_trans by auto
qed

lemma recv_good: "PackageConnectionRecv data mem len cb c = (r, c') \<Longrightarrow> good_step c c'"
  by (rule same_closeI) (auto simp: PackageConnectionRecv_def split: if_splits prod.splits)

lemma sent_sub:
  "sent_step c c' \<Longrightarrow> fin_was_sent (closeSubState c) \<Longrightarrow> closeSubState c' = closeSubState c"
  by (auto simp: sent_step_def fin_edge_def fin_was_sent_def)

lemma fin_timer_good:
  assumes "running (closeTimer c) = Some FinTimer" and "PackageConnectionFinTimerCallback now c = Some c'"
  shows "good_step c c'"
proof (cases "close_inv c")
  case inv: True
  let ?c = "c\<lparr>closeTimer := stop_timer (closeTimer c)\<rparr>"
  have un: "fin_unanswered (closeSubState c)" using inv assms(1) by (simp add: close_inv_def)
  then have fin: "fin_was_sent (closeSubState c)" by (auto simp: fin_unanswered_def fin_was_sent_def)
  have "close_inv ?c" using inv by (rule stopped_timers_inv)
  then have 1: "good_step c ?c" by (simp add: good_step_def advances_def)
  have "\<not> closeSubState c \<in> {PACKAGE_CONNECTION_CLOSE_SUBSTATE_FIN2, PACKAGE_CONNECTION_CLOSE_SUBSTATE_TIMEWAIT,
      PACKAGE_CONNECTION_CLOSE_SUBSTATE_CLOSED}"
    using un by (auto simp: fin_unanswered_def)
  then obtain d where d: "PackageConnectionTrySendPackage now ?c = Some d" "c' = PackageConnectionBeginFinTimer d"
    using assms(2) unfolding PackageConnectionFinTimerCallback_def Let_def by auto
  have sub: "closeSubState d = closeSubState c" using sent_sub [OF try_send_step [OF d(1)]] fin by simp
  have 2: "good_step c d" using 1 try_send_good [OF d(1)] by (rule good_step_trans)
  then have inv_d: "close_inv d" using inv by (simp add: good_step_def)
  then have "pc_state d = PACKAGE_CONNECTION_STATE_CLOSING" using fin sub by (simp add: close_inv_def)
  then have "close_inv c'"
    using inv_d un sub d(2) running_restart [of FinTimer "cfg_resendInterval (pc_config d)" "closeTimer d"]
    by (simp add: close_inv_def PackageConnectionBeginFinTimer_def) (metis PackageTimer.distinct(1) option.distinct(1) option.inject)
  then have "good_step d c'"
    using d(2) by (simp add: good_step_def advances_def PackageConnectionBeginFinTimer_def)
  then show ?thesis using 2 good_step_trans by blast
qed (simp add: good_step_def)

lemma begin_rto_good: "pc_state c \<noteq> PACKAGE_CONNECTION_STATE_CLOSE \<Longrightarrow> good_step c (PackageConnectionBeginRtoTimer c)"
  by (simp add: good_step_def close_inv_def advances_def PackageConnectionBeginRtoTimer_def)

lemma resend_timed_out_step:
  assumes "resend_timed_out now c = Some c'"
  shows "sent_step c c'"
proof -
  obtain n q where q: "SendQueueMarkRangeTimeout False (ucast (rto c)) now (sendQueue c) = Some (n, q)"
    using assms by (auto simp: resend_timed_out_def split: Option.bind_splits)
  let ?c = "c\<lparr>sendQueue := q\<rparr>"
  have 1: "sent_step c ?c" by (rule sent_step_frame [OF sent_step_refl]) simp_all
  have "sent_step c (note_lost now d)" if "PackageConnectionTrySendPackage now ?c = Some d" for d
    by (rule sent_step_frame [OF sent_step_trans [OF 1 try_send_step [OF that]]]) (simp_all add: note_lost_def)
  then show ?thesis using assms q 1 by (auto simp: resend_timed_out_def Let_def split: if_splits)
qed

lemma rto_timer_good:
  assumes "PackageConnectionRtoTimerCallback now c = Some c'"
  shows "good_step c c'"
proof -
  let ?c = "c\<lparr>rtoTimer := stop_timer (rtoTimer c)\<rparr>"
  have 1: "good_step c ?c" by (rule stop_rto_good)
  show ?thesis
  proof (cases "pc_state c = PACKAGE_CONNECTION_STATE_CLOSE")
    case True
    then show ?thesis using assms 1 by (simp add: PackageConnectionRtoTimerCallback_def)
  next
    case False
    then obtain d where d: "resend_timed_out now ?c = Some d \<or> d = ?c\<lparr>lastRecvAckTime := 0\<rparr>"
      "c' = PackageConnectionBeginRtoTimer d"
      using assms by (auto simp: PackageConnectionRtoTimerCallback_def Let_def split: if_splits)
    have idle: "sent_step ?c (?c\<lparr>lastRecvAckTime := 0\<rparr>)" by (rule sent_step_frame [OF sent_step_refl]) simp_all
    have s: "sent_step ?c d" using d(1) resend_timed_out_step idle by blast
    then have "pc_state d \<noteq> PACKAGE_CONNECTION_STATE_CLOSE" using False by (simp add: sent_step_def)
    then show ?thesis
      using good_step_trans [OF 1 good_step_trans [OF sent_step_good [OF s] begin_rto_good]] d(2) by simp
  qed
qed

lemma recv_callback_good: "PackageConnectionRecvTimerCallback c = Some c' \<Longrightarrow> good_step c c'"
  using deliver_good by (auto simp: PackageConnectionRecvTimerCallback_def split: if_splits)


section \<open>Every step\<close>

lemma create_close_inv: "close_inv (PackageConnectionCreate cfg remote)"
  by (simp add: PackageConnectionCreate_def PackageConnectionBeginRtoTimer_def close_inv_def fin_was_sent_def)

text \<open>What may close a connection, apart from a reset: the time-wait timer, or the answer to \<open>FIN\<close>.\<close>

definition close_ends :: "PackageConnection \<Rightarrow> PackageConnection \<Rightarrow> bool" where
  "close_ends c c' \<longleftrightarrow>
     (closeSubState c = PACKAGE_CONNECTION_CLOSE_SUBSTATE_TIMEWAIT \<and> c' = PackageConnectionTimewaitTimerCallback c) \<or>
     (\<exists>rnd now p r. PackageConnectionPushPackage rnd now p c = Some (r, c') \<and> answers_fin (cmdflags p) c)"

lemma step_good:
  assumes "conn_step c c'" and "close_inv c"
  shows "close_inv c' \<and>
    (advances c c' \<and> (pc_state c' = PACKAGE_CONNECTION_STATE_CLOSE \<longrightarrow> pc_state c = PACKAGE_CONNECTION_STATE_CLOSE \<or> close_ends c c') \<or>
     pc_state c = PACKAGE_CONNECTION_STATE_ESTABLISH \<and> PackageConnectionReset c = (BFX_RESULT_SUCCESS, c'))"
  using assms(1)
proof (cases rule: conn_step.cases)
  case (reset r)
  then show ?thesis using reset_spec [OF reset assms(2)] by (auto simp: PackageConnectionReset_def)
next
  case send
  then show ?thesis using send_good assms(2) by (auto simp: good_step_def)
next
  case recv
  then show ?thesis using recv_good assms(2) by (auto simp: good_step_def)
next
  case (push rnd now p r)
  show ?thesis
  proof (cases "answers_fin (cmdflags p) c")
    case True
    then have "close_ends c c'" using push unfolding close_ends_def by blast
    then show ?thesis using push_last [OF push] assms(2) by (simp add: last_step_def)
  next
    case False
    then show ?thesis using push_last [OF push] assms(2) by (simp add: good_step_def)
  qed
next
  case ackack
  then show ?thesis using ackack_good assms(2) by (auto simp: good_step_def)
next
  case close
  then show ?thesis using close_good assms(2) by (auto simp: good_step_def)
next
  case fin_timer
  then show ?thesis using fin_timer_good assms(2) by (auto simp: good_step_def)
next
  case timewait_timer
  then have "closeSubState c = PACKAGE_CONNECTION_CLOSE_SUBSTATE_TIMEWAIT"
    using assms(2) by (simp add: close_inv_def)
  then show ?thesis
    using timewait_timer timewait_last [of c] assms(2) by (simp add: last_step_def close_ends_def)
next
  case rto_timer
  then show ?thesis using rto_timer_good assms(2) by (auto simp: good_step_def)
next
  case recv_timer
  then show ?thesis using recv_callback_good assms(2) by (auto simp: good_step_def)
qed

abbreviation connection_reaches :: "PackageConnection \<Rightarrow> PackageConnection \<Rightarrow> bool" where
  "connection_reaches \<equiv> conn_step\<^sup>*\<^sup>*"

lemma reachable_close_inv:
  "connection_reaches (PackageConnectionCreate cfg remote) c \<Longrightarrow> close_inv c"
  by (induction rule: rtranclp_induct) (use create_close_inv step_good in blast)+

lemma closed_advances:
  assumes "connection_reaches c d" and "close_inv c" and "pc_state c = PACKAGE_CONNECTION_STATE_CLOSE"
  shows "close_inv d \<and> advances c d"
  using assms(1)
proof (induction rule: rtranclp_induct)
  case base
  then show ?case using assms by simp
next
  case (step d e)
  then have "pc_state d = PACKAGE_CONNECTION_STATE_CLOSE" using assms(3) by (simp add: advances_def)
  moreover have "advances d e" using step_good [OF step.hyps(2)] step.IH calculation by auto
  ultimately show ?case using step_good [OF step.hyps(2)] step.IH advances_trans by blast
qed

section \<open>After a reset\<close>

lemma reset_established:
  assumes "pc_state c = PACKAGE_CONNECTION_STATE_ESTABLISH"
  shows "\<exists>c'. PackageConnectionReset c = (BFX_RESULT_SUCCESS, c') \<and> pc_state c' = PACKAGE_CONNECTION_STATE_CLOSE \<and>
    sendQueue c' = (sendQueue c)\<lparr>buffers := []\<rparr> \<and> cc c' = cc c \<and> pc_config c' = pc_config c \<and> trySendCnt c' = trySendCnt c"
  using assms closing_flags(3) [of "pc_flags c"]
  by (simp add: PackageConnectionReset_def PackageConnectionMaybeCloseFinish_def RecvQueuePopAllBuffers_def
      SendQueuePopAllBuffers_def fire_def)

lemma fill_dangling:
  assumes "lostBlocks q = []" and "unSendLength q \<noteq> 0" and "curr q = BufferAt a" and "buffers q = []"
  shows "SendQueueFillPayload now q = None"
  using assms by (simp add: SendQueueFillPayload_def SendQueueGenerateBlock_def buffer_at_def)

lemma try_send_dangling:
  assumes len: "(ucast (snd (LedbatCcTrySendPayload (flight (sendQueue c)) (cc c))) :: u32) = cfg_mtu (pc_config c)"
    and fill: "SendQueueFillPayload now (sendQueue c) = None" and cnt: "trySendCnt c = 0"
  shows "PackageConnectionTrySendPackage now c = None"
proof -
  let ?c = "c\<lparr>trySendCnt := 1\<rparr>"
  have "send_round now ?c = None"
    using len fill by (simp add: send_round_def PackageConnectionFillPackage_def fill_payload_def SendQueueGetFilght_def)
  then have "PackageConnectionSendDrive now ?c = None" by (subst PackageConnectionSendDrive.simps) simp
  then have "try_send_loop now 1 ?c = None" by (subst try_send_loop.simps) simp
  then show ?thesis using cnt by (simp add: PackageConnectionTrySendPackage_def)
qed

section \<open>Properties\<close>

text \<open>
  C16. However the application, the peer and the timers drive a connection: it is closed exactly when
  the close state machine has come to its end; once \<open>FIN\<close> has been sent the connection is closing;
  the \<open>FIN\<close> timer only runs while a \<open>FIN\<close> is not acknowledged, the other close timer only in the
  time-wait state, and neither it nor the retransmission timer runs in a closed connection.
\<close>

theorem close_machine_inv:
  assumes "connection_reaches (PackageConnectionCreate cfg remote) c"
  shows "close_inv c"
  using reachable_close_inv [OF assms] .

text \<open>
  C17. A successful reset takes an established connection to its end at once. Every other step keeps to
  the diagram, and closes the connection in two cases only (\<open>close_ends\<close>): the time-wait timer fires
  in \<open>TIMEWAIT\<close>, or a package with \<open>FINACK\<close> comes in in \<open>LASTACK\<close>. There is one short cut: a single package
  with both \<open>FIN\<close> and \<open>FINACK\<close> may close an established connection that is not half open, since
  \<open>PackageConnectionUpdateCloseSubState\<close> answers its \<open>FIN\<close> before it looks at its \<open>FINACK\<close>.
\<close>

theorem close_follows_diagram:
  assumes "connection_reaches (PackageConnectionCreate cfg remote) c" and "conn_step c c'"
  shows "(pc_state c = PACKAGE_CONNECTION_STATE_ESTABLISH \<and> PackageConnectionReset c = (BFX_RESULT_SUCCESS, c')) \<or>
    (close_path (closeSubState c) (closeSubState c') \<and>
     (pc_state c' = PACKAGE_CONNECTION_STATE_CLOSE \<longrightarrow> pc_state c = PACKAGE_CONNECTION_STATE_CLOSE \<or> close_ends c c'))"
  using step_good [OF assms(2) reachable_close_inv [OF assms(1)]] by (auto simp: advances_def)

text \<open>C18. A closed connection stays closed and never sends a package again.\<close>

theorem closed_stays_silent:
  assumes "connection_reaches (PackageConnectionCreate cfg remote) c" and "pc_state c = PACKAGE_CONNECTION_STATE_CLOSE"
    and "connection_reaches c d"
  shows "pc_state d = PACKAGE_CONNECTION_STATE_CLOSE \<and> closeSubState d = PACKAGE_CONNECTION_CLOSE_SUBSTATE_CLOSED \<and>
    (\<exists>es. pc_events d = pc_events c @ es \<and> (\<forall>p. PackageSent p \<notin> set es))"
  using closed_advances [OF assms(3) reachable_close_inv [OF assms(1)] assms(2)] assms(2)
  by (auto simp: advances_def close_inv_def)

text \<open>
  A reset gives the buffers back to the application and leaves the queue as it is otherwise:
  \<open>curr\<close> still points at a freed buffer. A second \<open>SYN\<close> with \<open>ACK\<close> of the peer, which the
  connection passes on whatever its state, then makes the sending loop cut a block from it.
\<close>

lemma reset_leaves_dangling_buffer:
  assumes "send_inv S c" and "pc_state c = PACKAGE_CONNECTION_STATE_ESTABLISH" and "full_window c"
    and "lostBlocks (sendQueue c) = []" and "unSendLength (sendQueue c) \<noteq> 0" and "trySendCnt c = 0"
    and "has_flag (cmdflags p) BDT_SESSIONDATA_PACKAGE_FLAG_SYN" and "has_flag (cmdflags p) BDT_SESSIONDATA_PACKAGE_FLAG_ACK"
  shows "\<exists>c'. PackageConnectionReset c = (BFX_RESULT_SUCCESS, c') \<and> SendQueueFillPayload now (sendQueue c') = None \<and>
    PackageConnectionPushPackage rnd now p c' = None"
proof -
  obtain c' where r: "PackageConnectionReset c = (BFX_RESULT_SUCCESS, c')" "sendQueue c' = (sendQueue c)\<lparr>buffers := []\<rparr>"
    "cc c' = cc c" "pc_config c' = pc_config c" "trySendCnt c' = 0"
    using reset_established [OF assms(2)] assms(6) by auto
  obtain a where "curr (sendQueue c) = BufferAt a"
    using curr_buffer [of S "sc_streamPos (sendQueue c)" "sendQueue c"] assms(1,5)
    by (auto simp: send_inv_def stream_inv_def)
  then have fill: "SendQueueFillPayload now (sendQueue c') = None"
    using assms(4,5) r(2) by (intro fill_dangling) simp_all
  let ?d = "c'\<lparr>cc := snd (LedbatCcOnData None RECV_PACKAGE_TYPE_IN_ORDER (cc c'))\<rparr>"
  have w: "wnd (cc ?d) = wnd (cc c)" "cc_mtu (cc ?d) = cc_mtu (cc c)"
    using r(3) by (simp_all add: LedbatCcOnData_def)
  have "unat (ucast (snd (LedbatCcTrySendPayload (flight (sendQueue ?d)) (cc ?d))) :: u32) = unat (cfg_mtu (pc_config c))"
    using assms(1,3) r(2) w by (simp add: ledbat.granted full_window_def grant_def send_inv_def)
  then have "(ucast (snd (LedbatCcTrySendPayload (flight (sendQueue ?d)) (cc ?d))) :: u32) = cfg_mtu (pc_config ?d)"
    using r(4) by (simp add: word_unat_eq_iff)
  then have "PackageConnectionTrySendPackage now ?d = None"
    using fill r(5) by (intro try_send_dangling) simp_all
  then have "PackageConnectionPushPackage rnd now p c' = None"
    using assms(7,8) by (simp add: PackageConnectionPushPackage_def PackageConnectionSendAckAck_def)
  then show ?thesis using r(1) fill by blast
qed

section \<open>A connection that is reset\<close>

definition example_reset :: PackageConnection where
  "example_reset = snd (PackageConnectionReset (PackageConnectionCreate example_config 7))"

lemma example_reset_step: "conn_step (PackageConnectionCreate example_config 7) example_reset"
  unfolding example_reset_def
  by (rule conn_step.reset [where r = "fst (PackageConnectionReset (PackageConnectionCreate example_config 7))"]) simp

lemma example_created: "pc_state (PackageConnectionCreate cfg 7) = PACKAGE_CONNECTION_STATE_ESTABLISH"
  by (simp add: PackageConnectionCreate_def PackageConnectionBeginRtoTimer_def)

lemma example_reset_closed: "pc_state example_reset = PACKAGE_CONNECTION_STATE_CLOSE"
  using reset_established [OF example_created [of example_config]] by (auto simp: example_reset_def)

theorem close_machine_inv_witness: "close_inv example_reset"
  using close_machine_inv [OF r_into_rtranclp [of conn_step, OF example_reset_step]] .

lemma example_close:
  "\<exists>c'. PackageConnectionClose 100 (PackageConnectionCreate example_config 7) = Some (BFX_RESULT_SUCCESS, c') \<and>
     pc_state c' = PACKAGE_CONNECTION_STATE_CLOSING"
proof -
  let ?c = "PackageConnectionCreate example_config 7"
  let ?d = "?c\<lparr>pc_state := PACKAGE_CONNECTION_STATE_CLOSING, selfCloseStreamPos := 1\<rparr>"
  have f: "sendQueue ?c = SendQueueCreate 1 1400" "recvQueue ?c = RecvQueueCreate 1" "cc ?c = LedbatCcNew 1400 1300"
    "pc_config ?c = example_config" "trySendCnt ?c = 0" "remoteCloseStreamPos ?c = 0"
    by (simp_all add: PackageConnectionCreate_def PackageConnectionBeginRtoTimer_def example_config_def)
  have mtu: "cfg_mtu example_config = 1400" by (simp add: example_config_def)
  have m: "queue_mtu (SendQueueCreate 1 1400) = 1400" "flightBlocks (SendQueueCreate 1 1400) = []"
    "lostBlocks (SendQueueCreate 1 1400) = []" by (simp_all add: SendQueueCreate_def)
  have "send_inv example_bytes ?d"
    using create_inv [of 1 example_bytes 1400]
    by (simp add: send_inv_def f mtu m mtu_blocks_def LedbatCcNew_def rinv_def blocks_ok_def RecvQueueCreate_def)
  moreover have "calm ?d" by (simp add: calm_def sends_finack_def f RecvQueueCreate_def SendQueueCreate_def)
  ultimately obtain c' where "PackageConnectionTrySendPackage 100 ?d = Some c'" "drive_ok example_bytes ?d c'"
    using try_send_calm [of example_bytes ?d 100] f(5) by auto
  then show ?thesis
    using f(1) example_created [of example_config]
    by (auto simp: PackageConnectionClose_def SendQueueAddCloseOperation_def SendQueueCreate_def drive_ok_def same_conn_def)
qed

theorem close_follows_diagram_witness:
  "\<exists>r c'. PackageConnectionClose 100 (PackageConnectionCreate example_config 7) = Some (r, c') \<and>
     close_path PACKAGE_CONNECTION_CLOSE_SUBSTATE_NONE (closeSubState c')"
proof -
  obtain c' where c: "PackageConnectionClose 100 (PackageConnectionCreate example_config 7) = Some (BFX_RESULT_SUCCESS, c')"
    "pc_state c' = PACKAGE_CONNECTION_STATE_CLOSING"
    using example_close by blast
  have "closeSubState (PackageConnectionCreate example_config 7) = PACKAGE_CONNECTION_CLOSE_SUBSTATE_NONE"
    by (simp add: PackageConnectionCreate_def PackageConnectionBeginRtoTimer_def)
  then show ?thesis
    using close_follows_diagram [OF rtranclp.rtrancl_refl conn_step.close [OF c(1)]] c
      reset_established [OF example_created [of example_config]] by auto
qed

theorem closed_stays_silent_witness:
  "\<exists>r d. PackageConnectionRecv (Some 1) [0] 1 (Some 2) example_reset = (r, d) \<and> pc_state d = PACKAGE_CONNECTION_STATE_CLOSE \<and>
     (\<exists>es. pc_events d = pc_events example_reset @ es \<and> (\<forall>p. PackageSent p \<notin> set es))"
proof -
  obtain r d where d: "PackageConnectionRecv (Some 1) [0] 1 (Some 2) example_reset = (r, d)" by force
  have "connection_reaches example_reset d" using conn_step.recv [OF d] by (rule r_into_rtranclp)
  then show ?thesis
    using closed_stays_silent [OF r_into_rtranclp [of conn_step, OF example_reset_step] example_reset_closed] d by blast
qed

definition example_unsent :: PackageConnection where
  "example_unsent = example_sender\<lparr>sendQueue := example_queue\<lparr>lostBlocks := [], lost := 0\<rparr>\<rparr>"

lemma example_unsent_inv: "send_inv example_bytes example_unsent"
proof -
  have "stream_inv example_bytes (example_queue\<lparr>lostBlocks := [], lost := 0\<rparr>)"
    using example_inv by (simp add: stream_inv_def blocks_inv_def buffers_inv_def apart_def)
  then show ?thesis
    using example_send_inv(1) by (simp add: send_inv_def example_unsent_def example_sender_fields mtu_blocks_def)
qed

lemma reset_leaves_dangling_buffer_witness:
  "\<exists>c'. PackageConnectionReset example_unsent = (BFX_RESULT_SUCCESS, c') \<and>
     PackageConnectionPushPackage (\<lambda>x. x) 100 (Bdt_SessionDataPackageInit\<lparr>cmdflags := 12\<rparr>) c' = None"
proof -
  have "full_window example_unsent" "lostBlocks (sendQueue example_unsent) = []" "unSendLength (sendQueue example_unsent) \<noteq> 0"
    "pc_state example_unsent = PACKAGE_CONNECTION_STATE_ESTABLISH" "trySendCnt example_unsent = 0"
    by (simp_all add: example_unsent_def full_window_def grant_def example_sender_fields example_queue_sizes LedbatCcNew_def)
  then show ?thesis
    using reset_leaves_dangling_buffer [OF example_unsent_inv, of "Bdt_SessionDataPackageInit\<lparr>cmdflags := 12\<rparr>" 100 "\<lambda>x. x"]
    by (auto simp: has_flag_def flag_def)
qed

end
