(* ===== verification/PackageRecv.thy ===== *)
theory PackageRecv
  imports PackageConnection RecvStream
begin

text \<open>
  What a package connection hands to the application, and its retransmission timeout. The buffers
  popped from the receive queue pass through a queue of ready buffers, because two threads may pop
  one after the other and notify in the opposite order; the application sees them in the order of
  the stream.
\<close>

section \<open>The ready queue\<close>

text \<open>Buffers that follow one another without overlap, none of them empty.\<close>

definition buf_before :: "RecvQueueRecvBuffer \<Rightarrow> RecvQueueRecvBuffer \<Rightarrow> bool" where
  "buf_before a b \<longleftrightarrow> rbuf_endStreamPos a \<le> rbuf_startStreamPos b"

definition buf_ok :: "RecvQueueRecvBuffer \<Rightarrow> bool" where
  "buf_ok b \<longleftrightarrow> rbuf_startStreamPos b < rbuf_endStreamPos b"

definition ready_ok :: "RecvQueueRecvBuffer list \<Rightarrow> bool" where
  "ready_ok bs \<longleftrightarrow> sorted_wrt buf_before bs \<and> list_all buf_ok bs"

text \<open>The buffers from \<open>p\<close> to \<open>e\<close> without a gap.\<close>

fun consecutive :: "u64 \<Rightarrow> RecvQueueRecvBuffer list \<Rightarrow> u64 \<Rightarrow> bool" where
  "consecutive p [] e \<longleftrightarrow> p = e"
| "consecutive p (b # bs) e \<longleftrightarrow> rbuf_startStreamPos b = p \<and> consecutive (rbuf_endStreamPos b) bs e"

text \<open>The list \<open>bs\<close> lies in one gap of \<open>ds\<close>: every buffer of \<open>ds\<close> is before or behind all of it.\<close>

definition fits_gap :: "RecvQueueRecvBuffer list \<Rightarrow> RecvQueueRecvBuffer list \<Rightarrow> bool" where
  "fits_gap bs ds \<longleftrightarrow> (\<forall>d\<in>set ds. (\<forall>b\<in>set bs. buf_before d b) \<or> (\<forall>b\<in>set bs. buf_before b d))"

lemma buf_before_not: "buf_before a b \<Longrightarrow> buf_ok a \<Longrightarrow> buf_ok b \<Longrightarrow> \<not> buf_before b a"
  by (auto simp: buf_before_def buf_ok_def)

lemma ready_walk_spec:
  assumes "bs \<noteq> []" and "ready_ok bs" and "ready_ok (rev ds @ behind)" and "fits_gap bs (rev ds @ behind)"
    and "\<forall>d\<in>set behind. \<forall>b\<in>set bs. buf_before b d"
  shows "ready_ok (ready_walk bs ds behind) \<and> mset (ready_walk bs ds behind) = mset bs + mset ds + mset behind"
  using assms
proof (induction bs ds behind rule: ready_walk.induct)
  case (1 bs behind)
  then show ?case by (auto simp: ready_ok_def sorted_wrt_append)
next
  case (2 bs d ds behind)
  have hd: "hd bs \<in> set bs" using 2(2) by simp
  have ok: "buf_ok d" "buf_ok (hd bs)" using 2(3,4) hd by (auto simp: ready_ok_def list_all_iff)
  show ?case
  proof (cases "rbuf_startStreamPos (hd bs) \<ge> rbuf_endStreamPos d")
    case True
    then have "buf_before d (hd bs)" by (simp add: buf_before_def)
    then have d: "\<forall>b\<in>set bs. buf_before d b"
      using 2(5) hd buf_before_not [OF _ ok] unfolding fits_gap_def by auto
    have "buf_before a b" if "a \<in> set ds" "b \<in> set bs" for a b
    proof -
      have a: "buf_before a d" "buf_ok a"
        using 2(4) that(1) by (auto simp: ready_ok_def sorted_wrt_append list_all_iff)
      have "buf_before d b" using d that(2) by simp
      then show ?thesis using a(1) ok(1) by (auto simp: buf_before_def buf_ok_def)
    qed
    then have "ready_ok (rev ds @ d # bs @ behind)"
      using 2(3,4,6) d by (auto simp: ready_ok_def sorted_wrt_append)
    then show ?thesis using True by simp
  next
    case False
    then have "\<not> buf_before d (hd bs)" by (simp add: buf_before_def)
    then have "\<forall>b\<in>set bs. buf_before b d" using 2(5) hd unfolding fits_gap_def by auto
    then have "ready_ok (ready_walk bs ds (d # behind)) \<and>
        mset (ready_walk bs ds (d # behind)) = mset bs + mset ds + mset (d # behind)"
      using 2(2-6) by (intro "2.IH" [OF False]) simp_all
    then show ?thesis using False by simp
  qed
qed

lemma notify_ready_spec:
  "case notify_ready pos bs of (ds, pos', rest) \<Rightarrow> bs = ds @ rest \<and> consecutive pos ds pos' \<and>
     (rest \<noteq> [] \<longrightarrow> rbuf_startStreamPos (hd rest) \<noteq> pos')"
  by (induction pos bs rule: notify_ready.induct) (auto split: prod.splits)

section \<open>The bytes the application gets\<close>

definition event_bytes :: "PackageEvent \<Rightarrow> u8 list" where
  "event_bytes e = (case e of RecvCallback cb bytes n \<Rightarrow> bytes | _ \<Rightarrow> [])"

definition received_bytes :: "PackageEvent list \<Rightarrow> u8 list" where
  "received_bytes es = concat (map event_bytes es)"

definition stream_part :: "(nat \<Rightarrow> u8) \<Rightarrow> u64 \<Rightarrow> u64 \<Rightarrow> u8 list" where
  "stream_part S p e = map S [unat p..<unat e]"

lemma upt_append_le: "a \<le> b \<Longrightarrow> b \<le> c \<Longrightarrow> [a..<b] @ [b..<c] = [a..<c]"
  by (metis le_add_diff_inverse upt_add_eq_append)

lemma delivered_le: "delivered S p ds e \<Longrightarrow> p \<le> e"
  by (induction ds arbitrary: p) (force intro: order_trans less_imp_le)+

lemma delivered_bytes:
  "delivered S p ds e \<Longrightarrow> received_bytes (map recv_event ds) = stream_part S p e"
proof (induction ds arbitrary: p)
  case Nil
  then show ?case by (simp add: received_bytes_def stream_part_def)
next
  case (Cons b ds)
  let ?e = "rbuf_endStreamPos b"
  have b: "rbuf_startStreamPos b = p" "p < ?e" "bytes_at S (unat p) (unat (?e - p)) (rbuf_mem b)" "delivered S ?e ds e"
    using Cons.prems by simp_all
  have n: "unat (?e - p) = unat ?e - unat p" "unat p < unat ?e" "unat ?e \<le> unat e"
    using b(2) delivered_le [OF b(4)] by (simp_all add: word_to_nat)
  have "take (unat (?e - p)) (rbuf_mem b) = stream_part S p ?e"
    using b(3) n by (intro nth_equalityI) (auto simp: bytes_at_def stream_part_def)
  then have "event_bytes (recv_event b) = stream_part S p ?e"
    using b(1) by (simp add: event_bytes_def recv_event_def Let_def)
  moreover have "stream_part S p ?e @ stream_part S ?e e = stream_part S p e"
    using n upt_append_le by (simp add: stream_part_def flip: map_append)
  ultimately show ?case
    using Cons.IH [OF b(4)] by (simp add: received_bytes_def)
qed

lemma delivered_consecutive: "delivered S p ds e \<Longrightarrow> consecutive p ds e"
  by (induction ds arbitrary: p) auto

lemma notify_all: "consecutive p ds e \<Longrightarrow> notify_ready p ds = (ds, e, [])"
  by (induction ds arbitrary: p) auto

text \<open>Everything received so far has been handed on, and nothing waits.\<close>

definition recv_inv :: "(nat \<Rightarrow> u8) \<Rightarrow> PackageConnection \<Rightarrow> bool" where
  "recv_inv S c \<longleftrightarrow> data_inv S (recvQueue c) \<and> ready_buffers c = [] \<and> \<not> onNotifying c \<and>
     ready_streamPos c = readStreamPos (recvQueue c)"

lemma deliver_spec:
  assumes "recv_inv S c"
  shows "\<exists>c' es. deliver_ready force c = Some c' \<and> recv_inv S c' \<and> pc_events c' = pc_events c @ es \<and>
    received_bytes es = stream_part S (readStreamPos (recvQueue c)) (readStreamPos (recvQueue c')) \<and>
    readStreamPos (recvQueue c) \<le> readStreamPos (recvQueue c') \<and>
    received (recvQueue c') = received (recvQueue c)"
proof -
  let ?q = "recvQueue c"
  have inv: "data_inv S ?q" using assms by (simp add: recv_inv_def)
  obtain ds q' where p: "RecvQueuePopCompleteBuffers force ?q = Some (ds, q')" "data_inv S q'"
    "delivered S (readStreamPos ?q) ds (readStreamPos q')" "received q' = received ?q"
    using pop_complete_spec [OF inv, of force] by blast
  have n: "notify_ready (readStreamPos ?q) ds = (ds, readStreamPos q', [])"
    by (rule notify_all [OF delivered_consecutive [OF p(3)]])
  let ?c = "c\<lparr>recvQueue := q', ready_streamPos := readStreamPos q', pc_events := pc_events c @ map recv_event ds\<rparr>"
  have "deliver_ready force c = Some ?c"
  proof (cases "ds = []")
    case True
    then show ?thesis using p assms by (simp add: deliver_ready_def recv_inv_def)
  next
    case False
    then show ?thesis
      using p(1) n assms
      by (simp add: deliver_ready_def recv_inv_def PackageConnectionNotifyRecvReadyBuffers_def fire_def)
  qed
  moreover have "recv_inv S ?c" using p(2) assms by (simp add: recv_inv_def)
  ultimately show ?thesis
    using p(4) delivered_bytes [OF p(3)] delivered_le [OF p(3)]
    by (intro exI [of _ ?c] exI [of _ "map recv_event ds"]) simp
qed

section \<open>Batches notified in any order\<close>

text \<open>
  Two calls that pop buffers may notify in either order, since the notification runs outside the
  lock of the receive queue. A run of such calls is a permutation of the batches.
\<close>

definition batches_ok :: "u64 \<Rightarrow> RecvQueueRecvBuffer list list \<Rightarrow> u64 \<Rightarrow> bool" where
  "batches_ok p bss e \<longleftrightarrow> list_all (\<lambda>bs. bs \<noteq> []) bss \<and> list_all buf_ok (concat bss) \<and> consecutive p (concat bss) e"

lemma consecutive_append: "consecutive p (xs @ ys) e \<longleftrightarrow> (\<exists>m. consecutive p xs m \<and> consecutive m ys e)"
  by (induction xs arbitrary: p) auto

lemma consecutive_end: "consecutive p xs e \<Longrightarrow> consecutive p xs e' \<Longrightarrow> e = e'"
  by (induction xs arbitrary: p) auto

lemma consecutive_start:
  "consecutive p xs e \<Longrightarrow> list_all buf_ok xs \<Longrightarrow> b \<in> set xs \<Longrightarrow> p \<le> rbuf_startStreamPos b"
proof (induction xs arbitrary: p)
  case (Cons x xs)
  show ?case
  proof (cases "b = x")
    case False
    then have "rbuf_endStreamPos x \<le> rbuf_startStreamPos b" using Cons by simp
    moreover have "p < rbuf_endStreamPos x" using Cons.prems by (simp add: buf_ok_def)
    ultimately show ?thesis by simp
  qed (use Cons.prems in simp)
qed simp

lemma consecutive_ready_ok: "consecutive p xs e \<Longrightarrow> list_all buf_ok xs \<Longrightarrow> ready_ok xs"
proof (induction xs arbitrary: p)
  case (Cons x xs)
  then have "\<forall>b\<in>set xs. buf_before x b"
    using consecutive_start [of "rbuf_endStreamPos x" xs e] by (simp add: buf_before_def)
  then show ?case using Cons by (auto simp: ready_ok_def)
qed (simp add: ready_ok_def)

lemma consecutive_prefix:
  "consecutive p ds m \<Longrightarrow> consecutive p xs e \<Longrightarrow> list_all buf_ok xs \<Longrightarrow> set ds \<subseteq> set xs \<Longrightarrow>
   \<exists>rest. xs = ds @ rest \<and> consecutive m rest e"
proof (induction ds arbitrary: p xs)
  case (Cons d ds)
  then obtain x ys where xs: "xs = x # ys" by (cases xs) auto
  let ?q = "rbuf_endStreamPos x"
  have x: "rbuf_startStreamPos x = p" "consecutive ?q ys e" "list_all buf_ok ys" "p < ?q"
    using Cons.prems unfolding xs by (simp_all, auto simp: buf_ok_def)
  have late: "?q \<le> rbuf_startStreamPos b" if "b \<in> set ys" for b
    using consecutive_start [OF x(2,3) that] .
  have d: "d = x" using Cons.prems(1,4) late [of d] x(4) unfolding xs by auto
  have ok: "list_all buf_ok ds" using Cons.prems(3,4) by (auto simp: list_all_iff)
  have "consecutive ?q ds m" using Cons.prems(1) d by simp
  moreover have "set ds \<subseteq> set ys"
  proof
    fix b assume b: "b \<in> set ds"
    then have "?q \<le> rbuf_startStreamPos b" using consecutive_start ok calculation by blast
    then show "b \<in> set ys" using b Cons.prems(4) x(1,4) unfolding xs by auto
  qed
  ultimately show ?case using Cons.IH [of ?q ys] x(2,3) d xs by auto
qed auto

lemma consecutive_unfinished:
  assumes "consecutive m xs e" "list_all buf_ok xs" "ready_ok ys" "mset ys = mset xs"
    and "ys \<noteq> [] \<Longrightarrow> rbuf_startStreamPos (hd ys) \<noteq> m"
  shows "ys = []"
proof (rule ccontr)
  assume ys: "ys \<noteq> []"
  then obtain y zs where y: "ys = y # zs" by (cases ys) auto
  obtain x ws where x: "xs = x # ws" using assms(4) y by (cases xs) auto
  have sets: "set ys = set xs" using assms(4) by (metis set_mset_mset)
  have "y \<in> set xs" using sets y by auto
  then have "m \<le> rbuf_startStreamPos y" using consecutive_start [OF assms(1,2)] by blast
  moreover have "rbuf_startStreamPos y \<noteq> m" using assms(5) y by simp
  ultimately have "m < rbuf_startStreamPos y" by simp
  moreover have "x = y \<or> buf_before y x" "buf_ok y"
    using sets x y assms(3) by (auto simp: ready_ok_def)
  ultimately show False using assms(1) x by (auto simp: buf_before_def buf_ok_def)
qed

lemma batches_gap:
  assumes "batches_ok p bss e" and "mset (bs # xs) \<subseteq># mset bss" and "set ds \<subseteq> set (concat xs)"
  shows "fits_gap bs ds"
  unfolding fits_gap_def
proof
  fix d assume "d \<in> set ds"
  then obtain x where x: "x \<in> set xs" "d \<in> set x" using assms(3) by auto
  have "bs \<in> set bss" using assms(2) by (metis list.set_intros(1) mset_subset_eqD set_mset_mset)
  then obtain us vs where bss: "bss = us @ bs # vs" by (meson split_list)
  have "mset xs \<subseteq># mset (us @ vs)" using assms(2) bss by simp
  then have "x \<in> set us \<or> x \<in> set vs" using x(1) by (metis Un_iff mset_subset_eqD set_append set_mset_mset)
  moreover have "sorted_wrt buf_before (concat us @ bs @ concat vs)"
    using assms(1) consecutive_ready_ok [of p "concat bss" e] by (simp add: batches_ok_def bss ready_ok_def)
  ultimately show "(\<forall>b\<in>set bs. buf_before d b) \<or> (\<forall>b\<in>set bs. buf_before b d)"
    using x(2) by (auto simp: sorted_wrt_append)
qed

text \<open>The batches \<open>xs\<close> have been notified; \<open>ds\<close> of their buffers are with the application.\<close>

definition notify_inv :: "PackageConnection \<Rightarrow> RecvQueueRecvBuffer list list \<Rightarrow> RecvQueueRecvBuffer list \<Rightarrow>
    PackageConnection \<Rightarrow> bool" where
  "notify_inv c xs ds c' \<longleftrightarrow> pc_events c' = pc_events c @ map recv_event ds \<and>
     ready_ok (ready_buffers c') \<and> mset (ds @ ready_buffers c') = mset (concat xs) \<and>
     consecutive (ready_streamPos c) ds (ready_streamPos c') \<and> \<not> onNotifying c' \<and>
     (ready_buffers c' \<noteq> [] \<longrightarrow> rbuf_startStreamPos (hd (ready_buffers c')) \<noteq> ready_streamPos c')"

lemma notify_inv_step:
  assumes "batches_ok p bss e" and "mset (bs # xs) \<subseteq># mset bss" and inv: "notify_inv c xs ds c'"
  shows "\<exists>ds'. notify_inv c (bs # xs) ds' (PackageConnectionNotifyRecvReadyBuffers bs c')"
proof -
  let ?r = "ready_buffers c'"
  have "set ?r \<subseteq> set (concat xs)"
    using inv unfolding notify_inv_def by (metis Un_upper2 set_append set_mset_mset)
  then have gap: "fits_gap bs ?r" using batches_gap [OF assms(1,2)] by blast
  have bs: "bs \<in> set bss" using assms(2) by (metis list.set_intros(1) mset_subset_eqD set_mset_mset)
  then have ne: "bs \<noteq> []" using assms(1) by (auto simp: batches_ok_def list_all_iff)
  obtain us vs where bss: "bss = us @ bs # vs" using bs by (meson split_list)
  have ok: "ready_ok bs"
    using consecutive_ready_ok [of p "concat bss" e] assms(1)
    by (simp add: batches_ok_def bss ready_ok_def sorted_wrt_append)
  let ?w = "ready_walk bs (rev ?r) []"
  have w: "ready_ok ?w" "mset ?w = mset bs + mset ?r"
    using ready_walk_spec [of bs "rev ?r" "[]"] ne ok gap inv by (auto simp: notify_inv_def)
  obtain new pos rest where n: "notify_ready (ready_streamPos c') ?w = (new, pos, rest)"
    by (metis prod_cases3)
  have s: "?w = new @ rest" "consecutive (ready_streamPos c') new pos"
    "rest \<noteq> [] \<longrightarrow> rbuf_startStreamPos (hd rest) \<noteq> pos"
    using notify_ready_spec [of ?w "ready_streamPos c'"] n by auto
  have "PackageConnectionNotifyRecvReadyBuffers bs c' =
      fire (map recv_event new) (c'\<lparr>ready_buffers := rest, ready_streamPos := pos, onNotifying := False\<rparr>)"
    using inv n by (simp add: PackageConnectionNotifyRecvReadyBuffers_def notify_inv_def Let_def)
  moreover have "ready_ok rest" using w(1) s(1) by (simp add: ready_ok_def sorted_wrt_append)
  moreover have "mset (new @ rest) = mset bs + mset ?r" using w(2) s(1) by simp
  ultimately have "notify_inv c (bs # xs) (ds @ new) (PackageConnectionNotifyRecvReadyBuffers bs c')"
    using inv s by (auto simp: notify_inv_def fire_def consecutive_append)
  then show ?thesis by blast
qed

lemma notify_inv_fold:
  "batches_ok p bss e \<Longrightarrow> mset ys + mset xs \<subseteq># mset bss \<Longrightarrow> notify_inv c xs ds c' \<Longrightarrow>
   \<exists>ds'. notify_inv c (rev ys @ xs) ds' (fold PackageConnectionNotifyRecvReadyBuffers ys c')"
proof (induction ys arbitrary: xs ds c')
  case (Cons y ys)
  have "mset (y # xs) \<subseteq># mset bss" "mset ys + mset (y # xs) \<subseteq># mset bss"
    using Cons.prems(2) subset_mset.order_trans [OF mset_subset_eq_add_right [of "mset (y # xs)" "mset ys"]] by auto
  then show ?case using notify_inv_step [OF Cons.prems(1)] Cons.IH [OF Cons.prems(1)] Cons.prems(3) by fastforce
qed auto

lemma notify_inv_all:
  assumes "batches_ok p bss e" and "mset xs = mset bss" and "notify_inv c xs ds c'" and "ready_streamPos c = p"
  shows "ds = concat bss \<and> ready_buffers c' = [] \<and> ready_streamPos c' = e"
proof -
  let ?L = "concat bss" let ?r = "ready_buffers c'"
  have L: "consecutive p ?L e" "list_all buf_ok ?L" using assms(1) by (simp_all add: batches_ok_def)
  have m: "mset ds + mset ?r = mset ?L"
    using assms(2,3) by (metis mset_append mset_concat mset_map notify_inv_def sum_mset_sum_list)
  then have "set ds \<subseteq> set ?L" by (metis Un_upper1 set_mset_mset set_mset_union)
  then obtain rest where rest: "?L = ds @ rest" "consecutive (ready_streamPos c') rest e"
    using consecutive_prefix [OF _ L] assms(3,4) unfolding notify_inv_def by blast
  have "mset ?r = mset rest" using m rest(1) by simp
  moreover have "list_all buf_ok rest" using L(2) unfolding rest(1) by simp
  ultimately have "?r = []"
    using consecutive_unfinished [OF rest(2)] assms(3) by (auto simp: notify_inv_def)
  then show ?thesis using rest \<open>mset ?r = mset rest\<close> by simp
qed

section \<open>The retransmission timeout\<close>













section \<open>Properties\<close>

text \<open>
  Every call of the receiving thread or of the receive timer hands exactly the bytes of the
  stream from the old to the new read position to the application, in order; with force, all
  that has been received without a gap and fits the buffers.
\<close>

lemma delivers_stream:
  assumes "recv_inv S c"
  shows "\<exists>c' es. deliver_ready force c = Some c' \<and> recv_inv S c' \<and> pc_events c' = pc_events c @ es \<and>
    received_bytes es = stream_part S (readStreamPos (recvQueue c)) (readStreamPos (recvQueue c')) \<and>
    received (recvQueue c') = received (recvQueue c)"
  using deliver_spec [OF assms, of force] by blast

text \<open>
  C19. When several threads pop the batches \<open>bss\<close> of buffers that follow one another in the stream,
  and notify them in another order \<open>xs\<close>, the application still gets every buffer once, in the
  order of the stream, and nothing is left behind in the queue of ready buffers.
\<close>

theorem notify_any_order:
  assumes "batches_ok (ready_streamPos c) bss e" and "mset xs = mset bss" and "ready_buffers c = []" and "\<not> onNotifying c"
  shows "let c' = fold PackageConnectionNotifyRecvReadyBuffers xs c
    in pc_events c' = pc_events c @ map recv_event (concat bss) \<and> ready_buffers c' = [] \<and> ready_streamPos c' = e"
proof -
  have "notify_inv c [] [] c" using assms(3,4) by (simp add: notify_inv_def ready_ok_def)
  then obtain ds where i: "notify_inv c (rev xs) ds (fold PackageConnectionNotifyRecvReadyBuffers xs c)"
    using notify_inv_fold [OF assms(1), of xs "[]" c "[]" c] assms(2) by auto
  then have "ds = concat bss \<and> ready_buffers (fold PackageConnectionNotifyRecvReadyBuffers xs c) = [] \<and>
      ready_streamPos (fold PackageConnectionNotifyRecvReadyBuffers xs c) = e"
    using notify_inv_all [OF assms(1) _ i] assms(2) by simp
  then show ?thesis using i by (simp add: notify_inv_def Let_def)
qed


section \<open>Examples\<close>

definition example_buffer :: "u64 \<Rightarrow> u64 \<Rightarrow> RecvQueueRecvBuffer" where
  "example_buffer s e = \<lparr>rbuf_data = 0, rbuf_mem = [0, 0], rbuf_len = 2, rbuf_startStreamPos = s, rbuf_endStreamPos = e, rbuf_callback = 9\<rparr>"

definition example_conn :: PackageConnection where
  "example_conn = PackageConnectionCreate
     \<lparr>cfg_resendInterval = 500, cfg_recvTimeout = 200, cfg_msl = 20000, cfg_mtu = 1400, cfg_mss = 1300, cfg_halfOpen = False\<rparr> 7"

lemma example_conn_fields:
  "ready_buffers example_conn = []" "\<not> onNotifying example_conn" "ready_streamPos example_conn = 1"
  "srtt (rttEst example_conn) = 0" "pc_events example_conn = []" "recvQueue example_conn = RecvQueueCreate 1"
  by (simp_all add: example_conn_def PackageConnectionCreate_def PackageConnectionBeginRtoTimer_def)

theorem notify_any_order_witness:
  "pc_events (fold PackageConnectionNotifyRecvReadyBuffers [[example_buffer 5 6], [example_buffer 3 5], [example_buffer 1 3]] example_conn) =
   map recv_event [example_buffer 1 3, example_buffer 3 5, example_buffer 5 6]"
proof -
  let ?bss = "[[example_buffer 1 3], [example_buffer 3 5], [example_buffer 5 6]]"
  have "batches_ok (ready_streamPos example_conn) ?bss 6"
    by (simp add: batches_ok_def example_conn_fields buf_ok_def example_buffer_def)
  then show ?thesis
    using notify_any_order [of example_conn ?bss 6 "[[example_buffer 5 6], [example_buffer 3 5], [example_buffer 1 3]]"]
    by (simp add: example_conn_fields Let_def)
qed

lemma delivers_stream_witness:
  "\<exists>c' es. deliver_ready True (example_conn\<lparr>recvQueue := example_recv, ready_streamPos := readStreamPos example_recv\<rparr>) = Some c' \<and>
     recv_inv example_bytes c' \<and> pc_events c' = es \<and> received_bytes es = stream_part example_bytes 5 (readStreamPos (recvQueue c'))"
proof -
  have "recv_inv example_bytes (example_conn\<lparr>recvQueue := example_recv, ready_streamPos := readStreamPos example_recv\<rparr>)"
    using example_recv_inv by (simp add: recv_inv_def example_conn_fields)
  then show ?thesis
    using delivers_stream [of example_bytes _ True] by (force simp: example_conn_fields example_recv_value RecvQueueCreate_def)
qed


end
