(* ===== verification/PackageNet.thy ===== *)
theory PackageNet
  imports PackageClose PackageRecv
begin

text \<open>
  Two package connections and the network between them. The network may lose, repeat and reorder
  packages; it does not forge them. The local invariant of one connection speaks of the other only
  through the position up to which that one has sent, and the positions it has received, both of
  which only grow. From it follows the service of the protocol: the application reads the bytes the
  other application has written, in order, without loss and without repetition.
\<close>

section \<open>What a package tells\<close>

definition ranges_of :: "Bdt_SessionDataPackage \<Rightarrow> BdtStreamRange list" where
  "ranges_of p = (case sackArray p of None \<Rightarrow> [] | Some rs \<Rightarrow> sack_ranges rs)"

definition acked_positions :: "Bdt_SessionDataPackage \<Rightarrow> u64 set" where
  "acked_positions p = {..<ackStreamPos p} \<union> (\<Union>r\<in>set (ranges_of p). {range_pos r..<range_pos r + ucast (range_length r)})"

definition payload_ok :: "(nat \<Rightarrow> u8) \<Rightarrow> Bdt_SessionDataPackage \<Rightarrow> bool" where
  "payload_ok S p \<longleftrightarrow>
     (case payload p of None \<Rightarrow> True | Some bs \<Rightarrow> bytes_at S (unat (streamPos p)) (unat (payloadLength p)) bs)"

text \<open>A package is true to a sender: its bytes are those of the stream and have been sent, and what it
  acknowledges has been received.\<close>

definition told :: "(nat \<Rightarrow> u8) \<Rightarrow> u64 \<Rightarrow> u64 set \<Rightarrow> Bdt_SessionDataPackage \<Rightarrow> bool" where
  "told S k R p \<longleftrightarrow> sack_ok (sackArray p) \<and> acked_positions p \<subseteq> R \<and> payload_ok S p \<and>
     (payload p \<noteq> None \<longrightarrow> unat (streamPos p) + unat (payloadLength p) \<le> unat k)"

lemma told_mono: "told S k R p \<Longrightarrow> k \<le> k' \<Longrightarrow> R \<subseteq> R' \<Longrightarrow> told S k' R' p"
  by (auto simp: told_def word_le_nat_alt)

lemma acks_received:
  assumes "rinv q" and "\<forall>b\<in>set (blocks q). fits_range b" and "acks q p"
  shows "acked_positions p \<subseteq> received q"
proof -
  obtain sack bs where a: "RecvQueueGetAckInfo q = Some (rq_ackStreamPos q, sack)" "subseq bs (blocks q)"
    "\<forall>rs. sack = Some rs \<longrightarrow> sack_ranges rs = map block_range bs"
    by (rule ack_info_spec [OF assms(1,2)]) (rule that)
  have p: "ackStreamPos p = rq_ackStreamPos q" "sackArray p = sack"
    using assms(3) a(1) by (simp_all add: acks_def)
  have "{range_pos r..<range_pos r + ucast (range_length r)} \<subseteq> received q" if r: "r \<in> set (ranges_of p)" for r
  proof -
    obtain b where b: "b \<in> set bs" "r = block_range b"
      using r a(3) p(2) by (auto simp: ranges_of_def split: option.splits)
    then have q: "b \<in> set (blocks q)" using a(2) by (auto elim: list_emb_set)
    then have "blk_ok b" "fits_range b" using assms by (auto simp: rinv_def blocks_ok_def)
    then show ?thesis
      using q block_range_exact(2) [of b] b(2) by (auto simp: received_def span_def range_of_def block_range_def)
  qed
  then show ?thesis using p(1) by (auto simp: acked_positions_def received_def)
qed

lemma package_told:
  assumes "rinv (recvQueue c)" and "\<forall>b\<in>set (blocks (recvQueue c)). fits_range b"
    and "package_ok S c p" and "sent_below q p"
  shows "told S (sc_streamPos q) (received (recvQueue c)) p"
  using assms acks_received [OF assms(1,2)]
  by (auto simp: told_def package_ok_def sent_below_def payload_ok_def acks_def split: option.splits)

section \<open>The invariant of one connection\<close>

abbreviation (input) is_open :: "PackageConnection \<Rightarrow> bool" where
  "is_open c \<equiv> pc_state c \<noteq> PACKAGE_CONNECTION_STATE_CLOSE"

abbreviation (input) sent_pos :: "PackageConnection \<Rightarrow> u64" where
  "sent_pos c \<equiv> sc_streamPos (sendQueue c)"

abbreviation (input) got :: "PackageConnection \<Rightarrow> u64 set" where
  "got c \<equiv> received (recvQueue c)"

text \<open>
  What the other side has not received is kept for a repetition, and what the queue takes for
  acknowledged has been received. \<open>R\<close> are the positions the other side has received.
\<close>

definition kept_ok :: "u64 set \<Rightarrow> SendQueue \<Rightarrow> bool" where
  "kept_ok R q \<longleftrightarrow> {..<sc_ackStreamPos q} \<subseteq> R \<and> {..<sc_streamPos q} \<subseteq> R \<union> held q"

text \<open>
  \<open>S\<close> is the stream out, \<open>T\<close> the stream in, the other side has sent up to \<open>k\<close>. Streams are short
  of the 32 bits in which the ranges of an acknowledgement are counted.
\<close>

definition open_ok :: "(nat \<Rightarrow> u8) \<Rightarrow> (nat \<Rightarrow> u8) \<Rightarrow> u64 set \<Rightarrow> PackageConnection \<Rightarrow> bool" where
  "open_ok S T R c \<longleftrightarrow> send_inv S c \<and> recv_inv T c \<and> kept_ok R (sendQueue c) \<and>
     unat (sb_streamPos (sendQueue c)) < 2 ^ 32"

definition closed_ok :: "PackageConnection \<Rightarrow> bool" where
  "closed_ok c \<longleftrightarrow> closeSubState c = PACKAGE_CONNECTION_CLOSE_SUBSTATE_CLOSED \<and> buffers (sendQueue c) = [] \<and>
     rbuffers (recvQueue c) = []"

definition reads :: "(nat \<Rightarrow> u8) \<Rightarrow> PackageConnection \<Rightarrow> u64 \<Rightarrow> bool" where
  "reads T c e \<longleftrightarrow> 1 \<le> e \<and> received_bytes (pc_events c) = stream_part T 1 e \<and> {..<e} \<subseteq> got c \<and>
     (is_open c \<longrightarrow> e = readStreamPos (recvQueue c))"

definition conn_ok :: "(nat \<Rightarrow> u8) \<Rightarrow> (nat \<Rightarrow> u8) \<Rightarrow> u64 \<Rightarrow> u64 set \<Rightarrow> PackageConnection \<Rightarrow> bool" where
  "conn_ok S T k R c \<longleftrightarrow>
     (if is_open c then open_ok S T R c else closed_ok c) \<and> rinv (recvQueue c) \<and>
     got c \<subseteq> {..<k} \<and> unat k < 2 ^ 32 \<and> R \<subseteq> {..<sent_pos c} \<and> unat (sent_pos c) < 2 ^ 32 \<and>
     (\<forall>p. PackageSent p \<in> set (pc_events c) \<longrightarrow> told S (sent_pos c) (got c) p) \<and> (\<exists>e. reads T c e)"

definition grows :: "PackageConnection \<Rightarrow> PackageConnection \<Rightarrow> bool" where
  "grows c c' \<longleftrightarrow> sent_pos c \<le> sent_pos c' \<and> got c \<subseteq> got c'"

text \<open>A step that keeps the invariant, whatever the other side has done.\<close>

definition keeps :: "(nat \<Rightarrow> u8) \<Rightarrow> (nat \<Rightarrow> u8) \<Rightarrow> u64 \<Rightarrow> u64 set \<Rightarrow> PackageConnection \<Rightarrow> PackageConnection \<Rightarrow> bool" where
  "keeps S T k R c c' \<longleftrightarrow> (conn_ok S T k R c \<longrightarrow> conn_ok S T k R c' \<and> grows c c')"

lemma keeps_refl [simp]: "keeps S T k R c c"
  by (simp add: keeps_def grows_def)

lemma keeps_trans: "keeps S T k R c d \<Longrightarrow> keeps S T k R d e \<Longrightarrow> keeps S T k R c e"
  by (auto simp: keeps_def grows_def)

lemma small_ranges:
  assumes "rinv q" and "received q \<subseteq> {..<k}" and "unat k < 2 ^ 32"
  shows "\<forall>b\<in>set (blocks q). fits_range b"
proof
  fix b assume b: "b \<in> set (blocks q)"
  then have lt: "rblk_start b < rblk_end b" using assms(1) by (auto simp: rinv_def blocks_ok_def blk_ok_def)
  then have "rblk_start b \<in> received q" using b by (auto simp: received_def span_def range_of_def)
  have "rblk_end b - 1 \<in> range_of b" using lt by (auto simp: range_of_def word_le_nat_alt word_less_nat_alt unat_minus_one)
  then have "rblk_end b - 1 \<in> received q" using b by (auto simp: received_def span_def)
  then have "rblk_end b - 1 < k" using assms(2) by auto
  moreover have "rblk_end b \<noteq> 0" using lt by auto
  ultimately have "unat (rblk_end b) \<le> unat k" by (simp add: word_less_nat_alt unat_minus_one)
  moreover have "unat (rblk_end b - rblk_start b) \<le> unat (rblk_end b)" using lt by (simp add: word_to_nat)
  ultimately show "fits_range b" using assms(3) by (simp add: fits_range_def)
qed

lemma conn_ok_open:
  assumes "conn_ok S T k R c" and "is_open c"
  shows "send_inv S c" "recv_inv T c" "kept_ok R (sendQueue c)" "stream_inv S (sendQueue c)" "data_inv T (recvQueue c)"
    "\<forall>b\<in>set (blocks (recvQueue c)). fits_range b"
  using assms by (auto simp: conn_ok_def open_ok_def send_inv_def recv_inv_def)

section \<open>Steps that do not touch what the invariant is about\<close>

definition quiet :: "PackageEvent list \<Rightarrow> bool" where
  "quiet es \<longleftrightarrow> (\<forall>p. PackageSent p \<notin> set es) \<and> received_bytes es = []"

lemma quiet_simps [simp]: "quiet []" "quiet (es @ fs) \<longleftrightarrow> quiet es \<and> quiet fs" "quiet (map send_event bs)"
  "quiet (map (\<lambda>b. RecvCallback (cb b) [] n) cs)"
  by (auto simp: quiet_def received_bytes_def send_event_def event_bytes_def)

lemma received_bytes_append [simp]:
  "received_bytes (es @ fs) = received_bytes es @ received_bytes fs" "received_bytes (map PackageSent ps) = []"
  by (simp_all add: received_bytes_def event_bytes_def)

definition same_net :: "PackageConnection \<Rightarrow> PackageConnection \<Rightarrow> bool" where
  "same_net c c' \<longleftrightarrow> (is_open c' \<longleftrightarrow> is_open c) \<and> (\<not> is_open c \<longrightarrow> closeSubState c' = closeSubState c) \<and>
     sendQueue c' = sendQueue c \<and> recvQueue c' = recvQueue c \<and> cc_mtu (cc c') = cc_mtu (cc c) \<and>
     pc_config c' = pc_config c \<and> ready_buffers c' = ready_buffers c \<and> ready_streamPos c' = ready_streamPos c \<and>
     onNotifying c' = onNotifying c \<and> (\<exists>es. pc_events c' = pc_events c @ es \<and> quiet es)"

lemma same_net_keeps:
  assumes "same_net c c'"
  shows "keeps S T k R c c'"
proof -
  have "send_inv S c' = send_inv S c" "recv_inv T c' = recv_inv T c" "closed_ok c' = closed_ok c \<or> is_open c"
    using assms by (auto simp: same_net_def send_inv_def recv_inv_def closed_ok_def)
  moreover have "reads T c' e = reads T c e" for e
    using assms by (auto simp: same_net_def reads_def quiet_def)
  ultimately show ?thesis
    using assms by (auto simp: keeps_def conn_ok_def grows_def open_ok_def same_net_def quiet_def)
qed

lemma same_netI:
  "pc_state c' = pc_state c \<Longrightarrow> (\<not> is_open c \<Longrightarrow> closeSubState c' = closeSubState c) \<Longrightarrow>
   sendQueue c' = sendQueue c \<Longrightarrow> recvQueue c' = recvQueue c \<Longrightarrow> cc_mtu (cc c') = cc_mtu (cc c) \<Longrightarrow>
   pc_config c' = pc_config c \<Longrightarrow> ready_buffers c' = ready_buffers c \<Longrightarrow> ready_streamPos c' = ready_streamPos c \<Longrightarrow>
   onNotifying c' = onNotifying c \<Longrightarrow> pc_events c' = pc_events c \<Longrightarrow> keeps S T k R c c'"
  by (rule same_net_keeps) (auto simp: same_net_def)

section \<open>Sending\<close>

text \<open>The count of waiting callers is no part of the state that sending is about.\<close>

definition uncounted :: "PackageConnection \<Rightarrow> PackageConnection" where
  "uncounted c = c\<lparr>trySendCnt := 0\<rparr>"

definition open_send :: "(nat \<Rightarrow> u8) \<Rightarrow> PackageConnection \<Rightarrow> PackageConnection \<Rightarrow> bool" where
  "open_send S c c' \<longleftrightarrow> (is_open c \<and> send_inv S c \<longrightarrow> drive_ok S (uncounted c) (uncounted c'))"

lemma uncounted_simps [simp]:
  "pc_state (uncounted c) = pc_state c" "send_inv S (uncounted c) = send_inv S c"
  "sendQueue (uncounted c) = sendQueue c" "recvQueue (uncounted c) = recvQueue c" "pc_events (uncounted c) = pc_events c"
  "package_ok S (uncounted c) p = package_ok S c p" "uncounted (c\<lparr>trySendCnt := v\<rparr>) = uncounted c"
  by (simp_all add: uncounted_def)

lemma drive_uncounted: "drive_ok S c c' \<Longrightarrow> drive_ok S (uncounted c) (uncounted c')"
  by (simp add: drive_ok_def same_conn_def uncounted_def)

interpretation opened: sending "open_send S"
proof
  fix c d e
  assume "open_send S c d" "open_send S d e"
  then show "open_send S c e"
    unfolding open_send_def using drive_ok_trans drive_ok_state by (metis uncounted_simps(1,2))
next
  fix now c go d
  assume "send_round now c = Some (go, d)"
  then show "open_send S c d"
    unfolding open_send_def using round_spec [of S c now] drive_uncounted by fastforce
next
  fix c v
  show "open_send S c (c\<lparr>trySendCnt := v\<rparr>)"
    by (simp add: open_send_def drive_ok_refl)
qed

text \<open>Once the buffers are gone nothing more is sent for the first time.\<close>

definition idle_send :: "PackageConnection \<Rightarrow> PackageConnection \<Rightarrow> bool" where
  "idle_send c c' \<longleftrightarrow> recvQueue c' = recvQueue c \<and>
     (buffers (sendQueue c) = [] \<longrightarrow> buffers (sendQueue c') = [] \<and> sent_pos c' = sent_pos c)"

lemma fill_without_buffers:
  assumes "SendQueueFillPayload now q = Some (r, out, q')" and "buffers q = []"
  shows "buffers q' = [] \<and> sc_streamPos q' = sc_streamPos q"
  using assms
  by (auto simp: SendQueueFillPayload_def SendQueueGenerateBlock_def resend_lost_def SendQueueMoveLostToFlight_def buffer_at_def
      split: list.splits if_splits buffer_ptr.splits Option.bind_splits)

lemma fill_payload_idle:
  assumes "fill_payload now len p c = Some (r, p', c')"
  shows "idle_send c c'"
  using assms fill_without_buffers
  by (auto simp: fill_payload_def idle_send_def SendQueueFillPayloadFromNew_def split: Option.bind_splits if_splits)

lemma send_round_idle:
  assumes "send_round now c = Some (go, c')"
  shows "idle_send c c'"
proof -
  define len where "len = snd (LedbatCcTrySendPayload (SendQueueGetFilght (sendQueue c)) (cc c))"
  obtain r1 p1 c1 r p2 c2 where f: "fill_payload now len Bdt_SessionDataPackageInit c = Some (r1, p1, c1)"
    "add_flags r1 p1 c1 = Some (r, p2, c2)"
    using assms by (auto simp: send_round_def PackageConnectionFillPackage_def len_def [symmetric] Let_def
        split: Option.bind_splits)
  obtain l where c2: "c2 = c1\<lparr>cc := l\<rparr>" using add_flags_frame(1) [OF f(2)] by blast
  have 1: "idle_send c c2" using fill_payload_idle [OF f(1)] by (simp add: c2 idle_send_def)
  obtain p3 c3 where pre: "PackageConnectionOnPreSendPackage now p2 c2 = (p3, c3)" by force
  obtain rs c4 where s: "PackageConnectionSendPackage now p3 c3 = (rs, c4)" by force
  have "sendQueue c4 = sendQueue c2" "recvQueue c4 = recvQueue c2"
    using pre_send_frame(1,2) [OF pre] s
    by (auto simp: PackageConnectionSendPackage_def note_payload_time_def fire_def same_conn_def split: if_splits)
  moreover have "c' = c2 \<or> c' = c4"
    using assms f pre s by (auto simp: send_round_def PackageConnectionFillPackage_def len_def [symmetric] Let_def
        split: if_splits)
  ultimately show ?thesis using 1 by (auto simp: idle_send_def)
qed

interpretation idle: sending idle_send
  by unfold_locales (auto simp: idle_send_def dest: send_round_idle)

lemma try_send_keeps:
  assumes s: "PackageConnectionTrySendPackage now c = Some c'"
  shows "keeps S T k R c c'"
proof (cases "conn_ok S T k R c")
  case ok: True
  show ?thesis
  proof (cases "is_open c")
    case True
    note o = conn_ok_open [OF ok True]
    have d: "drive_ok S (uncounted c) (uncounted c')"
      using opened.after_try [OF s, of S] True o(1) by (simp add: open_send_def)
    then have same: "recvQueue c' = recvQueue c" "ready_buffers c' = ready_buffers c" "ready_streamPos c' = ready_streamPos c"
      "onNotifying c' = onNotifying c" "pc_state c' = pc_state c" "send_inv S c'" "sends_on (sendQueue c) (sendQueue c')"
      "sc_ackStreamPos (sendQueue c') = sc_ackStreamPos (sendQueue c)"
      "sb_streamPos (sendQueue c') = sb_streamPos (sendQueue c)"
      by (simp_all add: drive_ok_def same_conn_def uncounted_def)
    obtain ps where ps: "pc_events c' = pc_events c @ map PackageSent ps"
      "\<forall>p\<in>set ps. package_ok S c p \<and> sent_below (sendQueue c') p"
      using d by (auto simp: drive_ok_def)
    have new: "told S (sent_pos c') (got c) p" if "p \<in> set ps" for p
      using package_told [of c S p] ps(2) o(6) ok that by (auto simp: conn_ok_def)
    have old: "told S (sent_pos c') (got c) p" if "PackageSent p \<in> set (pc_events c)" for p
      using ok that same(7) told_mono [of S "sent_pos c" "got c" p] by (auto simp: conn_ok_def sends_on_def)
    have "stream_inv S (sendQueue c')" using same(6) by (simp add: send_inv_def)
    then have "sent_pos c' \<le> sb_streamPos (sendQueue c')" by (simp add: stream_inv_def buffers_inv_def)
    then have "unat (sent_pos c') < 2 ^ 32"
      using ok True same(9) by (auto simp: conn_ok_def open_ok_def word_le_nat_alt)
    moreover have "kept_ok R (sendQueue c')" using o(3) same(7,8) by (auto simp: kept_ok_def sends_on_def)
    moreover have "recv_inv T c'" using o(2) same by (simp add: recv_inv_def)
    moreover have "R \<subseteq> {..<sent_pos c'}" using ok same(7) by (auto simp: conn_ok_def sends_on_def)
    moreover have "\<exists>e. reads T c' e" using ok same ps(1) by (auto simp: conn_ok_def reads_def)
    ultimately have "conn_ok S T k R c'"
      using ok True same new old ps(1) by (auto simp: conn_ok_def open_ok_def)
    then show ?thesis using same by (auto simp: keeps_def grows_def sends_on_def)
  next
    case False
    have c: "closed_ok c" using ok False by (simp add: conn_ok_def)
    have i: "recvQueue c' = recvQueue c" "buffers (sendQueue c') = []" "sent_pos c' = sent_pos c"
      using idle.after_try [OF s] c by (simp_all add: idle_send_def closed_ok_def)
    have st: "pc_state c' = pc_state c" "pc_events c' = pc_events c" "closeSubState c' = closeSubState c"
      using try_send_step [OF s] False by (auto simp: sent_step_def)
    have "closed_ok c'" using c i st by (simp add: closed_ok_def)
    moreover have "reads T c' e = reads T c e" for e using i st by (simp add: reads_def)
    ultimately show ?thesis using ok False i st by (simp add: keeps_def conn_ok_def grows_def)
  qed
qed (simp add: keeps_def)

section \<open>The send queue\<close>

lemma queue_keeps:
  assumes ok: "conn_ok S T k R c" and pos: "sc_streamPos q = sent_pos c"
    and o: "is_open c \<Longrightarrow> stream_inv S q \<and> mtu_blocks q \<and> queue_mtu q = queue_mtu (sendQueue c) \<and>
      kept_ok R q \<and> unat (sb_streamPos q) < 2 ^ 32"
    and cl: "\<not> is_open c \<Longrightarrow> buffers q = []"
  shows "conn_ok S T k R (c\<lparr>sendQueue := q\<rparr>) \<and> grows c (c\<lparr>sendQueue := q\<rparr>)"
proof -
  let ?c = "c\<lparr>sendQueue := q\<rparr>"
  have "open_ok S T R ?c" if "is_open c"
  proof -
    have b: "blocks_inv q" using o [OF that] by (simp add: stream_inv_def)
    have "nat_sizes (flightBlocks q) \<le> unat (sc_streamPos q)"
      using b by (intro chain_sizes) (auto simp: blocks_inv_def)
    then have "nat_sizes (flightBlocks q) < 2 ^ 32" using ok pos by (simp add: conn_ok_def)
    then show ?thesis
      using o [OF that] conn_ok_open [OF ok that] by (simp add: open_ok_def send_inv_def recv_inv_def)
  qed
  moreover have "closed_ok ?c" if "\<not> is_open c" using that ok cl by (simp add: conn_ok_def closed_ok_def)
  moreover have "reads T ?c e = reads T c e" for e by (simp add: reads_def)
  ultimately show ?thesis using ok pos by (simp add: conn_ok_def grows_def)
qed

text \<open>An acknowledgement.\<close>

lemma note_ack_frame: "same_stream q (note_ack a q)"
  by (simp add: note_ack_def same_stream_def Let_def)

lemma same_stream_trans: "same_stream q r \<Longrightarrow> same_stream r s \<Longrightarrow> same_stream q s"
  by (simp add: same_stream_def)

lemma confirm_loop_frame: "confirm_loop sack fs ls acked q = Some (n, q') \<Longrightarrow> same_stream q q'"
proof (induction sack fs ls acked q rule: confirm_loop.induct)
  case (1 sack fs ls acked q)
  show ?case
  proof (cases "fs = [] \<and> ls = []")
    case True
    then show ?thesis using 1(2) by (simp add: confirm_loop.simps same_stream_def)
  next
    case False
    obtain bF b fs' ls' where p: "pick_block fs ls = (bF, b, fs', ls')" by (metis prod_cases4)
    obtain state where s: "block_state sack b q = Some state"
      using 1(2) False p by (subst (asm) confirm_loop.simps) (auto split: option.splits)
    show ?thesis
    proof (cases "state = SEND_BLOCK_CHECK_STATE_OUT_OF_RANGE")
      case True
      then show ?thesis using 1(2) False p s by (subst (asm) confirm_loop.simps) (auto simp: same_stream_def)
    next
      case go: False
      have "confirm_loop sack fs' ls' (if state = SEND_BLOCK_CHECK_STATE_ACK then acked + block_size32 b else acked)
          (settle_block state bF b (use_dup_ack b q)) = Some (n, q')"
        using 1(2) False go p s by (subst (asm) confirm_loop.simps) simp
      then have "same_stream (settle_block state bF b (use_dup_ack b q)) q'"
        using "1.IH" [OF False p [symmetric] refl refl s go] by simp
      then show ?thesis by (simp add: same_stream_def settle_same)
    qed
  qed
qed

lemma confirm_frame:
  assumes "SendQueueConfirmRange ackPos sack q = Some (r, n, q')"
  shows "same_stream q q'"
proof -
  have "q' = q \<or> (\<exists>n. confirm_loop sack (flightBlocks (note_ack ackPos q)) (lostBlocks (note_ack ackPos q)) 0
      ((note_ack ackPos q)\<lparr>flightBlocks := [], lostBlocks := []\<rparr>) = Some (n, q'))"
    using assms by (auto simp: SendQueueConfirmRange_def Let_def split: Option.bind_splits if_splits)
  then show ?thesis
    using confirm_loop_frame same_stream_trans [OF note_ack_frame [of q ackPos]] by (fastforce simp: same_stream_def)
qed

lemma held_kept: "held q = (\<Union>b\<in>set_mset (kept q). {startStreamPos b..<endStreamPos b})"
  by (auto simp: held_def kept_def)

text \<open>What the acknowledgement frees has been received.\<close>

lemma confirm_kept:
  assumes inv: "stream_inv S q" and k: "kept_ok R q" and R: "R \<subseteq> {..<sc_streamPos q}"
    and p: "sack_ok (sackArray p)" "acked_positions p \<subseteq> R"
    and c: "SendQueueConfirmRange (ackStreamPos p) (sackArray p) q = Some (r, n, q')"
  shows "stream_inv S q' \<and> kept_ok R q' \<and> set_mset (kept q') \<subseteq> set_mset (kept q)"
proof -
  have ackR: "{..<ackStreamPos p} \<subseteq> R" using p(2) by (simp add: acked_positions_def)
  then have "{..<ackStreamPos p} \<subseteq> {..<sc_streamPos q}" using R by (rule subset_trans)
  then have le: "ackStreamPos p \<le> sc_streamPos q" by auto
  have b: "blocks_inv q" using inv by (simp add: stream_inv_def)
  obtain gone where g: "kept q' + mset gone = kept q"
    "\<forall>b\<in>set gone. acked_by (max (ackStreamPos p) (sc_ackStreamPos q)) (sackArray p) b"
    "sc_ackStreamPos q' = max (ackStreamPos p) (sc_ackStreamPos q)" "same_stream q q'"
    using confirm_spec [OF b le p(1)] c by auto
  have ack: "{..<sc_ackStreamPos q'} \<subseteq> R" using g(3) ackR k by (auto simp: kept_ok_def max_def)
  have "{startStreamPos b..<endStreamPos b} \<subseteq> R" if b: "b \<in> set gone" for b
  proof -
    consider "endStreamPos b \<le> sc_ackStreamPos q'"
      | x where "x \<in> set (ranges_of p)" "range_pos x \<le> startStreamPos b" "endStreamPos b \<le> range_pos x + ucast (range_length x)"
      using g(2,3) b by (auto simp: acked_by_def ranges_of_def)
    then show ?thesis
    proof cases
      case 1
      then show ?thesis using ack by fastforce
    next
      case 2
      then have "{startStreamPos b..<endStreamPos b} \<subseteq> acked_positions p" by (fastforce simp: acked_positions_def)
      then show ?thesis using p(2) by blast
    qed
  qed
  moreover have "set_mset (kept q) = set_mset (kept q') \<union> set gone"
    by (simp add: g(1) [symmetric])
  ultimately have "held q \<subseteq> R \<union> held q'" unfolding held_kept by fastforce
  then have "kept_ok R q'" using ack k g(4) unfolding kept_ok_def same_stream_def by auto
  moreover have "stream_inv S q'" using confirm_inv_spec [OF inv le p(1) c] by simp
  ultimately show ?thesis using g(1) by (metis mset_subset_eq_add_left set_mset_mono)
qed

lemma mtu_blocks_kept: "set_mset (kept q') \<subseteq> set_mset (kept q) \<Longrightarrow> queue_mtu q' = queue_mtu q \<Longrightarrow> mtu_blocks q \<Longrightarrow> mtu_blocks q'"
  by (auto simp: mtu_blocks_def kept_def)

lemma confirm_keeps:
  assumes ok: "conn_ok S T k R c" and p: "sack_ok (sackArray p)" "acked_positions p \<subseteq> R"
    and c: "SendQueueConfirmRange (ackStreamPos p) (sackArray p) (sendQueue c) = Some (r, n, q)"
  shows "conn_ok S T k R (c\<lparr>sendQueue := q\<rparr>) \<and> grows c (c\<lparr>sendQueue := q\<rparr>)"
proof (rule queue_keeps [OF ok])
  have s: "same_stream (sendQueue c) q" using confirm_frame [OF c] .
  then show "sc_streamPos q = sent_pos c" by (simp add: same_stream_def)
  show "buffers q = []" if "\<not> is_open c" using s ok that by (simp add: conn_ok_def closed_ok_def same_stream_def)
  assume o: "is_open c"
  have R: "R \<subseteq> {..<sent_pos c}" using ok by (simp add: conn_ok_def)
  note f = confirm_kept [OF conn_ok_open(4,3) [OF ok o] R p c]
  have "mtu_blocks (sendQueue c)" using conn_ok_open(1) [OF ok o] by (simp add: send_inv_def)
  then show "stream_inv S q \<and> mtu_blocks q \<and> queue_mtu q = queue_mtu (sendQueue c) \<and> kept_ok R q \<and> unat (sb_streamPos q) < 2 ^ 32"
    using f s ok o mtu_blocks_kept [of q "sendQueue c"] by (simp add: same_stream_def conn_ok_def open_ok_def)
qed

lemma pop_frame:
  assumes "SendQueuePopCompleteBuffers q = (ds, q')"
  shows "kept q' = kept q" "sc_streamPos q' = sc_streamPos q" "sc_ackStreamPos q' = sc_ackStreamPos q"
    "sb_streamPos q' = sb_streamPos q" "queue_mtu q' = queue_mtu q" "buffers q = [] \<Longrightarrow> buffers q' = []"
  using assms by (auto simp: SendQueuePopCompleteBuffers_def kept_def split: prod.splits)

lemma pop_sent_keeps: "keeps S T k R c (pop_sent c)"
proof (cases "conn_ok S T k R c")
  case ok: True
  obtain ds q where d: "SendQueuePopCompleteBuffers (sendQueue c) = (ds, q)" by force
  note f = pop_frame [OF d]
  have "conn_ok S T k R (c\<lparr>sendQueue := q\<rparr>) \<and> grows c (c\<lparr>sendQueue := q\<rparr>)"
  proof (rule queue_keeps [OF ok f(2)])
    show "buffers q = []" if "\<not> is_open c" using f(6) ok that by (simp add: conn_ok_def closed_ok_def)
    assume o: "is_open c"
    have "stream_inv S q" using send_pop_spec [OF conn_ok_open(4) [OF ok o]] d by simp
    moreover have "mtu_blocks q"
      using mtu_blocks_kept [of q "sendQueue c"] f conn_ok_open(1) [OF ok o] by (simp add: send_inv_def)
    ultimately show "stream_inv S q \<and> mtu_blocks q \<and> queue_mtu q = queue_mtu (sendQueue c) \<and> kept_ok R q \<and>
        unat (sb_streamPos q) < 2 ^ 32"
      using f ok o conn_ok_open(3) [OF ok o] by (simp add: kept_ok_def held_kept conn_ok_def open_ok_def)
  qed
  then have "keeps S T k R c (c\<lparr>sendQueue := q\<rparr>)" by (simp add: keeps_def)
  moreover have "keeps S T k R d (PackageConnectionNotifySendCompleteBuffers bs d)" for d bs
    by (rule same_net_keeps) (auto simp: same_net_def PackageConnectionNotifySendCompleteBuffers_def fire_def)
  ultimately show ?thesis using d by (auto simp: pop_sent_def Let_def intro: keeps_trans)
qed (simp add: keeps_def)

lemma update_sample_mtu:
  assumes "UpdateSample now p c = Some d"
  shows "cc_mtu d = cc_mtu c"
proof -
  have base: "UpdateBaseDelay n v e = Some f \<Longrightarrow> cc_mtu f = cc_mtu e" for n v e f
    by (auto simp: UpdateBaseDelay_def Let_def split: Option.bind_splits if_splits)
  have curr: "UpdateCurrDelay v e = Some f \<Longrightarrow> cc_mtu f = cc_mtu e" for v e f
    by (auto simp: UpdateCurrDelay_def Let_def split: Option.bind_splits)
  show ?thesis
    using assms by (auto simp: UpdateSample_def Let_def dest!: base curr split: Option.bind_splits if_splits)
qed

lemma on_ack_mtu:
  assumes "LedbatCcOnAck rnd now p n fl c = Some l"
  shows "cc_mtu l = cc_mtu c"
proof -
  obtain d where "UpdateSample now p c = Some d" "l = d \<or> (\<exists>w. l = d\<lparr>wnd := w\<rparr>)"
    using assms by (auto simp: LedbatCcOnAck_def Let_def split: Option.bind_splits if_splits)
  then show ?thesis using update_sample_mtu by auto
qed

lemma push_ack_keeps:
  assumes p: "sack_ok (sackArray p)" "acked_positions p \<subseteq> R" and s: "push_ack rnd now p c = Some c'"
  shows "keeps S T k R c c'"
proof (cases "conn_ok S T k R c")
  case ok: True
  obtain e n q where q: "SendQueueConfirmRange (ackStreamPos p) (sackArray p) (sendQueue c) = Some (e, n, q)"
    using s by (auto simp: push_ack_def split: Option.bind_splits)
  let ?c = "c\<lparr>sendQueue := q\<rparr>"
  have c: "keeps S T k R c ?c" using confirm_keeps [OF ok p q] by (simp add: keeps_def)
  show ?thesis
  proof (cases "e = BFX_RESULT_SUCCESS")
    case False
    then show ?thesis using s q c by (simp add: push_ack_def)
  next
    case True
    obtain d e where d: "d = ?c \<or> (\<exists>l. d = ?c\<lparr>cc := l\<rparr> \<and> cc_mtu l = cc_mtu (cc c))"
      "PackageConnectionTrySendPackage now d = Some e" "c' = (if n > 0 then pop_sent e else e)"
      using s q True by (auto simp: push_ack_def Let_def dest: on_ack_mtu split: Option.bind_splits if_splits)
    have "keeps S T k R ?c d" using d(1) by (auto intro!: same_netI)
    moreover have "keeps S T k R d e" using try_send_keeps [OF d(2)] .
    moreover have "keeps S T k R e c'" using d(3) pop_sent_keeps by simp
    ultimately show ?thesis using c by (blast intro: keeps_trans)
  qed
qed (simp add: keeps_def)

section \<open>The receive queue\<close>

lemma recv_queue_keeps:
  assumes ok: "conn_ok S T k R c" and q: "rinv q" "got c \<subseteq> received q" "received q \<subseteq> {..<k}"
    and o: "is_open c \<Longrightarrow> data_inv T q \<and> readStreamPos q = readStreamPos (recvQueue c)"
    and cl: "\<not> is_open c \<Longrightarrow> rbuffers q = []"
  shows "conn_ok S T k R (c\<lparr>recvQueue := q\<rparr>) \<and> grows c (c\<lparr>recvQueue := q\<rparr>)"
proof -
  let ?c = "c\<lparr>recvQueue := q\<rparr>"
  have k: "unat k < 2 ^ 32" using ok by (simp add: conn_ok_def)
  have "open_ok S T R ?c" if "is_open c"
    using o [OF that] conn_ok_open [OF ok that] ok that q(1) small_ranges [OF q(1,3) k]
    by (simp add: open_ok_def send_inv_def recv_inv_def conn_ok_def)
  moreover have "closed_ok ?c" if "\<not> is_open c" using that ok cl by (simp add: conn_ok_def closed_ok_def)
  moreover have "reads T c e \<Longrightarrow> reads T ?c e" for e using o q(2) by (auto simp: reads_def)
  moreover have "told S (sent_pos c) (got c) p \<Longrightarrow> told S (sent_pos c) (received q) p" for p
    using told_mono [OF _ order_refl q(2)] .
  ultimately show ?thesis using ok q by (auto simp: conn_ok_def grows_def)
qed

text \<open>A closed connection has no buffers, but still records what comes in.\<close>

lemma save_without_buffers:
  assumes "RecvQueueSavePayload pos bytes q = Some (n, q')" and "rbuffers q = []"
  shows "q' = q \<and> n \<le> length bytes"
  using assms by (auto simp: RecvQueueSavePayload_def Let_def split: if_splits)

lemma write_without_buffers:
  assumes w: "RecvQueueWriteData pos bytes len q = Some (t, q')" and q: "rbuffers q = []" "rinv q"
    and bound: "unat pos + unat len < 2 ^ 63"
  shows "rbuffers q' = [] \<and> rinv q' \<and> received q \<subseteq> received q' \<and> received q' \<subseteq> received q \<union> {pos..<pos + ucast len}"
proof -
  consider "q' = q" | n r where "RecvQueueSavePayload pos (take (unat len) bytes) q = Some (n, r)"
    "if n \<noteq> 0 then \<exists>t. RecvQueueUpdateStreamPos pos (pos + of_nat n) r = Some (t, q') else q' = r"
    using w unfolding RecvQueueWriteData_def by (auto split: if_splits Option.bind_splits)
  then consider "q' = q" | n where "RecvQueueSavePayload pos (take (unat len) bytes) q = Some (n, q)" "n \<noteq> 0" "n \<le> unat len"
    "\<exists>t. RecvQueueUpdateStreamPos pos (pos + of_nat n) q = Some (t, q')"
  proof cases
    case (2 n r)
    then have "r = q" "n \<le> unat len" using save_without_buffers [OF 2(1) q(1)] by auto
    then show thesis using 2 that by (cases "n = 0") auto
  qed (use that in blast)
  then show ?thesis
  proof cases
    case 1
    then show ?thesis using q by simp
  next
    case (2 n)
    have "unat (of_nat n :: u64) = n" using 2(3) bound by simp
    then have e: "unat (pos + of_nat n) = unat pos + n" using 2(3) bound by (subst unat_add_no_overflow) auto
    have e': "unat (pos + ucast len) = unat pos + unat len" using bound by (subst unat_add_no_overflow) simp_all
    have se: "pos < pos + of_nat n" "unat (pos + of_nat n) < 2 ^ 63"
      using 2(2,3) e bound by (simp_all add: word_less_unat)
    obtain r where "rinv r" "received r = received q \<union> {pos..<pos + of_nat n}" "same_buffers q r"
      "RecvQueueUpdateStreamPos pos (pos + of_nat n) q = Some (segment_type pos (pos + of_nat n) q, r)"
      using update_spec [OF q(2) se] by blast
    moreover have "pos + of_nat n \<le> pos + ucast len" using e e' 2(3) by (simp add: word_le_nat_alt)
    ultimately show ?thesis using 2(4) q(1) by (auto simp: same_buffers_def)
  qed
qed

lemma unat_image: "unat x \<in> unat ` A \<longleftrightarrow> (x :: u64) \<in> A"
  by (auto dest: word_unat_eq_iff [THEN iffD2])

text \<open>A package from the other side: the part of it that concerns this connection.\<close>

definition incoming :: "(nat \<Rightarrow> u8) \<Rightarrow> u64 \<Rightarrow> u64 set \<Rightarrow> Bdt_SessionDataPackage \<Rightarrow> bool" where
  "incoming T k R p \<longleftrightarrow> told T k R p"

lemma write_keeps:
  assumes ok: "conn_ok S T k R c" and p: "incoming T k R p" and b: "payload p = Some bytes"
    and w: "RecvQueueWriteData (streamPos p) bytes (payloadLength p) (recvQueue c) = Some (t, q)"
  shows "conn_ok S T k R (c\<lparr>recvQueue := q\<rparr>) \<and> grows c (c\<lparr>recvQueue := q\<rparr>)"
proof -
  have k: "unat k < 2 ^ 32" "rinv (recvQueue c)" "got c \<subseteq> {..<k}" using ok by (simp_all add: conn_ok_def)
  have bytes: "bytes_at T (unat (streamPos p)) (unat (payloadLength p)) bytes"
    and le: "unat (streamPos p) + unat (payloadLength p) \<le> unat k"
    using p b by (auto simp: incoming_def told_def payload_ok_def)
  have bound: "unat (streamPos p) + unat (payloadLength p) < 2 ^ 63" using le k by simp
  have e: "unat (streamPos p + ucast (payloadLength p)) = unat (streamPos p) + unat (payloadLength p)"
    using bound by (subst unat_add_no_overflow) simp_all
  show ?thesis
  proof (cases "is_open c")
    case True
    have d: "data_inv T (recvQueue c)" using conn_ok_open(5) [OF ok True] .
    have q: "data_inv T q" "readStreamPos q = readStreamPos (recvQueue c)"
      "unat ` received q = unat ` got c \<union> {unat (streamPos p)..<min (unat (streamPos p) + unat (payloadLength p)) (window_end (recvQueue c))}"
      using write_data_spec [OF d bytes bound] w by auto
    have "x \<in> received q" if "x \<in> got c" for x
    proof -
      have "unat x \<in> unat ` received q" using that q(3) by blast
      then show ?thesis by (simp add: unat_image)
    qed
    moreover have "x < k" if "x \<in> received q" for x
    proof -
      have "unat x \<in> unat ` got c \<or> unat x < unat k" using that q(3) le by fastforce
      then show ?thesis using k(3) by (auto simp: word_unat_eq_iff word_less_nat_alt)
    qed
    ultimately show ?thesis using True q(1,2) by (intro recv_queue_keeps [OF ok]) (auto simp: data_inv_def)
  next
    case False
    have "rbuffers (recvQueue c) = []" using ok False by (simp add: conn_ok_def closed_ok_def)
    note w' = write_without_buffers [OF w this k(2) bound]
    have "streamPos p + ucast (payloadLength p) \<le> k" using e le by (simp add: word_le_nat_alt)
    then have "received q \<subseteq> {..<k}" using w' k(3) by fastforce
    then show ?thesis using False w' by (intro recv_queue_keeps [OF ok]) auto
  qed
qed

lemma save_payload_keeps:
  assumes p: "incoming T k R p" and s: "save_payload p c = Some (t, c')"
  shows "keeps S T k R c c'"
proof -
  define d where "d = (if has_flag (cmdflags p) BDT_SESSIONDATA_PACKAGE_FLAG_FIN
    then c\<lparr>remoteCloseStreamPos := streamPos p + ucast (payloadLength p)\<rparr> else c)"
  have d: "c' = d \<or> (\<exists>bytes t q. payload p = Some bytes \<and> c' = d\<lparr>recvQueue := q\<rparr> \<and>
       RecvQueueWriteData (streamPos p) bytes (payloadLength p) (recvQueue d) = Some (t, q))"
    using s unfolding save_payload_def Let_def d_def [symmetric] by (auto split: option.splits if_splits)
  have "keeps S T k R c d" by (auto simp: d_def intro!: same_netI)
  moreover have "keeps S T k R d c'"
    using d
  proof
    assume "\<exists>bytes t q. payload p = Some bytes \<and> c' = d\<lparr>recvQueue := q\<rparr> \<and>
       RecvQueueWriteData (streamPos p) bytes (payloadLength p) (recvQueue d) = Some (t, q)"
    then show ?thesis using write_keeps [OF _ p] unfolding keeps_def by blast
  qed simp
  ultimately show ?thesis by (rule keeps_trans)
qed

lemma deliver_frame:
  assumes "deliver_ready force c = Some d"
  shows "sendQueue d = sendQueue c" "cc d = cc c" "pc_config d = pc_config c" "pc_state d = pc_state c"
    "\<exists>es. pc_events d = pc_events c @ es \<and> (\<forall>p. PackageSent p \<notin> set es)"
proof -
  obtain ds q where q: "d = (if ds \<noteq> [] then PackageConnectionNotifyRecvReadyBuffers ds (c\<lparr>recvQueue := q\<rparr>) else c\<lparr>recvQueue := q\<rparr>)"
    using assms by (auto simp: deliver_ready_def Let_def split: Option.bind_splits)
  show "sendQueue d = sendQueue c" "cc d = cc c" "pc_config d = pc_config c" "pc_state d = pc_state c"
    "\<exists>es. pc_events d = pc_events c @ es \<and> (\<forall>p. PackageSent p \<notin> set es)"
    unfolding q by (auto simp: PackageConnectionNotifyRecvReadyBuffers_def fire_def recv_event_def Let_def split: prod.splits)
qed

lemma stream_part_append: "p \<le> m \<Longrightarrow> m \<le> e \<Longrightarrow> stream_part S p m @ stream_part S m e = stream_part S p e"
  by (simp add: stream_part_def upt_append_le word_le_nat_alt flip: map_append)

lemma deliver_keeps:
  assumes "deliver_ready force c = Some c'"
  shows "keeps S T k R c c'"
proof (cases "conn_ok S T k R c")
  case ok: True
  show ?thesis
  proof (cases "is_open c")
    case True
    obtain d es where d: "deliver_ready force c = Some d" "recv_inv T d" "pc_events d = pc_events c @ es"
      "received_bytes es = stream_part T (readStreamPos (recvQueue c)) (readStreamPos (recvQueue d))"
      "readStreamPos (recvQueue c) \<le> readStreamPos (recvQueue d)" "got d = got c"
      using deliver_spec [OF conn_ok_open(2) [OF ok True], of force] by blast
    have d': "d = c'" using d(1) assms by simp
    note f = deliver_frame [OF d(1)]
    have inv: "data_inv T (recvQueue d)" "rinv (recvQueue d)" "readStreamPos (recvQueue d) \<le> rq_ackStreamPos (recvQueue d)"
      using d(2) by (simp_all add: recv_inv_def data_inv_def)
    have "\<forall>b\<in>set (blocks (recvQueue d)). fits_range b"
      using small_ranges [OF inv(2), of k] ok d(6) by (simp add: conn_ok_def)
    then have o: "open_ok S T R d"
      using conn_ok_open [OF ok True] ok True f d(2) inv(2) by (simp add: open_ok_def send_inv_def conn_ok_def)
    have "reads T c (readStreamPos (recvQueue c))" using ok True by (auto simp: conn_ok_def reads_def)
    then have "reads T d (readStreamPos (recvQueue d))"
      using d(3-5) inv(3) stream_part_append [of 1 "readStreamPos (recvQueue c)" "readStreamPos (recvQueue d)" T]
      by (auto simp: reads_def received_def)
    moreover have "PackageSent p \<in> set (pc_events d) \<Longrightarrow> PackageSent p \<in> set (pc_events c)" for p using f(5) by auto
    ultimately have "conn_ok S T k R d" using ok True o f d(6) inv(2) by (auto simp: conn_ok_def)
    then show ?thesis using f d(6) d' by (simp add: keeps_def grows_def)
  next
    case False
    then have b: "rbuffers (recvQueue c) = []" using ok by (simp add: conn_ok_def closed_ok_def)
    then have "c' = c\<lparr>recvQueue := recvQueue c\<lparr>rbuffers := []\<rparr>\<rparr>"
      using assms by (simp add: deliver_ready_def RecvQueuePopCompleteBuffers_def)
    then have "c' = c" using b by simp
    then show ?thesis by simp
  qed
qed (simp add: keeps_def)

lemma answer_payload_keeps:
  assumes "answer_payload now p t c = Some c'"
  shows "keeps S T k R c c'"
proof (cases "t = RECV_PACKAGE_TYPE_NONE")
  case True
  then show ?thesis using assms by (simp add: answer_payload_def)
next
  case False
  obtain r l where l: "LedbatCcOnData (Some p) t (cc c) = (r, l)" by force
  have "cc_mtu l = cc_mtu (cc c)"
    using l by (auto simp: LedbatCcOnData_def split: if_splits option.splits)
  then have 1: "keeps S T k R c (c\<lparr>cc := l\<rparr>)" by (intro same_netI) simp_all
  obtain d where d: "(if r = BFX_RESULT_SUCCESS then PackageConnectionTrySendPackage now (c\<lparr>cc := l\<rparr>)
      else Some (c\<lparr>cc := l\<rparr>)) = Some d"
    and c': "c' = d \<or> (\<exists>force. deliver_ready force (PackageConnectionBeginRecvTimer d) = Some c')"
    using assms l False by (auto simp: answer_payload_def Let_def split: Option.bind_splits if_splits)
  have "keeps S T k R (c\<lparr>cc := l\<rparr>) d" using d try_send_keeps by (auto split: if_splits)
  moreover have "keeps S T k R d (PackageConnectionBeginRecvTimer d)"
    by (rule same_netI) (simp_all add: PackageConnectionBeginRecvTimer_def)
  then have "keeps S T k R d c'" using c' deliver_keeps keeps_trans keeps_refl by blast
  ultimately show ?thesis using 1 keeps_trans by blast
qed

lemma push_payload_keeps:
  assumes "incoming T k R p" and "push_payload now p c = Some c'"
  shows "keeps S T k R c c'"
proof -
  obtain t d where "save_payload p c = Some (t, d)" "answer_payload now p t d = Some c'"
    using assms(2) by (auto simp: push_payload_def split: Option.bind_splits)
  then show ?thesis using save_payload_keeps [OF assms(1)] answer_payload_keeps keeps_trans by blast
qed

section \<open>Closing\<close>

text \<open>The buffers are handed back; what has been received or sent does not change.\<close>

lemma finish_keeps: "keeps S T k R c (PackageConnectionMaybeCloseFinish c)"
proof (cases "conn_ok S T k R c \<and> closeSubState c = PACKAGE_CONNECTION_CLOSE_SUBSTATE_CLOSED \<and>
    pc_flags c AND (PACKAGE_CONNECTION_FLAG_CLOSE_RECV OR PACKAGE_CONNECTION_FLAG_CLOSE_SEND) \<noteq> 0 \<and>
    pc_state c = PACKAGE_CONNECTION_STATE_CLOSING")
  case True
  let ?es = "map (\<lambda>b. RecvCallback (rbuf_callback b) [] 0) (rbuffers (recvQueue c)) @ map send_event (buffers (sendQueue c))"
  let ?c = "c\<lparr>pc_state := PACKAGE_CONNECTION_STATE_CLOSE, closeTimer := stop_timer (closeTimer c),
      rtoTimer := stop_timer (rtoTimer c), recvTimer := stop_timer (recvTimer c),
      recvQueue := (recvQueue c)\<lparr>rbuffers := []\<rparr>, sendQueue := (sendQueue c)\<lparr>buffers := []\<rparr>, pc_events := pc_events c @ ?es\<rparr>"
  have c: "PackageConnectionMaybeCloseFinish c = ?c"
    using True by (simp add: PackageConnectionMaybeCloseFinish_def RecvQueuePopAllBuffers_def SendQueuePopAllBuffers_def fire_def)
  have q: "quiet ?es" by simp
  have "reads T c e \<Longrightarrow> reads T ?c e" for e using q by (simp add: reads_def quiet_def del: map_append)
  moreover have "PackageSent p \<in> set (pc_events ?c) \<Longrightarrow> PackageSent p \<in> set (pc_events c)" for p
    by (auto simp: send_event_def)
  ultimately show ?thesis
    unfolding c using True by (auto simp: keeps_def conn_ok_def closed_ok_def grows_def send_event_def)
qed (auto simp: keeps_def PackageConnectionMaybeCloseFinish_def grows_def)

lemma close_keeps:
  assumes "PackageConnectionClose now c = Some (r, c')"
  shows "keeps S T k R c c'"
proof (cases "pc_state c = PACKAGE_CONNECTION_STATE_CLOSE \<or> pc_state c = PACKAGE_CONNECTION_STATE_CLOSING")
  case True
  then show ?thesis using assms by (auto simp: PackageConnectionClose_def)
next
  case False
  obtain e pos where p: "SendQueueAddCloseOperation (sendQueue c) = (e, pos)" by force
  define d where "d = (if pc_state c = PACKAGE_CONNECTION_STATE_ESTABLISH then c\<lparr>pc_state := PACKAGE_CONNECTION_STATE_CLOSING\<rparr> else c)
    \<lparr>selfCloseStreamPos := pos\<rparr>"
  have "same_net c d" using False by (simp add: same_net_def d_def)
  then have 1: "keeps S T k R c d" by (rule same_net_keeps)
  have "sendQueue (if pc_state c = PACKAGE_CONNECTION_STATE_ESTABLISH then c\<lparr>pc_state := PACKAGE_CONNECTION_STATE_CLOSING\<rparr> else c) = sendQueue c"
    by simp
  then have "PackageConnectionClose now c =
      map_option (Pair BFX_RESULT_SUCCESS) (if e = BFX_RESULT_SUCCESS then PackageConnectionTrySendPackage now d else Some d)"
    using False p unfolding PackageConnectionClose_def d_def Let_def by simp
  then have "map_option (Pair BFX_RESULT_SUCCESS) (if e = BFX_RESULT_SUCCESS then PackageConnectionTrySendPackage now d else Some d) =
      Some (r, c')" using assms by simp
  then have "c' = d \<or> PackageConnectionTrySendPackage now d = Some c'" by (auto split: if_splits)
  then show ?thesis using 1 try_send_keeps keeps_trans by blast
qed

lemma reset_keeps:
  assumes "PackageConnectionReset c = (r, c')"
  shows "keeps S T k R c c'"
proof (cases "pc_state c = PACKAGE_CONNECTION_STATE_ESTABLISH")
  case True
  let ?d = "c\<lparr>pc_state := PACKAGE_CONNECTION_STATE_CLOSING, closeSubState := PACKAGE_CONNECTION_CLOSE_SUBSTATE_CLOSED,
     pc_flags := pc_flags c OR (PACKAGE_CONNECTION_FLAG_CLOSE_RECV OR PACKAGE_CONNECTION_FLAG_CLOSE_SEND)\<rparr>"
  have "keeps S T k R c ?d" by (rule same_net_keeps) (use True in \<open>auto simp: same_net_def\<close>)
  then show ?thesis using assms True finish_keeps keeps_trans by (fastforce simp: PackageConnectionReset_def)
next
  case False
  then show ?thesis using assms by (simp add: PackageConnectionReset_def)
qed

text \<open>The flags of a package.\<close>

lemma keeps_if: "(conn_ok S T k R c \<Longrightarrow> keeps S T k R c c') \<Longrightarrow> keeps S T k R c c'"
  by (auto simp: keeps_def)

lemma on_fin_keeps:
  assumes "on_fin now c = Some c'"
  shows "keeps S T k R c c'"
proof (rule keeps_if)
  assume ok: "conn_ok S T k R c"
  show ?thesis
  proof (cases "is_open c")
    case True
    let ?d = "c\<lparr>closeSubState := PACKAGE_CONNECTION_CLOSE_SUBSTATE_WAITCLOSE\<rparr>"
    have "same_net c ?d" using True by (auto simp: same_net_def)
    moreover have "same_net c c' \<or> (\<exists>r. PackageConnectionClose now ?d = Some (r, c'))"
      using assms True
      by (cases "closeSubState c") (auto simp: on_fin_def same_net_def PackageConnectionBeginTimewaitTimer_def Let_def split: if_splits)
    ultimately show ?thesis using same_net_keeps close_keeps keeps_trans by metis
  next
    case False
    then show ?thesis using ok assms by (simp add: conn_ok_def closed_ok_def on_fin_def)
  qed
qed

lemma on_finack_keeps: "keeps S T k R c (on_finack c)"
proof (rule keeps_if)
  assume ok: "conn_ok S T k R c"
  show ?thesis
  proof (cases "is_open c")
    case True
    show ?thesis
    proof (cases "closeSubState c = PACKAGE_CONNECTION_CLOSE_SUBSTATE_LASTACK")
      case last: True
      let ?d = "c\<lparr>pc_flags := pc_flags c OR PACKAGE_CONNECTION_FLAG_CLOSE_SEND, closeTimer := stop_timer (closeTimer c),
        closeSubState := PACKAGE_CONNECTION_CLOSE_SUBSTATE_CLOSED\<rparr>"
      have "on_finack c = PackageConnectionMaybeCloseFinish ?d" using last by (simp add: on_finack_def Let_def)
      moreover have "keeps S T k R c ?d" by (rule same_net_keeps) (use True in \<open>auto simp: same_net_def\<close>)
      ultimately show ?thesis using keeps_trans [OF _ finish_keeps] by simp
    next
      case False
      then have "same_net c (on_finack c)"
        using True by (cases "closeSubState c") (simp_all add: on_finack_def same_net_def PackageConnectionBeginTimewaitTimer_def Let_def)
      then show ?thesis by (rule same_net_keeps)
    qed
  next
    case False
    then show ?thesis using ok by (simp add: conn_ok_def closed_ok_def on_finack_def)
  qed
qed

lemma update_recv_keeps:
  assumes "UpdateCloseSubState_recv now f c = Some c'"
  shows "keeps S T k R c c'"
proof -
  obtain d where "d = c \<or> on_fin now c = Some d" "c' = d \<or> c' = on_finack d"
    using assms by (auto simp: UpdateCloseSubState_recv_def split: Option.bind_splits if_splits)
  then show ?thesis using on_fin_keeps on_finack_keeps keeps_trans keeps_refl by metis
qed

section \<open>The operations\<close>

lemma estimate_keeps:
  assumes "PackageConnectionEstimateRtt now p c = Some c'"
  shows "keeps S T k R c c'"
proof -
  have "\<exists>e r. PackageConnectionEstimateRttFromLinuxTcp m c = c\<lparr>rttEst := e, rto := r\<rparr>" for m
    unfolding PackageConnectionEstimateRttFromLinuxTcp_def Let_def by blast
  then obtain e r where "PackageConnectionEstimateRttFromLinuxTcp (ucast (now - rtt_sendTime (rttEst c))) c = c\<lparr>rttEst := e, rto := r\<rparr>"
    by blast
  then have "c' = c \<or> (\<exists>e r. c' = c\<lparr>rto := r, rttEst := e\<rparr>)"
    using assms by (auto simp: PackageConnectionEstimateRtt_def Let_def split: Option.bind_splits if_splits)
  then show ?thesis
    by (elim disjE exE) (simp, rule same_netI, simp_all)
qed

lemma ackack_keeps:
  assumes "PackageConnectionSendAckAck now c = Some (r, c')"
  shows "keeps S T k R c c'"
proof -
  let ?c = "c\<lparr>cc := snd (LedbatCcOnData None RECV_PACKAGE_TYPE_IN_ORDER (cc c))\<rparr>"
  have "keeps S T k R c ?c" by (rule same_netI) (simp_all add: LedbatCcOnData_def)
  moreover have "PackageConnectionTrySendPackage now ?c = Some c'"
    using assms by (auto simp: PackageConnectionSendAckAck_def Let_def)
  ultimately show ?thesis using try_send_keeps keeps_trans by blast
qed

lemma push_keeps:
  assumes p: "has_flag (cmdflags p) BDT_SESSIONDATA_PACKAGE_FLAG_SYN \<or> incoming T k R p"
    and s: "PackageConnectionPushPackage rnd now p c = Some (r, c')"
  shows "keeps S T k R c c'"
proof (cases "has_flag (cmdflags p) BDT_SESSIONDATA_PACKAGE_FLAG_SYN")
  case True
  then have "c' = c \<or> (\<exists>r. PackageConnectionSendAckAck now c = Some (r, c'))"
    using s by (auto simp: PackageConnectionPushPackage_def split: if_splits)
  then show ?thesis using ackack_keeps by auto
next
  case False
  have i: "incoming T k R p" "sack_ok (sackArray p)" "acked_positions p \<subseteq> R"
    using p False by (auto simp: incoming_def told_def)
  let ?c = "c\<lparr>lastRecvAckTime := now\<rparr>"
  obtain d e f where s: "PackageConnectionEstimateRtt now p ?c = Some d" "UpdateCloseSubState_recv now (cmdflags p) d = Some e"
    "push_ack rnd now p e = Some f" "push_payload now p f = Some c'"
    using s False by (auto simp: PackageConnectionPushPackage_def Let_def split: Option.bind_splits)
  have "keeps S T k R c ?c" by (rule same_netI) simp_all
  then show ?thesis
    by (rule keeps_trans [OF keeps_trans [OF keeps_trans [OF keeps_trans [OF _ estimate_keeps [OF s(1)]]
      update_recv_keeps [OF s(2)]] push_ack_keeps [OF i(2,3) s(3)]] push_payload_keeps [OF i(1) s(4)]])
qed

text \<open>The application writes the next bytes of its stream.\<close>

lemma add_buffer_frame:
  assumes "SendQueueAddBuffer bytes len cb q = (r, q')"
  shows "flightBlocks q' = flightBlocks q" "lostBlocks q' = lostBlocks q" "sc_streamPos q' = sc_streamPos q"
    "sc_ackStreamPos q' = sc_ackStreamPos q" "queue_mtu q' = queue_mtu q"
  using assms by (auto simp: SendQueueAddBuffer_def Let_def split: option.splits if_splits)

definition writes :: "(nat \<Rightarrow> u8) \<Rightarrow> u8 list \<Rightarrow> u64 \<Rightarrow> PackageConnection \<Rightarrow> bool" where
  "writes S bytes len c \<longleftrightarrow> bytes_at S (unat (sb_streamPos (sendQueue c))) (unat len) bytes \<and>
     unat (sb_streamPos (sendQueue c)) + unat len < 2 ^ 32"

lemma add_keeps:
  assumes w: "writes S bytes len c" and ok: "conn_ok S T k R c" and o: "is_open c"
    and q: "SendQueueAddBuffer (Some bytes) len cb (sendQueue c) = (e, q)"
  shows "conn_ok S T k R (c\<lparr>sendQueue := q\<rparr>) \<and> grows c (c\<lparr>sendQueue := q\<rparr>)"
proof -
  note f = add_buffer_frame [OF q]
  have s: "stream_inv S (sendQueue c)" "mtu_blocks (sendQueue c)" "kept_ok R (sendQueue c)"
    "unat (sb_streamPos (sendQueue c)) < 2 ^ 32"
    using ok o by (auto simp: conn_ok_def open_ok_def send_inv_def)
  have "stream_inv S q \<and> unat (sb_streamPos q) < 2 ^ 32"
  proof (cases "len = 0 \<or> cb = None")
    case True
    then have "q = sendQueue c" using q by (auto simp: SendQueueAddBuffer_def split: option.splits)
    then show ?thesis using s by simp
  next
    case False
    then obtain d where "cb = Some d" by blast
    then show ?thesis
      using add_buffer_spec [OF s(1), of len bytes d] w q False by (simp add: writes_def)
  qed
  then show ?thesis using f s o by (intro queue_keeps [OF ok]) (simp_all add: mtu_blocks_def kept_ok_def held_def)
qed

lemma send_keeps:
  assumes w: "writes S bytes len c" and s: "PackageConnectionSend now (Some bytes) len cb c = Some (r, c')"
  shows "keeps S T k R c c'"
proof (rule keeps_if)
  assume ok: "conn_ok S T k R c"
  show ?thesis
  proof (cases "pc_state c = PACKAGE_CONNECTION_STATE_ESTABLISH")
    case False
    then show ?thesis using s by (simp add: PackageConnectionSend_def)
  next
    case True
    obtain e q where q: "SendQueueAddBuffer (Some bytes) len cb (sendQueue c) = (e, q)" by force
    have "keeps S T k R c (c\<lparr>sendQueue := q\<rparr>)" using add_keeps [OF w ok _ q] True by (simp add: keeps_def)
    moreover have "c' = c\<lparr>sendQueue := q\<rparr> \<or> PackageConnectionTrySendPackage now (c\<lparr>sendQueue := q\<rparr>) = Some c'"
      using s q True by (auto simp: PackageConnectionSend_def Let_def split: if_splits Option.bind_splits)
    ultimately show ?thesis using try_send_keeps keeps_trans by blast
  qed
qed

text \<open>The application offers memory to read into.\<close>

lemma recv_keeps:
  assumes m: "length mem = unat len" "window_end (recvQueue c) + unat len < 2 ^ 63"
    and s: "PackageConnectionRecv data mem len cb c = (r, c')"
  shows "keeps S T k R c c'"
proof (rule keeps_if)
  assume ok: "conn_ok S T k R c"
  show ?thesis
  proof (cases "is_open c")
    case False
    then show ?thesis using s by (simp add: PackageConnectionRecv_def)
  next
    case True
    have d: "data_inv T (recvQueue c)" using conn_ok_open(5) [OF ok True] .
    obtain r q where q: "RecvQueueAddBuffer data mem len cb (recvQueue c) = (r, q)" by force
    have c': "c' = c\<lparr>recvQueue := q\<rparr>" using s q True by (simp add: PackageConnectionRecv_def)
    have "q = recvQueue c \<or> (data_inv T q \<and> received q = got c \<and> readStreamPos q = readStreamPos (recvQueue c))"
    proof (cases "\<exists>a b. data = Some a \<and> cb = Some b \<and> len \<noteq> 0 \<and> a \<notin> rbuf_data ` set (rbuffers (recvQueue c))")
      case True
      then obtain a b where "data = Some a" "cb = Some b" "len \<noteq> 0" "a \<notin> rbuf_data ` set (rbuffers (recvQueue c))" by blast
      then show ?thesis using add_recv_spec [OF d _ m, of a b] q by auto
    next
      case False
      then have "q = recvQueue c"
        using q by (auto simp: RecvQueueAddBuffer_def find_None_iff split: option.splits if_splits)
      then show ?thesis by simp
    qed
    then show ?thesis
    proof
      assume "q = recvQueue c"
      then show ?thesis using c' by simp
    next
      assume n: "data_inv T q \<and> received q = got c \<and> readStreamPos q = readStreamPos (recvQueue c)"
      have "got c \<subseteq> {..<k}" using ok by (simp add: conn_ok_def)
      then show ?thesis
        unfolding c' keeps_def using recv_queue_keeps [OF ok, of q] n True by (auto simp: data_inv_def)
    qed
  qed
qed

text \<open>The timers.\<close>

lemma timers_keep [simp]:
  "keeps S T k R c (c\<lparr>closeTimer := t\<rparr>)" "keeps S T k R c (c\<lparr>rtoTimer := t\<rparr>)" "keeps S T k R c (c\<lparr>recvTimer := t\<rparr>)"
  "keeps S T k R c (PackageConnectionBeginFinTimer c)" "keeps S T k R c (PackageConnectionBeginRtoTimer c)"
  "keeps S T k R c (note_lost now c)"
  by (auto simp: PackageConnectionBeginFinTimer_def PackageConnectionBeginRtoTimer_def note_lost_def
      LedbatCcOnChangeState_def Let_def intro!: same_netI)

lemma fin_timer_keeps:
  assumes "PackageConnectionFinTimerCallback now c = Some c'"
  shows "keeps S T k R c c'"
proof -
  let ?c = "c\<lparr>closeTimer := stop_timer (closeTimer c)\<rparr>"
  have "c' = ?c \<or> (\<exists>d. PackageConnectionTrySendPackage now ?c = Some d \<and> c' = PackageConnectionBeginFinTimer d)"
    using assms by (auto simp: PackageConnectionFinTimerCallback_def Let_def split: if_splits)
  then show ?thesis using try_send_keeps timers_keep(1,4) keeps_trans by metis
qed

lemma timewait_keeps:
  assumes "is_open c"
  shows "keeps S T k R c (PackageConnectionTimewaitTimerCallback c)"
proof -
  let ?d = "c\<lparr>closeTimer := stop_timer (closeTimer c), pc_flags := pc_flags c OR PACKAGE_CONNECTION_FLAG_CLOSE_RECV,
    closeSubState := PACKAGE_CONNECTION_CLOSE_SUBSTATE_CLOSED\<rparr>"
  have "keeps S T k R c ?d" by (rule same_net_keeps) (use assms in \<open>auto simp: same_net_def\<close>)
  then show ?thesis using keeps_trans [OF _ finish_keeps] by (simp add: PackageConnectionTimewaitTimerCallback_def)
qed

lemma mark_timeout_keeps:
  assumes ok: "conn_ok S T k R c" "is_open c"
    and m: "SendQueueMarkRangeTimeout force t now (sendQueue c) = Some (n, q)"
  shows "conn_ok S T k R (c\<lparr>sendQueue := q\<rparr>) \<and> grows c (c\<lparr>sendQueue := q\<rparr>)"
proof -
  have o: "stream_inv S (sendQueue c)" "mtu_blocks (sendQueue c)" "kept_ok R (sendQueue c)"
    "nat_sizes (flightBlocks (sendQueue c)) < 2 ^ 32" "unat (sb_streamPos (sendQueue c)) < 2 ^ 32"
    using ok by (auto simp: conn_ok_def open_ok_def send_inv_def)
  have q: "stream_inv S q" "kept q = kept (sendQueue c)"
    using mark_timeout_spec [OF o(1,4), of force t now] m by auto
  have f: "sc_streamPos q = sent_pos c" "sb_streamPos q = sb_streamPos (sendQueue c)" "queue_mtu q = queue_mtu (sendQueue c)"
    "sc_ackStreamPos q = sc_ackStreamPos (sendQueue c)"
    using m by (auto simp: SendQueueMarkRangeTimeout_def MoveFlightToLost_def Let_def split: if_splits)
  show ?thesis
    using q f o mtu_blocks_kept [of q "sendQueue c"] ok(2)
    by (intro queue_keeps [OF ok(1)]) (simp_all add: kept_ok_def held_kept)
qed

lemma resend_keeps:
  assumes o: "is_open c" and r: "resend_timed_out now c = Some d"
  shows "keeps S T k R c d"
proof (rule keeps_if)
  assume ok: "conn_ok S T k R c"
  obtain n q where q: "SendQueueMarkRangeTimeout False (ucast (rto c)) now (sendQueue c) = Some (n, q)"
    using r by (auto simp: resend_timed_out_def split: Option.bind_splits)
  let ?c = "c\<lparr>sendQueue := q\<rparr>"
  have 1: "keeps S T k R c ?c" using mark_timeout_keeps [OF ok o q] by (simp add: keeps_def)
  have "d = ?c \<or> (\<exists>e. PackageConnectionTrySendPackage now ?c = Some e \<and> d = note_lost now e)"
    using r q by (auto simp: resend_timed_out_def Let_def split: if_splits)
  then show ?thesis
  proof (elim disjE exE conjE)
    fix e assume "PackageConnectionTrySendPackage now ?c = Some e" "d = note_lost now e"
    then show ?thesis using keeps_trans [OF keeps_trans [OF 1 try_send_keeps] timers_keep(6)] by simp
  qed (use 1 in simp)
qed

lemma rto_timer_keeps:
  assumes "PackageConnectionRtoTimerCallback now c = Some c'"
  shows "keeps S T k R c c'"
proof -
  let ?c = "c\<lparr>rtoTimer := stop_timer (rtoTimer c)\<rparr>"
  show ?thesis
  proof (cases "is_open c")
    case False
    then have "c' = ?c" using assms by (simp add: PackageConnectionRtoTimerCallback_def)
    then show ?thesis by simp
  next
    case True
    then obtain d where d: "d = ?c\<lparr>lastRecvAckTime := 0\<rparr> \<or> resend_timed_out now ?c = Some d" "c' = PackageConnectionBeginRtoTimer d"
      using assms by (auto simp: PackageConnectionRtoTimerCallback_def Let_def split: if_splits)
    have "keeps S T k R ?c (?c\<lparr>lastRecvAckTime := 0\<rparr>)" by (rule same_netI) simp_all
    then have "keeps S T k R ?c d" using d(1) resend_keeps [of ?c now d] True by auto
    then show ?thesis unfolding d(2) by (rule keeps_trans [OF keeps_trans [OF timers_keep(2)] timers_keep(5)])
  qed
qed

lemma recv_timer_keeps:
  assumes "PackageConnectionRecvTimerCallback c = Some c'"
  shows "keeps S T k R c c'"
  using assms deliver_keeps by (auto simp: PackageConnectionRecvTimerCallback_def split: if_splits)

section \<open>Two connections\<close>

text \<open>
  A step of the connection \<open>c\<close> whose application writes the stream \<open>S\<close>. Of the other side \<open>d\<close> it
  sees the packages that one has ever sent: each may come late, again, or never. A handshake
  package of any content may come at any time.
\<close>

inductive peer_step :: "(nat \<Rightarrow> u8) \<Rightarrow> PackageConnection \<Rightarrow> PackageConnection \<Rightarrow> PackageConnection \<Rightarrow> bool" for S d where
  send: "writes S bytes len c \<Longrightarrow> PackageConnectionSend now (Some bytes) len cb c = Some (r, c') \<Longrightarrow> peer_step S d c c'"
| recv: "length mem = unat len \<Longrightarrow> window_end (recvQueue c) + unat len < 2 ^ 63 \<Longrightarrow>
    PackageConnectionRecv data mem len cb c = (r, c') \<Longrightarrow> peer_step S d c c'"
| arrive: "PackageSent p \<in> set (pc_events d) \<Longrightarrow> PackageConnectionPushPackage rnd now p c = Some (r, c') \<Longrightarrow> peer_step S d c c'"
| handshake: "has_flag (cmdflags p) BDT_SESSIONDATA_PACKAGE_FLAG_SYN \<Longrightarrow>
    PackageConnectionPushPackage rnd now p c = Some (r, c') \<Longrightarrow> peer_step S d c c'"
| close: "PackageConnectionClose now c = Some (r, c') \<Longrightarrow> peer_step S d c c'"
| reset: "PackageConnectionReset c = (r, c') \<Longrightarrow> peer_step S d c c'"
| fin_timer: "running (closeTimer c) = Some FinTimer \<Longrightarrow> PackageConnectionFinTimerCallback now c = Some c' \<Longrightarrow> peer_step S d c c'"
| timewait_timer: "running (closeTimer c) = Some TimewaitTimer \<Longrightarrow>
    PackageConnectionTimewaitTimerCallback c = c' \<Longrightarrow> peer_step S d c c'"
| rto_timer: "running (rtoTimer c) = Some RtoTimer \<Longrightarrow> PackageConnectionRtoTimerCallback now c = Some c' \<Longrightarrow> peer_step S d c c'"
| recv_timer: "running (recvTimer c) = Some RecvTimer \<Longrightarrow> PackageConnectionRecvTimerCallback c = Some c' \<Longrightarrow> peer_step S d c c'"

inductive net_step :: "(nat \<Rightarrow> u8) \<Rightarrow> (nat \<Rightarrow> u8) \<Rightarrow> PackageConnection \<times> PackageConnection \<Rightarrow>
    PackageConnection \<times> PackageConnection \<Rightarrow> bool" for S T where
  left: "peer_step S b a a' \<Longrightarrow> net_step S T (a, b) (a', b)"
| right: "peer_step T a b b' \<Longrightarrow> net_step S T (a, b) (a, b')"

inductive_cases net_stepE: "net_step S T (a, b) n"

abbreviation net_reaches :: "(nat \<Rightarrow> u8) \<Rightarrow> (nat \<Rightarrow> u8) \<Rightarrow> PackageConnection \<times> PackageConnection \<Rightarrow>
    PackageConnection \<times> PackageConnection \<Rightarrow> bool" where
  "net_reaches S T \<equiv> (net_step S T)\<^sup>*\<^sup>*"

lemma peer_conn_step: "peer_step S d c c' \<Longrightarrow> conn_step c c'"
  by (induction rule: peer_step.induct) (blast intro: conn_step.intros)+

lemma peer_keeps:
  assumes "peer_step S d c c'" and inv: "close_inv c" and peer: "\<And>p. PackageSent p \<in> set (pc_events d) \<Longrightarrow> told T k R p"
  shows "keeps S T k R c c'"
  using assms(1)
proof cases
  case send
  then show ?thesis by (rule send_keeps)
next
  case recv
  then show ?thesis by (rule recv_keeps)
next
  case arrive
  then show ?thesis using peer push_keeps by (fastforce simp: incoming_def)
next
  case handshake
  then show ?thesis using push_keeps by blast
next
  case close
  then show ?thesis by (rule close_keeps)
next
  case reset
  then show ?thesis by (rule reset_keeps)
next
  case fin_timer
  then show ?thesis using fin_timer_keeps by blast
next
  case timewait_timer
  then show ?thesis using timewait_keeps [of c] inv by (auto simp: close_inv_def)
next
  case rto_timer
  then show ?thesis using rto_timer_keeps by blast
next
  case recv_timer
  then show ?thesis using recv_timer_keeps by blast
qed

definition net_ok :: "(nat \<Rightarrow> u8) \<Rightarrow> (nat \<Rightarrow> u8) \<Rightarrow> PackageConnection \<times> PackageConnection \<Rightarrow> bool" where
  "net_ok S T n \<longleftrightarrow> (case n of (a, b) \<Rightarrow> conn_ok S T (sent_pos b) (got b) a \<and> conn_ok T S (sent_pos a) (got a) b \<and>
     close_inv a \<and> close_inv b)"

text \<open>The other side has gone on.\<close>

lemma conn_ok_mono:
  assumes ok: "conn_ok S T k R c" and mono: "k \<le> k'" "R \<subseteq> R'" "unat k' < 2 ^ 32" "R' \<subseteq> {..<sent_pos c}"
  shows "conn_ok S T k' R' c"
proof -
  have "open_ok S T R c \<Longrightarrow> open_ok S T R' c" using mono(2) by (auto simp: open_ok_def kept_ok_def)
  moreover have "got c \<subseteq> {..<k'}" using ok mono(1) by (auto simp: conn_ok_def)
  ultimately show ?thesis using ok mono by (simp add: conn_ok_def)
qed

lemma left_ok:
  assumes "peer_step S b a a'" and a: "conn_ok S T (sent_pos b) (got b) a" and b: "conn_ok T S (sent_pos a) (got a) b"
    and inv: "close_inv a"
  shows "conn_ok S T (sent_pos b) (got b) a' \<and> conn_ok T S (sent_pos a') (got a') b \<and> close_inv a'"
proof -
  have "keeps S T (sent_pos b) (got b) a a'"
    using b by (intro peer_keeps [OF assms(1) inv]) (simp add: conn_ok_def)
  then have a': "conn_ok S T (sent_pos b) (got b) a'" "grows a a'" using a by (simp_all add: keeps_def)
  then have "conn_ok T S (sent_pos a') (got a') b"
    by (intro conn_ok_mono [OF b]) (simp_all add: grows_def conn_ok_def)
  then show ?thesis using a'(1) step_good [OF peer_conn_step [OF assms(1)] inv] by simp
qed

lemma net_step_ok: "net_step S T n n' \<Longrightarrow> net_ok S T n \<Longrightarrow> net_ok S T n'"
  by (induction rule: net_step.induct) (use left_ok in \<open>auto simp: net_ok_def\<close>)

lemma net_reaches_ok: "net_reaches S T n n' \<Longrightarrow> net_ok S T n \<Longrightarrow> net_ok S T n'"
  by (induction rule: rtranclp_induct) (use net_step_ok in blast)+

definition good_config :: "BdtPackageConnectionConfig \<Rightarrow> bool" where
  "good_config cfg \<longleftrightarrow> 0 < cfg_mtu cfg \<and> cfg_mtu cfg < 2 ^ 16"

lemma create_ok:
  assumes "good_config cfg"
  shows "conn_ok S T 1 {..<1} (PackageConnectionCreate cfg remote)"
    and "sent_pos (PackageConnectionCreate cfg remote) = 1" and "got (PackageConnectionCreate cfg remote) = {..<1}"
proof -
  let ?c = "PackageConnectionCreate cfg remote" and ?q = "SendQueueCreate 1 (ucast (cfg_mtu cfg))"
  have f: "sendQueue ?c = ?q" "recvQueue ?c = RecvQueueCreate 1" "cc ?c = LedbatCcNew (ucast (cfg_mtu cfg)) (cfg_mss cfg)"
    "pc_config ?c = cfg" "pc_events ?c = []" "ready_buffers ?c = []" "\<not> onNotifying ?c" "ready_streamPos ?c = 1" "is_open ?c"
    by (simp_all add: PackageConnectionCreate_def PackageConnectionBeginRtoTimer_def)
  have q: "queue_mtu ?q = ucast (cfg_mtu cfg)" "flightBlocks ?q = []" "lostBlocks ?q = []" "sc_streamPos ?q = 1"
    "sc_ackStreamPos ?q = 1" "sb_streamPos ?q = 1" by (simp_all add: SendQueueCreate_def)
  show "sent_pos ?c = 1" using f q by simp
  show g: "got ?c = {..<1}" by (auto simp: f received_def RecvQueueCreate_def)
  have "unat (cfg_mtu cfg) < 2 ^ 16" "cfg_mtu cfg \<noteq> 0" using assms by (auto simp: good_config_def word_less_nat_alt)
  then have m: "ucast (ucast (cfg_mtu cfg) :: u16) = cfg_mtu cfg" "(ucast (cfg_mtu cfg) :: u16) \<noteq> 0"
    by (simp_all add: word_unat_eq_iff unsigned_ucast_eq unsigned_take_bit_eq take_bit_nat_eq_self)
  have "send_inv S ?c"
    using create_inv [of 1 S "ucast (cfg_mtu cfg)"] m
    by (simp add: send_inv_def f q mtu_blocks_def LedbatCcNew_def rinv_def blocks_ok_def RecvQueueCreate_def)
  moreover have "recv_inv T ?c"
    using create_data_inv [of 1 T] f by (simp add: recv_inv_def RecvQueueCreate_def)
  moreover have "kept_ok {..<1} ?q" by (simp add: kept_ok_def q)
  ultimately have "open_ok S T {..<1} ?c" by (simp add: open_ok_def f q)
  moreover have "{..<1} \<subseteq> received (RecvQueueCreate 1)" "readStreamPos (RecvQueueCreate 1) = 1"
    using g unfolding f by (simp_all add: RecvQueueCreate_def)
  then have "reads T ?c 1"
    by (simp add: reads_def f received_bytes_def stream_part_def)
  ultimately show "conn_ok S T 1 {..<1} ?c"
    using f g by (auto simp: conn_ok_def q rinv_def blocks_ok_def RecvQueueCreate_def)
qed

lemma net_start:
  assumes "good_config cfgA" and "good_config cfgB"
  shows "net_ok S T (PackageConnectionCreate cfgA idA, PackageConnectionCreate cfgB idB)"
  using create_ok [OF assms(1)] create_ok [OF assms(2)] create_close_inv by (simp add: net_ok_def)

lemma reads_bound:
  assumes "reads T c e" and "got c \<subseteq> {..<k}"
  shows "e \<le> k"
proof -
  have "{..<e} \<subseteq> {..<k}" using assms unfolding reads_def by (metis subset_trans)
  then show ?thesis by auto
qed

section \<open>Properties\<close>

text \<open>
  C1. The service of the protocol. Two applications write the streams \<open>S\<close> and \<open>T\<close>; the network may
  lose, delay, repeat and reorder their packages, the timers fire and either side closes or resets
  at any time. Then the bytes one application has read are the stream the other has written, from
  its first byte on, without a gap, a repetition or a change, and no further than it has been sent.
\<close>

theorem stream_service:
  assumes "good_config cfgA" and "good_config cfgB"
    and "net_reaches S T (PackageConnectionCreate cfgA idA, PackageConnectionCreate cfgB idB) (a, b)"
  shows "(\<exists>e. received_bytes (pc_events b) = stream_part S 1 e \<and> e \<le> sc_streamPos (sendQueue a)) \<and>
    (\<exists>e. received_bytes (pc_events a) = stream_part T 1 e \<and> e \<le> sc_streamPos (sendQueue b))"
proof -
  have ok: "conn_ok S T (sent_pos b) (got b) a" "conn_ok T S (sent_pos a) (got a) b"
    using net_reaches_ok [OF assms(3) net_start [OF assms(1,2)]] by (simp_all add: net_ok_def)
  have read: "\<exists>e. received_bytes (pc_events c) = stream_part U 1 e \<and> e \<le> k" if "conn_ok V U k R c" for U V k R c
    using that reads_bound [of U c _ k] unfolding conn_ok_def by (auto simp: reads_def)
  show ?thesis using read [OF ok(1)] read [OF ok(2)] by blast
qed

text \<open>
  C2. Nothing is lost. As long as a connection is not closed, every byte it has sent has been received
  by the other side or lies in a block that is kept for a repetition, and what it takes for
  acknowledged, and reports to the application as sent, has been received.
\<close>

theorem nothing_lost:
  assumes "good_config cfgA" and "good_config cfgB"
    and "net_reaches S T (PackageConnectionCreate cfgA idA, PackageConnectionCreate cfgB idB) (a, b)"
    and "pc_state a \<noteq> PACKAGE_CONNECTION_STATE_CLOSE" and "x < sc_streamPos (sendQueue a)"
  shows "(x \<in> received (recvQueue b) \<or>
      (\<exists>k\<in>set (flightBlocks (sendQueue a) @ lostBlocks (sendQueue a)). startStreamPos k \<le> x \<and> x < endStreamPos k)) \<and>
    (x < sc_ackStreamPos (sendQueue a) \<longrightarrow> x \<in> received (recvQueue b))"
proof -
  have "conn_ok S T (sent_pos b) (got b) a"
    using net_reaches_ok [OF assms(3) net_start [OF assms(1,2)]] by (simp add: net_ok_def)
  then have "kept_ok (got b) (sendQueue a)" using conn_ok_open(3) assms(4) by blast
  then have k: "x \<in> got b \<or> x \<in> held (sendQueue a)" "x < sc_ackStreamPos (sendQueue a) \<longrightarrow> x \<in> got b"
    using assms(5) unfolding kept_ok_def by (blast, blast)
  then show ?thesis by (auto simp: held_def)
qed

section \<open>Three bytes on their way\<close>

lemma example_good: "good_config example_config"
  by (simp add: good_config_def example_config_def)

lemma example_writes: "writes example_bytes [1, 2, 3] 3 (PackageConnectionCreate example_config 7)"
  by (simp add: writes_def example_bytes_at PackageConnectionCreate_def PackageConnectionBeginRtoTimer_def SendQueueCreate_def upt_rec)

text \<open>The window takes them all, so they are sent at once.\<close>

lemma example_sent:
  "\<exists>c'. PackageConnectionSend 100 (Some [1, 2, 3]) 3 (Some 0) (PackageConnectionCreate example_config 7) =
      Some (BFX_RESULT_PENDING, c') \<and> sc_streamPos (sendQueue c') = 4 \<and> pc_state c' = PACKAGE_CONNECTION_STATE_ESTABLISH"
proof -
  let ?c = "PackageConnectionCreate example_config 7"
  have f: "sendQueue ?c = SendQueueCreate 1 1400" "recvQueue ?c = RecvQueueCreate 1" "cc ?c = LedbatCcNew 1400 1300"
    "pc_state ?c = PACKAGE_CONNECTION_STATE_ESTABLISH" "trySendCnt ?c = 0" "remoteCloseStreamPos ?c = 0"
    by (simp_all add: PackageConnectionCreate_def PackageConnectionBeginRtoTimer_def example_config_def)
  obtain q where q: "SendQueueAddBuffer (Some [1, 2, 3]) 3 (Some 0) (sendQueue ?c) = (BFX_RESULT_SUCCESS, q)"
    "sb_streamPos q = 4" "flightBlocks q = []" "lostBlocks q = []" "unSendLength q = 3"
    by (simp add: SendQueueAddBuffer_def f SendQueueCreate_def Let_def)
  let ?d = "?c\<lparr>sendQueue := q\<rparr>"
  have "conn_ok example_bytes example_bytes 1 {..<1} ?d"
    using add_keeps [OF example_writes create_ok(1) [OF example_good] _ q(1)] f(4) by simp
  then have inv: "send_inv example_bytes ?d" using conn_ok_open(1) f(4) by fastforce
  have "calm ?d" by (simp add: calm_def sends_finack_def f RecvQueueCreate_def)
  then obtain c' where t: "PackageConnectionTrySendPackage 100 ?d = Some c'" "drive_ok example_bytes ?d c'" "drive_done c'"
    using try_send_calm [OF inv] f(4,5) by auto
  have w: "unat (wnd (cc c')) = 2600" "unat (cc_mtu (cc c')) = 1400"
    using t(2) f(3) by (simp_all add: drive_ok_def same_conn_def LedbatCcNew_def)
  have "in_flight ?d = 0" "pending (sendQueue ?d) = 3" using q by (simp_all add: in_flight_def pending_def)
  moreover have "in_flight c' + pending (sendQueue c') = in_flight ?d + pending (sendQueue ?d)"
    using t(2) unfolding drive_ok_def by blast
  ultimately have sum: "in_flight c' + pending (sendQueue c') = 3" by simp
  have inv': "send_inv example_bytes c'" using t(2) by (simp add: drive_ok_def)
  then have "unat (flight (sendQueue c')) = in_flight c'" using flight_nat by (simp add: in_flight_def)
  then have "full_window c'" using sum w by (simp add: full_window_def grant_def)
  then have "unat (unSendLength (sendQueue c')) = 0" using t(3) by (simp add: drive_done_def pending_def)
  then have "unSendLength (sendQueue c') = 0" by (simp only: unat_eq_zero)
  moreover have "unSendLength (sendQueue c') = sb_streamPos (sendQueue c') - sc_streamPos (sendQueue c')"
    using inv' by (simp add: send_inv_def stream_inv_def buffers_inv_def)
  moreover have "sb_streamPos (sendQueue c') = 4" using t(2) q(2) by (simp add: drive_ok_def)
  moreover have "pc_state c' = PACKAGE_CONNECTION_STATE_ESTABLISH" using t(2) f(4) by (simp add: drive_ok_def same_conn_def)
  ultimately show ?thesis using f(4) q(1) t(1) by (simp add: PackageConnectionSend_def)
qed

lemma example_net:
  "\<exists>a :: PackageConnection. net_reaches example_bytes example_bytes (PackageConnectionCreate example_config 7, PackageConnectionCreate example_config 8)
      (a, PackageConnectionCreate example_config 8) \<and> sc_streamPos (sendQueue a) = 4 \<and> pc_state a \<noteq> PACKAGE_CONNECTION_STATE_CLOSE"
proof -
  obtain a where a: "PackageConnectionSend 100 (Some [1, 2, 3]) 3 (Some 0) (PackageConnectionCreate example_config 7) =
      Some (BFX_RESULT_PENDING, a)" "sc_streamPos (sendQueue a) = 4" "pc_state a = PACKAGE_CONNECTION_STATE_ESTABLISH"
    using example_sent by blast
  have "net_step example_bytes example_bytes (PackageConnectionCreate example_config 7, PackageConnectionCreate example_config 8)
      (a, PackageConnectionCreate example_config 8)"
    by (rule net_step.left [OF peer_step.send [OF example_writes a(1)]])
  then show ?thesis using a(2,3) by (intro exI [of _ a]) auto
qed

theorem stream_service_witness:
  "\<exists>(a :: PackageConnection) e. sc_streamPos (sendQueue a) = 4 \<and>
     received_bytes (pc_events (PackageConnectionCreate example_config 8)) = stream_part example_bytes 1 e \<and> e \<le> 4"
proof -
  obtain a where a: "net_reaches example_bytes example_bytes (PackageConnectionCreate example_config 7, PackageConnectionCreate example_config 8)
      (a, PackageConnectionCreate example_config 8)" "sc_streamPos (sendQueue a) = 4"
    using example_net by blast
  then show ?thesis using stream_service [OF example_good example_good a(1)] by (intro exI [of _ a]) auto
qed

text \<open>The second side has received none of the three bytes, so the first must still hold them.\<close>

theorem nothing_lost_witness:
  "\<exists>a :: PackageConnection. sc_streamPos (sendQueue a) = 4 \<and>
     (\<exists>k\<in>set (flightBlocks (sendQueue a) @ lostBlocks (sendQueue a)). startStreamPos k \<le> 2 \<and> 2 < endStreamPos k)"
proof -
  obtain a where a: "net_reaches example_bytes example_bytes (PackageConnectionCreate example_config 7, PackageConnectionCreate example_config 8)
      (a, PackageConnectionCreate example_config 8)" "sc_streamPos (sendQueue a) = 4" "pc_state a \<noteq> PACKAGE_CONNECTION_STATE_CLOSE"
    using example_net by blast
  have "(2 :: u64) \<notin> got (PackageConnectionCreate example_config 8)"
    unfolding create_ok(3) [OF example_good] by simp
  then show ?thesis using nothing_lost [OF example_good example_good a(1,3), of 2] a(2) by (intro exI [of _ a]) simp
qed

end
