(* ===== verification/TcpInterface.thy ===== *)
theory TcpInterface
  imports BufferStream
begin

text \<open>
  The TCP interface, \<^verbatim>\<open>BDTCore/Interface/TcpInterface.imp.inl\<close>: it cuts the byte stream of a TCP
  socket into boxes (a length of two bytes, then the body), decrypts them, and hands packages or
  stream data to its owner. The first box of a passive interface is preceded by a header from which
  the interface guesses whether and how the peer encrypts.

  The bytes of one call of \<open>BdtPushTcpSocketData\<close> are the list \<open>data\<close>, and a pointer into them is
  an offset. The two buffers for what is left over from earlier calls are memory; \<open>cache\<close> and
  \<open>backCache\<close> point at one of them each. A box is a pointer with a length, so what it holds is read
  when it is used. \<open>None\<close> is a failed assertion or an access outside of the memory it is meant for.

  What lies behind the interface is an argument (\<open>tcp_env\<close>): the ciphers of mbedtls, the key
  manager, the package decoder, and what the owner does to the interface when it is called.
\<close>

section \<open>State\<close>

datatype Bdt_TcpInterfaceState =
  BDT_TCP_INTERFACE_STATE_NONE | BDT_TCP_INTERFACE_STATE_CONNECTING |
  BDT_TCP_INTERFACE_STATE_ESTABLISH | BDT_TCP_INTERFACE_STATE_WAIT_FIRST_PACKAGE |
  BDT_TCP_INTERFACE_STATE_WAIT_FIRST_RESP | BDT_TCP_INTERFACE_STATE_PACKAGE |
  BDT_TCP_INTERFACE_STATE_STREAM | BDT_TCP_INTERFACE_STATE_STREAM_RECV_CLOSED |
  BDT_TCP_INTERFACE_STATE_STREAM_CLOSING | BDT_TCP_INTERFACE_STATE_CLOSED

datatype TcpIntefaceUnboxState = BDT_TCP_UNBOX_STATE_READING_LENGTH | BDT_TCP_UNBOX_STATE_READING_BODY

datatype cache_id = cacheData | backCacheData

record Bdt_TcpInterface =
  socketRefCount :: "32 word"
  ti_socket :: bool
  ti_state :: Bdt_TcpInterfaceState
  ti_owner :: bool
  cacheLength :: nat
  cache :: cache_id
  backCache :: cache_id
  cacheMemory :: "cache_id \<Rightarrow> nat \<Rightarrow> u8"
  isCrypto :: bool
  aesKey :: "u8 list"
  firstBlockSize :: nat
  unboxState :: TcpIntefaceUnboxState
  boxSize :: u16

abbreviation (input) TCP_INTERFACE_CACHE_SIZE :: nat where "TCP_INTERFACE_CACHE_SIZE \<equiv> 64 * 1024"
abbreviation (input) TCP_FIRST_PACKAGE_SIZE :: nat where "TCP_FIRST_PACKAGE_SIZE \<equiv> 6"
abbreviation (input) BDT_MIX_HASH_LENGTH :: nat where "BDT_MIX_HASH_LENGTH \<equiv> 8"
abbreviation (input) TCP_FIRST_MIXHASH_SIZE :: nat where "TCP_FIRST_MIXHASH_SIZE \<equiv> 10"
abbreviation (input) TCP_FIRST_EXCHANGE_SIZE :: nat where "TCP_FIRST_EXCHANGE_SIZE \<equiv> 138"
abbreviation (input) TCP_FIRST_PACKAGE_MAX_SIZE :: nat where "TCP_FIRST_PACKAGE_MAX_SIZE \<equiv> 4096"
abbreviation (input) TCP_FIRST_PACKAGE_MIN_SIZE :: nat where "TCP_FIRST_PACKAGE_MIN_SIZE \<equiv> 40"
abbreviation (input) TCP_MAX_BOX_LEN :: nat where "TCP_MAX_BOX_LEN \<equiv> 32"
abbreviation (input) BDT_PROTOCOL_MIN_PACKAGE_LENGTH :: nat where "BDT_PROTOCOL_MIN_PACKAGE_LENGTH \<equiv> 8"
abbreviation (input) BDT_MAX_PACKAGE_MERGE_LENGTH :: nat where "BDT_MAX_PACKAGE_MERGE_LENGTH \<equiv> 32"

text \<open>What the owner is told.\<close>

datatype 'p tcp_event =
  OnData "u8 list" | OnPackages "'p list" | OnFirstPackages "'p list" "u8 list" | OnFirstResp 'p

text \<open>
  The rest of the world. The key manager answers with a key and a peer. The RSA key of the stack
  has \<open>rsa_bytes\<close> bytes. A cipher answers with the return code of mbedtls and its output. The decoder
  answers with its result and the packages it has stored, the encoder with its result and what it
  has written. An owner that is called may call the
  operations of the interface; \<open>react\<close> is the result it returns and the interface it leaves.
\<close>

record 'p tcp_env =
  find_by_mix_hash :: "u8 list \<Rightarrow> (u8 list \<times> u8 list) option"
  rsa_bytes :: nat
  rsa_decrypt :: "u8 list \<Rightarrow> u8 list option"
  sha256 :: "u8 list \<Rightarrow> u8 list"
  cbc_encrypt :: "u8 list \<Rightarrow> u8 list \<Rightarrow> int \<times> u8 list"
  cbc_decrypt :: "u8 list \<Rightarrow> u8 list \<Rightarrow> int \<times> u8 list"
  encode_package :: "'p list \<Rightarrow> nat \<Rightarrow> u32 \<times> u8 list"
  decode_package :: "u8 list \<Rightarrow> bool \<Rightarrow> int \<times> 'p list"
  is_exchange :: "'p \<Rightarrow> bool"
  react :: "'p tcp_event \<Rightarrow> Bdt_TcpInterface \<Rightarrow> u32 \<times> Bdt_TcpInterface"

text \<open>\<open>TcpInterfaceCreate\<close> for a socket that was accepted.\<close>

definition TcpInterfaceCreate :: "bool \<Rightarrow> Bdt_TcpInterface" where
  "TcpInterfaceCreate passiveSocket =
     \<lparr>socketRefCount = 1, ti_socket = True,
      ti_state = (if passiveSocket then BDT_TCP_INTERFACE_STATE_WAIT_FIRST_PACKAGE else BDT_TCP_INTERFACE_STATE_NONE),
      ti_owner = False, cacheLength = 0, cache = cacheData, backCache = backCacheData,
      cacheMemory = (\<lambda>_ _. 0), isCrypto = False, aesKey = replicate 32 0,
      firstBlockSize = TCP_FIRST_PACKAGE_SIZE, unboxState = BDT_TCP_UNBOX_STATE_READING_LENGTH, boxSize = 0\<rparr>"

section \<open>Encryption\<close>

definition Bdt_AesEncryptDataWithPadding ::
    "'p tcp_env \<Rightarrow> u8 list \<Rightarrow> u8 list \<Rightarrow> nat \<Rightarrow> nat \<Rightarrow> int \<times> u8 list" where
  "Bdt_AesEncryptDataWithPadding env key input iLen oLen =
     (let dataLen = length input;
          targetLen = (dataLen div 16 + 1) * 16
      in if oLen < targetLen \<or> iLen < targetLen then (- 1, [])
         else let padding = targetLen - dataLen;
                  (ret, out) = cbc_encrypt env key (input @ replicate padding (of_nat padding))
              in if ret \<noteq> 0 then (ret, []) else (int targetLen, out))"

text \<open>The last \<open>n\<close> bytes, last one first, are to equal the padding.\<close>

fun check_padding :: "nat \<Rightarrow> u8 \<Rightarrow> u8 list \<Rightarrow> bool option" where
  "check_padding 0 padding bs = Some True"
| "check_padding (Suc n) padding [] = None"
| "check_padding (Suc n) padding (b # bs) = (if b \<noteq> padding then Some False else check_padding n padding bs)"

definition Bdt_AesDecryptDataWithPadding ::
    "'p tcp_env \<Rightarrow> u8 list \<Rightarrow> u8 list \<Rightarrow> nat \<Rightarrow> (int \<times> u8 list) option" where
  "Bdt_AesDecryptDataWithPadding env key input oLen =
     (if oLen < length input then Some (- 1, [])
      else let (ret, out) = cbc_decrypt env key input
           in if ret \<noteq> 0 then Some (ret, [])
              else if input = [] then None
              else let padding = last out
                   in do {
                     ok \<leftarrow> check_padding (unat padding) padding (rev out);
                     if ok then Some (int (length input) - uint padding, out) else Some (- 1, [])
                   })"

definition Bdt_CheckAesKeyHash :: "'p tcp_env \<Rightarrow> u8 list \<Rightarrow> u8 list \<Rightarrow> bool" where
  "Bdt_CheckAesKeyHash env key keyHash \<longleftrightarrow> take 8 (sha256 env key) = keyHash"

section \<open>The state of the socket\<close>

definition TcpInterfaceAddRefSocket :: "Bdt_TcpInterface \<Rightarrow> Bdt_TcpInterface" where
  "TcpInterfaceAddRefSocket ti = ti\<lparr>socketRefCount := socketRefCount ti + 1\<rparr>"

definition TcpInterfaceReleaseSocket :: "Bdt_TcpInterface \<Rightarrow> Bdt_TcpInterface" where
  "TcpInterfaceReleaseSocket ti =
     (let ti = ti\<lparr>socketRefCount := socketRefCount ti - 1\<rparr>
      in if sint (socketRefCount ti) \<le> 0 then ti\<lparr>ti_socket := False\<rparr> else ti)"

definition Bdt_TcpInterfaceSetState ::
    "Bdt_TcpInterfaceState \<Rightarrow> Bdt_TcpInterfaceState \<Rightarrow> Bdt_TcpInterface \<Rightarrow> Bdt_TcpInterfaceState \<times> Bdt_TcpInterface" where
  "Bdt_TcpInterfaceSetState oldState newState ti =
     (let fromState = ti_state ti
      in if fromState \<noteq> oldState then (fromState, ti)
         else (fromState, TcpInterfaceReleaseSocket (TcpInterfaceAddRefSocket (ti\<lparr>ti_state := newState\<rparr>))))"

definition Bdt_TcpInterfaceSetAesKey :: "u8 list \<Rightarrow> Bdt_TcpInterface \<Rightarrow> Bdt_TcpInterface" where
  "Bdt_TcpInterfaceSetAesKey key ti = ti\<lparr>aesKey := key, isCrypto := True\<rparr>"

definition Bdt_TcpInterfaceClose :: "Bdt_TcpInterface \<Rightarrow> u32 \<times> Bdt_TcpInterface" where
  "Bdt_TcpInterfaceClose ti =
     (let oldState = ti_state ti
      in if oldState = BDT_TCP_INTERFACE_STATE_CLOSED then (BFX_RESULT_INVALID_STATE, ti)
         else let ti = TcpInterfaceAddRefSocket ti
              in if oldState = BDT_TCP_INTERFACE_STATE_STREAM
                 then (BFX_RESULT_SUCCESS, TcpInterfaceReleaseSocket (ti\<lparr>ti_state := BDT_TCP_INTERFACE_STATE_STREAM_CLOSING\<rparr>))
                 else (BFX_RESULT_SUCCESS, TcpInterfaceReleaseSocket (TcpInterfaceReleaseSocket
                         (ti\<lparr>ti_state := BDT_TCP_INTERFACE_STATE_CLOSED, ti_owner := False\<rparr>))))"

definition Bdt_TcpInterfaceReset :: "Bdt_TcpInterface \<Rightarrow> u32 \<times> Bdt_TcpInterface" where
  "Bdt_TcpInterfaceReset ti =
     (if ti_state ti = BDT_TCP_INTERFACE_STATE_CLOSED then (BFX_RESULT_INVALID_STATE, ti)
      else (BFX_RESULT_SUCCESS, TcpInterfaceReleaseSocket
              (ti\<lparr>ti_state := BDT_TCP_INTERFACE_STATE_CLOSED, ti_owner := False\<rparr>)))"

section \<open>The cache\<close>

datatype tcp_pointer = InCache cache_id | InData nat

record TcpInterfaceBox =
  box_data :: tcp_pointer
  box_bytes :: nat

definition mem_copy :: "nat \<Rightarrow> u8 list \<Rightarrow> (nat \<Rightarrow> u8) \<Rightarrow> nat \<Rightarrow> u8" where
  "mem_copy to bs m i = (if to \<le> i \<and> i < to + length bs then bs ! (i - to) else m i)"

definition load_at :: "Bdt_TcpInterface \<Rightarrow> u8 list \<Rightarrow> tcp_pointer \<Rightarrow> nat \<Rightarrow> nat \<Rightarrow> u8 list option" where
  "load_at ti data p i n =
     (case p of
        InCache c \<Rightarrow> if i + n \<le> TCP_INTERFACE_CACHE_SIZE then Some (map (cacheMemory ti c) [i..<i + n]) else None
      | InData k \<Rightarrow> mem_load (k + i) n data)"

definition TcpInterfaceSwapCache :: "Bdt_TcpInterface \<Rightarrow> Bdt_TcpInterface" where
  "TcpInterfaceSwapCache ti = ti\<lparr>cache := backCache ti, backCache := cache ti\<rparr>"

definition TcpInterfaceAppendCache :: "u8 list \<Rightarrow> Bdt_TcpInterface \<Rightarrow> Bdt_TcpInterface option" where
  "TcpInterfaceAppendCache data ti =
     (if cacheLength ti + length data < TCP_INTERFACE_CACHE_SIZE
      then Some (ti\<lparr>cacheMemory := (cacheMemory ti)(cache ti := mem_copy (cacheLength ti) data (cacheMemory ti (cache ti))),
                    cacheLength := cacheLength ti + length data\<rparr>)
      else None)"

text \<open>A target below what is cached makes the copied size wrap around.\<close>

definition TcpInterfaceTryFillCache :: "nat \<Rightarrow> u8 list \<Rightarrow> Bdt_TcpInterface \<Rightarrow> (nat \<times> Bdt_TcpInterface) option" where
  "TcpInterfaceTryFillCache targetLength data ti =
     (if length data + cacheLength ti \<ge> targetLength \<and> targetLength < cacheLength ti then None
      else let copysize = (if length data + cacheLength ti \<ge> targetLength then targetLength - cacheLength ti else length data)
           in do {
             ti \<leftarrow> TcpInterfaceAppendCache (take copysize data) ti;
             Some (copysize, ti)
           })"

text \<open>\<open>memcpy\<close> of the cache over itself, which must not overlap.\<close>

definition shift_cache :: "nat \<Rightarrow> Bdt_TcpInterface \<Rightarrow> Bdt_TcpInterface option" where
  "shift_cache n ti =
     (if n \<le> cacheLength ti \<and> cacheLength ti \<le> 2 * n
      then Some (ti\<lparr>cacheMemory := (cacheMemory ti)(cache ti :=
                      mem_copy 0 (map (cacheMemory ti (cache ti)) [n..<cacheLength ti]) (cacheMemory ti (cache ti))),
                    cacheLength := cacheLength ti - n\<rparr>)
      else None)"

section \<open>The parser\<close>

record TcpInterfaceFirstParams =
  remotePeerid :: "u8 list"
  isStartWithExchangeKey :: bool

text \<open>
  One activation of the parser returns, or goes on behind the bytes it has consumed, with the boxes
  it has found. The size of a box is sent in the clear in either mode.
\<close>

datatype unbox_step =
  Return u32 Bdt_TcpInterface "TcpInterfaceBox list" nat TcpInterfaceFirstParams |
  Resume Bdt_TcpInterface "TcpInterfaceBox list" nat nat TcpInterfaceFirstParams

definition tcpInterfaceDecryptoBoxSize :: "Bdt_TcpInterface \<Rightarrow> u16 \<Rightarrow> u16" where
  "tcpInterfaceDecryptoBoxSize ti l = (if isCrypto ti then l else l)"

text \<open>Going on at \<open>data + pos\<close> is a pointer past the end unless the bytes are there.\<close>

definition resume_at :: "u8 list \<Rightarrow> Bdt_TcpInterface \<Rightarrow> nat \<Rightarrow> nat \<Rightarrow> TcpInterfaceFirstParams \<Rightarrow> unbox_step option" where
  "resume_at data ti pos used first = (if pos \<le> length data then Some (Resume ti [] pos used first) else None)"

definition guess_package ::
    "u8 list \<Rightarrow> tcp_pointer \<Rightarrow> nat \<Rightarrow> Bdt_TcpInterface \<Rightarrow> nat \<Rightarrow> nat \<Rightarrow> TcpInterfaceFirstParams \<Rightarrow> unbox_step option" where
  "guess_package data pData readed ti pos used first =
     (let cached = (pData = InCache (cache ti)) in do {
        magic \<leftarrow> load_at ti data pData 0 2;
        plain \<leftarrow> (if magic = [0x00, 0x80] then do {
                     l \<leftarrow> load_at ti data pData 2 2;
                     if le_value l < TCP_FIRST_PACKAGE_MAX_SIZE \<and> le_value l > TCP_FIRST_PACKAGE_MIN_SIZE then do {
                       cmdlen \<leftarrow> load_at ti data pData 4 2;
                       firstCmdType \<leftarrow> load_at ti data pData 6 1;
                       Some (if le_value cmdlen \<le> le_value l then Some (of_nat (le_value l)) else None)
                     } else Some None
                   } else Some None);
        case plain of
          Some firstLen \<Rightarrow>
            let ti = ti\<lparr>isCrypto := False, boxSize := firstLen, unboxState := BDT_TCP_UNBOX_STATE_READING_BODY\<rparr>;
                used = used + readed
            in if cached then do { ti \<leftarrow> shift_cache 4 ti; resume_at data ti (pos + readed) (used + readed) first }
               else resume_at data ti (pos + 4) (used + 4) first
        | None \<Rightarrow>
            let ti = ti\<lparr>firstBlockSize := TCP_FIRST_MIXHASH_SIZE\<rparr>
            in if cached then resume_at data ti (pos + readed) (used + readed) first
               else resume_at data ti pos used first
      })"

definition guess_mixhash ::
    "'p tcp_env \<Rightarrow> u8 list \<Rightarrow> tcp_pointer \<Rightarrow> nat \<Rightarrow> Bdt_TcpInterface \<Rightarrow> nat \<Rightarrow> nat \<Rightarrow> TcpInterfaceFirstParams \<Rightarrow> unbox_step option" where
  "guess_mixhash env data pData readed ti pos used first =
     (let cached = (pData = InCache (cache ti)) in do {
        mixHash \<leftarrow> mem_load pos BDT_MIX_HASH_LENGTH data;
        case find_by_mix_hash env mixHash of
          Some (key, peerid) \<Rightarrow> do {
            aesBoxLen \<leftarrow> load_at ti data pData BDT_MIX_HASH_LENGTH 2;
            let ti = ti\<lparr>aesKey := key, isCrypto := True\<rparr>;
            let ti = ti\<lparr>boxSize := tcpInterfaceDecryptoBoxSize ti (of_nat (le_value aesBoxLen)),
                        unboxState := BDT_TCP_UNBOX_STATE_READING_BODY\<rparr>;
            let first = first\<lparr>remotePeerid := peerid\<rparr>;
            let readed = BDT_MIX_HASH_LENGTH + 2;
            let used = used + readed;
            let used = used + readed;
            let pos = pos + readed;
            if cached then do { ti \<leftarrow> shift_cache (BDT_MIX_HASH_LENGTH + 2) ti; resume_at data ti pos used first }
            else resume_at data ti pos used first
          }
        | None \<Rightarrow>
            let ti = ti\<lparr>firstBlockSize := TCP_FIRST_EXCHANGE_SIZE\<rparr>
            in if cached then resume_at data ti (pos + readed) (used + readed) first
               else resume_at data ti pos used first
      })"

definition guess_exchange ::
    "'p tcp_env \<Rightarrow> u8 list \<Rightarrow> tcp_pointer \<Rightarrow> nat \<Rightarrow> Bdt_TcpInterface \<Rightarrow> nat \<Rightarrow> nat \<Rightarrow> TcpInterfaceFirstParams \<Rightarrow> unbox_step option" where
  "guess_exchange env data pData readed ti pos used first =
     (let cached = (pData = InCache (cache ti)); inLen = rsa_bytes env in do {
        cipher \<leftarrow> load_at ti data pData 0 inLen;
        case rsa_decrypt env cipher of
          None \<Rightarrow> Some (Return BFX_RESULT_INVALID_FORMAT ti [] used first)
        | Some plain \<Rightarrow> do {
            let olen = length plain;
            let ti = ti\<lparr>aesKey := plain @ drop olen (aesKey ti)\<rparr>;
            keyHash \<leftarrow> load_at ti data pData inLen 8;
            if Bdt_CheckAesKeyHash env (aesKey ti) keyHash then do {
              aesBoxLen \<leftarrow> load_at ti data pData (inLen + 8) 2;
              let ti = ti\<lparr>boxSize := tcpInterfaceDecryptoBoxSize ti (of_nat (le_value aesBoxLen)), isCrypto := True,
                          unboxState := BDT_TCP_UNBOX_STATE_READING_BODY\<rparr>;
              let first = first\<lparr>isStartWithExchangeKey := True\<rparr>;
              if cached then do {
                ti \<leftarrow> shift_cache (olen + 8 + 2) ti;
                resume_at data ti (pos + readed) (used + readed) first
              } else resume_at data ti (pos + (inLen + 8 + 2)) (used + (inLen + 8 + 2)) first
            } else Some (Return BFX_RESULT_SUCCESS ti [] used first)
          }
      })"

definition wait_first_length ::
    "'p tcp_env \<Rightarrow> u8 list \<Rightarrow> Bdt_TcpInterface \<Rightarrow> nat \<Rightarrow> nat \<Rightarrow> TcpInterfaceFirstParams \<Rightarrow> unbox_step option" where
  "wait_first_length env data ti pos used first =
     (let bytes = length data - pos; size = firstBlockSize ti;
          guess = (\<lambda>pData readed ti.
            if size = TCP_FIRST_PACKAGE_SIZE then guess_package data pData readed ti pos used first
            else if size = TCP_FIRST_MIXHASH_SIZE then guess_mixhash env data pData readed ti pos used first
            else if size = TCP_FIRST_EXCHANGE_SIZE then guess_exchange env data pData readed ti pos used first
            else Some (Return BFX_RESULT_SUCCESS ti [] used first))
      in if cacheLength ti > 0 then do {
           (copysize, ti) \<leftarrow> TcpInterfaceTryFillCache size (drop pos data) ti;
           if cacheLength ti = size then guess (InCache (cache ti)) copysize ti
           else Some (Return BFX_RESULT_SUCCESS ti [] used first)
         }
         else if bytes < size then do {
           ti \<leftarrow> TcpInterfaceAppendCache (drop pos data) ti;
           Some (Return BFX_RESULT_SUCCESS ti [] used first)
         }
         else guess (InData pos) 0 ti)"

definition wait_first_body ::
    "u8 list \<Rightarrow> Bdt_TcpInterface \<Rightarrow> nat \<Rightarrow> nat \<Rightarrow> TcpInterfaceFirstParams \<Rightarrow> unbox_step option" where
  "wait_first_body data ti pos used first =
     (let bytes = length data - pos
      in if cacheLength ti \<noteq> 0 then do {
           (copysize, ti) \<leftarrow> TcpInterfaceTryFillCache (unat (boxSize ti)) (drop pos data) ti;
           if cacheLength ti = unat (boxSize ti)
           then Some (Return BFX_RESULT_SUCCESS
                  (TcpInterfaceSwapCache (ti\<lparr>unboxState := BDT_TCP_UNBOX_STATE_READING_LENGTH, cacheLength := 0\<rparr>))
                  [\<lparr>box_data = InCache (cache ti), box_bytes = cacheLength ti\<rparr>] (used + copysize) first)
           else Some (Return BFX_RESULT_SUCCESS ti [] (used + copysize) first)
         }
         else if bytes \<ge> unat (boxSize ti)
         then Some (Return BFX_RESULT_SUCCESS (ti\<lparr>unboxState := BDT_TCP_UNBOX_STATE_READING_LENGTH\<rparr>)
                [\<lparr>box_data = InData pos, box_bytes = unat (boxSize ti)\<rparr>] (used + unat (boxSize ti)) first)
         else do {
           ti \<leftarrow> TcpInterfaceAppendCache (drop pos data) ti;
           Some (Return BFX_RESULT_SUCCESS ti [] (used + bytes) first)
         })"

definition read_length ::
    "u8 list \<Rightarrow> Bdt_TcpInterface \<Rightarrow> nat \<Rightarrow> nat \<Rightarrow> TcpInterfaceFirstParams \<Rightarrow> unbox_step option" where
  "read_length data ti pos used first =
     (let bytes = length data - pos;
          got = (\<lambda>l. ti\<lparr>boxSize := tcpInterfaceDecryptoBoxSize ti (of_nat (le_value l)), cacheLength := 0,
                        unboxState := BDT_TCP_UNBOX_STATE_READING_BODY\<rparr>)
      in if cacheLength ti > 0 then
           (if cacheLength ti \<noteq> 1 then None
            else let b = data ! pos;
                     m = (cacheMemory ti)(cache ti := (cacheMemory ti (cache ti))(1 := b))
                 in Some (Resume ((got [m (cache ti) 0, b])\<lparr>cacheMemory := m\<rparr>) [] (pos + 1) (used + 1) first))
         else if bytes > 1 then Some (Resume (got (take 2 (drop pos data))) [] (pos + 2) (used + 2) first)
         else do {
           ti \<leftarrow> TcpInterfaceAppendCache (drop pos data) ti;
           Some (Return BFX_RESULT_SUCCESS ti [] (used + 1) first)
         })"

text \<open>With a box at hand: in answer to a first package there is one only, otherwise up to \<open>n\<close>.\<close>

definition read_on ::
    "nat \<Rightarrow> Bdt_TcpInterface \<Rightarrow> TcpInterfaceBox \<Rightarrow> nat \<Rightarrow> nat \<Rightarrow> TcpInterfaceFirstParams \<Rightarrow> unbox_step" where
  "read_on n ti box pos used first =
     (if ti_state ti \<noteq> BDT_TCP_INTERFACE_STATE_WAIT_FIRST_RESP \<and> 1 < n then Resume ti [box] pos used first
      else Return BFX_RESULT_SUCCESS ti [box] used first)"

definition read_body ::
    "u8 list \<Rightarrow> nat \<Rightarrow> Bdt_TcpInterface \<Rightarrow> nat \<Rightarrow> nat \<Rightarrow> TcpInterfaceFirstParams \<Rightarrow> unbox_step option" where
  "read_body data n ti pos used first =
     (let bytes = length data - pos
      in if cacheLength ti \<noteq> 0 then do {
           (copysize, ti) \<leftarrow> TcpInterfaceTryFillCache (unat (boxSize ti)) (drop pos data) ti;
           let used = used + copysize;
           if cacheLength ti \<ge> unat (boxSize ti)
           then Some (read_on n
                  (TcpInterfaceSwapCache (ti\<lparr>unboxState := BDT_TCP_UNBOX_STATE_READING_LENGTH, cacheLength := 0\<rparr>))
                  \<lparr>box_data = InCache (cache ti), box_bytes = cacheLength ti\<rparr> (pos + copysize) used first)
           else Some (Return BFX_RESULT_SUCCESS ti [] used first)
         }
         else if bytes \<ge> unat (boxSize ti)
         then Some (read_on n (ti\<lparr>unboxState := BDT_TCP_UNBOX_STATE_READING_LENGTH\<rparr>)
                \<lparr>box_data = InData pos, box_bytes = unat (boxSize ti)\<rparr> (pos + unat (boxSize ti))
                (used + unat (boxSize ti)) first)
         else do {
           ti \<leftarrow> TcpInterfaceAppendCache (drop pos data) ti;
           Some (Return BFX_RESULT_SUCCESS ti [] (used + bytes) first)
         })"

definition unbox_step ::
    "'p tcp_env \<Rightarrow> u8 list \<Rightarrow> nat \<Rightarrow> Bdt_TcpInterface \<Rightarrow> nat \<Rightarrow> nat \<Rightarrow> TcpInterfaceFirstParams \<Rightarrow> unbox_step option" where
  "unbox_step env data n ti pos used first =
     (if n = 0 then None
      else if pos = length data then Some (Return BFX_RESULT_SUCCESS ti [] used first)
      else if ti_state ti = BDT_TCP_INTERFACE_STATE_WAIT_FIRST_PACKAGE then
        (case unboxState ti of
           BDT_TCP_UNBOX_STATE_READING_LENGTH \<Rightarrow> wait_first_length env data ti pos used first
         | BDT_TCP_UNBOX_STATE_READING_BODY \<Rightarrow> wait_first_body data ti pos used first)
      else if ti_state ti \<in> {BDT_TCP_INTERFACE_STATE_PACKAGE, BDT_TCP_INTERFACE_STATE_STREAM,
                             BDT_TCP_INTERFACE_STATE_WAIT_FIRST_RESP} then
        (case unboxState ti of
           BDT_TCP_UNBOX_STATE_READING_LENGTH \<Rightarrow> read_length data ti pos used first
         | BDT_TCP_UNBOX_STATE_READING_BODY \<Rightarrow> read_body data n ti pos used first)
      else Some (Return BFX_RESULT_SUCCESS ti [] used first))"

partial_function (option) TcpInterfaceUnboxParserPushData ::
    "'p tcp_env \<Rightarrow> u8 list \<Rightarrow> nat \<Rightarrow> Bdt_TcpInterface \<Rightarrow> nat \<Rightarrow> nat \<Rightarrow> TcpInterfaceFirstParams \<Rightarrow>
     (u32 \<times> Bdt_TcpInterface \<times> TcpInterfaceBox list \<times> nat \<times> TcpInterfaceFirstParams) option" where
  "TcpInterfaceUnboxParserPushData env data n ti pos used first = do {
     s \<leftarrow> unbox_step env data n ti pos used first;
     case s of
       Return r ti boxes used first \<Rightarrow> Some (r, ti, boxes, used, first)
     | Resume ti boxes pos used first \<Rightarrow> do {
         (r, ti, boxes', used, first) \<leftarrow> TcpInterfaceUnboxParserPushData env data (n - length boxes) ti pos used first;
         Some (r, ti, boxes @ boxes', used, first)
       }
   }"

section \<open>The owner\<close>

text \<open>
  \<open>resultPackages\<close> is an array of pointers that lives as long as one call of \<open>BdtPushTcpSocketData\<close>:
  an entry is null, a package, or a package that has been freed. It is walked up to a null pointer
  or \<open>BDT_PROTOCOL_MIN_PACKAGE_LENGTH\<close> entries.
\<close>

datatype 'p package_slot = NoPackage | Live 'p | Freed

definition store_packages :: "'p list \<Rightarrow> 'p package_slot list \<Rightarrow> 'p package_slot list option" where
  "store_packages ps slots =
     (if length ps > length slots then None
      else Some (map Live ps @ drop (length ps) (NoPackage # tl slots)))"

fun live_packages :: "'p package_slot list \<Rightarrow> 'p list option" where
  "live_packages [] = Some []"
| "live_packages (NoPackage # ss) = Some []"
| "live_packages (Live p # ss) = do { ps \<leftarrow> live_packages ss; Some (p # ps) }"
| "live_packages (Freed # ss) = None"

fun free_slots :: "'p package_slot list \<Rightarrow> 'p package_slot list option" where
  "free_slots [] = Some []"
| "free_slots (NoPackage # ss) = Some (NoPackage # ss)"
| "free_slots (Live p # ss) = do { ss \<leftarrow> free_slots ss; Some (Freed # ss) }"
| "free_slots (Freed # ss) = None"

definition TcpInterfaceFreePackages :: "'p package_slot list \<Rightarrow> 'p package_slot list option" where
  "TcpInterfaceFreePackages slots = do {
     ss \<leftarrow> free_slots (take BDT_PROTOCOL_MIN_PACKAGE_LENGTH slots);
     Some (ss @ drop BDT_PROTOCOL_MIN_PACKAGE_LENGTH slots)
   }"

text \<open>A call of the owner, if there is one: the result, the interface and what the owner was told.\<close>

definition call_owner :: "'p tcp_env \<Rightarrow> 'p tcp_event \<Rightarrow> Bdt_TcpInterface \<Rightarrow> u32 \<times> Bdt_TcpInterface \<times> 'p tcp_event list" where
  "call_owner env ev ti =
     (if ti_owner ti then let (r, ti) = react env ev ti in (r, ti, [ev]) else (BFX_RESULT_NOT_FOUND, ti, []))"

definition TcpInterfaceOnData :: "'p tcp_env \<Rightarrow> u8 list \<Rightarrow> Bdt_TcpInterface \<Rightarrow> u32 \<times> Bdt_TcpInterface \<times> 'p tcp_event list" where
  "TcpInterfaceOnData env data ti = call_owner env (OnData data) ti"

definition TcpInterfaceOnPackages ::
    "'p tcp_env \<Rightarrow> 'p package_slot list \<Rightarrow> Bdt_TcpInterface \<Rightarrow> (u32 \<times> Bdt_TcpInterface \<times> 'p tcp_event list) option" where
  "TcpInterfaceOnPackages env slots ti = do {
     ps \<leftarrow> live_packages (take BDT_PROTOCOL_MIN_PACKAGE_LENGTH slots);
     Some (call_owner env (OnPackages ps) ti)
   }"

definition is_null :: "'p package_slot \<Rightarrow> bool" where
  "is_null s = (case s of NoPackage \<Rightarrow> True | _ \<Rightarrow> False)"

definition read_slot :: "'p package_slot \<Rightarrow> 'p option" where
  "read_slot s = (case s of Live p \<Rightarrow> Some p | _ \<Rightarrow> None)"

text \<open>The first package goes to a tunnel, which is looked up or created.\<close>

definition TcpInterfaceOnFirstPackages ::
    "'p tcp_env \<Rightarrow> 'p package_slot list \<Rightarrow> u8 list \<Rightarrow> Bdt_TcpInterface \<Rightarrow> (u32 \<times> Bdt_TcpInterface \<times> 'p tcp_event list) option" where
  "TcpInterfaceOnFirstPackages env slots keyPeerid ti = do {
     p \<leftarrow> read_slot (slots ! 0);
     ps \<leftarrow> (if is_exchange env p
            then do { firstPackage \<leftarrow> read_slot (slots ! 1); if is_null (slots ! 2) then Some [p, firstPackage] else None }
            else if is_null (slots ! 1) then Some [p] else None);
     let (r, ti) = react env (OnFirstPackages ps keyPeerid) ti;
     Some (r, ti, [OnFirstPackages ps keyPeerid])
   }"

definition TcpInterfaceOnFirstResp ::
    "'p tcp_env \<Rightarrow> 'p package_slot list \<Rightarrow> Bdt_TcpInterface \<Rightarrow> (u32 \<times> Bdt_TcpInterface \<times> 'p tcp_event list) option" where
  "TcpInterfaceOnFirstResp env slots ti =
     (if is_null (slots ! 1) then do {
        firstPackage \<leftarrow> read_slot (slots ! 0);
        Some (call_owner env (OnFirstResp firstPackage) ti)
      } else None)"

section \<open>The boxes\<close>

text \<open>
  A box is decrypted in place: what the owner gets is the first \<open>r\<close> bytes of it. \<open>Inl\<close> is the
  interface after a reset, behind which the caller returns.
\<close>

definition read_box :: "Bdt_TcpInterface \<Rightarrow> u8 list \<Rightarrow> TcpInterfaceBox \<Rightarrow> u8 list option" where
  "read_box ti data box = load_at ti data (box_data box) 0 (box_bytes box)"

definition decrypt_box :: "'p tcp_env \<Rightarrow> u8 list \<Rightarrow> Bdt_TcpInterface \<Rightarrow> (Bdt_TcpInterface + u8 list) option" where
  "decrypt_box env body ti = do {
     (r, out) \<leftarrow> Bdt_AesDecryptDataWithPadding env (aesKey ti) body (length body);
     Some (if r \<le> 0 then Inl (snd (Bdt_TcpInterfaceReset ti)) else Inr (take (nat r) out))
   }"

text \<open>The result says whether the caller goes on with the rest of the bytes.\<close>

fun stream_boxes ::
    "'p tcp_env \<Rightarrow> u8 list \<Rightarrow> TcpInterfaceBox list \<Rightarrow> Bdt_TcpInterface \<Rightarrow> (bool \<times> Bdt_TcpInterface \<times> 'p tcp_event list) option" where
  "stream_boxes env data [] ti = Some (True, ti, [])"
| "stream_boxes env data (box # boxes) ti = do {
     body \<leftarrow> read_box ti data box;
     d \<leftarrow> decrypt_box env body ti;
     case d of
       Inl ti \<Rightarrow> Some (False, ti, [])
     | Inr plain \<Rightarrow> do {
         let (r, ti, evs) = TcpInterfaceOnData env plain ti;
         (goon, ti, evs') \<leftarrow> stream_boxes env data boxes ti;
         Some (goon, ti, evs @ evs')
       }
   }"

definition unbox_packages ::
    "'p tcp_env \<Rightarrow> u8 list \<Rightarrow> bool \<Rightarrow> 'p package_slot list \<Rightarrow> Bdt_TcpInterface \<Rightarrow>
     (Bdt_TcpInterface + 'p package_slot list) option" where
  "unbox_packages env body startWithExchangeKey slots ti = do {
     d \<leftarrow> (if isCrypto ti then decrypt_box env body ti else Some (Inr body));
     case d of
       Inl ti \<Rightarrow> Some (Inl ti)
     | Inr plain \<Rightarrow> do {
         let (r, ps) = decode_package env plain startWithExchangeKey;
         slots \<leftarrow> store_packages ps slots;
         Some (if r < 0 then Inl (snd (Bdt_TcpInterfaceReset ti)) else Inr slots)
       }
   }"

fun package_boxes ::
    "'p tcp_env \<Rightarrow> u8 list \<Rightarrow> TcpInterfaceBox list \<Rightarrow> 'p package_slot list \<Rightarrow> Bdt_TcpInterface \<Rightarrow>
     (bool \<times> Bdt_TcpInterface \<times> 'p tcp_event list) option" where
  "package_boxes env data [] slots ti = Some (True, ti, [])"
| "package_boxes env data (box # boxes) slots ti = do {
     body \<leftarrow> read_box ti data box;
     u \<leftarrow> unbox_packages env body False slots ti;
     case u of
       Inl ti \<Rightarrow> Some (False, ti, [])
     | Inr slots \<Rightarrow> do {
         (r, ti, evs) \<leftarrow> (if ti_state ti = BDT_TCP_INTERFACE_STATE_PACKAGE then TcpInterfaceOnPackages env slots ti
                          else Some (0, ti, []));
         slots \<leftarrow> TcpInterfaceFreePackages slots;
         (goon, ti, evs') \<leftarrow> package_boxes env data boxes slots ti;
         Some (goon, ti, evs @ evs')
       }
   }"

definition first_box ::
    "'p tcp_env \<Rightarrow> u8 list \<Rightarrow> TcpInterfaceBox \<Rightarrow> TcpInterfaceFirstParams \<Rightarrow> 'p package_slot list \<Rightarrow> Bdt_TcpInterface \<Rightarrow>
     (bool \<times> Bdt_TcpInterface \<times> 'p tcp_event list) option" where
  "first_box env data box first slots ti = do {
     body \<leftarrow> read_box ti data box;
     u \<leftarrow> unbox_packages env body (isStartWithExchangeKey first) slots ti;
     case u of
       Inl ti \<Rightarrow> Some (False, ti, [])
     | Inr slots \<Rightarrow> do {
         (r, ti, evs) \<leftarrow> (if ti_state ti = BDT_TCP_INTERFACE_STATE_WAIT_FIRST_PACKAGE
                          then TcpInterfaceOnFirstPackages env slots (remotePeerid first) ti
                          else if ti_state ti = BDT_TCP_INTERFACE_STATE_WAIT_FIRST_RESP
                          then TcpInterfaceOnFirstResp env slots ti else Some (0, ti, []));
         slots \<leftarrow> TcpInterfaceFreePackages slots;
         Some (r = BFX_RESULT_SUCCESS, ti, evs)
       }
   }"

text \<open>The peer has closed its side.\<close>

definition push_close :: "'p tcp_env \<Rightarrow> Bdt_TcpInterface \<Rightarrow> Bdt_TcpInterface \<times> 'p tcp_event list" where
  "push_close env ti =
     (if ti_state ti = BDT_TCP_INTERFACE_STATE_STREAM
      then snd (TcpInterfaceOnData env [] (ti\<lparr>ti_state := BDT_TCP_INTERFACE_STATE_STREAM_RECV_CLOSED\<rparr>))
      else if ti_state ti = BDT_TCP_INTERFACE_STATE_STREAM_CLOSING
      then (TcpInterfaceReleaseSocket (ti\<lparr>ti_state := BDT_TCP_INTERFACE_STATE_CLOSED, ti_owner := False\<rparr>), [])
      else (ti, []))"

definition push_boxes ::
    "'p tcp_env \<Rightarrow> u8 list \<Rightarrow> TcpInterfaceBox list \<Rightarrow> TcpInterfaceFirstParams \<Rightarrow> Bdt_TcpInterface \<Rightarrow>
     (bool \<times> Bdt_TcpInterface \<times> 'p tcp_event list) option" where
  "push_boxes env data boxes first ti =
     (let slots = replicate BDT_MAX_PACKAGE_MERGE_LENGTH NoPackage
      in if ti_state ti = BDT_TCP_INTERFACE_STATE_STREAM
         then (if isCrypto ti then stream_boxes env data boxes ti else None)
         else if ti_state ti = BDT_TCP_INTERFACE_STATE_PACKAGE then package_boxes env data boxes slots ti
         else if ti_state ti \<in> {BDT_TCP_INTERFACE_STATE_WAIT_FIRST_PACKAGE, BDT_TCP_INTERFACE_STATE_WAIT_FIRST_RESP}
         then (if length boxes = 1 then first_box env data (hd boxes) first slots ti else None)
         else None)"

partial_function (option) BdtPushTcpSocketData ::
    "'p tcp_env \<Rightarrow> u8 list \<Rightarrow> Bdt_TcpInterface \<Rightarrow> (Bdt_TcpInterface \<times> 'p tcp_event list) option" where
  "BdtPushTcpSocketData env data ti =
     (if length data > 64 * 1024 then None
      else if ti_state ti = BDT_TCP_INTERFACE_STATE_STREAM \<and> \<not> isCrypto ti then Some (snd (TcpInterfaceOnData env data ti))
      else if data = [] then Some (push_close env ti)
      else do {
        (r, ti, boxes, used, first) \<leftarrow>
          TcpInterfaceUnboxParserPushData env data TCP_MAX_BOX_LEN ti 0 0
            \<lparr>remotePeerid = replicate 32 0, isStartWithExchangeKey = False\<rparr>;
        if r \<noteq> BFX_RESULT_SUCCESS then Some (snd (Bdt_TcpInterfaceReset ti), [])
        else if boxes = [] then Some (ti, [])
        else do {
          (goon, ti, evs) \<leftarrow> push_boxes env data boxes first ti;
          if goon \<and> used < length data then do {
            (ti, evs') \<leftarrow> BdtPushTcpSocketData env (drop used data) ti;
            Some (ti, evs @ evs')
          } else Some (ti, evs)
        }
      })"


section \<open>Boxing\<close>

definition tcpInterfaceCryptoBoxSize :: "u16 \<Rightarrow> u16" where
  "tcpInterfaceCryptoBoxSize l = l"

text \<open>
  The result, what has been written to the buffer and \<open>pWriteBytes\<close>, whose value before the call is
  an argument.
\<close>

definition Bdt_TcpInterfaceBoxPackage ::
    "'p tcp_env \<Rightarrow> 'p list \<Rightarrow> nat \<Rightarrow> nat \<Rightarrow> Bdt_TcpInterface \<Rightarrow> (u32 \<times> u8 list \<times> nat) option" where
  "Bdt_TcpInterfaceBoxPackage env packages bufferLen pWriteBytes ti =
     (let (r, bytes) = encode_package env packages (bufferLen - 2)
      in if r \<noteq> BFX_RESULT_SUCCESS then Some (r, [], pWriteBytes)
         else if isCrypto ti then
           (let (len, out) = Bdt_AesEncryptDataWithPadding env (aesKey ti) bytes (bufferLen - 2) (bufferLen - 2)
            in if len < 0 \<or> len > 0xffff then None
               else Some (r, le_bytes 2 (unat (tcpInterfaceCryptoBoxSize (of_int len))) @ out, nat len + 2))
         else Some (r, le_bytes 2 (unat (of_nat (length bytes) :: u16)) @ bytes, pWriteBytes))"

text \<open>
  The data is boxed in place, with the header in front of the buffer: the result, the header, the
  buffer and the size of the box. The size passes through a \<open>uint16_t\<close> before it is checked.
\<close>

definition Bdt_TcpInterfaceBoxCryptoData ::
    "'p tcp_env \<Rightarrow> u8 list \<Rightarrow> nat \<Rightarrow> Bdt_TcpInterface \<Rightarrow> (u32 \<times> u8 list \<times> u8 list \<times> nat) option" where
  "Bdt_TcpInterfaceBoxCryptoData env buffer dataLen ti =
     (if isCrypto ti \<and> ti_state ti \<notin> {BDT_TCP_INTERFACE_STATE_PACKAGE, BDT_TCP_INTERFACE_STATE_WAIT_FIRST_PACKAGE,
                                       BDT_TCP_INTERFACE_STATE_WAIT_FIRST_RESP} \<and> dataLen \<le> length buffer
      then
        let (len, out) = Bdt_AesEncryptDataWithPadding env (aesKey ti) (take dataLen buffer) (length buffer) (length buffer);
            boxlen = tcpInterfaceCryptoBoxSize (of_int len)
        in Some (BFX_RESULT_SUCCESS, le_bytes 2 (unat boxlen), out @ drop (length out) buffer, unat boxlen)
      else None)"

end
