(* ===== verification/TcpSocket.thy ===== *)
theory TcpSocket
  imports TcpInterface "HOL-Library.Multiset"
begin

text \<open>
  The life of the socket of a TCP interface. Every call of the framework on the socket runs outside
  of the lock of the interface, so the interface counts those who use the socket and destroys it
  with the last one. The threads of a process are interleaved here between the critical section of
  an operation and the release of the socket.
\<close>

section \<open>Threads\<close>

text \<open>A thread is known by the number of times it has yet to release the socket.\<close>

record socket_system =
  iface :: Bdt_TcpInterface
  holders :: "nat list"

text \<open>
  The critical sections: of the operations that only use the socket (\<open>Bdt_TcpInterfaceSend\<close>,
  \<open>Bdt_TcpInterfacePause\<close> and \<open>Bdt_TcpInterfaceResume\<close>), and of those that change the state. Each
  says how often the thread will release the socket.
\<close>

definition use_section :: "Bdt_TcpInterface \<Rightarrow> (nat \<times> Bdt_TcpInterface) option" where
  "use_section ti =
     (if ti_state ti = BDT_TCP_INTERFACE_STATE_CLOSED then None else Some (1, TcpInterfaceAddRefSocket ti))"

definition connect_section :: "Bdt_TcpInterface \<Rightarrow> (nat \<times> Bdt_TcpInterface) option" where
  "connect_section ti =
     (if ti_state ti \<noteq> BDT_TCP_INTERFACE_STATE_NONE then None
      else Some (1, TcpInterfaceAddRefSocket (ti\<lparr>ti_state := BDT_TCP_INTERFACE_STATE_CONNECTING\<rparr>)))"

definition set_section ::
    "Bdt_TcpInterfaceState \<Rightarrow> Bdt_TcpInterfaceState \<Rightarrow> Bdt_TcpInterface \<Rightarrow> (nat \<times> Bdt_TcpInterface) option" where
  "set_section oldState newState ti =
     (if ti_state ti \<noteq> oldState then None else Some (1, TcpInterfaceAddRefSocket (ti\<lparr>ti_state := newState\<rparr>)))"

definition close_section :: "Bdt_TcpInterface \<Rightarrow> (nat \<times> Bdt_TcpInterface) option" where
  "close_section ti =
     (if ti_state ti = BDT_TCP_INTERFACE_STATE_CLOSED then None
      else let ti' = TcpInterfaceAddRefSocket ti
           in if ti_state ti = BDT_TCP_INTERFACE_STATE_STREAM
              then Some (1, ti'\<lparr>ti_state := BDT_TCP_INTERFACE_STATE_STREAM_CLOSING\<rparr>)
              else Some (2, ti'\<lparr>ti_state := BDT_TCP_INTERFACE_STATE_CLOSED, ti_owner := False\<rparr>))"

definition reset_section :: "Bdt_TcpInterface \<Rightarrow> (nat \<times> Bdt_TcpInterface) option" where
  "reset_section ti =
     (if ti_state ti = BDT_TCP_INTERFACE_STATE_CLOSED then None
      else Some (1, ti\<lparr>ti_state := BDT_TCP_INTERFACE_STATE_CLOSED, ti_owner := False\<rparr>))"

text \<open>The peer closes its side.\<close>

definition peer_closed_section :: "Bdt_TcpInterface \<Rightarrow> (nat \<times> Bdt_TcpInterface) option" where
  "peer_closed_section ti =
     (if ti_state ti = BDT_TCP_INTERFACE_STATE_STREAM
      then Some (0, ti\<lparr>ti_state := BDT_TCP_INTERFACE_STATE_STREAM_RECV_CLOSED\<rparr>)
      else if ti_state ti = BDT_TCP_INTERFACE_STATE_STREAM_CLOSING
      then Some (1, ti\<lparr>ti_state := BDT_TCP_INTERFACE_STATE_CLOSED, ti_owner := False\<rparr>) else None)"

text \<open>An operation run on its own is its section and the releases.\<close>

fun release_times :: "nat \<Rightarrow> Bdt_TcpInterface \<Rightarrow> Bdt_TcpInterface" where
  "release_times 0 ti = ti"
| "release_times (Suc n) ti = release_times n (TcpInterfaceReleaseSocket ti)"

lemma close_is_section:
  "snd (Bdt_TcpInterfaceClose ti) = (case close_section ti of None \<Rightarrow> ti | Some (n, ti') \<Rightarrow> release_times n ti')"
  by (simp add: Bdt_TcpInterfaceClose_def close_section_def Let_def numeral_2_eq_2)

lemma reset_is_section:
  "snd (Bdt_TcpInterfaceReset ti) = (case reset_section ti of None \<Rightarrow> ti | Some (n, ti') \<Rightarrow> release_times n ti')"
  by (simp add: Bdt_TcpInterfaceReset_def reset_section_def)

lemma set_is_section:
  "snd (Bdt_TcpInterfaceSetState old new ti) = (case set_section old new ti of None \<Rightarrow> ti | Some (n, ti') \<Rightarrow> release_times n ti')"
  by (simp add: Bdt_TcpInterfaceSetState_def set_section_def Let_def)

text \<open>
  The threads run any sections; of \<open>Bdt_TcpInterfaceSetState\<close>, those for the pairs of an old and a new
  state in \<open>pairs\<close>. All calls but one pass two constants (\<open>constant_pairs\<close>);
  \<open>Bdt_ConnectionEstablishWithStream\<close> passes the state it has just read, whatever it is, and
  \<open>BDT_TCP_INTERFACE_STATE_STREAM\<close> (\<open>read_pairs\<close>).
\<close>

type_synonym state_pairs = "(Bdt_TcpInterfaceState \<times> Bdt_TcpInterfaceState) set"

definition constant_pairs :: state_pairs where
  "constant_pairs =
     {(BDT_TCP_INTERFACE_STATE_CONNECTING, BDT_TCP_INTERFACE_STATE_ESTABLISH),
      (BDT_TCP_INTERFACE_STATE_ESTABLISH, BDT_TCP_INTERFACE_STATE_WAIT_FIRST_RESP),
      (BDT_TCP_INTERFACE_STATE_ESTABLISH, BDT_TCP_INTERFACE_STATE_PACKAGE),
      (BDT_TCP_INTERFACE_STATE_WAIT_FIRST_PACKAGE, BDT_TCP_INTERFACE_STATE_WAIT_FIRST_RESP),
      (BDT_TCP_INTERFACE_STATE_WAIT_FIRST_RESP, BDT_TCP_INTERFACE_STATE_PACKAGE)}"

definition read_pairs :: state_pairs where
  "read_pairs = {(old, BDT_TCP_INTERFACE_STATE_STREAM) | old. True}"

inductive socket_step :: "state_pairs \<Rightarrow> socket_system \<Rightarrow> socket_system \<Rightarrow> bool" for pairs where
  enter: "\<lbrakk> i < length (holders s); holders s ! i = 0;
     sect (iface s) = Some (n, ti);
     sect \<in> {use_section, connect_section, close_section, reset_section, peer_closed_section} \<union>
       {set_section old new | old new. (old, new) \<in> pairs} \<rbrakk> \<Longrightarrow>
     socket_step pairs s (s\<lparr>iface := ti, holders := (holders s)[i := n]\<rparr>)"
| leave: "\<lbrakk> i < length (holders s); holders s ! i = Suc n \<rbrakk> \<Longrightarrow>
     socket_step pairs s (s\<lparr>iface := TcpInterfaceReleaseSocket (iface s), holders := (holders s)[i := n]\<rparr>)"

section \<open>The invariant\<close>

text \<open>The state itself holds the socket until it is closed.\<close>

definition state_holds :: "Bdt_TcpInterfaceState \<Rightarrow> nat" where
  "state_holds s = (if s = BDT_TCP_INTERFACE_STATE_CLOSED then 0 else 1)"

definition socket_inv :: "socket_system \<Rightarrow> bool" where
  "socket_inv s \<longleftrightarrow>
     unat (socketRefCount (iface s)) = state_holds (ti_state (iface s)) + sum_list (holders s) \<and>
     ti_socket (iface s) = (0 < state_holds (ti_state (iface s)) + sum_list (holders s)) \<and>
     (\<forall>n\<in>set (holders s). n \<le> 2) \<and> length (holders s) < 2 ^ 29"

lemma sum_update:
  fixes xs :: "nat list"
  shows "i < length xs \<Longrightarrow> sum_list (xs[i := n]) + xs ! i = sum_list xs + n"
  by (induction xs arbitrary: i) (auto split: nat.splits)

lemma sum_bound: "\<forall>n\<in>set xs. n \<le> 2 \<Longrightarrow> sum_list xs \<le> 2 * length (xs :: nat list)"
  by (induction xs) auto

lemma set_update_bound: "\<forall>x\<in>set xs. x \<le> 2 \<Longrightarrow> n \<le> (2::nat) \<Longrightarrow> \<forall>x\<in>set (xs[i := n]). x \<le> 2"
  using set_update_subset_insert by fastforce

lemma small_sint: "unat (w :: 32 word) < 2 ^ 31 \<Longrightarrow> sint w = int (unat w)"
proof -
  assume w: "unat w < 2 ^ 31"
  have u: "uint w = int (unat w)" by simp
  have "int (unat w) < 2 ^ 31" using w by (metis of_nat_less_numeral_power_cancel_iff)
  then have "uint w < 2 ^ 31" by (simp only: u)
  moreover have "- (2 ^ 31) \<le> uint w" by (rule order_trans [of _ 0]) simp_all
  ultimately have "signed_take_bit 31 (uint w) = uint w" by (intro signed_take_bit_int_eq_self)
  moreover have "sint w = signed_take_bit 31 (uint w)" by (simp add: sint_uint)
  ultimately show ?thesis by (simp only: u)
qed

text \<open>What a section does to the count: it pays for the releases with a new use or with the state.\<close>

definition pays :: "(Bdt_TcpInterface \<Rightarrow> (nat \<times> Bdt_TcpInterface) option) \<Rightarrow> bool" where
  "pays sect \<longleftrightarrow> (\<forall>ti n ti'. sect ti = Some (n, ti') \<longrightarrow>
     ti_state ti \<noteq> BDT_TCP_INTERFACE_STATE_CLOSED \<and> ti_socket ti' = ti_socket ti \<and> n \<le> 2 \<and>
     (socketRefCount ti' = socketRefCount ti \<and> state_holds (ti_state ti') + n = 1 \<or>
      socketRefCount ti' = socketRefCount ti + 1 \<and> state_holds (ti_state ti') + n = 2))"

lemma sections_pay:
  "pays use_section" "pays connect_section" "pays close_section" "pays reset_section" "pays peer_closed_section"
  "old \<noteq> BDT_TCP_INTERFACE_STATE_CLOSED \<Longrightarrow> new \<noteq> BDT_TCP_INTERFACE_STATE_CLOSED \<Longrightarrow> pays (set_section old new)"
  by (auto simp: pays_def state_holds_def use_section_def connect_section_def close_section_def reset_section_def
      peer_closed_section_def set_section_def TcpInterfaceAddRefSocket_def Let_def split: if_splits)

definition never_closed :: "state_pairs \<Rightarrow> bool" where
  "never_closed pairs \<longleftrightarrow>
     (\<forall>(old, new)\<in>pairs. old \<noteq> BDT_TCP_INTERFACE_STATE_CLOSED \<and> new \<noteq> BDT_TCP_INTERFACE_STATE_CLOSED)"

lemma constant_never_closed: "never_closed constant_pairs"
  by (simp add: never_closed_def constant_pairs_def)

lemma socket_inv_step: "socket_step pairs s s' \<Longrightarrow> never_closed pairs \<Longrightarrow> socket_inv s \<Longrightarrow> socket_inv s'"
proof (induction rule: socket_step.induct)
  case (enter i s sect n ti)
  have p: "ti_state (iface s) \<noteq> BDT_TCP_INTERFACE_STATE_CLOSED" "ti_socket ti = ti_socket (iface s)" "n \<le> 2"
    "socketRefCount ti = socketRefCount (iface s) \<and> state_holds (ti_state ti) + n = 1 \<or>
      socketRefCount ti = socketRefCount (iface s) + 1 \<and> state_holds (ti_state ti) + n = 2"
    using enter(3,4) sections_pay enter.prems(1) unfolding pays_def never_closed_def by blast+
  have small: "sum_list (holders s) < 2 ^ 30"
    using enter.prems sum_bound [of "holders s"] by (auto simp: socket_inv_def)
  have "sum_list ((holders s)[i := n]) = sum_list (holders s) + n"
    using sum_update [OF enter(1), of n] enter(2) by simp
  moreover have "unat (socketRefCount (iface s) + 1) = unat (socketRefCount (iface s)) + 1"
    using unat_add_no_overflow [of "socketRefCount (iface s)" 1] enter.prems p(1) small
    by (simp add: socket_inv_def state_holds_def)
  ultimately show ?case
    using enter.prems p set_update_bound [of "holders s" n i] by (auto simp: socket_inv_def state_holds_def)
next
  case (leave i s n)
  have sum: "sum_list (holders s) = Suc (sum_list ((holders s)[i := n]))"
    using sum_update [OF leave(1), of n] leave(2) by simp
  have small: "sum_list (holders s) < 2 ^ 30"
    using leave.prems sum_bound [of "holders s"] by (auto simp: socket_inv_def)
  let ?c = "socketRefCount (iface s)" and ?k = "state_holds (ti_state (iface s)) + sum_list ((holders s)[i := n])"
  have c: "unat ?c = Suc ?k" using leave.prems sum by (simp add: socket_inv_def)
  then have "?c \<noteq> 0" by auto
  then have d: "unat (?c - 1) = ?k" using c by (simp add: unat_minus_one)
  have "?k < 2 ^ 31" using small sum by (simp add: state_holds_def)
  then have "unat (?c - 1) < 2 ^ 31" using d by simp
  then have "sint (?c - 1) = int ?k" using d small_sint [of "?c - 1"] by simp
  moreover have "n \<le> 2" using leave by (auto simp: socket_inv_def dest!: bspec [OF _ nth_mem])
  moreover obtain m where m: "sum_list ((holders s)[i := n]) = m" by simp
  ultimately show ?case
    using leave.prems d sum set_update_bound [of "holders s" n i]
    unfolding socket_inv_def m by (auto simp: TcpInterfaceReleaseSocket_def Let_def state_holds_def m)
qed


section \<open>The socket is there while it is used\<close>

definition socket_start :: "bool \<Rightarrow> nat \<Rightarrow> socket_system" where
  "socket_start passive n = \<lparr>iface = TcpInterfaceCreate passive, holders = replicate n 0\<rparr>"

definition socket_reach :: "state_pairs \<Rightarrow> socket_system \<Rightarrow> socket_system \<Rightarrow> bool" where
  "socket_reach pairs = (socket_step pairs)\<^sup>*\<^sup>*"

lemma socket_inv_start: "n < 2 ^ 29 \<Longrightarrow> socket_inv (socket_start passive n)"
  by (simp add: socket_inv_def socket_start_def TcpInterfaceCreate_def state_holds_def)

lemma socket_inv_reach: "socket_reach pairs s t \<Longrightarrow> never_closed pairs \<Longrightarrow> socket_inv s \<Longrightarrow> socket_inv t"
  unfolding socket_reach_def by (induction rule: rtranclp_induct) (auto intro: socket_inv_step)

lemma sum_pos: "i < length xs \<Longrightarrow> 0 < xs ! i \<Longrightarrow> 0 < sum_list (xs :: nat list)"
  using elem_le_sum_list [of i xs] by simp

text \<open>
  A thread that finds a closed interface without a socket, with the pair that
  \<open>Bdt_ConnectionEstablishWithStream\<close> passes then: it uses the destroyed socket and leaves the interface
  open.
\<close>

lemma set_state_revives:
  assumes "ti_state (iface s) = BDT_TCP_INTERFACE_STATE_CLOSED" and "\<not> ti_socket (iface s)"
    and "0 < length (holders s)" and "holders s ! 0 = 0"
  shows "\<exists>t u. socket_step read_pairs s t \<and> 0 < holders t ! 0 \<and> \<not> ti_socket (iface t) \<and>
    socket_step read_pairs t u \<and> ti_state (iface u) = BDT_TCP_INTERFACE_STATE_STREAM \<and> \<not> ti_socket (iface u)"
proof -
  let ?ti = "TcpInterfaceAddRefSocket (iface s\<lparr>ti_state := BDT_TCP_INTERFACE_STATE_STREAM\<rparr>)"
  let ?t = "s\<lparr>iface := ?ti, holders := (holders s)[0 := 1]\<rparr>"
  let ?u = "?t\<lparr>iface := TcpInterfaceReleaseSocket (iface ?t), holders := (holders ?t)[0 := 0]\<rparr>"
  have "socket_step read_pairs s ?t"
    by (rule enter [where sect = "set_section BDT_TCP_INTERFACE_STATE_CLOSED BDT_TCP_INTERFACE_STATE_STREAM"])
      (use assms in \<open>auto simp: set_section_def read_pairs_def\<close>)
  moreover have "socket_step read_pairs ?t ?u"
    by (rule leave) (use assms(3) in simp_all)
  ultimately show ?thesis
    using assms(2,3) by (intro exI [of _ ?t] exI [of _ ?u])
      (simp add: TcpInterfaceAddRefSocket_def TcpInterfaceReleaseSocket_def Let_def)
qed

text \<open>
  C31. However the threads of a process interleave their operations on a TCP interface, as long as none
  of them calls \<open>Bdt_TcpInterfaceSetState\<close> from or to the closed state: its socket has not been destroyed
  while an operation is between its critical section and its last release, nor before the interface is
  closed; and once the interface is closed and the last operation has left, the socket has been
  destroyed. The restriction is needed: as soon as that has happened, one call with the closed state,
  which \<open>Bdt_ConnectionEstablishWithStream\<close> makes when it reads that state, uses the destroyed socket and
  leaves an open interface that has none.
\<close>

theorem socket_alive_while_used:
  assumes "socket_reach pairs (socket_start passive n) s" and "never_closed pairs" and "n < 2 ^ 29"
  shows "(\<forall>i<length (holders s). 0 < holders s ! i \<longrightarrow> ti_socket (iface s)) \<and>
     (ti_state (iface s) \<noteq> BDT_TCP_INTERFACE_STATE_CLOSED \<longrightarrow> ti_socket (iface s)) \<and>
     (ti_state (iface s) = BDT_TCP_INTERFACE_STATE_CLOSED \<longrightarrow> (\<forall>i<length (holders s). holders s ! i = 0) \<longrightarrow>
       \<not> ti_socket (iface s) \<and>
       (holders s \<noteq> [] \<longrightarrow> (\<exists>t u. socket_step read_pairs s t \<and> 0 < holders t ! 0 \<and> \<not> ti_socket (iface t) \<and>
          socket_step read_pairs t u \<and> ti_state (iface u) = BDT_TCP_INTERFACE_STATE_STREAM \<and> \<not> ti_socket (iface u))))"
proof -
  have inv: "socket_inv s" using socket_inv_reach [OF assms(1,2) socket_inv_start [OF assms(3)]] .
  have none: "sum_list (holders s) = 0" if "\<forall>i<length (holders s). holders s ! i = 0"
    using that by (auto simp: in_set_conv_nth)
  then have gone: "\<not> ti_socket (iface s)"
    if "ti_state (iface s) = BDT_TCP_INTERFACE_STATE_CLOSED" "\<forall>i<length (holders s). holders s ! i = 0"
    using that inv by (simp add: socket_inv_def state_holds_def)
  have "(\<forall>i<length (holders s). 0 < holders s ! i \<longrightarrow> ti_socket (iface s)) \<and>
     (ti_state (iface s) \<noteq> BDT_TCP_INTERFACE_STATE_CLOSED \<longrightarrow> ti_socket (iface s))"
    using inv sum_pos [of _ "holders s"] by (auto simp: socket_inv_def state_holds_def)
  then show ?thesis using gone set_state_revives [of s] by simp
qed

text \<open>An instance: one thread closes a new interface while another one is about to use it.\<close>

theorem socket_alive_while_used_witness:
  "\<exists>s. socket_reach constant_pairs (socket_start True 2) s \<and> ti_state (iface s) = BDT_TCP_INTERFACE_STATE_CLOSED \<and>
     holders s = [1, 0] \<and> ti_socket (iface s)"
proof -
  let ?s0 = "socket_start True 2"
  let ?i1 = "TcpInterfaceAddRefSocket (iface ?s0)"
  let ?s1 = "?s0\<lparr>iface := ?i1, holders := (holders ?s0)[0 := 1]\<rparr>"
  let ?i2 = "?i1\<lparr>ti_state := BDT_TCP_INTERFACE_STATE_CLOSED, ti_owner := False\<rparr>"
  let ?s2 = "?s1\<lparr>iface := ?i2, holders := (holders ?s1)[1 := 1]\<rparr>"
  let ?s3 = "?s2\<lparr>iface := TcpInterfaceReleaseSocket (iface ?s2), holders := (holders ?s2)[1 := 0]\<rparr>"
  have s1: "socket_step constant_pairs ?s0 ?s1"
    by (rule enter [where sect = use_section])
      (simp_all add: socket_start_def TcpInterfaceCreate_def use_section_def)
  have s2: "socket_step constant_pairs ?s1 ?s2"
    by (rule enter [where sect = reset_section])
      (simp_all add: socket_start_def TcpInterfaceCreate_def reset_section_def TcpInterfaceAddRefSocket_def numeral_2_eq_2)
  have s3: "socket_step constant_pairs ?s2 ?s3"
    by (rule leave) (simp_all add: socket_start_def numeral_2_eq_2)
  have reach: "socket_reach constant_pairs ?s0 ?s3" unfolding socket_reach_def
    by (rule converse_rtranclp_into_rtranclp [where r = "socket_step constant_pairs", OF s1
          converse_rtranclp_into_rtranclp [where r = "socket_step constant_pairs", OF s2 r_into_rtranclp [where r = "socket_step constant_pairs", OF s3]]])
  have "holders ?s3 = [1, 0]" "ti_state (iface ?s3) = BDT_TCP_INTERFACE_STATE_CLOSED"
    by (simp_all add: socket_start_def numeral_2_eq_2 TcpInterfaceReleaseSocket_def Let_def)
  with reach obtain s where s: "socket_reach constant_pairs ?s0 s" "holders s = [1, 0]" "ti_state (iface s) = BDT_TCP_INTERFACE_STATE_CLOSED"
    by blast
  have "\<forall>i<length (holders s). 0 < holders s ! i \<longrightarrow> ti_socket (iface s)"
    using socket_alive_while_used [OF s(1) constant_never_closed] by simp
  from this [rule_format, of 0] have "ti_socket (iface s)" using s(2) by simp
  then show ?thesis using s by blast
qed

end
