(* ===== verification/TcpStream.thy ===== *)
theory TcpStream
  imports TcpInterface
begin

text \<open>
  The boxes of a TCP stream do not depend on how TCP cuts the stream into segments: what the parser
  and the loop of \<open>BdtPushTcpSocketData\<close> hand to the owner, segment by segment, is what the
  reference splitter \<open>frames\<close> makes of all the bytes at once. With the ciphers behind it, what one
  side boxes is what the other side gets.
\<close>

section \<open>The reference splitter\<close>

text \<open>
  The complete boxes at the front of a byte stream, and what is left. An empty box is noticed only
  with the byte behind it.
\<close>

function frames :: "u8 list \<Rightarrow> u8 list list \<times> u8 list" where
  "frames bs =
     (let n = le_value (take 2 bs)
      in if length bs < 2 \<or> length bs < 2 + max 1 n then ([], bs)
         else let (fs, left) = frames (drop (2 + n) bs) in (take n (drop 2 bs) # fs, left))"
  by auto
termination by (relation "measure length") auto

declare frames.simps [simp del]

lemma frames_short: "length bs < 2 \<Longrightarrow> frames bs = ([], bs)"
  by (subst frames.simps) (simp add: Let_def)

lemma le_value_2: "n < 65536 \<Longrightarrow> le_value (le_bytes 2 n) = n"
  by simp

lemma low_byte: "of_nat (unat b + 256 * v) = (b :: u8)"
proof -
  have "of_nat 256 = (0 :: u8)" by (rule word_of_nat_eq_0_iff [THEN iffD2]) simp
  then have "of_nat (unat b + 256 * v) = (of_nat (unat b) :: u8)"
    by (simp only: of_nat_add of_nat_mult mult_zero_left add_0_right)
  then show ?thesis by simp
qed

lemma le_bytes_value: "le_bytes (length l) (le_value l) = l"
proof (induction l)
  case (Cons b l)
  have "unat b < 256" using unat_less_256 by simp
  then show ?case using Cons by (simp del: of_nat_add of_nat_mult add: low_byte)
qed simp

lemma le_bytes_value_2: "length l = 2 \<Longrightarrow> le_bytes 2 (le_value l) = l"
  using le_bytes_value [of l] by simp

lemma le_value_lt_2: "length l = 2 \<Longrightarrow> le_value l < 65536"
  using le_value_bound [of l] by simp

lemma frames_box:
  assumes "length body = n" and "n < 65536" and "body @ left \<noteq> []"
  shows "frames (le_bytes 2 n @ body @ left) = (body # fst (frames left), snd (frames left))"
proof -
  have "length (le_bytes 2 n @ body @ left) \<ge> 2 + max 1 n" 
  proof -
    have "length (body @ left) > 0" using assms(3) by blast
    then show ?thesis using assms(1) by (simp add: Suc_le_eq)
  qed
  moreover have "take 2 (le_bytes 2 n @ body @ left) = le_bytes 2 n" by simp
  ultimately show ?thesis
    using assms by (subst frames.simps) (simp add: Let_def le_value_2 case_prod_beta del: le_value_le_bytes)
qed

lemma frames_partial:
  assumes "length body < max 1 n" and "n < 65536"
  shows "frames (le_bytes 2 n @ body) = ([], le_bytes 2 n @ body)"
proof -
  have "take 2 (le_bytes 2 n @ body) = le_bytes 2 n" by simp
  then show ?thesis
    using assms by (subst frames.simps) (simp add: Let_def le_value_2 del: le_value_le_bytes)
qed

text \<open>Every byte stream begins with a complete box or is the beginning of one.\<close>

lemma frames_cases:
  obtains (short) "length bs < 2"
  | (partial) n body where "bs = le_bytes 2 n @ body" "n < 65536" "length body < max 1 n"
  | (box) n body left where "bs = le_bytes 2 n @ body @ left" "n < 65536" "length body = n" "body @ left \<noteq> []"
proof -
  consider "length bs < 2" | "length bs \<ge> 2" "length bs - 2 < max 1 (le_value (take 2 bs))"
    | "length bs \<ge> 2" "length bs - 2 \<ge> max 1 (le_value (take 2 bs))" by linarith
  then show thesis
  proof cases
    case 1
    then show thesis by (rule short)
  next
    case 2
    let ?n = "le_value (take 2 bs)"
    have "?n < 65536" using 2 by (intro le_value_lt_2) simp
    moreover have "bs = le_bytes 2 ?n @ drop 2 bs"
      using 2 by (metis append_take_drop_id le_bytes_value_2 length_take min.absorb2)
    ultimately show thesis using partial [of ?n "drop 2 bs"] 2 by simp
  next
    case 3
    let ?n = "le_value (take 2 bs)"
    have n: "?n < 65536" using 3 by (intro le_value_lt_2) simp
    have "bs = le_bytes 2 ?n @ drop 2 bs"
      using 3 by (metis append_take_drop_id le_bytes_value_2 length_take min.absorb2)
    then have "bs = le_bytes 2 ?n @ take ?n (drop 2 bs) @ drop ?n (drop 2 bs)" by (metis append_take_drop_id)
    moreover have "take ?n (drop 2 bs) @ drop ?n (drop 2 bs) \<noteq> []"
      using 3 by (subst append_take_drop_id) auto
    ultimately show thesis using 3 n by (intro box [of ?n "take ?n (drop 2 bs)" "drop ?n (drop 2 bs)"]) auto
  qed
qed

lemma frames_append:
  "frames (a @ b) = (fst (frames a) @ fst (frames (snd (frames a) @ b)), snd (frames (snd (frames a) @ b)))"
proof (induction "length a" arbitrary: a rule: less_induct)
  case less
  show ?case
  proof (cases a rule: frames_cases)
    case short
    then show ?thesis by (simp add: frames_short)
  next
    case (partial n body)
    then show ?thesis by (simp add: frames_partial)
  next
    case (box n body left)
    have "length left < length a" using box by simp
    from less(1) [OF this] show ?thesis
      using box frames_box [of body n left] frames_box [of body n "left @ b"] by auto
  qed
qed

section \<open>What the parser keeps back\<close>

definition cached :: "Bdt_TcpInterface \<Rightarrow> u8 list" where
  "cached ti = map (cacheMemory ti (cache ti)) [0..<cacheLength ti]"

text \<open>The bytes that have been read but belong to no complete box yet.\<close>

definition kept :: "Bdt_TcpInterface \<Rightarrow> u8 list" where
  "kept ti = (case unboxState ti of
      BDT_TCP_UNBOX_STATE_READING_LENGTH \<Rightarrow> cached ti
    | BDT_TCP_UNBOX_STATE_READING_BODY \<Rightarrow> le_bytes 2 (unat (boxSize ti)) @ cached ti)"

definition unbox_ok :: "Bdt_TcpInterface \<Rightarrow> bool" where
  "unbox_ok ti \<longleftrightarrow> cache ti \<noteq> backCache ti \<and>
     (case unboxState ti of
        BDT_TCP_UNBOX_STATE_READING_LENGTH \<Rightarrow> cacheLength ti \<le> 1
      | BDT_TCP_UNBOX_STATE_READING_BODY \<Rightarrow> cacheLength ti < max 1 (unat (boxSize ti)))"

text \<open>Two states of an interface that differ only in what the parser has kept back.\<close>

definition same_peer :: "Bdt_TcpInterface \<Rightarrow> Bdt_TcpInterface \<Rightarrow> bool" where
  "same_peer ti ti' \<longleftrightarrow>
     ti_state ti' = ti_state ti \<and> ti_owner ti' = ti_owner ti \<and> isCrypto ti' = isCrypto ti \<and> aesKey ti' = aesKey ti \<and>
     socketRefCount ti' = socketRefCount ti \<and> ti_socket ti' = ti_socket ti"

lemma same_peer_refl [simp]: "same_peer ti ti"
  by (simp add: same_peer_def)

lemma same_peer_trans: "same_peer a b \<Longrightarrow> same_peer b c \<Longrightarrow> same_peer a c"
  by (simp add: same_peer_def)

definition reading :: "Bdt_TcpInterface \<Rightarrow> bool" where
  "reading ti \<longleftrightarrow> ti_state ti \<in> {BDT_TCP_INTERFACE_STATE_PACKAGE, BDT_TCP_INTERFACE_STATE_STREAM}"

lemma length_cached [simp]: "length (cached ti) = cacheLength ti"
  by (simp add: cached_def)

lemma frames_kept: "unbox_ok ti \<Longrightarrow> frames (kept ti) = ([], kept ti)"
  using unat_lt16 [of "boxSize ti"]
  by (auto simp: unbox_ok_def kept_def frames_short intro!: frames_partial split: TcpIntefaceUnboxState.splits)

lemma cached_append:
  assumes "TcpInterfaceAppendCache bs ti = Some ti'"
  shows "cached ti' = cached ti @ bs" and "cacheLength ti' = cacheLength ti + length bs"
    and "cacheMemory ti' (cache ti') = mem_copy (cacheLength ti) bs (cacheMemory ti (cache ti))"
    and "c \<noteq> cache ti \<Longrightarrow> cacheMemory ti' c = cacheMemory ti c"
    and "cache ti' = cache ti" "backCache ti' = backCache ti" "unboxState ti' = unboxState ti" "boxSize ti' = boxSize ti"
    and "same_peer ti ti'"
proof -
  have ti': "ti' = ti\<lparr>cacheMemory := (cacheMemory ti)(cache ti := mem_copy (cacheLength ti) bs (cacheMemory ti (cache ti))),
                    cacheLength := cacheLength ti + length bs\<rparr>"
    using assms by (simp add: TcpInterfaceAppendCache_def split: if_splits)
  show "cached ti' = cached ti @ bs"
    by (rule nth_equalityI) (simp_all add: ti' cached_def mem_copy_def nth_append)
qed (use assms in \<open>auto simp: TcpInterfaceAppendCache_def same_peer_def split: if_splits\<close>)

lemma append_some:
  "cacheLength ti + length bs < 65536 \<Longrightarrow> \<exists>ti'. TcpInterfaceAppendCache bs ti = Some ti'"
  by (simp add: TcpInterfaceAppendCache_def)


section \<open>One call of the parser\<close>

text \<open>
  The parser has found boxes that hold \<open>bodies\<close> and has gone on to \<open>pos'\<close>; what it keeps back and
  what it has not looked at are the rest.
\<close>

definition cuts :: "u8 list \<Rightarrow> Bdt_TcpInterface \<Rightarrow> nat \<Rightarrow> u8 list list \<Rightarrow> Bdt_TcpInterface \<Rightarrow> nat \<Rightarrow> bool" where
  "cuts data ti pos bodies ti' pos' \<longleftrightarrow>
     pos \<le> pos' \<and> pos' \<le> length data \<and> same_peer ti ti' \<and> unbox_ok ti' \<and>
     frames (kept ti @ drop pos data) =
       (bodies @ fst (frames (kept ti' @ drop pos' data)), snd (frames (kept ti' @ drop pos' data)))"

lemma cuts_refl: "pos \<le> length data \<Longrightarrow> unbox_ok ti \<Longrightarrow> cuts data ti pos [] ti pos"
  by (simp add: cuts_def)

lemma cuts_trans:
  "cuts data a p xs b q \<Longrightarrow> cuts data b q ys c r \<Longrightarrow> cuts data a p (xs @ ys) c r"
  by (auto simp: cuts_def intro: same_peer_trans)

lemma kept_fresh:
  "cacheLength ti = 0 \<Longrightarrow> kept ti = (case unboxState ti of BDT_TCP_UNBOX_STATE_READING_LENGTH \<Rightarrow> []
      | BDT_TCP_UNBOX_STATE_READING_BODY \<Rightarrow> le_bytes 2 (unat (boxSize ti)))"
  by (simp add: kept_def cached_def split: TcpIntefaceUnboxState.split)

lemma cuts_append:
  assumes "unbox_ok ti" and "pos \<le> length data" and "TcpInterfaceAppendCache (drop pos data) ti = Some ti'"
    and "unboxState ti = BDT_TCP_UNBOX_STATE_READING_BODY \<Longrightarrow> cacheLength ti + (length data - pos) < unat (boxSize ti)"
    and "unboxState ti = BDT_TCP_UNBOX_STATE_READING_LENGTH \<Longrightarrow> cacheLength ti + (length data - pos) \<le> 1"
  shows "cuts data ti pos [] ti' (length data)"
  using assms cached_append [OF assms(3)]
  by (auto simp: cuts_def unbox_ok_def kept_def split: TcpIntefaceUnboxState.splits)

text \<open>The parser with an empty cache, in the middle of the data.\<close>

definition fresh :: "Bdt_TcpInterface \<Rightarrow> bool" where
  "fresh ti \<longleftrightarrow> reading ti \<and> cache ti \<noteq> backCache ti \<and> cacheLength ti = 0"

lemma fresh_ok: "fresh ti \<Longrightarrow> unbox_ok ti"
  by (auto simp: fresh_def unbox_ok_def split: TcpIntefaceUnboxState.split)

lemma step_reading:
  assumes "reading ti" and "0 < n" and "pos < length data"
  shows "unbox_step env data n ti pos used first =
     (case unboxState ti of
        BDT_TCP_UNBOX_STATE_READING_LENGTH \<Rightarrow> read_length data ti pos used first
      | BDT_TCP_UNBOX_STATE_READING_BODY \<Rightarrow> read_body data n ti pos used first)"
  using assms by (auto simp: unbox_step_def reading_def)

definition with_length :: "u8 list \<Rightarrow> Bdt_TcpInterface \<Rightarrow> Bdt_TcpInterface" where
  "with_length l ti = ti\<lparr>boxSize := of_nat (le_value l), cacheLength := 0, unboxState := BDT_TCP_UNBOX_STATE_READING_BODY\<rparr>"

lemma fresh_with_length: "reading ti \<Longrightarrow> cache ti \<noteq> backCache ti \<Longrightarrow> fresh (with_length l ti)"
  by (simp add: fresh_def with_length_def reading_def)

lemma same_with_length: "same_peer ti (with_length l ti)"
  by (simp add: same_peer_def with_length_def)

lemma kept_with_length: "length l = 2 \<Longrightarrow> kept (with_length l ti) = l"
  using le_value_lt_2 [of l]
  by (simp add: kept_def with_length_def cached_def le_bytes_value_2 unat_of_nat)

definition next_length :: "Bdt_TcpInterface \<Rightarrow> Bdt_TcpInterface" where
  "next_length ti = ti\<lparr>unboxState := BDT_TCP_UNBOX_STATE_READING_LENGTH\<rparr>"

lemma fresh_next_length: "fresh ti \<Longrightarrow> fresh (next_length ti)" and kept_next_length: "fresh ti \<Longrightarrow> kept (next_length ti) = []"
  by (auto simp: fresh_def next_length_def reading_def kept_def cached_def)

lemma cuts_length:
  assumes "fresh ti" and "unboxState ti = BDT_TCP_UNBOX_STATE_READING_LENGTH" and "pos + 2 \<le> length data"
  shows "cuts data ti pos [] (with_length (take 2 (drop pos data)) ti) (pos + 2)"
proof -
  have "take 2 (drop pos data) @ drop (pos + 2) data = drop pos data"
    by (metis append_take_drop_id drop_drop add.commute)
  then show ?thesis
    using assms fresh_ok [OF fresh_with_length [of ti "take 2 (drop pos data)"]]
    by (simp add: cuts_def kept_with_length kept_fresh [of ti] fresh_def same_with_length)
qed

lemma cuts_body:
  assumes "fresh ti" and "unboxState ti = BDT_TCP_UNBOX_STATE_READING_BODY" and "pos < length data"
    and "pos + unat (boxSize ti) \<le> length data"
  shows "cuts data ti pos [take (unat (boxSize ti)) (drop pos data)] (next_length ti) (pos + unat (boxSize ti))"
proof -
  let ?n = "unat (boxSize ti)"
  have "take ?n (drop pos data) @ drop (pos + ?n) data = drop pos data"
    by (metis append_take_drop_id drop_drop add.commute)
  moreover have "drop pos data \<noteq> []" using assms(3) by simp
  ultimately have "frames (le_bytes 2 ?n @ drop pos data) =
      (take ?n (drop pos data) # fst (frames (drop (pos + ?n) data)), snd (frames (drop (pos + ?n) data)))"
    using assms(4) unat_lt16 [of "boxSize ti"]
      frames_box [of "take ?n (drop pos data)" ?n "drop (pos + ?n) data"] by simp
  then show ?thesis
    using assms fresh_ok [OF fresh_next_length [OF assms(1)]] kept_next_length [OF assms(1)]
    by (simp add: cuts_def kept_fresh fresh_def same_peer_def next_length_def)
qed

definition boxes_hold :: "Bdt_TcpInterface \<Rightarrow> u8 list \<Rightarrow> TcpInterfaceBox list \<Rightarrow> u8 list list \<Rightarrow> bool" where
  "boxes_hold ti data boxes bodies \<longleftrightarrow> list_all2 (\<lambda>box body. read_box ti data box = Some body) boxes bodies"

lemma boxes_hold_simps [simp]:
  "boxes_hold ti data [] bodies \<longleftrightarrow> bodies = []"
  "boxes_hold ti data (b # bs) (x # xs) \<longleftrightarrow> read_box ti data b = Some x \<and> boxes_hold ti data bs xs"
  by (auto simp: boxes_hold_def)


text \<open>The parser with an empty cache finds boxes in the data and leaves the other buffer alone.\<close>

definition other_kept :: "Bdt_TcpInterface \<Rightarrow> Bdt_TcpInterface \<Rightarrow> bool" where
  "other_kept ti ti' \<longleftrightarrow> cache ti' = cache ti \<and> backCache ti' = backCache ti \<and>
     cacheMemory ti' (backCache ti) = cacheMemory ti (backCache ti)"

lemma parse_return:
  assumes "unbox_step env data n ti pos used first = Some (Return BFX_RESULT_SUCCESS ti' boxes used' first')"
  shows "TcpInterfaceUnboxParserPushData env data n ti pos used first = Some (0, ti', boxes, used', first')"
  using assms by (subst TcpInterfaceUnboxParserPushData.simps) simp

lemma parse_resume:
  assumes "unbox_step env data n ti pos used first = Some (Resume ti2 bs pos2 used2 first2)"
    and "TcpInterfaceUnboxParserPushData env data (n - length bs) ti2 pos2 used2 first2 = Some (r, ti', boxes, used', first')"
  shows "TcpInterfaceUnboxParserPushData env data n ti pos used first = Some (r, ti', bs @ boxes, used', first')"
  using assms by (subst TcpInterfaceUnboxParserPushData.simps) simp

lemma drop_all_but: "pos \<le> length data \<Longrightarrow> length (drop pos data) = length data - pos"
  by simp

lemma parse_fresh:
  assumes "fresh ti" and "0 < n" and "pos \<le> length data"
  shows "\<exists>ti' boxes bodies k.
     TcpInterfaceUnboxParserPushData env data n ti pos used first = Some (0, ti', boxes, used + k, first) \<and>
     cuts data ti pos bodies ti' (pos + k) \<and> (\<forall>t. boxes_hold t data boxes bodies) \<and> other_kept ti ti' \<and>
     (pos < length data \<and> (1 < n \<or> unboxState ti = BDT_TCP_UNBOX_STATE_READING_LENGTH) \<longrightarrow> 0 < k) \<and>
     (length boxes < n \<longrightarrow> pos + k = length data)"
  using assms
proof (induction "2 * (length data - pos) + (if unboxState ti = BDT_TCP_UNBOX_STATE_READING_BODY then 1 else 0)"
    arbitrary: ti n pos used rule: less_induct)
  case less
  have r: "reading ti" "cache ti \<noteq> backCache ti" "cacheLength ti = 0" using less.prems(1) by (simp_all add: fresh_def)
  have ok: "unbox_ok ti" using less.prems(1) by (rule fresh_ok)
  show ?case
  proof (cases "pos < length data")
    case False
    then have "unbox_step env data n ti pos used first = Some (Return 0 ti [] used first)"
      using less.prems by (simp add: unbox_step_def)
    then show ?thesis
      using False less.prems cuts_refl [OF _ ok] parse_return
      by (intro exI [of _ ti] exI [of _ "[]"] exI [of _ 0]) (auto simp: other_kept_def)
  next
    case inside: True
    note step = step_reading [OF r(1) less.prems(2) inside, of env used first]
    have app: "\<exists>ti'. TcpInterfaceUnboxParserPushData env data n ti pos used first = Some (0, ti', [], used + (length data - pos), first) \<and>
         cuts data ti pos [] ti' (length data) \<and> other_kept ti ti'"
      if "unbox_step env data n ti pos used first =
            do { ti \<leftarrow> TcpInterfaceAppendCache (drop pos data) ti;
                 Some (Return BFX_RESULT_SUCCESS ti [] (used + (length data - pos)) first) }"
        and "unboxState ti = BDT_TCP_UNBOX_STATE_READING_BODY \<Longrightarrow> length data - pos < unat (boxSize ti)"
        and "unboxState ti = BDT_TCP_UNBOX_STATE_READING_LENGTH \<Longrightarrow> length data - pos \<le> 1"
    proof -
      have "length data - pos < 65536"
        using that(2,3) unat_lt16 [of "boxSize ti"] by (cases "unboxState ti") auto
      then obtain ti' where t: "TcpInterfaceAppendCache (drop pos data) ti = Some ti'"
        using append_some [of ti "drop pos data"] r by auto
      have "cuts data ti pos [] ti' (length data)"
        using cuts_append [OF ok _ t] that(2,3) r(3) less.prems(3) by simp
      moreover have "other_kept ti ti'"
        using cached_append [OF t] r(2) by (auto simp: other_kept_def)
      moreover have "TcpInterfaceUnboxParserPushData env data n ti pos used first =
          Some (0, ti', [], used + (length data - pos), first)"
        using that(1) t by (intro parse_return) simp
      ultimately show ?thesis by blast
    qed
    have whole: ?thesis
      if "\<exists>ti'. TcpInterfaceUnboxParserPushData env data n ti pos used first = Some (0, ti', [], used + (length data - pos), first) \<and>
         cuts data ti pos [] ti' (length data) \<and> other_kept ti ti'"
    proof -
      from that obtain ti' where t:
        "TcpInterfaceUnboxParserPushData env data n ti pos used first = Some (0, ti', [], used + (length data - pos), first)"
        "cuts data ti pos [] ti' (length data)" "other_kept ti ti'" by blast
      then show ?thesis using inside
        by (intro exI [of _ ti'] exI [of _ "[]"] exI [of _ "length data - pos"]) simp
    qed
    show ?thesis
    proof (cases "unboxState ti")
      case BDT_TCP_UNBOX_STATE_READING_LENGTH
      show ?thesis
      proof (cases "length data - pos > 1")
        case True
        let ?t = "with_length (take 2 (drop pos data)) ti"
        have s: "unbox_step env data n ti pos used first = Some (Resume ?t [] (pos + 2) (used + 2) first)"
          using step BDT_TCP_UNBOX_STATE_READING_LENGTH True r
          by (simp add: read_length_def with_length_def tcpInterfaceDecryptoBoxSize_def)
        have f: "fresh ?t" using r by (simp add: fresh_with_length)
        have smaller: "2 * (length data - (pos + 2)) + (if unboxState ?t = BDT_TCP_UNBOX_STATE_READING_BODY then 1 else 0)
            < 2 * (length data - pos) + (if unboxState ti = BDT_TCP_UNBOX_STATE_READING_BODY then 1 else 0)"
          using True by auto
        have le: "pos + 2 \<le> length data" using True by simp
        obtain ti' boxes bodies k where p:
          "TcpInterfaceUnboxParserPushData env data n ?t (pos + 2) (used + 2) first = Some (0, ti', boxes, used + 2 + k, first)"
          "cuts data ?t (pos + 2) bodies ti' (pos + 2 + k)" "\<forall>t. boxes_hold t data boxes bodies" "other_kept ?t ti'"
          "length boxes < n \<longrightarrow> pos + 2 + k = length data"
          using less.hyps [OF smaller f less.prems(2) le, of "used + 2"] by blast
        have "cuts data ti pos bodies ti' (pos + (2 + k))"
          using cuts_trans [OF cuts_length [OF less.prems(1) BDT_TCP_UNBOX_STATE_READING_LENGTH] p(2)] True
          by (simp add: add.assoc)
        moreover have "other_kept ti ti'" using p(4) by (simp add: other_kept_def with_length_def)
        ultimately show ?thesis
          using parse_resume [OF s, of 0 ti' boxes "used + 2 + k" first] p
          by (intro exI [of _ ti'] exI [of _ boxes] exI [of _ bodies] exI [of _ "2 + k"]) (simp add: add.assoc)
      next
        case False
        then have one: "length data - pos = 1" using inside by simp
        have "unbox_step env data n ti pos used first =
            do { ti \<leftarrow> TcpInterfaceAppendCache (drop pos data) ti;
                 Some (Return BFX_RESULT_SUCCESS ti [] (used + (length data - pos)) first) }"
          using step BDT_TCP_UNBOX_STATE_READING_LENGTH False r one by (simp add: read_length_def)
        then show ?thesis using one BDT_TCP_UNBOX_STATE_READING_LENGTH by (intro whole app) auto
      qed
    next
      case BDT_TCP_UNBOX_STATE_READING_BODY
      let ?m = "unat (boxSize ti)"
      show ?thesis
      proof (cases "length data - pos \<ge> ?m")
        case True
        let ?t = "next_length ti" and ?box = "\<lparr>box_data = InData pos, box_bytes = ?m\<rparr>"
        let ?body = "take ?m (drop pos data)"
        have hold: "read_box t data ?box = Some ?body" for t
          using True inside by (simp add: read_box_def load_at_def mem_load_def)
        have c: "cuts data ti pos [?body] ?t (pos + ?m)"
          using cuts_body [OF less.prems(1) BDT_TCP_UNBOX_STATE_READING_BODY inside] True inside by simp
        have s: "unbox_step env data n ti pos used first = Some (read_on n ?t ?box (pos + ?m) (used + ?m) first)"
          using step BDT_TCP_UNBOX_STATE_READING_BODY True r by (simp add: read_body_def next_length_def)
        show ?thesis
        proof (cases "1 < n")
          case False
          then have "TcpInterfaceUnboxParserPushData env data n ti pos used first = Some (0, ?t, [?box], used + ?m, first)"
            using s by (intro parse_return) (simp add: read_on_def)
          then show ?thesis using c hold False BDT_TCP_UNBOX_STATE_READING_BODY
            by (intro exI [of _ ?t] exI [of _ "[?box]"] exI [of _ "[?body]"] exI [of _ ?m])
              (simp add: other_kept_def next_length_def)
        next
          case many: True
          have s': "unbox_step env data n ti pos used first = Some (Resume ?t [?box] (pos + ?m) (used + ?m) first)"
            using s many r(1) by (auto simp: read_on_def reading_def next_length_def)
          have f: "fresh ?t" using less.prems(1) by (rule fresh_next_length)
          have smaller: "2 * (length data - (pos + ?m)) + (if unboxState ?t = BDT_TCP_UNBOX_STATE_READING_BODY then 1 else 0)
              < 2 * (length data - pos) + (if unboxState ti = BDT_TCP_UNBOX_STATE_READING_BODY then 1 else 0)"
            using inside by (simp add: BDT_TCP_UNBOX_STATE_READING_BODY next_length_def)
          have le: "pos + ?m \<le> length data" using True inside by simp
          have reading: "unboxState ?t = BDT_TCP_UNBOX_STATE_READING_LENGTH" by (simp add: next_length_def)
          obtain ti' boxes bodies k where p:
            "TcpInterfaceUnboxParserPushData env data (n - length [?box]) ?t (pos + ?m) (used + ?m) first = Some (0, ti', boxes, used + ?m + k, first)"
            "cuts data ?t (pos + ?m) bodies ti' (pos + ?m + k)" "\<forall>t. boxes_hold t data boxes bodies" "other_kept ?t ti'"
            "pos + ?m < length data \<longrightarrow> 0 < k" "length boxes < n - length [?box] \<longrightarrow> pos + ?m + k = length data"
            using less.hyps [OF smaller f _ le, of "n - length [?box]" "used + ?m"] reading many by auto
          have "cuts data ti pos (?body # bodies) ti' (pos + (?m + k))"
            using cuts_trans [OF c p(2)] by (simp add: add.assoc)
          moreover have "other_kept ti ti'" using p(4) by (simp add: other_kept_def next_length_def)
          moreover have "0 < ?m + k" using p(5) inside by (cases "?m = 0") auto
          ultimately show ?thesis
            using parse_resume [OF s' p(1)] p(3,6) hold
            by (intro exI [of _ ti'] exI [of _ "?box # boxes"] exI [of _ "?body # bodies"] exI [of _ "?m + k"])
              (simp add: add.assoc)
        qed
      next
        case False
        have "unbox_step env data n ti pos used first =
            do { ti \<leftarrow> TcpInterfaceAppendCache (drop pos data) ti;
                 Some (Return BFX_RESULT_SUCCESS ti [] (used + (length data - pos)) first) }"
          using step BDT_TCP_UNBOX_STATE_READING_BODY False r by (simp add: read_body_def)
        then show ?thesis using False BDT_TCP_UNBOX_STATE_READING_BODY by (intro whole app) auto
      qed
    qed
  qed
qed


text \<open>
  The parser from any state between two calls. A box completed in the cache is read after the rest
  of the data has been parsed; the swap of the two buffers has put it out of harm's way.
\<close>

lemma parse_cached_length:
  assumes "unbox_ok ti" and "reading ti" and "0 < n" and "pos < length data"
    and "unboxState ti = BDT_TCP_UNBOX_STATE_READING_LENGTH" and "0 < cacheLength ti"
  shows "\<exists>t. unbox_step env data n ti pos used first = Some (Resume t [] (pos + 1) (used + 1) first) \<and>
     fresh t \<and> cuts data ti pos [] t (pos + 1)"
proof -
  have one: "cacheLength ti = 1" and ne: "cache ti \<noteq> backCache ti" using assms(1,5,6) by (simp_all add: unbox_ok_def)
  let ?a = "cacheMemory ti (cache ti) 0" and ?b = "data ! pos"
  let ?t = "(with_length [?a, ?b] ti)\<lparr>cacheMemory :=
      (cacheMemory ti)(cache ti := (cacheMemory ti (cache ti))(1 := ?b))\<rparr>"
  have kept: "kept ti = [?a]" using assms(5) one by (simp add: kept_def cached_def)
  have "kept ?t = kept (with_length [?a, ?b] ti)" by (simp add: kept_def with_length_def cached_def)
  then have kept': "kept ?t = [?a, ?b]" using kept_with_length [of "[?a, ?b]" ti] by simp
  have "fresh ?t" using assms(2) ne by (simp add: fresh_def reading_def with_length_def)
  moreover have "drop pos data = ?b # drop (pos + 1) data" using assms(4) by (simp add: Cons_nth_drop_Suc)
  ultimately have "fresh ?t \<and> cuts data ti pos [] ?t (pos + 1)"
    using assms(4) fresh_ok [of ?t] kept kept' by (simp add: cuts_def same_peer_def with_length_def)
  moreover have "unbox_step env data n ti pos used first = Some (Resume ?t [] (pos + 1) (used + 1) first)"
    using assms one by (simp add: step_reading read_length_def with_length_def tcpInterfaceDecryptoBoxSize_def Let_def)
  ultimately show ?thesis by blast
qed

lemma parse_cached_body:
  assumes "unbox_ok ti" and "reading ti" and "1 < n" and "pos < length data"
    and "unboxState ti = BDT_TCP_UNBOX_STATE_READING_BODY" and "0 < cacheLength ti"
  shows "(\<exists>t. unbox_step env data n ti pos used first =
              Some (Return BFX_RESULT_SUCCESS t [] (used + (length data - pos)) first) \<and> cuts data ti pos [] t (length data)) \<or>
         (\<exists>t box body m. unbox_step env data n ti pos used first = Some (Resume t [box] (pos + m) (used + m) first) \<and>
              0 < m \<and> fresh t \<and> cuts data ti pos [body] t (pos + m) \<and>
              (\<forall>t'. other_kept t t' \<longrightarrow> read_box t' data box = Some body))"
proof -
  let ?n = "unat (boxSize ti)" and ?q = "drop pos data"
  have short: "cacheLength ti < ?n" and ne: "cache ti \<noteq> backCache ti" using assms(1,5,6) by (auto simp: unbox_ok_def)
  have n: "?n < 65536" by (rule unat_lt16)
  have step: "unbox_step env data n ti pos used first = read_body data n ti pos used first"
    using assms by (simp add: step_reading)
  show ?thesis
  proof (cases "length ?q + cacheLength ti \<ge> ?n")
    case False
    then obtain t where t: "TcpInterfaceAppendCache ?q ti = Some t" using append_some [of ti ?q] n by auto
    have "cuts data ti pos [] t (length data)"
      using cuts_append [OF assms(1) _ t] assms(4,5) False by simp
    then show ?thesis using step t False assms(6) cached_append [OF t] by (simp add: read_body_def TcpInterfaceTryFillCache_def Let_def)
  next
    case True
    let ?m = "?n - cacheLength ti"
    have room: "cacheLength ti + length (take ?m ?q) < 65536" using n short by (simp add: min_def, linarith)
    obtain t where t: "TcpInterfaceAppendCache (take ?m ?q) ti = Some t"
      using append_some [OF room] by blast
    let ?t = "TcpInterfaceSwapCache (t\<lparr>unboxState := BDT_TCP_UNBOX_STATE_READING_LENGTH, cacheLength := 0\<rparr>)"
    let ?box = "\<lparr>box_data = InCache (cache t), box_bytes = cacheLength t\<rparr>"
    let ?body = "cached ti @ take ?m ?q"
    have len: "cacheLength t = ?n" using cached_append(2) [OF t] True short by simp
    have same: "same_peer ti t" and "cache t = cache ti" "backCache t = backCache ti" using cached_append [OF t] by simp_all
    then have f: "fresh ?t" using ne assms(2) by (simp add: fresh_def reading_def TcpInterfaceSwapCache_def same_peer_def)
    have "read_box t' data ?box = Some ?body" if "other_kept ?t t'" for t'
      using that cached_append(1) [OF t] len n
      by (simp add: read_box_def load_at_def cached_def other_kept_def TcpInterfaceSwapCache_def)
    moreover have "cuts data ti pos [?body] ?t (pos + ?m)"
    proof -
      have "drop (pos + ?m) data = drop ?m ?q" by (simp add: add.commute)
      then have "?q = take ?m ?q @ drop (pos + ?m) data" by (simp only: append_take_drop_id)
      moreover have "frames (le_bytes 2 ?n @ ?body @ drop (pos + ?m) data) =
          (?body # fst (frames (drop (pos + ?m) data)), snd (frames (drop (pos + ?m) data)))"
        by (rule frames_box) (use n short True in auto)
      moreover have "kept ti = le_bytes 2 ?n @ cached ti" using assms(5) by (simp add: kept_def)
      moreover have "kept ?t = []" by (simp add: kept_def cached_def TcpInterfaceSwapCache_def)
      ultimately have "frames (kept ti @ ?q) =
          ([?body] @ fst (frames (kept ?t @ drop (pos + ?m) data)), snd (frames (kept ?t @ drop (pos + ?m) data)))"
        by (metis append.assoc append_Cons append_Nil)
      then show ?thesis
        using f fresh_ok same True assms(4) by (auto simp: cuts_def same_peer_def TcpInterfaceSwapCache_def)
    qed
    moreover have "unbox_step env data n ti pos used first = Some (Resume ?t [?box] (pos + ?m) (used + ?m) first)"
    proof -
      have "TcpInterfaceTryFillCache ?n ?q ti = Some (?m, t)" using t True short assms(4) by (simp add: TcpInterfaceTryFillCache_def)
      then have "read_body data n ti pos used first = Some (read_on n ?t ?box (pos + ?m) (used + ?m) first)"
        using assms(6) len cached_append(8) [OF t] by (simp add: read_body_def Let_def)
      moreover have "read_on n ?t ?box (pos + ?m) (used + ?m) first = Resume ?t [?box] (pos + ?m) (used + ?m) first"
        using f assms(3) by (auto simp: read_on_def fresh_def reading_def)
      ultimately show ?thesis by (simp only: step)
    qed
    ultimately show ?thesis using f short by (metis zero_less_diff)
  qed
qed

lemma parse_any:
  assumes "unbox_ok ti" and "reading ti" and "1 < n" and "pos < length data"
  shows "\<exists>ti' boxes bodies k.
     TcpInterfaceUnboxParserPushData env data n ti pos used first = Some (0, ti', boxes, used + k, first) \<and>
     cuts data ti pos bodies ti' (pos + k) \<and> boxes_hold ti' data boxes bodies \<and> 0 < k \<and>
     (length boxes < n \<longrightarrow> pos + k = length data)"
proof (cases "cacheLength ti = 0")
  case True
  then have "fresh ti" using assms by (simp add: fresh_def unbox_ok_def)
  then show ?thesis using parse_fresh [of ti n pos data env used first] assms by fastforce
next
  case filled: False
  show ?thesis
  proof (cases "unboxState ti")
    case BDT_TCP_UNBOX_STATE_READING_LENGTH
    obtain t where t: "unbox_step env data n ti pos used first = Some (Resume t [] (pos + 1) (used + 1) first)"
      "fresh t" "cuts data ti pos [] t (pos + 1)"
      using parse_cached_length [of ti n pos data env used first] assms BDT_TCP_UNBOX_STATE_READING_LENGTH filled by auto
    obtain ti' boxes bodies k where p:
      "TcpInterfaceUnboxParserPushData env data n t (pos + 1) (used + 1) first = Some (0, ti', boxes, used + 1 + k, first)"
      "cuts data t (pos + 1) bodies ti' (pos + 1 + k)" "\<forall>t. boxes_hold t data boxes bodies"
      "length boxes < n \<longrightarrow> pos + 1 + k = length data"
      using parse_fresh [OF t(2), of n "pos + 1" data env "used + 1" first] assms by auto
    show ?thesis
      using parse_resume [OF t(1)] p cuts_trans [OF t(3) p(2)]
      by (intro exI [of _ ti'] exI [of _ boxes] exI [of _ bodies] exI [of _ "1 + k"]) simp
  next
    case BDT_TCP_UNBOX_STATE_READING_BODY
    consider t where "unbox_step env data n ti pos used first =
              Some (Return BFX_RESULT_SUCCESS t [] (used + (length data - pos)) first)" "cuts data ti pos [] t (length data)"
      | t box body m where "unbox_step env data n ti pos used first = Some (Resume t [box] (pos + m) (used + m) first)"
          "0 < m" "fresh t" "cuts data ti pos [body] t (pos + m)"
          "\<And>t'. other_kept t t' \<Longrightarrow> read_box t' data box = Some body"
      using parse_cached_body [OF assms BDT_TCP_UNBOX_STATE_READING_BODY, of env used first] filled by blast
    then show ?thesis
    proof cases
      case 1
      then show ?thesis using parse_return [OF 1(1)] assms(4)
        by (intro exI [of _ t] exI [of _ "[]"] exI [of _ "length data - pos"]) simp
    next
      case 2
      obtain ti' boxes bodies k where p:
        "TcpInterfaceUnboxParserPushData env data (n - length [box]) t (pos + m) (used + m) first = Some (0, ti', boxes, used + m + k, first)"
        "cuts data t (pos + m) bodies ti' (pos + m + k)" "\<forall>t. boxes_hold t data boxes bodies" "other_kept t ti'"
        "length boxes < n - length [box] \<longrightarrow> pos + m + k = length data"
        using parse_fresh [OF 2(3), of "n - length [box]" "pos + m" data env "used + m" first] assms 2(4)
        by (auto simp: cuts_def)
      show ?thesis
        using parse_resume [OF 2(1) p(1)] p cuts_trans [OF 2(4) p(2)] 2(2) 2(5) [OF p(4)]
        by (intro exI [of _ ti'] exI [of _ "box # boxes"] exI [of _ "body # bodies"] exI [of _ "m + k"])
          (simp add: add.assoc)
    qed
  qed
qed


section \<open>All the boxes of a call\<close>

text \<open>The segments of a stream, one call each.\<close>

fun push_all :: "'p tcp_env \<Rightarrow> u8 list list \<Rightarrow> Bdt_TcpInterface \<Rightarrow> (Bdt_TcpInterface \<times> 'p tcp_event list) option" where
  "push_all env [] ti = Some (ti, [])"
| "push_all env (c # cs) ti = do {
     (ti, evs) \<leftarrow> BdtPushTcpSocketData env c ti;
     (ti, evs') \<leftarrow> push_all env cs ti;
     Some (ti, evs @ evs')
   }"

text \<open>
  What the loop needs of the code that handles boxes: in the states \<open>ready\<close>, boxes with a \<open>good\<close>
  body are handed to the owner one after the other and the interface stays as it is.
\<close>

locale box_handler =
  fixes ready :: "'p tcp_env \<Rightarrow> Bdt_TcpInterface \<Rightarrow> bool"
    and good :: "'p tcp_env \<Rightarrow> Bdt_TcpInterface \<Rightarrow> u8 list \<Rightarrow> bool"
    and told :: "'p tcp_env \<Rightarrow> Bdt_TcpInterface \<Rightarrow> u8 list \<Rightarrow> 'p tcp_event"
  assumes ready_reading: "ready env ti \<Longrightarrow> reading ti"
    and ready_crypto: "ready env ti \<Longrightarrow> ti_state ti = BDT_TCP_INTERFACE_STATE_STREAM \<Longrightarrow> isCrypto ti"
    and same_ready: "same_peer ti ti' \<Longrightarrow> ready env ti' = ready env ti"
    and same_good: "same_peer ti ti' \<Longrightarrow> good env ti' = good env ti"
    and same_told: "same_peer ti ti' \<Longrightarrow> told env ti' = told env ti"
    and handled: "ready env ti \<Longrightarrow> boxes_hold ti data boxes bodies \<Longrightarrow> \<forall>b\<in>set bodies. good env ti b \<Longrightarrow>
      push_boxes env data boxes first ti = Some (True, ti, map (told env ti) bodies)"
begin

lemma push_data:
  assumes "ready env ti" and "unbox_ok ti" and "data \<noteq> []" and "length data \<le> 65536"
    and "\<forall>b\<in>set (fst (frames (kept ti @ data))). good env ti b"
  shows "\<exists>ti'. BdtPushTcpSocketData env data ti = Some (ti', map (told env ti) (fst (frames (kept ti @ data)))) \<and>
     same_peer ti ti' \<and> unbox_ok ti' \<and> kept ti' = snd (frames (kept ti @ data))"
  using assms
proof (induction "length data" arbitrary: data ti rule: less_induct)
  case less
  note prems = less.prems
  let ?first = "\<lparr>remotePeerid = replicate 32 0, isStartWithExchangeKey = False\<rparr>"
  obtain ti2 boxes bodies k where p:
    "TcpInterfaceUnboxParserPushData env data TCP_MAX_BOX_LEN ti 0 0 ?first = Some (0, ti2, boxes, k, ?first)"
    "cuts data ti 0 bodies ti2 k" "boxes_hold ti2 data boxes bodies" "0 < k" "length boxes < TCP_MAX_BOX_LEN \<longrightarrow> k = length data"
    using parse_any [OF prems(2) ready_reading [OF prems(1)], of TCP_MAX_BOX_LEN 0 data env 0 ?first] prems(3) by auto
  have same: "same_peer ti ti2" and ok: "unbox_ok ti2" and k: "k \<le> length data"
    and fr: "frames (kept ti @ data) =
      (bodies @ fst (frames (kept ti2 @ drop k data)), snd (frames (kept ti2 @ drop k data)))"
    using p(2) by (simp_all add: cuts_def)
  have good: "\<forall>b\<in>set bodies. good env ti2 b" "\<forall>b\<in>set (fst (frames (kept ti2 @ drop k data))). good env ti2 b"
    using prems(5) fr same_good [OF same, of env] by auto
  have ready: "ready env ti2" using same_ready [OF same] prems(1) by simp
  have boxed: "push_boxes env data boxes ?first ti2 = Some (True, ti2, map (told env ti) bodies)"
    using handled [OF ready p(3) good(1)] same_told [OF same, of env] by simp
  have plain: "\<not> (ti_state ti = BDT_TCP_INTERFACE_STATE_STREAM \<and> \<not> isCrypto ti)"
    using ready_crypto [OF prems(1)] by blast
  have goes: "BdtPushTcpSocketData env data ti =
      (if boxes = [] then Some (ti2, [])
       else if k < length data then do {
         (t, evs) \<leftarrow> BdtPushTcpSocketData env (drop k data) ti2;
         Some (t, map (told env ti) bodies @ evs)
       } else Some (ti2, map (told env ti) bodies))"
    using prems(3,4) plain p(1) boxed by (subst BdtPushTcpSocketData.simps) auto
  show ?case
  proof (cases "boxes \<noteq> [] \<and> k < length data")
    case True
    have "\<exists>ti'. BdtPushTcpSocketData env (drop k data) ti2 =
         Some (ti', map (told env ti2) (fst (frames (kept ti2 @ drop k data)))) \<and>
       same_peer ti2 ti' \<and> unbox_ok ti' \<and> kept ti' = snd (frames (kept ti2 @ drop k data))"
      by (rule less.hyps) (use p(4) True ready ok good(2) prems(4) in auto)
    then show ?thesis
      using True goes fr same_told [OF same, of env] same_peer_trans [OF same] by auto
  next
    case False
    then have "k = length data" "bodies = [] \<or> boxes \<noteq> []" using p(3,5) k by auto
    then show ?thesis
      using False goes fr frames_kept [OF ok] ok same p(3) by auto
  qed
qed

lemma push_segments:
  assumes "ready env ti" and "unbox_ok ti" and "\<forall>c\<in>set cs. c \<noteq> [] \<and> length c \<le> 65536"
    and "\<forall>b\<in>set (fst (frames (kept ti @ concat cs))). good env ti b"
  shows "\<exists>ti'. push_all env cs ti = Some (ti', map (told env ti) (fst (frames (kept ti @ concat cs)))) \<and>
     same_peer ti ti' \<and> unbox_ok ti' \<and> kept ti' = snd (frames (kept ti @ concat cs))"
  using assms
proof (induction cs arbitrary: ti)
  case Nil
  then show ?case by (simp add: frames_kept)
next
  case (Cons c cs)
  have fr: "frames (kept ti @ concat (c # cs)) =
      (fst (frames (kept ti @ c)) @ fst (frames (snd (frames (kept ti @ c)) @ concat cs)),
       snd (frames (snd (frames (kept ti @ c)) @ concat cs)))"
    using frames_append [of "kept ti @ c" "concat cs"] by simp
  obtain t where t: "BdtPushTcpSocketData env c ti = Some (t, map (told env ti) (fst (frames (kept ti @ c))))"
    "same_peer ti t" "unbox_ok t" "kept t = snd (frames (kept ti @ c))"
    using push_data [of env ti c] Cons.prems fr by auto
  have "\<exists>ti'. push_all env cs t = Some (ti', map (told env t) (fst (frames (kept t @ concat cs)))) \<and>
     same_peer t ti' \<and> unbox_ok ti' \<and> kept ti' = snd (frames (kept t @ concat cs))"
    by (rule Cons.IH) (use Cons.prems fr t same_ready [OF t(2)] same_good [OF t(2), of env] in auto)
  then show ?case
    using t(1,4) fr same_told [OF t(2), of env] same_peer_trans [OF t(2)] by auto
qed

end

section \<open>Stream data\<close>

text \<open>An owner that leaves the interface alone while it is called.\<close>

definition quiet :: "'p tcp_env \<Rightarrow> bool" where
  "quiet env \<longleftrightarrow> (\<forall>ev ti. snd (react env ev ti) = ti)"

lemma quiet_call: "quiet env \<Longrightarrow> ti_owner ti \<Longrightarrow> \<exists>r. call_owner env ev ti = (r, ti, [ev])"
  by (metis (no_types, lifting) call_owner_def case_prod_beta prod.collapse quiet_def)

definition opened :: "'p tcp_env \<Rightarrow> Bdt_TcpInterface \<Rightarrow> u8 list \<Rightarrow> u8 list" where
  "opened env ti body = (case Bdt_AesDecryptDataWithPadding env (aesKey ti) body (length body) of
      Some (r, out) \<Rightarrow> take (nat r) out | None \<Rightarrow> [])"

definition opens :: "'p tcp_env \<Rightarrow> Bdt_TcpInterface \<Rightarrow> u8 list \<Rightarrow> bool" where
  "opens env ti body \<longleftrightarrow> (case Bdt_AesDecryptDataWithPadding env (aesKey ti) body (length body) of
      Some (r, out) \<Rightarrow> 0 < r | None \<Rightarrow> False)"

lemma decrypt_opened: "opens env ti body \<Longrightarrow> decrypt_box env body ti = Some (Inr (opened env ti body))"
  by (auto simp: opens_def opened_def decrypt_box_def split: option.splits)

definition stream_ready :: "'p tcp_env \<Rightarrow> Bdt_TcpInterface \<Rightarrow> bool" where
  "stream_ready env ti \<longleftrightarrow> ti_state ti = BDT_TCP_INTERFACE_STATE_STREAM \<and> isCrypto ti \<and> ti_owner ti \<and> quiet env"

lemma stream_boxes_told:
  assumes "stream_ready env ti" and "boxes_hold ti data boxes bodies" and "\<forall>b\<in>set bodies. opens env ti b"
  shows "stream_boxes env data boxes ti = Some (True, ti, map (\<lambda>b. OnData (opened env ti b)) bodies)"
  using assms
proof (induction boxes arbitrary: bodies)
  case (Cons box boxes)
  obtain b bs where bodies: "bodies = b # bs" using Cons.prems(2) by (cases bodies) (auto simp: boxes_hold_def)
  obtain r where "TcpInterfaceOnData env (opened env ti b) ti = (r, ti, [OnData (opened env ti b)])"
    using quiet_call Cons.prems(1) by (fastforce simp: stream_ready_def TcpInterfaceOnData_def)
  then show ?case
    using Cons.IH [of bs] Cons.prems decrypt_opened [of env ti b] by (simp add: bodies)
qed simp

interpretation stream: box_handler stream_ready opens "\<lambda>env ti b. OnData (opened env ti b)"
  by unfold_locales
    (auto simp: stream_ready_def reading_def same_peer_def opens_def opened_def push_boxes_def stream_boxes_told)

section \<open>Packages\<close>

definition clear :: "'p tcp_env \<Rightarrow> Bdt_TcpInterface \<Rightarrow> u8 list \<Rightarrow> u8 list" where
  "clear env ti body = (if isCrypto ti then opened env ti body else body)"

text \<open>A box that holds one package.\<close>

definition one_package :: "'p tcp_env \<Rightarrow> Bdt_TcpInterface \<Rightarrow> u8 list \<Rightarrow> bool" where
  "one_package env ti body \<longleftrightarrow> (isCrypto ti \<longrightarrow> opens env ti body) \<and>
     0 \<le> fst (decode_package env (clear env ti body) False) \<and>
     length (snd (decode_package env (clear env ti body) False)) = 1"

definition package_ready :: "'p tcp_env \<Rightarrow> Bdt_TcpInterface \<Rightarrow> bool" where
  "package_ready env ti \<longleftrightarrow> ti_state ti = BDT_TCP_INTERFACE_STATE_PACKAGE \<and> ti_owner ti \<and> quiet env"

definition packages_told :: "'p tcp_env \<Rightarrow> Bdt_TcpInterface \<Rightarrow> u8 list \<Rightarrow> 'p tcp_event" where
  "packages_told env ti body = OnPackages (snd (decode_package env (clear env ti body) False))"

lemma package_boxes_told:
  assumes "package_ready env ti" and "boxes_hold ti data boxes bodies" and "\<forall>b\<in>set bodies. one_package env ti b"
    and "tl slots = replicate 31 NoPackage" and "slots \<noteq> []"
  shows "package_boxes env data boxes slots ti = Some (True, ti, map (packages_told env ti) bodies)"
  using assms
proof (induction boxes arbitrary: bodies slots)
  case (Cons box boxes)
  obtain b bs where bodies: "bodies = b # bs" using Cons.prems(2) by (cases bodies) (auto simp: boxes_hold_def)
  obtain r p where dec: "decode_package env (clear env ti b) False = (r, [p])" "0 \<le> r"
    using Cons.prems(3) by (cases "decode_package env (clear env ti b) False")
      (auto simp: one_package_def bodies length_Suc_conv)
  have "unbox_packages env b False slots ti = Some (Inr (Live p # replicate 31 NoPackage))"
    using Cons.prems dec decrypt_opened [of env ti b]
    by (cases slots) (auto simp: unbox_packages_def store_packages_def clear_def bodies one_package_def)
  moreover obtain r' where "TcpInterfaceOnPackages env (Live p # replicate 31 NoPackage) ti = Some (r', ti, [OnPackages [p]])"
    using quiet_call [of env ti "OnPackages [p]"] Cons.prems(1)
    by (auto simp: package_ready_def TcpInterfaceOnPackages_def numeral_eq_Suc)
  moreover have "TcpInterfaceFreePackages (Live p # replicate 31 NoPackage) = Some (Freed # replicate 31 NoPackage)"
    by (simp add: TcpInterfaceFreePackages_def numeral_eq_Suc)
  ultimately show ?case
    using Cons.IH [of bs "Freed # replicate 31 NoPackage"] Cons.prems dec
    by (simp add: bodies package_ready_def packages_told_def)
qed simp

interpretation packages: box_handler package_ready one_package packages_told
  by unfold_locales
    (auto simp: package_ready_def reading_def same_peer_def one_package_def opens_def opened_def clear_def
       packages_told_def push_boxes_def package_boxes_told)


text \<open>
  C10. The boxing of packages over TCP does not depend on how TCP cuts its stream into segments.
  Whatever the segments \<open>cs\<close> of a connection that exchanges packages, and whatever is left over from
  before, the owner is told of exactly the boxes that the reference splitter finds in all the bytes
  at once, in their order, and what is left over is what the splitter leaves, if every box holds one
  package that can be read.
\<close>

theorem packages_independent_of_segments:
  assumes "package_ready env ti" and "unbox_ok ti" and "\<forall>c\<in>set cs. c \<noteq> [] \<and> length c \<le> 65536"
    and "\<forall>b\<in>set (fst (frames (kept ti @ concat cs))). one_package env ti b"
  shows "\<exists>ti'. push_all env cs ti = Some (ti', map (packages_told env ti) (fst (frames (kept ti @ concat cs)))) \<and>
     same_peer ti ti' \<and> unbox_ok ti' \<and> kept ti' = snd (frames (kept ti @ concat cs))"
  using assms by (rule packages.push_segments)

text \<open>An instance: ciphers that do nothing, and a package is the bytes of its box.\<close>

definition toy_env :: "u8 list tcp_env" where
  "toy_env = \<lparr>find_by_mix_hash = (\<lambda>h. if h = [1, 2, 3, 4, 5, 6, 7, 8] then Some (replicate 32 7, [42]) else None),
     rsa_bytes = 128, rsa_decrypt = (\<lambda>_. None), sha256 = (\<lambda>_. replicate 32 0),
     cbc_encrypt = (\<lambda>_ x. (0, x)), cbc_decrypt = (\<lambda>_ x. (0, x)),
     encode_package = (\<lambda>ps _. (0, concat ps)), decode_package = (\<lambda>bs _. (0, [bs])),
     is_exchange = (\<lambda>_. False), react = (\<lambda>_ ti. (0, ti))\<rparr>"

definition toy_interface :: "Bdt_TcpInterfaceState \<Rightarrow> bool \<Rightarrow> Bdt_TcpInterface" where
  "toy_interface s crypto = (TcpInterfaceCreate False)\<lparr>ti_state := s, ti_owner := True, isCrypto := crypto\<rparr>"

lemma toy_facts [simp]: "quiet toy_env" "unbox_ok (toy_interface s b)" "kept (toy_interface s b) = []"
  by (simp_all add: quiet_def toy_env_def toy_interface_def TcpInterfaceCreate_def unbox_ok_def kept_def cached_def)

lemma toy_frames: "frames [3, 0, 10, 11, 12, 2, 0, 13, 14, 5] = ([[10, 11, 12], [13, 14]], [5])"
  by code_simp

lemma toy_packages [simp]:
  "package_ready toy_env (toy_interface BDT_TCP_INTERFACE_STATE_PACKAGE b)"
  "one_package toy_env (toy_interface s False) bs"
  "packages_told toy_env (toy_interface s False) bs = OnPackages [bs]"
  by (simp_all add: package_ready_def one_package_def packages_told_def clear_def)
    (simp_all add: toy_interface_def TcpInterfaceCreate_def toy_env_def)

theorem packages_independent_of_segments_witness:
  "\<exists>ti'. push_all toy_env [[3], [0, 10, 11], [12, 2, 0, 13, 14, 5]] (toy_interface BDT_TCP_INTERFACE_STATE_PACKAGE False) =
     Some (ti', [OnPackages [[10, 11, 12]], OnPackages [[13, 14]]]) \<and> kept ti' = [5]"
  using packages_independent_of_segments
    [of toy_env "toy_interface BDT_TCP_INTERFACE_STATE_PACKAGE False" "[[3], [0, 10, 11], [12, 2, 0, 13, 14, 5]]"]
  by (auto simp: toy_frames simp del: push_all.simps)

section \<open>Both ends of a stream\<close>

text \<open>The block cipher of mbedtls, on whole blocks.\<close>

definition cbc_ok :: "'p tcp_env \<Rightarrow> u8 list \<Rightarrow> bool" where
  "cbc_ok env key \<longleftrightarrow> (\<forall>x. 16 dvd length x \<longrightarrow>
     (\<exists>y. cbc_encrypt env key x = (0, y) \<and> length y = length x \<and> cbc_decrypt env key y = (0, x)))"

lemma check_padding_replicate: "check_padding n b (replicate n b @ bs) = Some True"
  by (induction n) auto

lemma unat_of_small: "n < 2 ^ LENGTH('a) \<Longrightarrow> unat (of_nat n :: 'a::len word) = n"
  by (simp add: unat_of_nat)

lemma aes_roundtrip:
  assumes "cbc_ok env key" and "(length d div 16 + 1) * 16 \<le> iLen" and "(length d div 16 + 1) * 16 \<le> oLen"
  shows "\<exists>out pad. Bdt_AesEncryptDataWithPadding env key d iLen oLen = (int ((length d div 16 + 1) * 16), out) \<and>
     length out = (length d div 16 + 1) * 16 \<and>
     Bdt_AesDecryptDataWithPadding env key out (length out) = Some (int (length d), d @ pad)"
proof -
  let ?t = "(length d div 16 + 1) * 16"
  let ?p = "?t - length d"
  let ?pad = "replicate ?p (of_nat ?p :: u8)"
  have p: "0 < ?p" "?p \<le> 16" "length d + ?p = ?t"
    using div_mult_mod_eq [of "length d" 16] mod_less_divisor [of 16 "length d"] by auto
  have len: "length (d @ ?pad) = ?t" using p(3) by simp
  then have "16 dvd length (d @ ?pad)" by simp
  then obtain y where y: "cbc_encrypt env key (d @ ?pad) = (0, y)" "length y = length (d @ ?pad)"
    "cbc_decrypt env key y = (0, d @ ?pad)"
    using assms(1) unfolding cbc_ok_def by blast
  have u: "unat (of_nat ?p :: u8) = ?p" by (rule unat_of_small) (use p(2) in simp)
  have ne: "y \<noteq> []" using y(2) p(1) by auto
  have last: "last (d @ ?pad) = of_nat ?p" using p(1) by simp
  have "rev (d @ ?pad) = replicate ?p (of_nat ?p) @ rev d" by simp
  then have "check_padding (unat (of_nat ?p :: u8)) (of_nat ?p) (rev (d @ ?pad)) = Some True"
    unfolding u by (simp only: check_padding_replicate)
  then have "Bdt_AesDecryptDataWithPadding env key y (length y) = Some (int (length y) - uint (of_nat ?p :: u8), d @ ?pad)"
    using ne y(3) last by (simp add: Bdt_AesDecryptDataWithPadding_def Let_def)
  moreover have "int (length y) - uint (of_nat ?p :: u8) = int (length d)"
    using u y(2) len p(3) by (metis add_diff_cancel_right' of_nat_add uint_nat unat_eq_nat_uint)
  moreover have "Bdt_AesEncryptDataWithPadding env key d iLen oLen = (int ?t, y)"
    using assms y(1) by (simp add: Bdt_AesEncryptDataWithPadding_def Let_def)
  ultimately show ?thesis using y(2) len by auto
qed


text \<open>What goes to the socket when the first \<open>n\<close> bytes of a buffer are boxed.\<close>

definition boxed :: "'p tcp_env \<Rightarrow> Bdt_TcpInterface \<Rightarrow> u8 list \<times> nat \<Rightarrow> u8 list" where
  "boxed env ti d = (case d of (buffer, n) \<Rightarrow>
     (case Bdt_TcpInterfaceBoxCryptoData env buffer n ti of
        Some (r, header, buffer, boxsize) \<Rightarrow> header @ take boxsize buffer | None \<Rightarrow> []))"

definition fits_box :: "u8 list \<times> nat \<Rightarrow> bool" where
  "fits_box d \<longleftrightarrow> 0 < snd d \<and> snd d \<le> length (fst d) \<and>
     (snd d div 16 + 1) * 16 \<le> length (fst d) \<and> (snd d div 16 + 1) * 16 < 65536"

lemma boxed_opens:
  assumes "cbc_ok env (aesKey ti)" and "fits_box d" and "isCrypto ti" and "ti_state ti = BDT_TCP_INTERFACE_STATE_STREAM"
    and "aesKey ti' = aesKey ti"
  shows "\<exists>body. boxed env ti d = le_bytes 2 (length body) @ body \<and> body \<noteq> [] \<and> length body < 65536 \<and>
     opens env ti' body \<and> opened env ti' body = take (snd d) (fst d)"
proof -
  obtain buffer n where d: "d = (buffer, n)" by (cases d)
  let ?data = "take n buffer" and ?t = "(n div 16 + 1) * 16"
  have n: "0 < n" "length ?data = n" "?t \<le> length buffer" "?t < 65536" using assms(2) by (simp_all add: fits_box_def d)
  obtain out pad where out:
    "Bdt_AesEncryptDataWithPadding env (aesKey ti) ?data (length buffer) (length buffer) = (int ?t, out)" "length out = ?t"
    "Bdt_AesDecryptDataWithPadding env (aesKey ti) out (length out) = Some (int n, ?data @ pad)"
    using aes_roundtrip [OF assms(1), of ?data "length buffer" "length buffer"] n by auto
  have size: "unat (of_int (int ?t) :: u16) = ?t"
    unfolding of_int_of_nat_eq by (rule unat_of_small) (use n(4) in simp)
  have "Bdt_TcpInterfaceBoxCryptoData env buffer n ti = Some (0, le_bytes 2 ?t, out @ drop (length out) buffer, ?t)"
    using assms(3,4) out(1) size n(2) by (simp add: Bdt_TcpInterfaceBoxCryptoData_def tcpInterfaceCryptoBoxSize_def)
  then have "boxed env ti d = le_bytes 2 (length out) @ out" using out(2) by (simp add: boxed_def d)
  moreover have "opens env ti' out" "opened env ti' out = ?data"
    using out(3) n(1,2) assms(5) by (simp_all add: opens_def opened_def)
  moreover have "out \<noteq> []" "length out < 65536" using out(2) n(4) by auto
  ultimately show ?thesis by (auto simp: d)
qed

lemma frames_boxed:
  assumes "cbc_ok env (aesKey ti)" and "isCrypto ti" and "ti_state ti = BDT_TCP_INTERFACE_STATE_STREAM"
    and "aesKey ti' = aesKey ti" and "\<forall>d\<in>set ds. fits_box d"
  shows "\<exists>bodies. frames (concat (map (boxed env ti) ds)) = (bodies, []) \<and> (\<forall>b\<in>set bodies. opens env ti' b) \<and>
     map (opened env ti') bodies = map (\<lambda>d. take (snd d) (fst d)) ds"
  using assms(5)
proof (induction ds)
  case Nil
  then show ?case by (simp add: frames_short)
next
  case (Cons d ds)
  obtain body where b: "boxed env ti d = le_bytes 2 (length body) @ body" "body \<noteq> []" "length body < 65536"
    "opens env ti' body" "opened env ti' body = take (snd d) (fst d)"
    using boxed_opens [OF assms(1) _ assms(2,3,4), of d] Cons.prems by auto
  obtain bodies where bs: "frames (concat (map (boxed env ti) ds)) = (bodies, [])" "\<forall>b\<in>set bodies. opens env ti' b"
    "map (opened env ti') bodies = map (\<lambda>d. take (snd d) (fst d)) ds"
    using Cons by auto
  have "frames (concat (map (boxed env ti) (d # ds))) = (body # bodies, [])"
    using frames_box [of body "length body" "concat (map (boxed env ti) ds)"] b(1,2,3) bs(1) by simp
  then show ?case using b bs by auto
qed

text \<open>
  C11. An encrypted stream over TCP: if one interface boxes the buffers \<open>ds\<close> one after the other and
  TCP delivers the bytes to the other interface, which has the same key, cut into whatever segments
  \<open>cs\<close>, then the owner of the other interface gets exactly the data of these buffers, in their order
  and box by box, and nothing is left over. The cipher is only required to invert itself on
  whole blocks; the padding is that of the code.
\<close>

theorem stream_data_roundtrip:
  assumes "stream_ready env ti'" and "unbox_ok ti'" and "kept ti' = []"
    and "isCrypto ti" and "ti_state ti = BDT_TCP_INTERFACE_STATE_STREAM" and "aesKey ti' = aesKey ti"
    and "cbc_ok env (aesKey ti)" and "\<forall>d\<in>set ds. fits_box d"
    and "\<forall>c\<in>set cs. c \<noteq> [] \<and> length c \<le> 65536" and "concat cs = concat (map (boxed env ti) ds)"
  shows "\<exists>t. push_all env cs ti' = Some (t, map (\<lambda>d. OnData (take (snd d) (fst d))) ds) \<and> same_peer ti' t \<and> kept t = []"
proof -
  obtain bodies where b: "frames (concat (map (boxed env ti) ds)) = (bodies, [])" "\<forall>b\<in>set bodies. opens env ti' b"
    "map (opened env ti') bodies = map (\<lambda>d. take (snd d) (fst d)) ds"
    using frames_boxed [OF assms(7,4,5,6,8)] by blast
  have "map (\<lambda>b. OnData (opened env ti' b)) bodies = map OnData (map (opened env ti') bodies)" by simp
  then have "map (\<lambda>b. OnData (opened env ti' b)) bodies = map (\<lambda>d. OnData (take (snd d) (fst d))) ds"
    by (simp only: b(3)) (simp add: comp_def)
  then show ?thesis using stream.push_segments [OF assms(1,2,9)] b(1,2) assms(3,10) by auto
qed

lemma toy_fields [simp]: "isCrypto (toy_interface s b) = b" "ti_state (toy_interface s b) = s"
  by (simp_all add: toy_interface_def)

lemma toy_cipher: "cbc_ok toy_env key"
  by (auto simp: cbc_ok_def toy_env_def)

lemma toy_stream [simp]: "stream_ready toy_env (toy_interface BDT_TCP_INTERFACE_STATE_STREAM True)"
  by (simp add: stream_ready_def) (simp add: toy_interface_def)

theorem stream_data_roundtrip_witness:
  "\<exists>t. push_all toy_env [[16], 0 # [1, 2], 3 # replicate 13 13] (toy_interface BDT_TCP_INTERFACE_STATE_STREAM True) =
     Some (t, [OnData [1, 2, 3]])"
proof -
  let ?i = "toy_interface BDT_TCP_INTERFACE_STATE_STREAM True"
  have "boxed toy_env ?i ([1, 2, 3] @ replicate 20 0, 3) = [16, 0, 1, 2, 3] @ replicate 13 13" by code_simp
  then have "\<exists>t. push_all toy_env [[16], 0 # [1, 2], 3 # replicate 13 13] ?i =
      Some (t, map (\<lambda>d. OnData (take (snd d) (fst d))) [([1, 2, 3] @ replicate 20 0, 3)]) \<and> same_peer ?i t \<and> kept t = []"
    by (intro stream_data_roundtrip [where ti = ?i]) (simp_all add: toy_cipher fits_box_def del: replicate.simps)
  then show ?thesis by auto
qed

end
