(* ===== verification/TcpFaults.thy ===== *)
theory TcpFaults
  imports TcpStream
begin

text \<open>
  Inputs on which the TCP interface fails: a first package that cannot be read, boxes with different
  numbers of packages in one segment, an empty box, and an encrypted first package that arrives in
  two segments. All of them can be sent by a peer.
\<close>

section \<open>A first package that cannot be read\<close>

text \<open>The plain first box in one segment.\<close>

definition plain_first :: "u8 list \<Rightarrow> u8 list" where
  "plain_first body = [0x00, 0x80] @ le_bytes 2 (length body) @ body"

lemma plain_first_at [simp]:
  "load_at ti (plain_first body) (InData 0) 0 2 = Some [0x00, 0x80]"
  "load_at ti (plain_first body) (InData 0) 2 2 = Some (le_bytes 2 (length body))"
  "2 \<le> length body \<Longrightarrow> load_at ti (plain_first body) (InData 0) 4 2 = Some (take 2 body)"
  "3 \<le> length body \<Longrightarrow> load_at ti (plain_first body) (InData 0) 6 1 = Some (take 1 (drop 2 body))"
  "load_at ti (plain_first body) (InData 4) 0 (length body) = Some body"
  "length (plain_first body) = length body + 4"
  by (simp_all add: load_at_def mem_load_def plain_first_def)

lemma plain_first_parsed:
  assumes "40 < length body" and "length body < 4096" and "le_value (take 2 body) \<le> length body"
  shows "TcpInterfaceUnboxParserPushData env (plain_first body) TCP_MAX_BOX_LEN (TcpInterfaceCreate True) 0 0 first =
     Some (0, (TcpInterfaceCreate True)\<lparr>boxSize := of_nat (length body)\<rparr>,
       [\<lparr>box_data = InData 4, box_bytes = length body\<rparr>], 4 + length body, first)"
proof -
  let ?i = "TcpInterfaceCreate True" and ?n = "length body"
  let ?t = "?i\<lparr>isCrypto := False, boxSize := of_nat ?n, unboxState := BDT_TCP_UNBOX_STATE_READING_BODY\<rparr>"
  have l: "le_value (le_bytes 2 ?n) = ?n" using assms(2) by (intro le_value_2) simp
  have u: "unat (of_nat ?n :: u16) = ?n" by (rule unat_of_small) (use assms(2) in simp)
  have i: "ti_state ?i = BDT_TCP_INTERFACE_STATE_WAIT_FIRST_PACKAGE" "unboxState ?i = BDT_TCP_UNBOX_STATE_READING_LENGTH"
    "cacheLength ?i = 0" "firstBlockSize ?i = 6"
    by (simp_all add: TcpInterfaceCreate_def)
  have "guess_package (plain_first body) (InData 0) 0 ?i 0 0 first = Some (Resume ?t [] 4 4 first)"
    using assms l by (simp add: guess_package_def resume_at_def Let_def del: le_value_le_bytes One_nat_def)
  then have "unbox_step env (plain_first body) TCP_MAX_BOX_LEN ?i 0 0 first = Some (Resume ?t [] 4 4 first)"
    using i assms(1) by (simp add: unbox_step_def wait_first_length_def Let_def)
  moreover have "unbox_step env (plain_first body) TCP_MAX_BOX_LEN ?t 4 4 first =
      Some (Return 0 (?i\<lparr>boxSize := of_nat ?n\<rparr>) [\<lparr>box_data = InData 4, box_bytes = ?n\<rparr>] (4 + ?n) first)"
    using i u assms(1) by (simp add: unbox_step_def wait_first_body_def Let_def) (auto simp: TcpInterfaceCreate_def)
  ultimately show ?thesis
    using parse_resume [of env "plain_first body" TCP_MAX_BOX_LEN ?i 0 0 first ?t "[]" 4 4 first]
      parse_return [of env "plain_first body" TCP_MAX_BOX_LEN ?t 4 4 first] by simp
qed

text \<open>
  C38. A peer that is not known yet can stop a passive TCP interface: if the first box is in the clear
  and its length is plausible, but its packages cannot be decoded, \<open>Bdt_DecodePackage\<close> reports the
  positive code \<open>BFX_RESULT_INVALID_ENCODE\<close>, which the caller, looking for a negative result, takes
  for success; it then uses the first package, which is null.
\<close>

theorem undecodable_first_package:
  assumes "40 < length body" and "length body < 4096" and "le_value (take 2 body) \<le> length body"
    and "decode_package env body False = (uint BFX_RESULT_INVALID_ENCODE, [])"
  shows "BdtPushTcpSocketData env (plain_first body) (TcpInterfaceCreate True) = None"
proof -
  let ?first = "\<lparr>remotePeerid = replicate 32 0, isStartWithExchangeKey = False\<rparr>"
  let ?t = "(TcpInterfaceCreate True)\<lparr>boxSize := of_nat (length body)\<rparr>"
  let ?box = "\<lparr>box_data = InData 4, box_bytes = length body\<rparr>"
  let ?slots = "replicate BDT_MAX_PACKAGE_MERGE_LENGTH NoPackage"
  have t: "ti_state ?t = BDT_TCP_INTERFACE_STATE_WAIT_FIRST_PACKAGE" "isCrypto ?t = False"
    by (simp_all add: TcpInterfaceCreate_def)
  have "unbox_packages env body False ?slots ?t = Some (Inr ?slots)"
    using assms(4) t(2) by (simp add: unbox_packages_def store_packages_def numeral_eq_Suc)
  then have "first_box env (plain_first body) ?box ?first ?slots ?t = None"
    using t(1) by (simp add: first_box_def read_box_def TcpInterfaceOnFirstPackages_def read_slot_def)
  then have "push_boxes env (plain_first body) [?box] ?first ?t = None"
    using t(1) by (simp add: push_boxes_def)
  moreover have "plain_first body \<noteq> []" by (simp add: plain_first_def)
  ultimately show ?thesis
    using plain_first_parsed [OF assms(1-3), of env ?first] assms(2)
    by (subst BdtPushTcpSocketData.simps) (simp add: TcpInterfaceCreate_def)
qed

theorem undecodable_first_package_witness:
  "BdtPushTcpSocketData (toy_env\<lparr>decode_package := (\<lambda>_ _. (104, []))\<rparr>) (plain_first (replicate 50 0)) (TcpInterfaceCreate True) = None"
proof -
  have "le_value (take 2 (replicate 50 0)) = 0" by code_simp
  then show ?thesis by (intro undecodable_first_package) simp_all
qed

section \<open>An encrypted first package in two segments\<close>














section \<open>Boxes with different numbers of packages\<close>

lemma live_packages_append: "live_packages (map Live ps @ ss) = map_option ((@) ps) (live_packages ss)"
  by (induction ps) (auto simp: option.map_ident map_option_case split: option.splits)

lemma free_slots_append: "free_slots (map Live ps @ ss) = map_option ((@) (replicate (length ps) Freed)) (free_slots ss)"
  by (induction ps) (auto simp: option.map_ident map_option_case split: option.splits)

lemma live_null [simp]: "live_packages (replicate n NoPackage) = Some []" "free_slots (replicate n NoPackage) = Some (replicate n NoPackage)"
  by (cases n; simp)+

text \<open>The array after the packages of a first box have been stored, handed on and freed.\<close>

lemma first_box_slots:
  assumes "1 \<le> length ps" and "length ps \<le> 8"
  shows "store_packages ps (replicate 32 NoPackage) = Some (map Live ps @ replicate (32 - length ps) NoPackage)"
    and "live_packages (take 8 (map Live ps @ replicate (32 - length ps) NoPackage)) = Some ps"
    and "TcpInterfaceFreePackages (map Live ps @ replicate (32 - length ps) NoPackage) =
      Some (replicate (length ps) Freed @ replicate (32 - length ps) NoPackage)"
proof -
  have "replicate 32 NoPackage = NoPackage # replicate 31 (NoPackage :: 'a package_slot)" by (simp add: numeral_eq_Suc)
  then have "drop (length ps) (NoPackage # tl (replicate 32 NoPackage)) = replicate (32 - length ps) (NoPackage :: 'a package_slot)"
    by (metis drop_replicate list.sel(3))
  then show "store_packages ps (replicate 32 NoPackage) = Some (map Live ps @ replicate (32 - length ps) NoPackage)"
    using assms(2) by (simp add: store_packages_def)
  show "live_packages (take 8 (map Live ps @ replicate (32 - length ps) NoPackage)) = Some ps"
    using assms(2) by (simp add: live_packages_append)
  show "TcpInterfaceFreePackages (map Live ps @ replicate (32 - length ps) NoPackage) =
      Some (replicate (length ps) Freed @ replicate (32 - length ps) NoPackage)"
    using assms(2) by (simp add: TcpInterfaceFreePackages_def free_slots_append flip: replicate_add)
qed

lemma second_box_slots:
  assumes "1 \<le> length qs" and "length qs < m" and "m \<le> 8"
  shows "\<exists>ss. store_packages qs (replicate m Freed @ replicate (32 - m) NoPackage) = Some ss \<and> live_packages (take 8 ss) = None"
proof -
  let ?slots = "replicate m Freed @ replicate (32 - m) NoPackage"
  obtain m' where m: "m = Suc m'" using assms(2) by (cases m) auto
  obtain n' where n: "length qs = Suc n'" using assms(1) by (cases "length qs") auto
  obtain d where d: "m' - n' = Suc d" using assms(2) m n by (cases "m' - n'") auto
  have "drop (length qs) (NoPackage # tl ?slots) = replicate (m' - n') Freed @ replicate (32 - m) NoPackage"
    using assms(2) by (simp add: m n)
  then have "store_packages qs ?slots = Some (map Live qs @ Freed # replicate d Freed @ replicate (32 - m) NoPackage)"
    using assms by (simp add: store_packages_def d)
  moreover have "8 - length qs = Suc (7 - length qs)" using assms by simp
  ultimately show ?thesis using assms by (simp add: live_packages_append)
qed

lemma parse_all:
  assumes "unbox_ok ti" and "reading ti" and "data \<noteq> []" and "frames (kept ti @ data) = (bodies, rest)" and "length bodies < 32"
  shows "\<exists>ti' boxes. TcpInterfaceUnboxParserPushData env data TCP_MAX_BOX_LEN ti 0 0 first = Some (0, ti', boxes, length data, first) \<and>
     same_peer ti ti' \<and> boxes_hold ti' data boxes bodies"
proof -
  obtain ti' boxes bs k where p:
    "TcpInterfaceUnboxParserPushData env data TCP_MAX_BOX_LEN ti 0 0 first = Some (0, ti', boxes, k, first)"
    "cuts data ti 0 bs ti' k" "boxes_hold ti' data boxes bs" "length boxes < 32 \<longrightarrow> k = length data"
    using parse_any [OF assms(1,2), of TCP_MAX_BOX_LEN 0 data env 0 first] assms(3) by auto
  have b: "bodies = bs @ fst (frames (kept ti' @ drop k data))" and ok: "unbox_ok ti'" and same: "same_peer ti ti'"
    using p(2) assms(4) by (simp_all add: cuts_def)
  have "length boxes = length bs" using p(3) by (simp add: boxes_hold_def list_all2_lengthD)
  then have k: "k = length data" using p(4) b assms(5) by simp
  then have "bodies = bs" using b frames_kept [OF ok] by simp
  then show ?thesis using p k same by blast
qed

text \<open>
  C40. Two boxes of packages that arrive in one segment, the second with fewer packages than the first
  (but not without any), make the interface hand freed packages to its owner: the array of packages is cleared only
  at its first entry between two boxes, so the entries behind the packages of the second box still
  point at those of the first, which have been freed.
\<close>

theorem fewer_packages_use_freed:
  assumes "package_ready env ti" and "unbox_ok ti" and "kept ti = []" and "\<not> isCrypto ti"
    and "decode_package env b1 False = (r1, ps)" and "decode_package env b2 False = (r2, qs)" and "0 \<le> r1" and "0 \<le> r2"
    and "1 \<le> length qs" and "length qs < length ps" and "length ps \<le> 8"
    and "b1 \<noteq> []" and "length b1 < 30000" and "b2 \<noteq> []" and "length b2 < 30000"
  shows "BdtPushTcpSocketData env (le_bytes 2 (length b1) @ b1 @ le_bytes 2 (length b2) @ b2) ti = None"
proof -
  let ?first = "\<lparr>remotePeerid = replicate 32 0, isStartWithExchangeKey = False\<rparr>"
  let ?data = "le_bytes 2 (length b1) @ b1 @ le_bytes 2 (length b2) @ b2"
  have "frames ?data = ([b1, b2], [])"
    using frames_box [of b2 "length b2" "[]"] frames_box [of b1 "length b1" "le_bytes 2 (length b2) @ b2"] assms(12-15)
    by (simp add: frames_short)
  moreover have "reading ti" using assms(1) by (simp add: package_ready_def reading_def)
  moreover have "?data \<noteq> []" using assms(12) by simp
  ultimately obtain t boxes where p:
    "TcpInterfaceUnboxParserPushData env ?data TCP_MAX_BOX_LEN ti 0 0 ?first = Some (0, t, boxes, length ?data, ?first)"
    "same_peer ti t" "boxes_hold t ?data boxes [b1, b2]"
    using parse_all [OF assms(2), of ?data "[b1, b2]" "[]" env ?first] assms(3) by auto
  obtain x1 x2 where boxes: "boxes = [x1, x2]"
    using p(3) by (auto simp: boxes_hold_def list_all2_Cons2)
  have t: "ti_state t = BDT_TCP_INTERFACE_STATE_PACKAGE" "\<not> isCrypto t" "ti_owner t" "quiet env"
    using p(2) assms(1,4) by (auto simp: same_peer_def package_ready_def)
  obtain r where own: "call_owner env (OnPackages ps) t = (r, t, [OnPackages ps])" using quiet_call [OF t(4,3)] by blast
  have ps: "1 \<le> length ps" using assms(9,10) by simp
  note slots = first_box_slots [OF ps assms(11)]
  obtain ss where ss: "store_packages qs (replicate (length ps) Freed @ replicate (32 - length ps) NoPackage) = Some ss"
    "live_packages (take 8 ss) = None"
    using second_box_slots [OF assms(9-11)] by blast
  have "package_boxes env ?data boxes (replicate 32 NoPackage) t = None"
    using p(3) t assms(5-8) slots own ss
    by (simp add: boxes unbox_packages_def TcpInterfaceOnPackages_def del: replicate.simps)
  then show ?thesis
    using p(1) t boxes assms(12-15) assms(1)
    by (subst BdtPushTcpSocketData.simps) (simp add: push_boxes_def package_ready_def)
qed

theorem fewer_packages_use_freed_witness:
  "BdtPushTcpSocketData (toy_env\<lparr>decode_package := (\<lambda>bs _. (0, map (\<lambda>b. [b]) bs))\<rparr>) [2, 0, 10, 11, 1, 0, 12]
     (toy_interface BDT_TCP_INTERFACE_STATE_PACKAGE False) = None"
proof -
  let ?env = "toy_env\<lparr>decode_package := (\<lambda>bs _. (0, map (\<lambda>b. [b]) bs))\<rparr>"
  have "package_ready ?env (toy_interface BDT_TCP_INTERFACE_STATE_PACKAGE False)"
    by (simp add: package_ready_def quiet_def) (simp add: toy_interface_def toy_env_def)
  then show ?thesis
    using fewer_packages_use_freed [of ?env "toy_interface BDT_TCP_INTERFACE_STATE_PACKAGE False" "[10, 11]" 0 "[[10], [11]]" "[12]" 0 "[[12]]"]
    by (simp add: numeral_2_eq_2)
qed

section \<open>An empty box\<close>

text \<open>An encrypted stream: a box of length 0 makes the interface read the byte in front of it.\<close>

lemma empty_box_reads_before:
  assumes "fst (cbc_decrypt env (aesKey ti) []) = 0"
  shows "decrypt_box env [] ti = None"
  using assms by (simp add: decrypt_box_def Bdt_AesDecryptDataWithPadding_def case_prod_beta)

text \<open>In the clear, the length of what has been boxed is not reported to the caller.\<close>

lemma plain_box_length_lost:
  assumes "\<not> isCrypto ti" and "encode_package env packages (bufferLen - 2) = (BFX_RESULT_SUCCESS, bytes)"
  shows "Bdt_TcpInterfaceBoxPackage env packages bufferLen n ti =
     Some (BFX_RESULT_SUCCESS, le_bytes 2 (unat (of_nat (length bytes) :: u16)) @ bytes, n)"
  using assms by (simp add: Bdt_TcpInterfaceBoxPackage_def)

end
