(* ===== verification/StreamConnection.thy ===== *)
theory StreamConnection
  imports TcpInterface
begin

text \<open>
  A connection over one encrypted TCP socket,
  \<^verbatim>\<open>BDTCore/Connection/StreamConnection.imp.inl\<close>. What the application sends is collected until it
  makes a record of at least \<open>minRecordSize\<close> bytes (or for a while), boxed, and written to the socket
  as the socket accepts it; one record is under way at a time. What arrives is copied into the
  buffers of the application, or kept until it asks, and then the socket is paused.

  A buffer of the application is the list of its bytes; what has been written to a receive buffer is
  the list of the bytes from its start. How much the socket accepts (\<open>space\<close>) and the clock are
  arguments. Calls of the application's callbacks and bytes written to the socket are recorded, oldest
  first. \<open>BdtImmediate\<close> is a count of the calls the framework has yet to make. An operation runs in one
  piece. \<open>None\<close> is a failed assertion, a null callback that is called, or the use of the byte count of
  a socket that has been closed, which is not set then.
\<close>

section \<open>State\<close>

record BdtStreamConnectionConfig =
  minRecordSize :: nat
  maxRecordSize :: nat
  maxNagleDelay :: int
  recvTimeout :: int

record StreamConnectionSendRequest =
  sreq_buffer :: "u8 list"
  sreq_length :: nat
  sreq_callback :: "nat option"
  sreq_offset :: nat
  sreq_postTime :: int

record StreamConnectionRecvBuffer =
  rb_recvTime :: int
  rb_pos :: nat
  rb_data :: "u8 list"

record StreamConnectionRecvRequest =
  rr_got :: "u8 list"
  rr_size :: nat
  rr_callback :: nat

datatype stream_event =
  Wire "u8 list" | Sent u32 nat nat | Received nat "u8 list"

record StreamConnection =
  stream_config :: BdtStreamConnectionConfig
  tcpInterface :: Bdt_TcpInterface
  sendingCallCount :: nat
  recordData :: "u8 list"
  pendingRecord :: "u8 list"
  sendClosed :: bool
  recordSize :: nat
  sendRequestSize :: nat
  sendRequests :: "StreamConnectionSendRequest list"
  immediates :: nat
  nagleDelay :: "int option"
  isRecvNotifying :: bool
  isCompleteRecvNotifyOnly :: bool
  recvClosed :: bool
  recvBuffersQueue :: "StreamConnectionRecvBuffer list"
  recvRequestQueue :: "StreamConnectionRecvRequest list"
  completeRecvRequests :: "StreamConnectionRecvRequest list"
  dataNotify :: "int option"
  paused :: bool
  stream_events :: "stream_event list"

abbreviation (input) STREAM_CONNECTION_ENCRYPT_MAX_PADDING_SIZE :: nat where
  "STREAM_CONNECTION_ENCRYPT_MAX_PADDING_SIZE \<equiv> 32"

definition StreamConnectionCreate :: "BdtStreamConnectionConfig \<Rightarrow> Bdt_TcpInterface \<Rightarrow> StreamConnection" where
  "StreamConnectionCreate config ti =
     \<lparr>stream_config = config,
      tcpInterface = (if ti_state ti = BDT_TCP_INTERFACE_STATE_CLOSED then ti else ti\<lparr>ti_owner := True\<rparr>),
      sendingCallCount = 0, recordData = replicate (maxRecordSize config + STREAM_CONNECTION_ENCRYPT_MAX_PADDING_SIZE) 0,
      pendingRecord = [], sendClosed = False, recordSize = 0, sendRequestSize = 0, sendRequests = [], immediates = 0,
      nagleDelay = None, isRecvNotifying = False, isCompleteRecvNotifyOnly = True, recvClosed = False,
      recvBuffersQueue = [], recvRequestQueue = [], completeRecvRequests = [], dataNotify = None, paused = False,
      stream_events = []\<rparr>"

definition emit :: "stream_event list \<Rightarrow> StreamConnection \<Rightarrow> StreamConnection" where
  "emit evs s = s\<lparr>stream_events := stream_events s @ evs\<rparr>"

section \<open>Sending\<close>

definition left_length :: "StreamConnectionSendRequest \<Rightarrow> nat" where
  "left_length r = sreq_length r - sreq_offset r"

definition left_bytes :: "StreamConnectionSendRequest \<Rightarrow> u8 list" where
  "left_bytes r = take (left_length r) (drop (sreq_offset r) (sreq_buffer r))"

text \<open>
  The loop runs once for every call counted in \<open>sendingCallCount\<close>; an operation in one piece finds
  and leaves the count at 0. A socket that is closed does not say how much it has sent.
\<close>

definition StreamConnectionSendRecord :: "nat \<Rightarrow> bool \<Rightarrow> StreamConnection \<Rightarrow> (u32 \<times> StreamConnection) option" where
  "StreamConnectionSendRecord space countCall s =
     (if sendingCallCount s \<noteq> 0
      then Some (BFX_RESULT_PENDING, if countCall then s\<lparr>sendingCallCount := sendingCallCount s + 1\<rparr> else s)
      else do {
        s \<leftarrow> (if pendingRecord s = [] then Some s
             else if ti_state (tcpInterface s) = BDT_TCP_INTERFACE_STATE_CLOSED then None
             else Some (emit [Wire (take space (pendingRecord s))] (s\<lparr>pendingRecord := drop space (pendingRecord s)\<rparr>)));
        if pendingRecord s \<noteq> [] then Some (BFX_RESULT_SUCCESS, s)
        else
          let s = s\<lparr>recordSize := 0\<rparr>
          in if sendRequestSize s = 0 \<and> sendClosed s
             then Some (BFX_RESULT_SUCCESS, s\<lparr>tcpInterface := snd (Bdt_TcpInterfaceClose (tcpInterface s))\<rparr>)
             else Some (BFX_RESULT_SUCCESS, s\<lparr>immediates := immediates s + 1\<rparr>)
      })"

text \<open>The record is copied to the record buffer and boxed in place.\<close>

definition box_record :: "'p tcp_env \<Rightarrow> u8 list \<Rightarrow> StreamConnection \<Rightarrow> StreamConnection option" where
  "box_record env bytes s = do {
     mem \<leftarrow> mem_store 0 bytes (recordData s);
     (r, header, mem, boxsize) \<leftarrow> Bdt_TcpInterfaceBoxCryptoData env mem (length bytes) (tcpInterface s);
     if r \<noteq> BFX_RESULT_SUCCESS then None
     else Some (s\<lparr>recordData := mem, pendingRecord := header @ take boxsize mem\<rparr>)
   }"

text \<open>Requests up to \<open>toRecordSize\<close> bytes, the last one cut in two.\<close>

fun take_requests :: "nat \<Rightarrow> nat \<Rightarrow> StreamConnectionSendRequest list \<Rightarrow>
    StreamConnectionSendRequest list \<times> StreamConnectionSendRequest list" where
  "take_requests toRecordSize gathered [] = ([], [])"
| "take_requests toRecordSize gathered (item # items) =
     (if gathered + left_length item > toRecordSize
      then let end = sreq_offset item + (toRecordSize - gathered)
           in ([item\<lparr>sreq_callback := None, sreq_length := end\<rparr>], item\<lparr>sreq_offset := end\<rparr> # items)
      else let (taken, rest) = take_requests toRecordSize (gathered + left_length item) items in (item # taken, rest))"

text \<open>The callbacks that are not null.\<close>

definition sent_events :: "StreamConnectionSendRequest list \<Rightarrow> stream_event list" where
  "sent_events items = concat (map (\<lambda>r. case sreq_callback r of None \<Rightarrow> []
      | Some cb \<Rightarrow> [Sent BFX_RESULT_SUCCESS cb (sreq_length r)]) items)"

text \<open>The requests that make the next record, how many bytes they are, and the delay to wait otherwise.\<close>

definition pick_record :: "int \<Rightarrow> StreamConnection \<Rightarrow> StreamConnectionSendRequest list \<times> nat \<times> int \<times> StreamConnection" where
  "pick_record now s =
     (let config = stream_config s
      in if recordSize s \<noteq> 0 then ([], 0, 0, s)
         else
           let (toRecord, toRecordSize, delay, rest) =
             (if sendRequestSize s \<ge> minRecordSize config \<or> sendClosed s then
                (if sendRequestSize s < maxRecordSize config then (sendRequests s, sendRequestSize s, 0, [])
                 else let (taken, rest) = take_requests (maxRecordSize config) 0 (sendRequests s)
                      in (taken, maxRecordSize config, 0, rest))
              else if sendRequestSize s > 0 then
                (let postTime = sreq_postTime (hd (sendRequests s));
                     delay = (maxNagleDelay config * 1000 div 2 - (now - postTime)) div 1000
                 in if delay \<le> 0 \<or> postTime > now then (sendRequests s, sendRequestSize s, 0, [])
                    else ([], 0, delay, sendRequests s))
              else ([], 0, 0, sendRequests s))
           in (toRecord, toRecordSize, delay,
               s\<lparr>sendRequests := rest, sendRequestSize := sendRequestSize s - toRecordSize, recordSize := toRecordSize\<rparr>))"

definition StreamConnectionCheckPendingSend :: "'p tcp_env \<Rightarrow> int \<Rightarrow> nat \<Rightarrow> StreamConnection \<Rightarrow> StreamConnection option" where
  "StreamConnectionCheckPendingSend env now space s =
     (let (toRecord, toRecordSize, delay, s) = pick_record now s
      in if toRecordSize \<noteq> 0 then
           (let bytes = concat (map left_bytes toRecord)
            in if length bytes \<noteq> toRecordSize then None
               else do {
                 s \<leftarrow> box_record env bytes s;
                 (r, s) \<leftarrow> StreamConnectionSendRecord space False (emit (sent_events toRecord) s);
                 Some s
               })
         else if delay > 0 then Some (s\<lparr>nagleDelay := (if nagleDelay s = None then Some delay else nagleDelay s)\<rparr>)
         else Some s)"

text \<open>The callbacks of requests that go out with a new one are called without looking for null.\<close>

fun call_all :: "StreamConnectionSendRequest list \<Rightarrow> stream_event list option" where
  "call_all [] = Some []"
| "call_all (r # rs) = do {
     cb \<leftarrow> sreq_callback r;
     evs \<leftarrow> call_all rs;
     Some (Sent BFX_RESULT_SUCCESS cb (sreq_length r) # evs)
   }"

text \<open>What the critical section decides: queue the request, or make a record now.\<close>

datatype send_choice =
  SendRefused | SendQueued bool | SendRecordNow "StreamConnectionSendRequest list" nat bool

definition send_choose :: "StreamConnectionSendRequest \<Rightarrow> StreamConnection \<Rightarrow> send_choice \<times> StreamConnection" where
  "send_choose item s =
     (let config = stream_config s; len = sreq_length item;
          queue = s\<lparr>sendRequests := sendRequests s @ [item], sendRequestSize := sendRequestSize s + len\<rparr>
      in if sendClosed s then (SendRefused, s)
         else if recordSize s \<noteq> 0 then (SendQueued False, queue)
         else if sendRequestSize s < minRecordSize config then
           (let size = sendRequestSize s + len
            in if size \<ge> minRecordSize config then
                 (if size < maxRecordSize config
                  then (SendRecordNow (sendRequests s) size False,
                        s\<lparr>sendRequests := [], sendRequestSize := 0, recordSize := size\<rparr>)
                  else let offset = maxRecordSize config - sendRequestSize s
                       in (SendRecordNow (sendRequests s) (maxRecordSize config) True,
                           s\<lparr>sendRequests := [item\<lparr>sreq_offset := offset\<rparr>], sendRequestSize := len - offset,
                             recordSize := maxRecordSize config\<rparr>))
               else (SendQueued True, queue))
         else (SendQueued False, queue))"

text \<open>What comes after the critical section.\<close>

definition send_finish :: "'p tcp_env \<Rightarrow> nat \<Rightarrow> StreamConnectionSendRequest \<Rightarrow> send_choice \<Rightarrow> StreamConnection \<Rightarrow>
    (u32 \<times> StreamConnection) option" where
  "send_finish env space item choice s =
     (case choice of
        SendRefused \<Rightarrow> Some (BFX_RESULT_INVALID_STATE, s)
      | SendQueued nagle \<Rightarrow>
          Some (BFX_RESULT_PENDING,
            if nagle \<and> nagleDelay s = None then s\<lparr>nagleDelay := Some (maxNagleDelay (stream_config s))\<rparr> else s)
      | SendRecordNow toRecord toRecordSize pending \<Rightarrow>
          (let bytes = concat (map left_bytes toRecord); r = (if pending then BFX_RESULT_PENDING else BFX_RESULT_SUCCESS)
           in if toRecordSize = 0 then Some (r, s)
              else if length bytes \<ge> toRecordSize then None
              else do {
                s \<leftarrow> box_record env (bytes @ take (toRecordSize - length bytes) (sreq_buffer item)) s;
                evs \<leftarrow> call_all toRecord;
                own \<leftarrow> (if pending then Some [] else call_all [item]);
                (r', s) \<leftarrow> StreamConnectionSendRecord space False (emit (evs @ own) s);
                Some (r, s)
              }))"

definition send_request :: "int \<Rightarrow> u8 list \<Rightarrow> nat option \<Rightarrow> StreamConnectionSendRequest" where
  "send_request now buffer callback =
     \<lparr>sreq_buffer = buffer, sreq_length = length buffer, sreq_callback = callback, sreq_offset = 0, sreq_postTime = now\<rparr>"

definition StreamConnectionSend ::
    "'p tcp_env \<Rightarrow> int \<Rightarrow> nat \<Rightarrow> u8 list \<Rightarrow> nat option \<Rightarrow> StreamConnection \<Rightarrow> (u32 \<times> StreamConnection) option" where
  "StreamConnectionSend env now space buffer callback s =
     (let item = send_request now buffer callback; (choice, s) = send_choose item s
      in send_finish env space item choice s)"

definition StreamConnectionOnTcpDrain :: "nat \<Rightarrow> StreamConnection \<Rightarrow> StreamConnection option" where
  "StreamConnectionOnTcpDrain space s = do { (r, s) \<leftarrow> StreamConnectionSendRecord space True s; Some s }"

definition StreamConnectionOnNagleTimer :: "'p tcp_env \<Rightarrow> int \<Rightarrow> nat \<Rightarrow> StreamConnection \<Rightarrow> StreamConnection option" where
  "StreamConnectionOnNagleTimer env now space s =
     (if nagleDelay s = None then Some s
      else StreamConnectionCheckPendingSend env now space (s\<lparr>nagleDelay := None\<rparr>))"

definition StreamConnectionOnSyncSent :: "'p tcp_env \<Rightarrow> int \<Rightarrow> nat \<Rightarrow> StreamConnection \<Rightarrow> StreamConnection option" where
  "StreamConnectionOnSyncSent env now space s =
     (if immediates s = 0 then Some s
      else StreamConnectionCheckPendingSend env now space (s\<lparr>immediates := immediates s - 1\<rparr>))"

definition StreamConnectionClose :: "StreamConnection \<Rightarrow> u32 \<times> StreamConnection" where
  "StreamConnectionClose s =
     (if sendClosed s then (BFX_RESULT_INVALID_STATE, s)
      else let s = s\<lparr>sendClosed := True\<rparr>
           in (BFX_RESULT_SUCCESS,
               if pendingRecord s = [] \<and> sendRequestSize s = 0
               then s\<lparr>tcpInterface := snd (Bdt_TcpInterfaceClose (tcpInterface s))\<rparr> else s))"

definition StreamConnectionCancelPendingSend :: "u32 \<Rightarrow> StreamConnection \<Rightarrow> StreamConnection" where
  "StreamConnectionCancelPendingSend result s =
     emit (concat (map (\<lambda>r. case sreq_callback r of None \<Rightarrow> [] | Some cb \<Rightarrow> [Sent result cb 0]) (sendRequests s)))
       (s\<lparr>sendClosed := True, sendRequests := [], sendRequestSize := 0, recordSize := 0\<rparr>)"

section \<open>Receiving\<close>

definition received_event :: "StreamConnectionRecvRequest \<Rightarrow> stream_event" where
  "received_event r = Received (rr_callback r) (rr_got r)"

text \<open>
  The loop ends when there is nothing to call back. A request that is not complete is handed out
  only when somebody has asked for that, once.
\<close>

definition StreamConnectionNotifyCompleteRecvRequest :: "bool \<Rightarrow> StreamConnection \<Rightarrow> StreamConnection" where
  "StreamConnectionNotifyCompleteRecvRequest onlyComplete s =
     (let s = (if onlyComplete then s else s\<lparr>isCompleteRecvNotifyOnly := False\<rparr>)
      in if isRecvNotifying s then s
         else
           let toCallback = completeRecvRequests s;
               (partial, rest) =
                 (if isCompleteRecvNotifyOnly s then ([], recvRequestQueue s)
                  else case recvRequestQueue s of
                         [] \<Rightarrow> ([], [])
                       | r # rs \<Rightarrow> if rr_got r \<noteq> [] then ([r], rs) else ([], r # rs))
           in emit (map received_event (toCallback @ partial))
                (s\<lparr>completeRecvRequests := [], recvRequestQueue := rest, isCompleteRecvNotifyOnly := True\<rparr>))"

text \<open>Bytes kept back are copied to a new request, buffer by buffer: what has been copied and the buffers left.\<close>

fun copy_buffers :: "nat \<Rightarrow> u8 list \<Rightarrow> StreamConnectionRecvBuffer list \<Rightarrow> u8 list \<times> StreamConnectionRecvBuffer list" where
  "copy_buffers len got [] = (got, [])"
| "copy_buffers len got (b # bs) =
     (if length got < len then
        (let copySize = min (len - length got) (length (rb_data b) - rb_pos b);
             got = got @ take copySize (drop (rb_pos b) (rb_data b));
             b = b\<lparr>rb_pos := rb_pos b + copySize\<rparr>
         in if rb_pos b = length (rb_data b) then copy_buffers len got bs else (got, b # bs))
      else (got, b # bs))"

text \<open>The time kept in an \<open>int32_t\<close>, in microseconds; the timeout of the configuration is an \<open>uint32_t\<close>.\<close>

definition int32 :: "int \<Rightarrow> int" where
  "int32 i = sint (of_int i :: 32 word)"

definition left_time :: "int \<Rightarrow> StreamConnectionRecvBuffer \<Rightarrow> int \<Rightarrow> int" where
  "left_time now b timeout =
     (let left = int32 (now - rb_recvTime b - timeout) in if left > timeout then int32 timeout else left)"

definition StreamConnectionRecv :: "int \<Rightarrow> nat \<Rightarrow> nat \<Rightarrow> StreamConnection \<Rightarrow> StreamConnection option" where
  "StreamConnectionRecv now len callback s =
     (let (got, buffers) = copy_buffers len [] (recvBuffersQueue s);
          recvLeftTime =
            (case recvBuffersQueue s of
               [] \<Rightarrow> 0
             | b # _ \<Rightarrow> left_time now b (recvTimeout (stream_config s)));
          req = \<lparr>rr_got = got, rr_size = len, rr_callback = callback\<rparr>;
          s = s\<lparr>recvBuffersQueue := buffers\<rparr>
      in if length got = len \<or> recvClosed s \<or> got \<noteq> [] \<and> recvLeftTime \<le> 2000 then
           (if got \<noteq> [] \<or> recvClosed s
            then Some (StreamConnectionNotifyCompleteRecvRequest True (s\<lparr>completeRecvRequests := completeRecvRequests s @ [req]\<rparr>))
            else None)
         else
           let s = s\<lparr>recvRequestQueue := recvRequestQueue s @ [req]\<rparr>;
               s = (if length (recvRequestQueue s) = 1 then s\<lparr>paused := False\<rparr> else s)
           in Some (if got \<noteq> [] \<and> dataNotify s = None then s\<lparr>dataNotify := Some recvLeftTime\<rparr> else s))"

text \<open>
  New bytes are copied to the waiting requests: the complete ones, the others, the bytes left and
  whether the last one has been filled in part.
\<close>

fun fill_requests :: "u8 list \<Rightarrow> StreamConnectionRecvRequest list \<Rightarrow>
    StreamConnectionRecvRequest list \<times> StreamConnectionRecvRequest list \<times> u8 list \<times> bool" where
  "fill_requests data [] = ([], [], data, False)"
| "fill_requests data (r # rs) =
     (if data = [] then ([], r # rs, [], False)
      else
        let copySize = min (length data) (rr_size r - length (rr_got r));
            r = r\<lparr>rr_got := rr_got r @ take copySize data\<rparr>;
            data = drop copySize data
        in if length (rr_got r) = rr_size r
           then let (full, rest, data, part) = fill_requests data rs in (r # full, rest, data, part)
           else ([], r # rs, data, True))"

definition StreamConnectionOnTcpData :: "int \<Rightarrow> u8 list \<Rightarrow> StreamConnection \<Rightarrow> StreamConnection option" where
  "StreamConnectionOnTcpData now data s =
     (if data = [] then
        Some (StreamConnectionNotifyCompleteRecvRequest False
          (s\<lparr>recvClosed := True, completeRecvRequests := completeRecvRequests s @ recvRequestQueue s, recvRequestQueue := []\<rparr>))
      else if recvClosed s then Some s
      else if recvRequestQueue s \<noteq> [] \<and> recvBuffersQueue s \<noteq> [] then None
      else
        let (full, rest, data, part) = fill_requests data (recvRequestQueue s);
            s = s\<lparr>recvRequestQueue := rest, completeRecvRequests := completeRecvRequests s @ full\<rparr>
        in if data \<noteq> [] \<and> rest \<noteq> [] then None
           else
             let s = (if data = [] then s
                      else s\<lparr>recvBuffersQueue := recvBuffersQueue s @ [\<lparr>rb_recvTime = now, rb_pos = 0, rb_data = data\<rparr>]\<rparr>);
                 s = (if data \<noteq> [] \<and> length (recvBuffersQueue s) = 1 then s\<lparr>paused := True\<rparr> else s);
                 s = StreamConnectionNotifyCompleteRecvRequest True s;
                 s = (if full \<noteq> [] \<and> part then s\<lparr>dataNotify := None\<rparr> else s)
             in Some (if part \<and> dataNotify s = None then s\<lparr>dataNotify := Some (int32 (recvTimeout (stream_config s)))\<rparr> else s))"

definition StreamConnectionOnDataNotifyTimer :: "StreamConnection \<Rightarrow> StreamConnection" where
  "StreamConnectionOnDataNotifyTimer s =
     (if dataNotify s = None then s else StreamConnectionNotifyCompleteRecvRequest False (s\<lparr>dataNotify := None\<rparr>))"

definition StreamConnectionCancelPendingRecv :: "StreamConnection \<Rightarrow> StreamConnection" where
  "StreamConnectionCancelPendingRecv s =
     StreamConnectionNotifyCompleteRecvRequest False
       (s\<lparr>recvClosed := True, recvBuffersQueue := [],
         completeRecvRequests := completeRecvRequests s @ recvRequestQueue s, recvRequestQueue := []\<rparr>)"

definition StreamConnectionReset :: "StreamConnection \<Rightarrow> StreamConnection" where
  "StreamConnectionReset s =
     (let s = s\<lparr>tcpInterface := snd (Bdt_TcpInterfaceReset (tcpInterface s))\<rparr>
      in StreamConnectionCancelPendingRecv (StreamConnectionCancelPendingSend BFX_RESULT_INVALID_STATE s))"

end
