(* ===== verification/StreamSend.thy ===== *)
theory StreamSend
  imports StreamConnection TcpStream
begin

text \<open>
  The sending side of a connection over TCP: whatever the application sends, and however the socket,
  the framework and the timers call back in between, the bytes written to the socket are the boxes
  of records that make up the stream of the application, in order, with what is still
  queued behind them; and no assertion fails on the way.
\<close>

section \<open>Records on the wire\<close>

definition wire :: "'p tcp_env \<Rightarrow> u8 list \<Rightarrow> u8 list \<Rightarrow> u8 list" where
  "wire env key r =
     (let t = (length r div 16 + 1) * 16; p = t - length r
      in le_bytes 2 t @ snd (cbc_encrypt env key (r @ replicate p (of_nat p))))"

definition record_fits :: "nat \<Rightarrow> u8 list \<Rightarrow> bool" where
  "record_fits m r \<longleftrightarrow> r \<noteq> [] \<and> length r \<le> m"

lemma wire_boxed:
  assumes "cbc_ok env (aesKey ti)" and "fits_box (buffer, n)" and "isCrypto ti"
    and "ti_state ti \<notin> {BDT_TCP_INTERFACE_STATE_PACKAGE, BDT_TCP_INTERFACE_STATE_WAIT_FIRST_PACKAGE, BDT_TCP_INTERFACE_STATE_WAIT_FIRST_RESP}"
  shows "\<exists>mem k. Bdt_TcpInterfaceBoxCryptoData env buffer n ti = Some (0, le_bytes 2 k, mem, k) \<and>
     length mem = length buffer \<and> le_bytes 2 k @ take k mem = wire env (aesKey ti) (take n buffer)"
proof -
  let ?r = "take n buffer"
  let ?t = "(n div 16 + 1) * 16"
  let ?p = "?t - n"
  have n: "length ?r = n" "?t \<le> length buffer" "?t < 65536" using assms(2) by (simp_all add: fits_box_def)
  have "16 dvd length (?r @ replicate ?p (of_nat ?p :: u8))"
    using n(1) div_mult_mod_eq [of n 16] mod_less_divisor [of 16 n] by simp
  then obtain y where y: "cbc_encrypt env (aesKey ti) (?r @ replicate ?p (of_nat ?p)) = (0, y)"
    "length y = length (?r @ replicate ?p (of_nat ?p :: u8))"
    using assms(1) unfolding cbc_ok_def by blast
  have "n + ?p = ?t" using div_mult_mod_eq [of n 16] mod_less_divisor [of 16 n] by auto
  then have len: "length y = ?t" using y(2) n(1) by simp
  have enc: "Bdt_AesEncryptDataWithPadding env (aesKey ti) ?r (length buffer) (length buffer) = (int ?t, y)"
    using n y(1) by (simp add: Bdt_AesEncryptDataWithPadding_def Let_def)
  have u: "unat (of_int (int ?t) :: u16) = ?t"
    unfolding of_int_of_nat_eq by (rule unat_of_small) (use n(3) in simp)
  have "Bdt_TcpInterfaceBoxCryptoData env buffer n ti = Some (0, le_bytes 2 ?t, y @ drop (length y) buffer, ?t)"
    using assms(2-4) enc u by (simp add: Bdt_TcpInterfaceBoxCryptoData_def tcpInterfaceCryptoBoxSize_def fits_box_def)
  moreover have "le_bytes 2 ?t @ take ?t (y @ drop (length y) buffer) = wire env (aesKey ti) ?r"
    using len y(1) n(1) by (simp add: wire_def Let_def)
  moreover have "length (y @ drop (length y) buffer) = length buffer" using len n(2) by simp
  ultimately show ?thesis by blast
qed

section \<open>Requests\<close>

definition item_ok :: "StreamConnectionSendRequest \<Rightarrow> bool" where
  "item_ok r \<longleftrightarrow> sreq_offset r \<le> sreq_length r \<and> sreq_length r \<le> length (sreq_buffer r) \<and> sreq_callback r \<noteq> None"

definition queued :: "StreamConnectionSendRequest list \<Rightarrow> u8 list" where
  "queued items = concat (map left_bytes items)"

lemma queued_simps [simp]: "queued [] = []" "queued (r # rs) = left_bytes r @ queued rs" "queued (xs @ ys) = queued xs @ queued ys"
  by (simp_all add: queued_def)

lemma length_left [simp]: "item_ok r \<Longrightarrow> length (left_bytes r) = left_length r"
  by (auto simp: item_ok_def left_bytes_def left_length_def)

lemma cut_item:
  assumes "item_ok r" and "k \<le> left_length r"
  shows "left_bytes (r\<lparr>sreq_callback := None, sreq_length := sreq_offset r + k\<rparr>) = take k (left_bytes r)"
    and "left_bytes (r\<lparr>sreq_offset := sreq_offset r + k\<rparr>) = drop k (left_bytes r)"
    and "item_ok (r\<lparr>sreq_offset := sreq_offset r + k\<rparr>)"
  using assms by (auto simp: left_bytes_def left_length_def item_ok_def min_def drop_take add.commute)

lemma take_requests_cut:
  assumes "take_requests m g items = (taken, rest)" and "\<forall>r\<in>set items. item_ok r" and "g \<le> m"
    and "m \<le> g + length (queued items)"
  shows "length (queued taken) = m - g \<and> queued taken @ queued rest = queued items \<and> (\<forall>r\<in>set rest. item_ok r)"
  using assms
proof (induction m g items arbitrary: taken rest rule: take_requests.induct)
  case (1 m g)
  then show ?case by simp
next
  case (2 m g item items)
  show ?case
  proof (cases "g + left_length item > m")
    case True
    let ?k = "m - g"
    have k: "item_ok item" "?k \<le> left_length item" using 2 True by auto
    have "taken = [item\<lparr>sreq_callback := None, sreq_length := sreq_offset item + ?k\<rparr>]"
      "rest = item\<lparr>sreq_offset := sreq_offset item + ?k\<rparr> # items"
      using 2 True by (auto simp: Let_def)
    then show ?thesis using cut_item [OF k] k 2 by simp
  next
    case False
    obtain a where a: "take_requests m (g + left_length item) items = (a, rest)" "taken = item # a"
      using 2(2) False by (auto simp: Let_def split: prod.splits)
    have "length (queued a) = m - (g + left_length item) \<and> queued a @ queued rest = queued items \<and> (\<forall>r\<in>set rest. item_ok r)"
      by (rule "2.IH") (use False 2 a in auto)
    then show ?thesis using 2 a False by auto
  qed
qed

section \<open>The invariant\<close>

definition config_ok :: "BdtStreamConnectionConfig \<Rightarrow> bool" where
  "config_ok c \<longleftrightarrow> 0 < minRecordSize c \<and> minRecordSize c \<le> maxRecordSize c \<and> maxRecordSize c < 65520"

definition wire_bytes :: "stream_event list \<Rightarrow> u8 list" where
  "wire_bytes evs = concat (map (\<lambda>e. case e of Wire bs \<Rightarrow> bs | _ \<Rightarrow> []) evs)"

lemma wire_bytes_simps [simp]:
  "wire_bytes [] = []" "wire_bytes (xs @ ys) = wire_bytes xs @ wire_bytes ys"
  "wire_bytes (Wire bs # xs) = bs @ wire_bytes xs" "wire_bytes (Sent r c n # xs) = wire_bytes xs"
  "wire_bytes (Received c bs # xs) = wire_bytes xs"
  by (simp_all add: wire_bytes_def)

text \<open>The interface can be written to, or there is nothing left to write.\<close>

definition open_or_done :: "StreamConnection \<Rightarrow> bool" where
  "open_or_done s \<longleftrightarrow>
     ti_state (tcpInterface s) \<in> {BDT_TCP_INTERFACE_STATE_STREAM, BDT_TCP_INTERFACE_STATE_STREAM_RECV_CLOSED} \<or>
     sendClosed s \<and> sendRequestSize s = 0 \<and> pendingRecord s = []"

definition send_ok :: "'p tcp_env \<Rightarrow> u8 list \<Rightarrow> u8 list \<Rightarrow> u8 list list \<Rightarrow> StreamConnection \<Rightarrow> bool" where
  "send_ok env key S R s \<longleftrightarrow>
     config_ok (stream_config s) \<and> isCrypto (tcpInterface s) \<and> aesKey (tcpInterface s) = key \<and> cbc_ok env key \<and>
     open_or_done s \<and> sendingCallCount s = 0 \<and> length (recordData s) = maxRecordSize (stream_config s) + 32 \<and>
     (recordSize s = 0) = (pendingRecord s = []) \<and>
     (\<forall>r\<in>set (sendRequests s). item_ok r) \<and> sendRequestSize s = length (queued (sendRequests s)) \<and>
     concat R @ queued (sendRequests s) = S \<and> (\<forall>r\<in>set R. record_fits (maxRecordSize (stream_config s)) r) \<and>
     wire_bytes (stream_events s) @ pendingRecord s = concat (map (wire env key) R)"

lemma close_interface_keeps [simp]:
  "isCrypto (snd (Bdt_TcpInterfaceClose ti)) = isCrypto ti" "aesKey (snd (Bdt_TcpInterfaceClose ti)) = aesKey ti"
  by (simp_all add: Bdt_TcpInterfaceClose_def TcpInterfaceReleaseSocket_def TcpInterfaceAddRefSocket_def Let_def)

text \<open>The fields the sending side does not look at.\<close>

lemma send_ok_frame [simp]:
  "send_ok env key S R (s\<lparr>nagleDelay := d\<rparr>) = send_ok env key S R s"
  "send_ok env key S R (s\<lparr>immediates := n\<rparr>) = send_ok env key S R s"
  by (simp_all add: send_ok_def open_or_done_def)

text \<open>Writing to the socket.\<close>

lemma send_record_ok:
  assumes "send_ok env key S R s"
  shows "\<exists>r s'. StreamConnectionSendRecord space c s = Some (r, s') \<and> send_ok env key S R s'"
proof (cases "pendingRecord s = []")
  case True
  then show ?thesis
    using assms by (auto simp: StreamConnectionSendRecord_def send_ok_def open_or_done_def Let_def)
next
  case False
  then have "ti_state (tcpInterface s) \<noteq> BDT_TCP_INTERFACE_STATE_CLOSED"
    using assms by (auto simp: send_ok_def open_or_done_def)
  then show ?thesis
    using assms False by (auto simp: StreamConnectionSendRecord_def send_ok_def open_or_done_def Let_def emit_def)
qed

text \<open>A record is boxed in the record buffer, whatever is there.\<close>

lemma box_record_writes:
  assumes key: "cbc_ok env (aesKey (tcpInterface s))" "isCrypto (tcpInterface s)"
    and state: "ti_state (tcpInterface s) \<in> {BDT_TCP_INTERFACE_STATE_STREAM, BDT_TCP_INTERFACE_STATE_STREAM_RECV_CLOSED}"
    and n: "bytes \<noteq> []" "length bytes \<le> m" "m < 65520" "length (recordData s) = m + 32"
  shows "\<exists>mem. length mem = m + 32 \<and>
    box_record env bytes s = Some (s\<lparr>recordData := mem, pendingRecord := wire env (aesKey (tcpInterface s)) bytes\<rparr>)"
proof -
  let ?n = "length bytes"
  let ?mem = "bytes @ drop ?n (recordData s)"
  have store: "mem_store 0 bytes (recordData s) = Some ?mem"
    using n by (simp add: mem_store_def)
  have "?n div 16 < 4095" using n by (simp add: div_less_iff_less_mult)
  then have fb: "fits_box (?mem, ?n)"
    using n div_mult_mod_eq [of ?n 16] by (auto simp: fits_box_def)
  have writable: "ti_state (tcpInterface s) \<notin> {BDT_TCP_INTERFACE_STATE_PACKAGE,
      BDT_TCP_INTERFACE_STATE_WAIT_FIRST_PACKAGE, BDT_TCP_INTERFACE_STATE_WAIT_FIRST_RESP}"
    using state by auto
  from wire_boxed [OF key(1) fb key(2) writable]
  obtain mem k where box: "Bdt_TcpInterfaceBoxCryptoData env ?mem ?n (tcpInterface s) = Some (0, le_bytes 2 k, mem, k)"
      "length mem = length ?mem" "le_bytes 2 k @ take k mem = wire env (aesKey (tcpInterface s)) (take ?n ?mem)"
    by blast
  then show ?thesis using store n by (intro exI [of _ mem]) (simp add: box_record_def)
qed

lemma wire_not_empty [simp]: "wire env key bytes \<noteq> []"
  by (simp add: wire_def Let_def numeral_2_eq_2)

text \<open>Making a record of the first bytes that are queued.\<close>

definition reserved :: "StreamConnectionSendRequest list \<Rightarrow> nat \<Rightarrow> StreamConnection \<Rightarrow> StreamConnection" where
  "reserved rest n s = s\<lparr>sendRequests := rest, sendRequestSize := length (queued rest), recordSize := n\<rparr>"

lemma new_record_ok:
  assumes ok: "send_ok env key S R s" and "pendingRecord s = []"
    and cut: "bytes @ queued rest = queued (sendRequests s)" "\<forall>r\<in>set rest. item_ok r"
    and fits: "record_fits (maxRecordSize (stream_config s)) bytes"
  shows "\<exists>s'. box_record env bytes (reserved rest (length bytes) s) = Some s' \<and>
    (\<forall>evs. wire_bytes evs = [] \<longrightarrow> send_ok env key S (R @ [bytes]) (emit evs s'))"
proof -
  let ?s = "reserved rest (length bytes) s" and ?m = "maxRecordSize (stream_config s)"
  have n: "0 < length bytes" "length bytes \<le> ?m" "?m < 65520" "length (recordData s) = ?m + 32"
    using ok fits by (auto simp: send_ok_def record_fits_def config_ok_def)
  have "queued (sendRequests s) \<noteq> []" using cut(1) n(1) by (metis append_is_Nil_conv length_greater_0_conv)
  then have state: "ti_state (tcpInterface s) \<in> {BDT_TCP_INTERFACE_STATE_STREAM, BDT_TCP_INTERFACE_STATE_STREAM_RECV_CLOSED}"
    using ok by (auto simp: send_ok_def open_or_done_def)
  then obtain mem where mem: "length mem = ?m + 32"
      "box_record env bytes ?s = Some (?s\<lparr>recordData := mem, pendingRecord := wire env key bytes\<rparr>)"
    using box_record_writes [of env ?s bytes ?m] ok n by (auto simp: send_ok_def reserved_def)
  let ?s' = "?s\<lparr>recordData := mem, pendingRecord := wire env key bytes\<rparr>"
  have "send_ok env key S (R @ [bytes]) (emit evs ?s')" if "wire_bytes evs = []" for evs
    using ok assms(2) cut fits state n(1) mem(1) that
    by (auto simp: send_ok_def reserved_def emit_def open_or_done_def)
  then show ?thesis using mem(2) by blast
qed


lemma enqueue_ok:
  assumes "send_ok env key S R s" and "\<not> sendClosed s" and "item_ok item" and "n = sendRequestSize s + length (left_bytes item)"
  shows "send_ok env key (S @ left_bytes item) R (s\<lparr>sendRequests := sendRequests s @ [item], sendRequestSize := n\<rparr>)"
  using assms by (auto simp: send_ok_def open_or_done_def)

lemma pick_record_ok:
  assumes ok: "send_ok env key S R s" and pick: "pick_record now s = (items, n, delay, s')"
  shows "if n = 0 then send_ok env key S R s'
         else \<exists>rest. s' = reserved rest n s \<and> length (queued items) = n \<and> queued items @ queued rest = queued (sendRequests s) \<and>
                (\<forall>r\<in>set rest. item_ok r) \<and> pendingRecord s = [] \<and> record_fits (maxRecordSize (stream_config s)) (queued items)"
proof (cases "recordSize s = 0")
  case False
  then show ?thesis using ok pick by (simp add: pick_record_def)
next
  case True
  let ?m = "maxRecordSize (stream_config s)" and ?q = "sendRequests s"
  have c: "minRecordSize (stream_config s) \<le> ?m" "pendingRecord s = []" "\<forall>r\<in>set ?q. item_ok r"
      "sendRequestSize s = length (queued ?q)" "0 < ?m"
    using ok True by (auto simp: send_ok_def config_ok_def)
  let ?keep = "items = [] \<and> n = 0 \<and> s' = s\<lparr>sendRequestSize := length (queued ?q), recordSize := 0\<rparr>"
  let ?all = "items = ?q \<and> n = length (queued ?q) \<and> s' = reserved [] n s \<and> n \<le> ?m"
  let ?part = "?m \<le> length (queued ?q) \<and> n = ?m \<and>
    (\<exists>rest. take_requests ?m 0 ?q = (items, rest) \<and>
       s' = s\<lparr>sendRequests := rest, sendRequestSize := length (queued ?q) - n, recordSize := n\<rparr>)"
  have "?keep \<or> ?all \<or> ?part"
  proof (cases "sendRequestSize s \<ge> minRecordSize (stream_config s) \<or> sendClosed s")
    case full: True
    then show ?thesis
    proof (cases "sendRequestSize s < ?m")
      case True
      then show ?thesis using full pick c(4) \<open>recordSize s = 0\<close>
        by (auto simp: pick_record_def Let_def reserved_def)
    next
      case False
      obtain a b where "take_requests ?m 0 ?q = (a, b)" by fastforce
      then show ?thesis using False full pick c(4) \<open>recordSize s = 0\<close>
        by (auto simp: pick_record_def Let_def)
    qed
  next
    case False
    then show ?thesis using pick c(1,4) True
      by (auto simp: pick_record_def Let_def reserved_def split: if_splits)
  qed
  then consider ?keep | ?all | ?part by blast
  then show ?thesis
  proof cases
    case 1
    then show ?thesis using ok True by (auto simp: send_ok_def open_or_done_def)
  next
    case 2
    show ?thesis
    proof (cases "n = 0")
      case True
      then show ?thesis using 2 ok c by (auto simp: reserved_def send_ok_def open_or_done_def)
    next
      case False
      then show ?thesis using 2 c
        by (intro iffD2 [OF if_not_P] exI [of _ "[]"]) (auto simp: reserved_def record_fits_def)
    qed
  next
    case 3
    then obtain rest where r: "take_requests ?m 0 ?q = (items, rest)"
        "s' = s\<lparr>sendRequests := rest, sendRequestSize := length (queued ?q) - n, recordSize := n\<rparr>" by blast
    have cut: "length (queued items) = ?m - 0 \<and> queued items @ queued rest = queued ?q \<and> (\<forall>r\<in>set rest. item_ok r)"
      by (rule take_requests_cut [OF r(1)]) (use 3 c in auto)
    then have "length (queued ?q) = ?m + length (queued rest)" by (metis diff_zero length_append)
    then show ?thesis using 3 c cut r
      by (intro iffD2 [OF if_not_P] exI [of _ rest]) (auto simp: reserved_def record_fits_def)
  qed
qed


section \<open>The operations\<close>

lemma sent_events_wire [simp]: "wire_bytes (sent_events items) = []"
  by (induction items) (auto simp: sent_events_def split: option.split)

lemma call_all_ok:
  assumes "\<forall>r\<in>set items. item_ok r"
  shows "\<exists>evs. call_all items = Some evs \<and> wire_bytes evs = []"
  using assms by (induction items) (auto simp: item_ok_def)

lemma check_pending_ok:
  assumes ok: "send_ok env key S R s"
  shows "\<exists>R' s'. StreamConnectionCheckPendingSend env now space s = Some s' \<and> send_ok env key S (R @ R') s'"
proof -
  obtain items n delay s1 where pick: "pick_record now s = (items, n, delay, s1)" by (metis prod_cases4)
  note p = pick_record_ok [OF ok pick]
  show ?thesis
  proof (cases "n = 0")
    case True
    then have "send_ok env key S (R @ []) s1" using p by simp
    then show ?thesis using True pick
      by (intro exI [of _ "[]"]) (auto simp: StreamConnectionCheckPendingSend_def Let_def send_ok_def open_or_done_def)
  next
    case False
    then obtain rest where rest: "s1 = reserved rest n s" "length (queued items) = n"
        "queued items @ queued rest = queued (sendRequests s)" "\<forall>r\<in>set rest. item_ok r" "pendingRecord s = []"
        "record_fits (maxRecordSize (stream_config s)) (queued items)"
      using p by auto
    obtain s2 where s2: "box_record env (queued items) s1 = Some s2"
        "send_ok env key S (R @ [queued items]) (emit (sent_events items) s2)"
      using new_record_ok [OF ok rest(5,3,4,6)] rest(1,2) sent_events_wire by blast
    obtain r s3 where "StreamConnectionSendRecord space False (emit (sent_events items) s2) = Some (r, s3)"
        "send_ok env key S (R @ [queued items]) s3"
      using send_record_ok [OF s2(2)] by blast
    then show ?thesis using False pick rest(2) s2(1)
      by (auto simp: StreamConnectionCheckPendingSend_def Let_def queued_def)
  qed
qed

text \<open>What a call of \<open>StreamConnectionSend\<close> accepts.\<close>

definition accepted :: "u32 \<Rightarrow> u8 list \<Rightarrow> u8 list" where
  "accepted r buffer = (if r = BFX_RESULT_INVALID_STATE then [] else buffer)"

lemma send_now_ok:
  assumes ok: "send_ok env key S R s"
    and choose: "send_choose item s = (SendRecordNow items n pending, s')"
    and item: "item_ok item" "sreq_offset item = 0" "sreq_length item = length (sreq_buffer item)"
  shows "\<exists>rest s0. s' = reserved rest n s0 \<and> send_ok env key (S @ sreq_buffer item) R s0 \<and>
    stream_config s0 = stream_config s \<and> items = sendRequests s \<and> pendingRecord s0 = [] \<and>
    length (queued items) < n \<and> n \<le> maxRecordSize (stream_config s) \<and> n \<le> length (queued items) + length (sreq_buffer item) \<and>
    queued (sendRequests s0) = queued items @ sreq_buffer item \<and> (\<forall>r\<in>set rest. item_ok r) \<and>
    queued rest = drop (n - length (queued items)) (sreq_buffer item)"
proof -
  let ?c = "stream_config s" and ?q = "queued (sendRequests s)" and ?len = "length (sreq_buffer item)"
  let ?s0 = "s\<lparr>sendRequests := sendRequests s @ [item], sendRequestSize := sendRequestSize s + ?len\<rparr>"
  have left: "left_bytes item = sreq_buffer item" using item by (simp add: left_bytes_def left_length_def)
  have c: "sendRequestSize s = length ?q" "minRecordSize ?c \<le> maxRecordSize ?c" "recordSize s = 0 \<Longrightarrow> pendingRecord s = []"
    using ok by (auto simp: send_ok_def config_ok_def)
  have if_now: "\<not> sendClosed s \<and> recordSize s = 0 \<and> length ?q < minRecordSize ?c \<and> minRecordSize ?c \<le> length ?q + ?len \<and> items = sendRequests s \<and>
      (\<exists>rest. s' = reserved rest n s \<and> (\<forall>r\<in>set rest. item_ok r) \<and> queued rest = drop (n - length ?q) (sreq_buffer item)) \<and>
      length ?q < n \<and> n \<le> maxRecordSize ?c \<and> n \<le> length ?q + ?len"
  proof (cases "length ?q + ?len < maxRecordSize ?c")
    case True
    then show ?thesis using choose c item
      by (auto simp: send_choose_def Let_def reserved_def intro!: exI [of _ "[]"] split: if_splits)
  next
    case False
    let ?k = "maxRecordSize ?c - length ?q"
    have "item_ok (item\<lparr>sreq_offset := ?k\<rparr>)" "left_bytes (item\<lparr>sreq_offset := ?k\<rparr>) = drop ?k (sreq_buffer item)"
      using cut_item(2,3) [of item ?k] item False by (auto simp: left_length_def left_bytes_def)
    then show ?thesis using choose c item False
      by (auto simp: send_choose_def Let_def reserved_def intro!: exI [of _ "[item\<lparr>sreq_offset := ?k\<rparr>]"] split: if_splits)
  qed
  then obtain rest where rest: "s' = reserved rest n s" "\<forall>r\<in>set rest. item_ok r"
      "queued rest = drop (n - length ?q) (sreq_buffer item)" by blast
  have "send_ok env key (S @ sreq_buffer item) R ?s0"
    using enqueue_ok [OF ok, of item] if_now item left c(1) by simp
  moreover have "s' = reserved rest n ?s0" using rest(1) by (simp add: reserved_def)
  ultimately show ?thesis using if_now rest(2,3) c(3) left
    by (intro exI [of _ rest] exI [of _ ?s0]) simp
qed


lemma stream_send_ok:
  assumes ok: "send_ok env key S R s"
  shows "\<exists>R' r s'. StreamConnectionSend env now space buffer (Some cb) s = Some (r, s') \<and>
    send_ok env key (S @ accepted r buffer) (R @ R') s'"
proof -
  let ?item = "send_request now buffer (Some cb)"
  have item: "item_ok ?item" "left_bytes ?item = buffer" "sreq_offset ?item = 0" "sreq_length ?item = length buffer"
      "sreq_buffer ?item = buffer" "sreq_callback ?item = Some cb"
    by (simp_all add: send_request_def item_ok_def left_bytes_def left_length_def)
  obtain choice s1 where choose: "send_choose ?item s = (choice, s1)" by fastforce
  show ?thesis
  proof (cases choice)
    case SendRefused
    then have "s1 = s" using choose by (auto simp: send_choose_def Let_def split: if_splits)
    then show ?thesis using choose SendRefused ok
      by (intro exI [of _ "[]"]) (simp add: StreamConnectionSend_def send_finish_def accepted_def)
  next
    case (SendQueued nagle)
    then have "\<not> sendClosed s \<and> s1 = s\<lparr>sendRequests := sendRequests s @ [?item], sendRequestSize := sendRequestSize s + length buffer\<rparr>"
      using choose item(4) by (auto simp: send_choose_def Let_def split: if_splits)
    then have "send_ok env key (S @ buffer) R s1" using enqueue_ok [OF ok _ item(1)] item(2) by simp
    then show ?thesis using choose SendQueued
      by (intro exI [of _ "[]"]) (auto simp: StreamConnectionSend_def send_finish_def accepted_def send_ok_def open_or_done_def)
  next
    case (SendRecordNow items n pending)
    let ?bytes = "queued items @ take (n - length (queued items)) buffer"
    obtain rest s0 where s0: "s1 = reserved rest n s0" "send_ok env key (S @ buffer) R s0" "stream_config s0 = stream_config s"
        "items = sendRequests s" "pendingRecord s0 = []" "length (queued items) < n" "n \<le> maxRecordSize (stream_config s)"
        "n \<le> length (queued items) + length buffer" "queued (sendRequests s0) = queued items @ buffer"
        "\<forall>r\<in>set rest. item_ok r" "queued rest = drop (n - length (queued items)) buffer"
      using send_now_ok [OF ok choose [unfolded SendRecordNow] item(1)] item(3-5) by auto
    have bytes: "length ?bytes = n" "?bytes @ queued rest = queued (sendRequests s0)"
        "record_fits (maxRecordSize (stream_config s0)) ?bytes"
      using s0 by (auto simp: record_fits_def)
    obtain s2 where s2: "box_record env ?bytes s1 = Some s2"
        "\<And>evs. wire_bytes evs = [] \<Longrightarrow> send_ok env key (S @ buffer) (R @ [?bytes]) (emit evs s2)"
      using new_record_ok [OF s0(2,5) bytes(2) s0(10) bytes(3)] bytes(1) s0(1) by metis
    obtain evs where evs: "call_all items = Some evs" "wire_bytes evs = []"
      using call_all_ok [of items] ok s0(4) by (auto simp: send_ok_def)
    let ?own = "if pending then [] else [Sent BFX_RESULT_SUCCESS cb (length buffer)]"
    have "wire_bytes (evs @ ?own) = []" using evs(2) by simp
    from send_record_ok [OF s2(2) [OF this]] obtain r s3 where
        "StreamConnectionSendRecord space False (emit (evs @ ?own) s2) = Some (r, s3)"
        "send_ok env key (S @ buffer) (R @ [?bytes]) s3" by blast
    then have "StreamConnectionSend env now space buffer (Some cb) s =
        Some (if pending then BFX_RESULT_PENDING else BFX_RESULT_SUCCESS, s3)"
      using choose SendRecordNow s0(6) s2(1) evs(1)
      by (cases pending) (simp_all add: item(4-6) StreamConnectionSend_def send_finish_def queued_def [symmetric] not_le)
    moreover have "accepted (if pending then BFX_RESULT_PENDING else BFX_RESULT_SUCCESS) buffer = buffer"
      by (simp add: accepted_def)
    ultimately show ?thesis using \<open>send_ok env key (S @ buffer) (R @ [?bytes]) s3\<close> by metis
  qed
qed

lemma close_ok:
  assumes "send_ok env key S R s"
  shows "send_ok env key S R (snd (StreamConnectionClose s))"
  using assms by (auto simp: StreamConnectionClose_def send_ok_def open_or_done_def Let_def)


lemma socket_drain_ok:
  assumes "send_ok env key S R s"
  shows "\<exists>s'. StreamConnectionOnTcpDrain space s = Some s' \<and> send_ok env key S R s'"
  using send_record_ok [OF assms, of space True] by (auto simp: StreamConnectionOnTcpDrain_def)

lemma nagle_ok:
  assumes "send_ok env key S R s"
  shows "\<exists>R' s'. StreamConnectionOnNagleTimer env now space s = Some s' \<and> send_ok env key S (R @ R') s'"
proof (cases "nagleDelay s = None")
  case True
  then show ?thesis using assms by (intro exI [of _ "[]"]) (simp add: StreamConnectionOnNagleTimer_def)
next
  case False
  have "send_ok env key S R (s\<lparr>nagleDelay := None\<rparr>)" using assms by simp
  then show ?thesis using False check_pending_ok [of env key S R "s\<lparr>nagleDelay := None\<rparr>"]
    by (auto simp add: StreamConnectionOnNagleTimer_def)
qed

lemma sync_sent_ok:
  assumes "send_ok env key S R s"
  shows "\<exists>R' s'. StreamConnectionOnSyncSent env now space s = Some s' \<and> send_ok env key S (R @ R') s'"
proof (cases "immediates s = 0")
  case True
  then show ?thesis using assms by (intro exI [of _ "[]"]) (simp add: StreamConnectionOnSyncSent_def)
next
  case False
  have "send_ok env key S R (s\<lparr>immediates := immediates s - 1\<rparr>)" using assms by simp
  then show ?thesis using False check_pending_ok [of env key S R "s\<lparr>immediates := immediates s - 1\<rparr>"]
    by (simp add: StreamConnectionOnSyncSent_def)
qed


section \<open>What the sending side leaves alone\<close>

definition received_bytes :: "stream_event list \<Rightarrow> u8 list" where
  "received_bytes evs = concat (map (\<lambda>e. case e of Received c bs \<Rightarrow> bs | _ \<Rightarrow> []) evs)"

lemma received_bytes_simps [simp]:
  "received_bytes [] = []" "received_bytes (xs @ ys) = received_bytes xs @ received_bytes ys"
  "received_bytes (Received c bs # xs) = bs @ received_bytes xs" "received_bytes (Sent r c n # xs) = received_bytes xs"
  "received_bytes (Wire bs # xs) = received_bytes xs"
  by (simp_all add: received_bytes_def)

definition recv_view :: "StreamConnection \<Rightarrow> bool \<times> bool \<times> bool \<times> StreamConnectionRecvBuffer list \<times>
    StreamConnectionRecvRequest list \<times> StreamConnectionRecvRequest list \<times> bool \<times> u8 list" where
  "recv_view s = (isRecvNotifying s, isCompleteRecvNotifyOnly s, recvClosed s, recvBuffersQueue s, recvRequestQueue s,
     completeRecvRequests s, paused s, received_bytes (stream_events s))"

lemma send_record_view: "StreamConnectionSendRecord space c s = Some (r, s') \<Longrightarrow> recv_view s' = recv_view s"
  by (auto simp: StreamConnectionSendRecord_def recv_view_def emit_def Let_def Option.bind_eq_Some_conv split: if_splits)

lemma box_record_view: "box_record env bytes s = Some s' \<Longrightarrow> recv_view s' = recv_view s"
  by (auto simp: box_record_def recv_view_def Option.bind_eq_Some_conv split: if_splits)

lemma emit_view: "received_bytes evs = [] \<Longrightarrow> recv_view (emit evs s) = recv_view s"
  by (simp add: recv_view_def emit_def)

lemma pick_record_view: "pick_record now s = (items, n, delay, s') \<Longrightarrow> recv_view s' = recv_view s"
  by (auto simp: pick_record_def recv_view_def Let_def split: if_splits prod.splits)

lemma send_choose_view: "send_choose item s = (choice, s') \<Longrightarrow> recv_view s' = recv_view s"
  by (auto simp: send_choose_def recv_view_def Let_def split: if_splits)

lemma sent_events_received [simp]: "received_bytes (sent_events items) = []"
  by (induction items) (auto simp: sent_events_def split: option.split)

lemma call_all_received: "call_all items = Some evs \<Longrightarrow> received_bytes evs = []"
  by (induction items arbitrary: evs) (auto simp: Option.bind_eq_Some_conv)

lemma view_frame [simp]:
  "recv_view (s\<lparr>nagleDelay := d\<rparr>) = recv_view s" "recv_view (s\<lparr>immediates := n\<rparr>) = recv_view s"
  by (simp_all add: recv_view_def)

lemmas send_views = send_record_view box_record_view pick_record_view send_choose_view

lemma check_pending_view: "StreamConnectionCheckPendingSend env now space s = Some s' \<Longrightarrow> recv_view s' = recv_view s"
  by (auto simp: StreamConnectionCheckPendingSend_def Let_def Option.bind_eq_Some_conv emit_view
      dest!: send_views split: if_splits prod.splits)

lemma stream_send_view:
  assumes "StreamConnectionSend env now space buffer cb s = Some (r, s')"
  shows "recv_view s' = recv_view s"
proof -
  let ?item = "send_request now buffer cb"
  obtain choice s1 where choose: "send_choose ?item s = (choice, s1)" by fastforce
  note v = send_choose_view [OF choose]
  show ?thesis
  proof (cases choice)
    case (SendRecordNow items n pending)
    show ?thesis
    proof (cases "n = 0")
      case True
      then show ?thesis using assms choose SendRecordNow v by (auto simp: StreamConnectionSend_def send_finish_def Let_def)
    next
      case False
      let ?bytes = "concat (map left_bytes items)"
      obtain s2 evs own r' where s2: "box_record env (?bytes @ take (n - length ?bytes) (sreq_buffer ?item)) s1 = Some s2"
          "call_all items = Some evs" "(if pending then Some [] else call_all [?item]) = Some own"
          "StreamConnectionSendRecord space False (emit (evs @ own) s2) = Some (r', s')"
        using assms choose SendRecordNow False
        by (auto simp: StreamConnectionSend_def send_finish_def Let_def Option.bind_eq_Some_conv simp del: call_all.simps split: if_splits)
      have "received_bytes (evs @ own) = []"
        using s2(2,3) call_all_received [of items evs] call_all_received [of "[?item]" own] by (auto split: if_splits)
      then show ?thesis using box_record_view [OF s2(1)] send_record_view [OF s2(4)] v by (simp add: emit_view)
    qed
  qed (use assms choose v in \<open>auto simp: StreamConnectionSend_def send_finish_def split: if_splits\<close>)
qed

lemma close_view: "recv_view (snd (StreamConnectionClose s)) = recv_view s"
  by (simp add: StreamConnectionClose_def recv_view_def Let_def)


lemma drain_view: "StreamConnectionOnTcpDrain space s = Some s' \<Longrightarrow> recv_view s' = recv_view s"
  by (auto simp: StreamConnectionOnTcpDrain_def Option.bind_eq_Some_conv dest: send_record_view)

lemma nagle_view: "StreamConnectionOnNagleTimer env now space s = Some s' \<Longrightarrow> recv_view s' = recv_view s"
  by (auto simp: StreamConnectionOnNagleTimer_def dest!: check_pending_view split: if_splits)

lemma sync_sent_view: "StreamConnectionOnSyncSent env now space s = Some s' \<Longrightarrow> recv_view s' = recv_view s"
  by (auto simp: StreamConnectionOnSyncSent_def dest!: check_pending_view split: if_splits)

end
