(* ===== verification/StreamRecv.thy ===== *)
theory StreamRecv
  imports StreamSend
begin

text \<open>
  The receiving side of a connection over TCP: what the callbacks of the application have been given,
  then what lies in the buffers of the requests that wait, then what has been kept back, is what has
  arrived, in order; a request waits only while nothing is kept back and the socket is not paused;
  and no assertion fails.
\<close>

section \<open>The invariant\<close>

definition got_bytes :: "StreamConnectionRecvRequest list \<Rightarrow> u8 list" where
  "got_bytes rs = concat (map rr_got rs)"

definition kept_bytes :: "StreamConnectionRecvBuffer list \<Rightarrow> u8 list" where
  "kept_bytes bs = concat (map (\<lambda>b. drop (rb_pos b) (rb_data b)) bs)"

definition recv_ok :: "u8 list \<Rightarrow> StreamConnection \<Rightarrow> bool" where
  "recv_ok D s \<longleftrightarrow>
     \<not> isRecvNotifying s \<and> isCompleteRecvNotifyOnly s \<and>
     (\<forall>b\<in>set (recvBuffersQueue s). rb_pos b < length (rb_data b)) \<and>
     (\<forall>r\<in>set (recvRequestQueue s). length (rr_got r) < rr_size r) \<and> (\<forall>r\<in>set (tl (recvRequestQueue s)). rr_got r = []) \<and>
     (recvRequestQueue s \<noteq> [] \<longrightarrow> recvBuffersQueue s = [] \<and> \<not> paused s \<and> \<not> recvClosed s) \<and>
     (recvBuffersQueue s \<noteq> [] \<longrightarrow> paused s) \<and> completeRecvRequests s = [] \<and>
     received_bytes (stream_events s) @ got_bytes (recvRequestQueue s) @ kept_bytes (recvBuffersQueue s) = D"

lemma bytes_simps [simp]:
  "got_bytes [] = []" "got_bytes (r # rs) = rr_got r @ got_bytes rs" "got_bytes (xs @ ys) = got_bytes xs @ got_bytes ys"
  "kept_bytes [] = []" "kept_bytes (b # bs) = drop (rb_pos b) (rb_data b) @ kept_bytes bs"
  "kept_bytes (us @ vs) = kept_bytes us @ kept_bytes vs"
  by (simp_all add: got_bytes_def kept_bytes_def)

lemma received_got [simp]: "received_bytes (map received_event rs) = got_bytes rs"
  by (induction rs) (simp_all add: received_event_def)

lemma got_nothing: "\<forall>r\<in>set rs. rr_got r = [] \<Longrightarrow> got_bytes rs = []"
  by (simp add: got_bytes_def)

lemma recv_ok_view: "recv_view s' = recv_view s \<Longrightarrow> recv_ok D s' = recv_ok D s"
  by (simp add: recv_view_def recv_ok_def)

section \<open>Copying\<close>

lemma copy_buffers_bytes:
  assumes "copy_buffers len got bs = (got', bs')" and "\<forall>b\<in>set bs. rb_pos b < length (rb_data b)" and "length got \<le> len"
  shows "got' @ kept_bytes bs' = got @ kept_bytes bs \<and> length got' \<le> len \<and> (\<forall>b\<in>set bs'. rb_pos b < length (rb_data b)) \<and>
    (length got' < len \<longrightarrow> bs' = []) \<and> length bs' \<le> length bs"
  using assms
proof (induction len got bs arbitrary: got' bs' rule: copy_buffers.induct)
  case (1 len got)
  then show ?case by simp
next
  case (2 len got b bs)
  show ?case
  proof (cases "length got < len")
    case False
    then show ?thesis using 2(2-) by auto
  next
    case True
    let ?n = "min (len - length got) (length (rb_data b) - rb_pos b)"
    let ?got = "got @ take ?n (drop (rb_pos b) (rb_data b))"
    have split: "take ?n (drop (rb_pos b) (rb_data b)) @ drop (rb_pos b + ?n) (rb_data b) = drop (rb_pos b) (rb_data b)"
      by (metis append_take_drop_id drop_drop add.commute)
    have len: "length ?got = length got + ?n" using 2(3) by simp
    show ?thesis
    proof (cases "rb_pos b + ?n = length (rb_data b)")
      case all: True
      have "copy_buffers len ?got bs = (got', bs')" using 2(2) True all by (simp add: Let_def)
      note IH = "2.IH" [OF True refl refl refl _ this]
      have "got' @ kept_bytes bs' = ?got @ kept_bytes bs \<and> length got' \<le> len \<and> (\<forall>b\<in>set bs'. rb_pos b < length (rb_data b)) \<and>
          (length got' < len \<longrightarrow> bs' = []) \<and> length bs' \<le> length bs"
        using IH all 2(3,4) len by auto
      then show ?thesis using split all by auto
    next
      case some: False
      then have "got' = ?got" "bs' = b\<lparr>rb_pos := rb_pos b + ?n\<rparr> # bs" "length ?got = len"
        using 2(2-) True by (auto simp: Let_def min_def split: if_splits)
      moreover have "rb_pos b + ?n < length (rb_data b)" using some 2(3) by auto
      ultimately show ?thesis using split 2(3) by auto
    qed
  qed
qed

lemma fill_requests_bytes:
  assumes "fill_requests data rs = (full, rest, left, part)" and "\<forall>r\<in>set rs. length (rr_got r) < rr_size r"
    and "\<forall>r\<in>set (tl rs). rr_got r = []"
  shows "got_bytes full @ got_bytes rest @ left = got_bytes rs @ data \<and> (left = [] \<or> rest = []) \<and>
    (\<forall>r\<in>set rest. length (rr_got r) < rr_size r) \<and> (\<forall>r\<in>set (tl rest). rr_got r = []) \<and> (rs = [] \<longrightarrow> rest = []) \<and>
    (full = [] \<longrightarrow> length rest = length rs)"
  using assms
proof (induction data rs arbitrary: full rest left part rule: fill_requests.induct)
  case (1 data)
  then show ?case by simp
next
  case (2 data r rs)
  show ?case
  proof (cases "data = []")
    case True
    then show ?thesis using 2(2-) by auto
  next
    case False
    let ?n = "min (length data) (rr_size r - length (rr_got r))"
    let ?r = "r\<lparr>rr_got := rr_got r @ take ?n data\<rparr>"
    have tl: "got_bytes rs = []" using 2(4) got_nothing by simp
    show ?thesis
    proof (cases "length (rr_got ?r) = rr_size ?r")
      case True
      obtain f where f: "fill_requests (drop ?n data) rs = (f, rest, left, part)" "full = ?r # f"
        using 2(2) False True by (auto simp: Let_def split: prod.splits)
      have tl': "\<forall>r\<in>set (tl rs). rr_got r = []" using 2(4) by (cases rs) auto
      note IH = "2.IH" [OF False refl refl refl True f(1) _ tl']
      then show ?thesis using f(2) tl 2(3) by auto
    next
      case part: False
      then show ?thesis using 2(2-) False tl by (auto simp: Let_def min_def split: if_splits)
    qed
  qed
qed

section \<open>The operations\<close>

text \<open>The invariant between two steps of an operation: complete requests not yet handed out.\<close>

definition recv_mid :: "u8 list \<Rightarrow> StreamConnection \<Rightarrow> bool" where
  "recv_mid D s \<longleftrightarrow> recv_ok D (s\<lparr>completeRecvRequests := [],
     stream_events := stream_events s @ map received_event (completeRecvRequests s)\<rparr>)"

lemma notify_complete_ok:
  assumes "recv_mid D s"
  shows "recv_ok D (StreamConnectionNotifyCompleteRecvRequest True s)"
  using assms by (simp add: recv_mid_def recv_ok_def StreamConnectionNotifyCompleteRecvRequest_def emit_def Let_def)

lemma notify_all_ok:
  assumes mid: "recv_mid D s"
  shows "recv_ok D (StreamConnectionNotifyCompleteRecvRequest False s)"
proof (cases "recvRequestQueue s")
  case Nil
  then show ?thesis
    using mid by (simp add: recv_mid_def recv_ok_def StreamConnectionNotifyCompleteRecvRequest_def emit_def Let_def)
next
  case (Cons r rs)
  then have "got_bytes rs = []" "\<forall>r\<in>set (tl rs). rr_got r = []"
    using mid by (cases rs; auto simp: recv_mid_def recv_ok_def got_nothing)+
  moreover have "received_bytes [received_event r] = rr_got r" by (simp add: received_event_def)
  ultimately show ?thesis
    using mid Cons by (auto simp: recv_mid_def recv_ok_def StreamConnectionNotifyCompleteRecvRequest_def emit_def Let_def)
qed

lemma recv_request_ok:
  assumes ok: "recv_ok D s" and "0 < len"
  shows "\<exists>s'. StreamConnectionRecv now len cb s = Some s' \<and> recv_ok D s'"
proof -
  obtain got bs where copy: "copy_buffers len [] (recvBuffersQueue s) = (got, bs)" by fastforce
  have c: "got @ kept_bytes bs = kept_bytes (recvBuffersQueue s)" "length got \<le> len"
      "\<forall>b\<in>set bs. rb_pos b < length (rb_data b)" "length got < len \<Longrightarrow> bs = []" "length bs \<le> length (recvBuffersQueue s)"
    using copy_buffers_bytes [OF copy] ok by (auto simp: recv_ok_def)
  let ?req = "\<lparr>rr_got = got, rr_size = len, rr_callback = cb\<rparr>" and ?s = "s\<lparr>recvBuffersQueue := bs\<rparr>"
  have none: "got = []" if "recvRequestQueue s \<noteq> []" using that ok c(1) by (auto simp: recv_ok_def)
  define hurry where "hurry \<longleftrightarrow> got \<noteq> [] \<and> (case recvBuffersQueue s of [] \<Rightarrow> 0
      | b # _ \<Rightarrow> left_time now b (recvTimeout (stream_config s))) \<le> 2000"
  show ?thesis
  proof (cases "length got = len \<or> recvClosed s \<or> hurry")
    case True
    then have "got \<noteq> [] \<or> recvClosed s" using \<open>0 < len\<close> by (auto simp: hurry_def)
    then have "recvRequestQueue s = []"
    proof
      assume "recvClosed s"
      then show ?thesis using ok by (auto simp: recv_ok_def)
    qed (use none in blast)
    moreover have "bs \<noteq> [] \<longrightarrow> recvBuffersQueue s \<noteq> []" using c(5) by auto
    ultimately have "recv_mid D (?s\<lparr>completeRecvRequests := completeRecvRequests s @ [?req]\<rparr>)"
      using ok c by (auto simp: recv_mid_def recv_ok_def received_event_def)
    then show ?thesis
      using True copy \<open>got \<noteq> [] \<or> recvClosed s\<close> notify_complete_ok
      by (auto simp: StreamConnectionRecv_def hurry_def Let_def)
  next
    case False
    then have wait: "bs = []" "length got < len" "\<not> recvClosed s" using c(2,4) by auto
    have tl: "\<forall>r\<in>set (tl (recvRequestQueue s @ [?req])). rr_got r = []"
      using none ok by (cases "recvRequestQueue s") (auto simp: recv_ok_def)
    have "StreamConnectionRecv now len cb s \<noteq> None" using False copy
      by (auto simp: StreamConnectionRecv_def hurry_def Let_def)
    moreover have "recv_ok D s'" if "StreamConnectionRecv now len cb s = Some s'" for s'
      using that False copy ok c(1) wait tl
      by (auto simp: StreamConnectionRecv_def hurry_def Let_def recv_ok_def split: if_splits)
    ultimately show ?thesis by blast
  qed
qed

lemma tcp_data_ok:
  assumes ok: "recv_ok D s" and "data \<noteq> []" and "\<not> recvClosed s"
  shows "\<exists>s'. StreamConnectionOnTcpData now data s = Some s' \<and> recv_ok (D @ data) s'"
proof -
  obtain full rest left part where fill: "fill_requests data (recvRequestQueue s) = (full, rest, left, part)"
    by (metis prod_cases4)
  have "\<forall>r\<in>set (recvRequestQueue s). length (rr_got r) < rr_size r" "\<forall>r\<in>set (tl (recvRequestQueue s)). rr_got r = []"
    using ok by (simp_all add: recv_ok_def)
  note F = fill_requests_bytes [OF fill this]
  have f: "got_bytes full @ got_bytes rest @ left = got_bytes (recvRequestQueue s) @ data" "left = [] \<or> rest = []"
      "\<forall>r\<in>set rest. length (rr_got r) < rr_size r" "\<forall>r\<in>set (tl rest). rr_got r = []"
      "recvRequestQueue s = [] \<longrightarrow> rest = []"
    using F by blast+
  let ?kept = "if left = [] then [] else [\<lparr>rb_recvTime = now, rb_pos = 0, rb_data = left\<rparr>]"
  let ?bs = "recvBuffersQueue s @ ?kept"
  let ?s = "s\<lparr>recvRequestQueue := rest, completeRecvRequests := full, recvBuffersQueue := ?bs,
    paused := (if left \<noteq> [] \<and> length ?bs = 1 then True else paused s)\<rparr>"
  let ?t = "StreamConnectionNotifyCompleteRecvRequest True ?s"
  have mid: "recv_mid (D @ data) ?s"
  proof (cases "recvRequestQueue s = []")
    case True
    then have "full = []" "rest = []" "left = data" using fill by auto
    then show ?thesis using ok True \<open>data \<noteq> []\<close> by (auto simp: recv_mid_def recv_ok_def)
  next
    case False
    then have "recvBuffersQueue s = []" "\<not> paused s" using ok by (auto simp: recv_ok_def)
    then show ?thesis using ok f assms(3) by (auto simp: recv_mid_def recv_ok_def)
  qed
  define u where "u = (if full \<noteq> [] \<and> part then ?t\<lparr>dataNotify := None\<rparr> else ?t)"
  define v where "v = (if part \<and> dataNotify u = None then u\<lparr>dataNotify := Some (int32 (recvTimeout (stream_config u)))\<rparr> else u)"
  have "StreamConnectionOnTcpData now data s = Some v"
  proof -
    have "\<not> (recvRequestQueue s \<noteq> [] \<and> recvBuffersQueue s \<noteq> [])" "completeRecvRequests s = []"
      using ok by (auto simp: recv_ok_def)
    moreover have "\<not> (left \<noteq> [] \<and> rest \<noteq> [])" using f(2) by blast
    moreover have "?s = (let s = s\<lparr>recvRequestQueue := rest, completeRecvRequests := full\<rparr>;
        s = (if left = [] then s else s\<lparr>recvBuffersQueue := recvBuffersQueue s @ [\<lparr>rb_recvTime = now, rb_pos = 0, rb_data = left\<rparr>]\<rparr>)
        in if left \<noteq> [] \<and> length (recvBuffersQueue s) = 1 then s\<lparr>paused := True\<rparr> else s)"
      by (simp add: Let_def)
    ultimately show ?thesis using assms(2,3) fill
      by (simp add: StreamConnectionOnTcpData_def u_def v_def Let_def)
  qed
  moreover have "recv_view v = recv_view ?t" by (simp add: v_def u_def recv_view_def)
  ultimately show ?thesis using notify_complete_ok [OF mid] recv_ok_view by blast
qed

lemma tcp_end_ok:
  assumes "recv_ok D s"
  shows "\<exists>s'. StreamConnectionOnTcpData now [] s = Some s' \<and> recv_ok D s'"
proof -
  have "recv_mid D (s\<lparr>recvClosed := True, completeRecvRequests := completeRecvRequests s @ recvRequestQueue s, recvRequestQueue := []\<rparr>)"
    using assms by (auto simp: recv_mid_def recv_ok_def)
  then show ?thesis using notify_all_ok by (simp add: StreamConnectionOnTcpData_def)
qed

lemma data_notify_ok:
  assumes "recv_ok D s"
  shows "recv_ok D (StreamConnectionOnDataNotifyTimer s)"
proof -
  have "recv_mid D (s\<lparr>dataNotify := None\<rparr>)" using assms by (simp add: recv_mid_def recv_ok_def)
  then show ?thesis using assms notify_all_ok by (simp add: StreamConnectionOnDataNotifyTimer_def)
qed

end
