(* ===== verification/StreamNet.thy ===== *)
theory StreamNet
  imports StreamRecv
begin

text \<open>
  Runs of a connection over TCP: the application, the socket, the timers and the framework in any
  order. Both directions at once, and two connections with TCP between them.
\<close>

section \<open>Runs\<close>

text \<open>The times and the space in the buffer of the socket are whatever they are.\<close>

datatype stream_op =
    AppSend int nat "u8 list" nat
  | SocketDrain nat
  | NagleTimer int nat
  | SyncSent int nat
  | AppClose
  | AppRecv int nat nat
  | TcpData int "u8 list"
  | DataNotifyTimer

text \<open>The bytes a step accepts from the application, and the new state.\<close>

fun stream_step :: "'p tcp_env \<Rightarrow> stream_op \<Rightarrow> StreamConnection \<Rightarrow> (u8 list \<times> StreamConnection) option" where
  "stream_step env (AppSend now space buffer cb) s =
     map_option (\<lambda>(r, s). (accepted r buffer, s)) (StreamConnectionSend env now space buffer (Some cb) s)"
| "stream_step env (SocketDrain space) s = map_option (Pair []) (StreamConnectionOnTcpDrain space s)"
| "stream_step env (NagleTimer now space) s = map_option (Pair []) (StreamConnectionOnNagleTimer env now space s)"
| "stream_step env (SyncSent now space) s = map_option (Pair []) (StreamConnectionOnSyncSent env now space s)"
| "stream_step env AppClose s = Some ([], snd (StreamConnectionClose s))"
| "stream_step env (AppRecv now len cb) s = map_option (Pair []) (StreamConnectionRecv now len cb s)"
| "stream_step env (TcpData now bytes) s = map_option (Pair []) (StreamConnectionOnTcpData now bytes s)"
| "stream_step env DataNotifyTimer s = Some ([], StreamConnectionOnDataNotifyTimer s)"

fun stream_run :: "'p tcp_env \<Rightarrow> stream_op list \<Rightarrow> StreamConnection \<Rightarrow> (u8 list \<times> StreamConnection) option" where
  "stream_run env [] s = Some ([], s)"
| "stream_run env (op # ops) s = do {
     (a, s) \<leftarrow> stream_step env op s;
     (b, s) \<leftarrow> stream_run env ops s;
     Some (a @ b, s)
   }"

text \<open>A buffer of no bytes is refused by an assertion.\<close>

fun op_ok :: "stream_op \<Rightarrow> bool" where
  "op_ok (AppRecv now len cb) = (0 < len)"
| "op_ok op = True"

text \<open>What arrives before the end of the stream, which is a call with no bytes.\<close>

fun arrived :: "stream_op list \<Rightarrow> u8 list" where
  "arrived [] = []"
| "arrived (TcpData now bytes # ops) = (if bytes = [] then [] else bytes @ arrived ops)"
| "arrived (op # ops) = arrived ops"

section \<open>The receiving side leaves the sending side alone\<close>

lemma send_ok_recv [simp]:
  "send_ok env key S R (s\<lparr>isRecvNotifying := b\<rparr>) = send_ok env key S R s"
  "send_ok env key S R (s\<lparr>isCompleteRecvNotifyOnly := b\<rparr>) = send_ok env key S R s"
  "send_ok env key S R (s\<lparr>recvClosed := b\<rparr>) = send_ok env key S R s"
  "send_ok env key S R (s\<lparr>recvBuffersQueue := bs\<rparr>) = send_ok env key S R s"
  "send_ok env key S R (s\<lparr>recvRequestQueue := rs\<rparr>) = send_ok env key S R s"
  "send_ok env key S R (s\<lparr>completeRecvRequests := rs\<rparr>) = send_ok env key S R s"
  "send_ok env key S R (s\<lparr>dataNotify := d\<rparr>) = send_ok env key S R s"
  "send_ok env key S R (s\<lparr>paused := b\<rparr>) = send_ok env key S R s"
  by (simp_all add: send_ok_def open_or_done_def)

lemma send_ok_received [simp]: "send_ok env key S R (emit (map received_event rs) s) = send_ok env key S R s"
proof -
  have "wire_bytes (map received_event rs) = []" by (induction rs) (auto simp: received_event_def)
  then show ?thesis by (simp add: send_ok_def open_or_done_def emit_def)
qed

lemma notify_send [simp]:
  "send_ok env key S R (StreamConnectionNotifyCompleteRecvRequest c s) = send_ok env key S R s"
  by (simp add: StreamConnectionNotifyCompleteRecvRequest_def Let_def case_prod_beta flip: map_append)

lemma recv_send:
  "StreamConnectionRecv now len cb s = Some s' \<Longrightarrow> send_ok env key S R s' = send_ok env key S R s"
  by (auto simp: StreamConnectionRecv_def Let_def split: if_splits prod.splits)

lemma tcp_data_send:
  "StreamConnectionOnTcpData now data s = Some s' \<Longrightarrow> send_ok env key S R s' = send_ok env key S R s"
  by (auto simp: StreamConnectionOnTcpData_def Let_def split: if_splits prod.splits)

lemma notify_timer_send:
  "send_ok env key S R (StreamConnectionOnDataNotifyTimer s) = send_ok env key S R s"
  by (simp add: StreamConnectionOnDataNotifyTimer_def)

lemma notify_closed [simp]: "recvClosed (StreamConnectionNotifyCompleteRecvRequest c s) = recvClosed s"
  by (simp add: StreamConnectionNotifyCompleteRecvRequest_def Let_def case_prod_beta emit_def)

lemma recv_closed: "StreamConnectionRecv now len cb s = Some s' \<Longrightarrow> recvClosed s' = recvClosed s"
  by (auto simp: StreamConnectionRecv_def Let_def split: if_splits prod.splits)

lemma tcp_data_closed:
  "StreamConnectionOnTcpData now data s = Some s' \<Longrightarrow> recvClosed s' = (recvClosed s \<or> data = [])"
  by (auto simp: StreamConnectionOnTcpData_def Let_def split: if_splits prod.splits)

lemma notify_timer_closed: "recvClosed (StreamConnectionOnDataNotifyTimer s) = recvClosed s"
  by (simp add: StreamConnectionOnDataNotifyTimer_def)

lemma view_closed: "recv_view s' = recv_view s \<Longrightarrow> recvClosed s' = recvClosed s"
  by (simp add: recv_view_def)

section \<open>Every run\<close>

lemma same_recv_side:
  assumes "recv_view s' = recv_view s" and "recv_ok D s" and "arrived [op] = []" and "\<And>now. op \<noteq> TcpData now []"
  shows "recv_ok (D @ (if recvClosed s then [] else arrived [op])) s' \<and>
    recvClosed s' = (recvClosed s \<or> (\<exists>now. op = TcpData now []))"
  using assms recv_ok_view [OF assms(1)] view_closed [OF assms(1)] by simp

lemma stream_step_ok:
  assumes send: "send_ok env key S R s" and recv: "recv_ok D s" and "op_ok op"
  shows "\<exists>a R' s'. stream_step env op s = Some (a, s') \<and> send_ok env key (S @ a) (R @ R') s' \<and>
    recv_ok (D @ (if recvClosed s then [] else arrived [op])) s' \<and>
    recvClosed s' = (recvClosed s \<or> (\<exists>now. op = TcpData now []))"
proof (cases op)
  case (AppSend now space buffer cb)
  obtain R' r s' where s': "StreamConnectionSend env now space buffer (Some cb) s = Some (r, s')"
    "send_ok env key (S @ accepted r buffer) (R @ R') s'" using stream_send_ok [OF send] by blast
  show ?thesis
    by (intro exI [of _ "accepted r buffer"] exI [of _ R'] exI [of _ s'] conjI [OF _ conjI [OF s'(2)]]
        same_recv_side [OF stream_send_view [OF s'(1)] recv]) (simp_all add: AppSend s'(1))
next
  case (SocketDrain space)
  obtain s' where s': "StreamConnectionOnTcpDrain space s = Some s'" "send_ok env key S R s'"
    using socket_drain_ok [OF send] by blast
  have "send_ok env key (S @ []) (R @ []) s'" using s'(2) by simp
  show ?thesis
    by (intro exI [of _ "[]"] exI [of _ s'] conjI [OF _ conjI [OF \<open>send_ok env key (S @ []) (R @ []) s'\<close>]]
        same_recv_side [OF drain_view [OF s'(1)] recv]) (simp_all add: SocketDrain s'(1))
next
  case (NagleTimer now space)
  obtain R' s' where s': "StreamConnectionOnNagleTimer env now space s = Some s'" "send_ok env key (S @ []) (R @ R') s'"
    using nagle_ok [OF send, of now space] by auto
  show ?thesis
    by (intro exI [of _ "[]"] exI [of _ R'] exI [of _ s'] conjI [OF _ conjI [OF s'(2)]]
        same_recv_side [OF nagle_view [OF s'(1)] recv]) (simp_all add: NagleTimer s'(1))
next
  case (SyncSent now space)
  obtain R' s' where s': "StreamConnectionOnSyncSent env now space s = Some s'" "send_ok env key (S @ []) (R @ R') s'"
    using sync_sent_ok [OF send, of now space] by auto
  show ?thesis
    by (intro exI [of _ "[]"] exI [of _ R'] exI [of _ s'] conjI [OF _ conjI [OF s'(2)]]
        same_recv_side [OF sync_sent_view [OF s'(1)] recv]) (simp_all add: SyncSent s'(1))
next
  case AppClose
  have "send_ok env key (S @ []) (R @ []) (snd (StreamConnectionClose s))" using close_ok [OF send] by simp
  show ?thesis
    by (intro exI [of _ "[]"] exI [of _ "snd (StreamConnectionClose s)"]
        conjI [OF _ conjI [OF \<open>send_ok env key (S @ []) (R @ []) (snd (StreamConnectionClose s))\<close>]]
        same_recv_side [OF close_view recv]) (simp_all add: AppClose)
next
  case (AppRecv now len cb)
  then obtain s' where s': "StreamConnectionRecv now len cb s = Some s'" "recv_ok D s'"
    using recv_request_ok [OF recv, of len now cb] \<open>op_ok op\<close> by auto
  then show ?thesis using AppRecv send
    by (intro exI [of _ "[]"] exI [of _ s']) (simp add: recv_send [OF s'(1)] recv_closed [OF s'(1)])
next
  case (TcpData now bytes)
  have "\<exists>s'. StreamConnectionOnTcpData now bytes s = Some s' \<and> recv_ok (D @ (if recvClosed s then [] else arrived [op])) s'"
    using tcp_end_ok [OF recv] tcp_data_ok [OF recv] TcpData recv
    by (cases "bytes = [] \<or> recvClosed s") (auto simp: StreamConnectionOnTcpData_def)
  then obtain s' where s': "StreamConnectionOnTcpData now bytes s = Some s'"
    "recv_ok (D @ (if recvClosed s then [] else arrived [op])) s'" by blast
  then show ?thesis using TcpData send
    by (intro exI [of _ "[]"] exI [of _ s']) (simp add: tcp_data_send [OF s'(1)] tcp_data_closed [OF s'(1)])
next
  case DataNotifyTimer
  then show ?thesis using send data_notify_ok [OF recv]
    by (intro exI [of _ "[]"]) (simp add: notify_timer_send notify_timer_closed)
qed

lemma arrived_step: "arrived (op # ops) = arrived [op] @ (if \<exists>now. op = TcpData now [] then [] else arrived ops)"
  by (cases op) auto

lemma stream_run_ok:
  assumes "send_ok env key S R s" and "recv_ok D s" and "\<forall>op\<in>set ops. op_ok op"
  shows "\<exists>a R' s'. stream_run env ops s = Some (a, s') \<and> send_ok env key (S @ a) (R @ R') s' \<and>
    recv_ok (D @ (if recvClosed s then [] else arrived ops)) s'"
  using assms
proof (induction ops arbitrary: S R D s)
  case Nil
  then show ?case by (intro exI [of _ "[]"]) simp
next
  case (Cons op ops)
  obtain a R1 t where t: "stream_step env op s = Some (a, t)" "send_ok env key (S @ a) (R @ R1) t"
      "recv_ok (D @ (if recvClosed s then [] else arrived [op])) t"
      "recvClosed t = (recvClosed s \<or> (\<exists>now. op = TcpData now []))"
    using stream_step_ok [OF Cons.prems(1,2), of op] Cons.prems(3) by auto
  obtain b R2 s' where s': "stream_run env ops t = Some (b, s')" "send_ok env key (S @ a @ b) (R @ R1 @ R2) s'"
      "recv_ok (D @ (if recvClosed s then [] else arrived [op]) @ (if recvClosed t then [] else arrived ops)) s'"
    using Cons.IH [OF t(2,3)] Cons.prems(3) by auto
  have "(if recvClosed s then [] else arrived [op]) @ (if recvClosed t then [] else arrived ops) =
      (if recvClosed s then [] else arrived (op # ops))"
    using t(4) arrived_step [of op ops] by auto
  then show ?case using t(1) s' by auto
qed

section \<open>From the creation on\<close>

lemma created_ok:
  assumes "config_ok config" and "isCrypto ti" and "cbc_ok env (aesKey ti)" and "ti_state ti = BDT_TCP_INTERFACE_STATE_STREAM"
  shows "send_ok env (aesKey ti) [] [] (StreamConnectionCreate config ti)" and "recv_ok [] (StreamConnectionCreate config ti)"
    and "\<not> recvClosed (StreamConnectionCreate config ti)"
  using assms by (simp_all add: StreamConnectionCreate_def send_ok_def recv_ok_def open_or_done_def)

definition stream_start :: "'p tcp_env \<Rightarrow> BdtStreamConnectionConfig \<Rightarrow> Bdt_TcpInterface \<Rightarrow> bool" where
  "stream_start env config ti \<longleftrightarrow> config_ok config \<and> isCrypto ti \<and> cbc_ok env (aesKey ti) \<and>
     ti_state ti = BDT_TCP_INTERFACE_STATE_STREAM"

lemma created_run:
  assumes "stream_start env config ti" and "\<forall>op\<in>set ops. op_ok op"
  obtains a R s where "stream_run env ops (StreamConnectionCreate config ti) = Some (a, s)"
    "send_ok env (aesKey ti) a R s" "recv_ok (arrived ops) s"
proof -
  have c: "config_ok config" "isCrypto ti" "cbc_ok env (aesKey ti)" "ti_state ti = BDT_TCP_INTERFACE_STATE_STREAM"
    using assms(1) by (simp_all add: stream_start_def)
  show thesis
    using stream_run_ok [OF created_ok(1,2) [OF c] assms(2)] created_ok(3) [OF c] that by auto
qed

text \<open>
  C5. The sending side of a connection over TCP. Whatever the application sends, however much space
  the socket has each time, and in whatever order drains, timers, received data and the close come in
  between: no assertion fails, and the bytes written to the socket, followed by the record under
  way, are exactly the boxes of records \<open>R\<close> of at least one byte, which one after the other, followed by what is
  still queued, make up everything the calls of \<open>StreamConnectionSend\<close> accepted.
\<close>

theorem stream_sends_in_records:
  assumes "stream_start env config ti" and "\<forall>op\<in>set ops. op_ok op"
  shows "\<exists>sent s R. stream_run env ops (StreamConnectionCreate config ti) = Some (sent, s) \<and>
    wire_bytes (stream_events s) @ pendingRecord s = concat (map (wire env (aesKey ti)) R) \<and>
    concat R @ queued (sendRequests s) = sent \<and> sendRequestSize s = length (queued (sendRequests s)) \<and>
    (\<forall>r\<in>set R. record_fits (maxRecordSize (stream_config s)) r) \<and> (recordSize s = 0) = (pendingRecord s = [])"
proof -
  obtain a R s where "stream_run env ops (StreamConnectionCreate config ti) = Some (a, s)"
    "send_ok env (aesKey ti) a R s" using created_run [OF assms] .
  then show ?thesis by (auto simp: send_ok_def)
qed

text \<open>
  C6. The receiving side of a connection over TCP. For every such run the bytes that the callbacks of the
  application got, then those in the buffer of the request at the front, then those kept back, are
  exactly the bytes that arrived before the end of the stream, in order; a request waits only while nothing is kept back and the
  socket is not paused, and the socket is paused whenever something is kept back.
\<close>

theorem stream_receives_in_order:
  assumes "stream_start env config ti" and "\<forall>op\<in>set ops. op_ok op"
  shows "\<exists>sent s. stream_run env ops (StreamConnectionCreate config ti) = Some (sent, s) \<and>
    received_bytes (stream_events s) @ got_bytes (recvRequestQueue s) @ kept_bytes (recvBuffersQueue s) = arrived ops \<and>
    (recvRequestQueue s \<noteq> [] \<longrightarrow> recvBuffersQueue s = [] \<and> \<not> paused s) \<and> (recvBuffersQueue s \<noteq> [] \<longrightarrow> paused s) \<and>
    completeRecvRequests s = []"
proof -
  obtain a R s where "stream_run env ops (StreamConnectionCreate config ti) = Some (a, s)"
    "recv_ok (arrived ops) s" using created_run [OF assms] .
  then show ?thesis by (auto simp: recv_ok_def)
qed

section \<open>Two connections\<close>

text \<open>The reference splitter on the records of one side.\<close>

lemma frames_wire:
  assumes "cbc_ok env (aesKey ti)" and "isCrypto ti" and "\<forall>r\<in>set R. record_fits m r" and "m < 65520"
  shows "\<exists>bodies. frames (concat (map (wire env (aesKey ti)) R)) = (bodies, []) \<and> (\<forall>b\<in>set bodies. opens env ti b) \<and>
     map (opened env ti) bodies = R"
proof -
  let ?t = "ti\<lparr>ti_state := BDT_TCP_INTERFACE_STATE_STREAM\<rparr>" and ?d = "\<lambda>r. (r @ replicate 32 (0 :: u8), length r)"
  have fits: "fits_box (?d r)" if "r \<in> set R" for r
  proof -
    have "r \<noteq> []" "length r < 65520" using that assms(3,4) by (auto simp: record_fits_def)
    then have "length r div 16 < 4095" by (simp add: div_less_iff_less_mult)
    then show ?thesis using \<open>r \<noteq> []\<close> div_mult_mod_eq [of "length r" 16] by (auto simp: fits_box_def)
  qed
  have wired: "boxed env ?t (?d r) = wire env (aesKey ti) r" if "r \<in> set R" for r
    using wire_boxed [of env ?t "fst (?d r)" "snd (?d r)"] fits [OF that] assms(1,2) by (auto simp: boxed_def)
  have "map (\<lambda>d. take (snd d) (fst d)) (map ?d R) = R" by (simp add: comp_def)
  moreover have "map (boxed env ?t) (map ?d R) = map (wire env (aesKey ti)) R" using wired by simp
  moreover have "\<exists>bodies. frames (concat (map (boxed env ?t) (map ?d R))) = (bodies, []) \<and> (\<forall>b\<in>set bodies. opens env ti b) \<and>
     map (opened env ti) bodies = map (\<lambda>d. take (snd d) (fst d)) (map ?d R)"
    by (rule frames_boxed) (use fits assms(1,2) in simp_all)
  ultimately show ?thesis by metis
qed

text \<open>
  C4. Two connections over TCP, from application to application. One side runs in any way; the
  bytes it writes are a stream that TCP delivers to the other side, whatever part \<open>cs\<close> of it so far and cut
  into whatever segments. Then the interface of the other side, which has the same key, hands out data \<open>ds\<close>
  that are a beginning of what the first application sent, and all of it once everything has been written and
  delivered; and however the other connection runs while these data arrive, what its application
  has received, then what waits in its buffers, then what is lost on the way so far, is what the first application sent.
\<close>

theorem stream_delivers:
  assumes start: "stream_start env config ti" and "\<forall>op\<in>set ops. op_ok op"
    and run: "stream_run env ops (StreamConnectionCreate config ti) = Some (sent, a)"
    and peer: "stream_ready env peer" "unbox_ok peer" "kept peer = []" "aesKey peer = aesKey ti"
    and tcp: "\<forall>c\<in>set cs. c \<noteq> [] \<and> length c \<le> 65536" "concat cs @ w = wire_bytes (stream_events a)"
  shows "\<exists>t ds lost. push_all env cs peer = Some (t, map OnData ds) \<and> concat ds @ lost = sent \<and>
    (w = [] \<and> pendingRecord a = [] \<and> sendRequestSize a = 0 \<longrightarrow> lost = []) \<and>
    (\<forall>config' ops'. config_ok config' \<and> (\<forall>op\<in>set ops'. op_ok op) \<and> arrived ops' = concat ds \<longrightarrow>
       (\<exists>sent' b. stream_run env ops' (StreamConnectionCreate config' peer) = Some (sent', b) \<and>
          received_bytes (stream_events b) @ got_bytes (recvRequestQueue b) @ kept_bytes (recvBuffersQueue b) @ lost = sent))"
proof -
  obtain R where "send_ok env (aesKey ti) sent R a" using created_run [OF start assms(2)] run by (metis option.inject prod.inject)
  then have a: "wire_bytes (stream_events a) @ pendingRecord a = concat (map (wire env (aesKey ti)) R)"
      "concat R @ queued (sendRequests a) = sent" "\<forall>r\<in>set R. record_fits (maxRecordSize (stream_config a)) r"
      "maxRecordSize (stream_config a) < 65520" "sendRequestSize a = length (queued (sendRequests a))" "cbc_ok env (aesKey peer)"
    using peer(4) by (simp_all add: send_ok_def config_ok_def)
  let ?c = "concat cs" and ?v = "w @ pendingRecord a"
  have crypto: "isCrypto peer" "ti_state peer = BDT_TCP_INTERFACE_STATE_STREAM" using peer(1) by (simp_all add: stream_ready_def)
  obtain bodies where bodies: "frames (?c @ ?v) = (bodies, [])" "\<forall>b\<in>set bodies. opens env peer b" "map (opened env peer) bodies = R"
    using frames_wire [OF a(6) crypto(1) a(3,4)] a(1) tcp(2) peer(4) by (metis append.assoc)
  let ?b1 = "fst (frames ?c)" and ?b2 = "fst (frames (snd (frames ?c) @ ?v))"
  have cut: "bodies = ?b1 @ ?b2" "snd (frames (snd (frames ?c) @ ?v)) = []"
    using frames_append [of ?c ?v] bodies(1) by simp_all
  let ?ds = "map (opened env peer) ?b1" and ?lost = "concat (map (opened env peer) ?b2) @ queued (sendRequests a)"
  have lost: "concat ?ds @ ?lost = sent" using a(2) bodies(3) cut(1) by (metis append.assoc concat_append map_append)
  have all_told: "?lost = []" if "w = []" "pendingRecord a = []" "sendRequestSize a = 0"
    using that a(5) bodies(1) by (simp add: frames_short)
  obtain t where push: "push_all env cs peer = Some (t, map (\<lambda>b. OnData (opened env peer b)) ?b1)"
    using stream.push_segments [OF peer(1,2) tcp(1)] peer(3) bodies(2) cut(1) by auto
  have told: "map (\<lambda>b. OnData (opened env peer b)) ?b1 = map OnData ?ds" by simp
  have other_side: "\<exists>sent' b. stream_run env ops' (StreamConnectionCreate config' peer) = Some (sent', b) \<and>
      received_bytes (stream_events b) @ got_bytes (recvRequestQueue b) @ kept_bytes (recvBuffersQueue b) @ ?lost = sent"
    if other: "config_ok config'" "\<forall>op\<in>set ops'. op_ok op" "arrived ops' = concat ?ds" for config' ops'
  proof -
    have "stream_start env config' peer" using other(1) crypto a(6) by (simp add: stream_start_def)
    from created_run [OF this other(2)] obtain sent' b where
      "stream_run env ops' (StreamConnectionCreate config' peer) = Some (sent', b)" "recv_ok (concat ?ds) b"
      unfolding other(3) by blast
    then show ?thesis using lost by (auto simp: recv_ok_def)
  qed
  show ?thesis
  proof (rule exI [of _ t], rule exI [of _ ?ds], rule exI [of _ ?lost], intro conjI allI impI)
    show "push_all env cs peer = Some (t, map OnData ?ds)" using push unfolding told .
    show "concat ?ds @ ?lost = sent" by (rule lost)
    show "?lost = []" if "w = [] \<and> pendingRecord a = [] \<and> sendRequestSize a = 0"
      by (rule all_told) (use that in simp_all)
    show "\<exists>sent' b. stream_run env ops' (StreamConnectionCreate config' peer) = Some (sent', b) \<and>
        received_bytes (stream_events b) @ got_bytes (recvRequestQueue b) @ kept_bytes (recvBuffersQueue b) @ ?lost = sent"
      if "config_ok config' \<and> (\<forall>op\<in>set ops'. op_ok op) \<and> arrived ops' = concat ?ds" for config' ops'
      by (rule other_side) (use that in simp_all)
  qed
qed

text \<open>Instances.\<close>

definition example_stream_config :: BdtStreamConnectionConfig where
  "example_stream_config = \<lparr>minRecordSize = 2, maxRecordSize = 4, maxNagleDelay = 50, recvTimeout = 1000\<rparr>"

abbreviation example_stream :: StreamConnection where
  "example_stream \<equiv> StreamConnectionCreate example_stream_config (toy_interface BDT_TCP_INTERFACE_STATE_STREAM True)"

definition example_ops :: "stream_op list" where
  "example_ops = [AppSend 0 7 [1, 2, 3] 1, AppRecv 0 2 2, AppSend 1 0 [4, 5] 3, TcpData 2 [6, 7, 8], SocketDrain 100, AppClose]"

lemma example_start: "stream_start toy_env example_stream_config (toy_interface BDT_TCP_INTERFACE_STATE_STREAM True)"
    "\<forall>op\<in>set example_ops. op_ok op"
  by (auto simp: stream_start_def toy_cipher config_ok_def example_stream_config_def example_ops_def)

theorem stream_sends_in_records_witness:
  "\<exists>sent s R. stream_run toy_env example_ops example_stream = Some (sent, s) \<and>
    concat R @ queued (sendRequests s) = sent \<and> (recordSize s = 0) = (pendingRecord s = [])"
  using stream_sends_in_records [OF example_start] by (elim exE conjE) (intro exI conjI)

theorem stream_receives_in_order_witness:
  "\<exists>sent s. stream_run toy_env example_ops example_stream = Some (sent, s) \<and>
    received_bytes (stream_events s) @ got_bytes (recvRequestQueue s) @ kept_bytes (recvBuffersQueue s) = [6, 7, 8]"
  using stream_receives_in_order [OF example_start] by (auto simp: example_ops_def)

lemma stream_example_sent:
  "map_option (\<lambda>(sent, s). (sent, wire_bytes (stream_events s), pendingRecord s, sendRequestSize s))
     (stream_run toy_env [AppSend 0 100 [1, 2, 3] 1] example_stream) =
   Some ([1, 2, 3], [16, 0, 1, 2, 3] @ replicate 13 13, [], 0)"
  by code_simp

theorem stream_delivers_witness:
  "\<exists>t ds. push_all toy_env [[16], 0 # [1, 2], 3 # replicate 13 13] (toy_interface BDT_TCP_INTERFACE_STATE_STREAM True) =
     Some (t, map OnData ds) \<and> concat ds = [1, 2, 3]"
proof -
  let ?i = "toy_interface BDT_TCP_INTERFACE_STATE_STREAM True"
  obtain a where a: "stream_run toy_env [AppSend 0 100 [1, 2, 3] 1] example_stream = Some ([1, 2, 3], a)"
      "wire_bytes (stream_events a) = [16, 0, 1, 2, 3] @ replicate 13 13" "pendingRecord a = []" "sendRequestSize a = 0"
    using stream_example_sent by (auto simp del: replicate.simps)
  show ?thesis
    using stream_delivers [OF example_start(1) _ a(1), of ?i "[[16], 0 # [1, 2], 3 # replicate 13 13]" "[]"] a(2-4)
    by (auto simp del: replicate.simps push_all.simps)
qed

end
