(* ===== verification/StreamFaults.thy ===== *)
theory StreamFaults
  imports StreamNet
begin

text \<open>
  Two faults of the connection over TCP: a send that fills exactly one record is not reported to the
  application, and a drain between the two parts of a send mixes two records on the wire.
\<close>

section \<open>A send of exactly one record\<close>

text \<open>Nothing is queued and nothing under way, \<open>W\<close> has been written and no send reported.\<close>

definition idle_after :: "u8 list \<Rightarrow> StreamConnection \<Rightarrow> bool" where
  "idle_after W s \<longleftrightarrow> sendRequestSize s = 0 \<and> pendingRecord s = [] \<and> recordSize s = 0 \<and> sendingCallCount s = 0 \<and>
     0 < minRecordSize (stream_config s) \<and> 0 < maxRecordSize (stream_config s) \<and> wire_bytes (stream_events s) = W \<and>
     (\<forall>r c n. Sent r c n \<notin> set (stream_events s))"

lemma idle_frame [simp]:
  "idle_after W (s\<lparr>nagleDelay := d\<rparr>) = idle_after W s" "idle_after W (s\<lparr>immediates := n\<rparr>) = idle_after W s"
  "idle_after W (s\<lparr>tcpInterface := ti\<rparr>) = idle_after W s" "idle_after W (s\<lparr>sendClosed := b\<rparr>) = idle_after W s"
  by (simp_all add: idle_after_def)

lemma idle_drain:
  assumes "idle_after W s"
  shows "\<exists>s'. StreamConnectionOnTcpDrain space s = Some s' \<and> idle_after W s'"
  using assms by (simp add: StreamConnectionOnTcpDrain_def StreamConnectionSendRecord_def idle_after_def Let_def)

lemma idle_check:
  assumes "idle_after W s"
  shows "\<exists>s'. StreamConnectionCheckPendingSend env now space s = Some s' \<and> idle_after W s'"
  using assms by (simp add: StreamConnectionCheckPendingSend_def pick_record_def idle_after_def Let_def)

lemma idle_recv [simp]:
  "idle_after W (s\<lparr>isRecvNotifying := b\<rparr>) = idle_after W s" "idle_after W (s\<lparr>isCompleteRecvNotifyOnly := b\<rparr>) = idle_after W s"
  "idle_after W (s\<lparr>recvClosed := b\<rparr>) = idle_after W s" "idle_after W (s\<lparr>recvBuffersQueue := bs\<rparr>) = idle_after W s"
  "idle_after W (s\<lparr>recvRequestQueue := rs\<rparr>) = idle_after W s" "idle_after W (s\<lparr>completeRecvRequests := rs\<rparr>) = idle_after W s"
  "idle_after W (s\<lparr>dataNotify := d\<rparr>) = idle_after W s" "idle_after W (s\<lparr>paused := b\<rparr>) = idle_after W s"
  by (simp_all add: idle_after_def)

lemma idle_received [simp]: "idle_after W (emit (map received_event rs) s) = idle_after W s"
proof -
  have "wire_bytes (map received_event rs) = []" by (induction rs) (auto simp: received_event_def)
  moreover have "Sent r c n \<notin> received_event ` set rs" for r c n by (auto simp: received_event_def)
  ultimately show ?thesis by (simp add: idle_after_def emit_def)
qed

lemma idle_notify [simp]: "idle_after W (StreamConnectionNotifyCompleteRecvRequest c s) = idle_after W s"
  by (simp add: StreamConnectionNotifyCompleteRecvRequest_def Let_def case_prod_beta flip: map_append)

text \<open>Everything but another send: the socket, the timers, the framework, the receiving side and the close.\<close>

fun background :: "stream_op \<Rightarrow> bool" where
  "background (AppSend now space buffer cb) = False"
| "background op = op_ok op"

lemma idle_step:
  assumes "idle_after W s" and "background op" and "stream_step env op s = Some (a, s')"
  shows "a = [] \<and> idle_after W s'"
proof (cases op)
  case (SocketDrain space)
  then show ?thesis using idle_drain [OF assms(1), of space] assms(3) by auto
next
  case (NagleTimer now space)
  have "idle_after W (s\<lparr>nagleDelay := None\<rparr>)" using assms(1) by simp
  then show ?thesis
    using NagleTimer assms(1,3) idle_check [of W "s\<lparr>nagleDelay := None\<rparr>" env now space]
    by (auto simp: StreamConnectionOnNagleTimer_def split: if_splits)
next
  case (SyncSent now space)
  have "idle_after W (s\<lparr>immediates := immediates s - 1\<rparr>)" using assms(1) by simp
  then show ?thesis
    using SyncSent assms(1,3) idle_check [of W "s\<lparr>immediates := immediates s - 1\<rparr>" env now space]
    by (auto simp: StreamConnectionOnSyncSent_def split: if_splits)
next
  case AppClose
  then show ?thesis using assms(1,3) by (auto simp: StreamConnectionClose_def Let_def)
next
  case (AppRecv now len cb)
  then show ?thesis
    using assms(1,3) by (auto simp: StreamConnectionRecv_def Let_def split: if_splits prod.splits)
next
  case (TcpData now bytes)
  then show ?thesis
    using assms(1,3) by (auto simp: StreamConnectionOnTcpData_def Let_def split: if_splits prod.splits)
next
  case DataNotifyTimer
  then show ?thesis using assms(1,3) by (auto simp: StreamConnectionOnDataNotifyTimer_def)
qed (use assms(2) in auto)

lemma background_ok: "background op \<Longrightarrow> op_ok op"
  by (cases op) simp_all

lemma idle_run:
  assumes "idle_after W s" and "send_ok env key S R s" and "recv_ok D s" and "\<forall>op\<in>set ops. background op"
  shows "\<exists>s'. stream_run env ops s = Some ([], s') \<and> idle_after W s'"
  using assms
proof (induction ops arbitrary: s S R D)
  case (Cons op ops)
  obtain a R' t D' where t: "stream_step env op s = Some (a, t)" "send_ok env key (S @ a) (R @ R') t" "recv_ok D' t"
    using stream_step_ok [OF Cons.prems(2,3), of op] Cons.prems(4) background_ok by fastforce
  then have "a = []" "idle_after W t" using idle_step [OF Cons.prems(1) _ t(1)] Cons.prems(4) by auto
  then show ?case using Cons.IH [OF _ t(2,3)] t(1) Cons.prems(4) by auto
qed simp

lemma length_wire:
  assumes "cbc_ok env key"
  shows "length (wire env key r) = 2 + (length r div 16 + 1) * 16"
proof -
  let ?p = "(length r div 16 + 1) * 16 - length r"
  have p: "length r + ?p = (length r div 16 + 1) * 16"
    using div_mult_mod_eq [of "length r" 16] mod_less_divisor [of 16 "length r"] by auto
  then have len: "length (r @ replicate ?p (of_nat ?p :: u8)) = (length r div 16 + 1) * 16" by simp
  then have "16 dvd length (r @ replicate ?p (of_nat ?p :: u8))" by simp
  then obtain y where "cbc_encrypt env key (r @ replicate ?p (of_nat ?p)) = (0, y)"
      "length y = length (r @ replicate ?p (of_nat ?p :: u8))"
    using assms unfolding cbc_ok_def by blast
  then show ?thesis using len by (simp add: wire_def Let_def)
qed

text \<open>
  C32. A send that fills exactly one record is not reported. If a new connection sends a buffer of exactly
  \<open>maxRecordSize\<close> bytes and the socket takes all of it, then the record is on the wire, and still the
  application's callback is not called, whatever drains, timers, calls of the framework, received data
  and receive requests follow, and not even when the connection is closed: the request stays in the
  queue with nothing left to send. That is so as long as the application neither sends again nor resets
  the connection; only one of these takes the request from the queue.
\<close>

theorem exact_record_never_reported:
  assumes start: "stream_start env config ti" and len: "length buffer = maxRecordSize config"
    and space: "maxRecordSize config + 18 \<le> space" and "\<forall>op\<in>set ops. background op"
  shows "\<exists>s. stream_run env (AppSend now space buffer cb # ops) (StreamConnectionCreate config ti) = Some (buffer, s) \<and>
     wire_bytes (stream_events s) = wire env (aesKey ti) buffer \<and> (\<forall>r c n. Sent r c n \<notin> set (stream_events s))"
proof -
  let ?s = "StreamConnectionCreate config ti" and ?m = "maxRecordSize config"
  let ?item = "send_request now buffer (Some cb)"
  let ?rest = "[?item\<lparr>sreq_offset := ?m\<rparr>]"
  let ?q = "?s\<lparr>sendRequests := [?item], sendRequestSize := ?m\<rparr>"
  have c: "config_ok config" "isCrypto ti" "cbc_ok env (aesKey ti)" "ti_state ti = BDT_TCP_INTERFACE_STATE_STREAM"
    using start by (simp_all add: stream_start_def)
  then have m: "0 < minRecordSize config" "minRecordSize config \<le> ?m" "0 < ?m" by (auto simp: config_ok_def)
  have item: "item_ok ?item" "left_bytes ?item = buffer" "left_bytes (?item\<lparr>sreq_offset := ?m\<rparr>) = []"
      "item_ok (?item\<lparr>sreq_offset := ?m\<rparr>)"
    using len by (simp_all add: send_request_def item_ok_def left_bytes_def left_length_def)
  have created: "stream_config ?s = config" "sendClosed ?s = False" "recordSize ?s = 0" "sendRequestSize ?s = 0"
      "sendRequests ?s = []" "pendingRecord ?s = []" "stream_events ?s = []"
    by (simp_all add: StreamConnectionCreate_def)
  have ok: "send_ok env (aesKey ti) buffer [] ?q"
    using enqueue_ok [OF created_ok(1) [OF c], of ?item ?m] item created len by simp
  have "sreq_length ?item = ?m" "sreq_offset ?item = 0" by (simp_all add: send_request_def len)
  then have choose: "send_choose ?item ?s = (SendRecordNow [] ?m True, reserved ?rest ?m ?q)"
    using created m item by (simp add: send_choose_def Let_def reserved_def)
  have cut: "buffer @ queued ?rest = queued (sendRequests ?q)" "\<forall>r\<in>set ?rest. item_ok r" "pendingRecord ?q = []"
      "record_fits (maxRecordSize (stream_config ?q)) buffer"
    using item created len m by (auto simp: record_fits_def)
  obtain s1 where s1: "box_record env buffer (reserved ?rest ?m ?q) = Some s1"
      "send_ok env (aesKey ti) buffer [buffer] (emit [] s1)"
    using new_record_ok [OF ok cut(3,1,2,4)] len by auto
  have same: "stream_config s1 = config" "sendClosed s1 = False" "recordSize s1 = ?m" "sendRequestSize s1 = 0" "stream_events s1 = []"
    using s1(1) created item by (auto simp: box_record_def reserved_def Option.bind_eq_Some_conv split: if_splits)
  have wired: "pendingRecord s1 = wire env (aesKey ti) buffer" "sendingCallCount s1 = 0"
      "ti_state (tcpInterface s1) \<noteq> BDT_TCP_INTERFACE_STATE_CLOSED"
    using s1(2) same by (auto simp: send_ok_def emit_def open_or_done_def)
  have "length (pendingRecord s1) \<le> space"
    using wired(1) length_wire [OF c(3)] len space div_mult_mod_eq [of ?m 16] by simp
  then obtain s2 where s2: "StreamConnectionSendRecord space False (emit [] s1) = Some (BFX_RESULT_SUCCESS, s2)"
      "idle_after (wire env (aesKey ti) buffer) s2"
    using wired same m by (cases "pendingRecord s1 = []")
      (auto simp: StreamConnectionSendRecord_def emit_def idle_after_def Let_def)
  have "sreq_buffer ?item = buffer" by (simp add: send_request_def)
  then have sent: "StreamConnectionSend env now space buffer (Some cb) ?s = Some (BFX_RESULT_PENDING, s2)"
    using choose s1(1) s2(1) m len by (simp add: StreamConnectionSend_def send_finish_def)
  then have step: "stream_step env (AppSend now space buffer cb) ?s = Some (buffer, s2)" by (simp add: accepted_def)
  have "send_ok env (aesKey ti) buffer [buffer] s2"
    using send_record_ok [OF s1(2), of space False] s2(1) by simp
  moreover have "recv_ok [] s2"
    using recv_ok_view [OF stream_send_view [OF sent]] created_ok(2) [OF c] by simp
  ultimately obtain s3 where "stream_run env ops s2 = Some ([], s3)" "idle_after (wire env (aesKey ti) buffer) s3"
    using idle_run [OF s2(2) _ _ assms(4)] by blast
  then show ?thesis using step by (auto simp: idle_after_def)
qed

theorem exact_record_never_reported_witness:
  "\<exists>s. stream_run toy_env [AppSend 0 100 [1, 2, 3, 4] 9, SyncSent 1 100, TcpData 1 [5], AppRecv 2 1 8, SocketDrain 100, AppClose]
       example_stream = Some ([1, 2, 3, 4], s) \<and>
     (\<forall>r c n. Sent r c n \<notin> set (stream_events s))"
  using exact_record_never_reported [OF example_start(1), of "[1, 2, 3, 4]" 100 "[SyncSent 1 100, TcpData 1 [5], AppRecv 2 1 8, SocketDrain 100, AppClose]" 0 9]
  by (auto simp: example_stream_config_def)

section \<open>A drain between the parts of a send\<close>

text \<open>
  \<open>StreamConnectionSend\<close> reserves the record in its critical section (\<open>send_choose\<close>) and fills the record
  buffer after it (\<open>send_finish\<close>). Here the socket drains and another thread sends in between.
\<close>

lemma choose_reserves:
  assumes "\<not> sendClosed s" and "recordSize s = 0" and "sendRequests s = []" and "sendRequestSize s = 0"
    and "minRecordSize (stream_config s) \<le> length b" and "length b < maxRecordSize (stream_config s)"
    and "0 < minRecordSize (stream_config s)"
  shows "send_choose (send_request now b cb) s = (SendRecordNow [] (length b) False, s\<lparr>recordSize := length b\<rparr>)"
proof -
  have "s\<lparr>sendRequests := [], sendRequestSize := 0, recordSize := length b\<rparr> = s\<lparr>recordSize := length b\<rparr>"
    using assms(3,4) by (cases s) simp
  then show ?thesis using assms by (simp add: send_choose_def send_request_def Let_def)
qed

lemma finish_writes:
  assumes key: "cbc_ok env (aesKey (tcpInterface s))" "isCrypto (tcpInterface s)"
    and state: "ti_state (tcpInterface s) \<in> {BDT_TCP_INTERFACE_STATE_STREAM, BDT_TCP_INTERFACE_STATE_STREAM_RECV_CLOSED}"
    and n: "b \<noteq> []" "length b \<le> m" "m < 65520" "length (recordData s) = m + 32" and "sendingCallCount s = 0"
  defines "w \<equiv> wire env (aesKey (tcpInterface s)) b"
  shows "\<exists>mem s'. length mem = m + 32 \<and>
    send_finish env space (send_request now b (Some cb)) (SendRecordNow [] (length b) False) s = Some (BFX_RESULT_SUCCESS, s') \<and>
    stream_events s' = stream_events s @ [Sent BFX_RESULT_SUCCESS cb (length b), Wire (take space w)] \<and>
    pendingRecord s' = drop space w \<and>
    (space < length w \<longrightarrow> s' = s\<lparr>recordData := mem, pendingRecord := drop space w,
       stream_events := stream_events s @ [Sent BFX_RESULT_SUCCESS cb (length b), Wire (take space w)]\<rparr>)"
proof -
  let ?evs = "stream_events s @ [Sent BFX_RESULT_SUCCESS cb (length b), Wire (take space w)]"
  obtain mem where mem: "length mem = m + 32"
    "box_record env b s = Some (s\<lparr>recordData := mem, pendingRecord := w\<rparr>)"
    using box_record_writes [OF key state n] w_def by blast
  have "ti_state (tcpInterface s) \<noteq> BDT_TCP_INTERFACE_STATE_CLOSED" "w \<noteq> []"
    using state by (auto simp: w_def)
  then have "\<exists>s'. StreamConnectionSendRecord space False (emit [Sent BFX_RESULT_SUCCESS cb (length b)]
        (s\<lparr>recordData := mem, pendingRecord := w\<rparr>)) = Some (BFX_RESULT_SUCCESS, s') \<and>
      stream_events s' = ?evs \<and> pendingRecord s' = drop space w \<and>
      (space < length w \<longrightarrow> s' = s\<lparr>recordData := mem, pendingRecord := drop space w, stream_events := ?evs\<rparr>)" (is "\<exists>s'. ?P s'")
    using assms(8) by (cases "length w \<le> space") (auto simp: StreamConnectionSendRecord_def emit_def Let_def)
  then obtain s' where "?P s'" by blast
  then show ?thesis
    using mem n(1) by (intro exI [of _ mem] exI [of _ s']) (simp add: send_finish_def send_request_def)
qed

text \<open>The run as a whole: the events and what is left to write, or \<open>None\<close> if an assertion fails.\<close>

definition drained_between ::
    "'p tcp_env \<Rightarrow> nat \<times> u8 list \<times> nat \<Rightarrow> nat \<Rightarrow> nat \<times> u8 list \<times> nat \<Rightarrow> StreamConnection \<Rightarrow> (u32 \<times> u32 \<times> StreamConnection) option" where
  "drained_between env first drain second s =
     (let (q, b1, cb1) = first; (p, b2, cb2) = second;
          (choice, s) = send_choose (send_request 0 b1 (Some cb1)) s
      in do {
        s \<leftarrow> StreamConnectionOnTcpDrain drain s;
        (r2, s) \<leftarrow> StreamConnectionSend env 0 p b2 (Some cb2) s;
        (r1, s) \<leftarrow> send_finish env q (send_request 0 b1 (Some cb1)) choice s;
        Some (r1, r2, s)
      })"

text \<open>
  C33. A drain between the two parts of \<open>StreamConnectionSend\<close> lets two sends fill the record buffer at once.
  In any state of an open connection in which nothing is queued or under way, take two sends that each make
  one record, and a drain after the first one has reserved its record. Then the second send does not wait:
  it fills the buffer, and the first one fills it again. If the socket has taken only the first \<open>p\<close> bytes of
  the second record by then, the rest of it is lost: these \<open>p\<close> bytes are followed on the wire by the first record,
  nothing is left to write, and both sends are reported as successful. Without the drain the second send is
  queued, and the wire is left alone.
\<close>

theorem drain_mixes_records:
  assumes ok: "send_ok env key S R s" "\<not> sendClosed s" "recordSize s = 0" "sendRequests s = []"
    and len: "minRecordSize (stream_config s) \<le> length b1" "length b1 < maxRecordSize (stream_config s)"
      "minRecordSize (stream_config s) \<le> length b2" "length b2 < maxRecordSize (stream_config s)"
    and p: "p < length (wire env key b2)" and q: "length (wire env key b1) \<le> q"
  shows "\<exists>t. drained_between env (q, b1, cb1) drain (p, b2, cb2) s = Some (BFX_RESULT_SUCCESS, BFX_RESULT_SUCCESS, t) \<and>
    wire_bytes (stream_events t) = concat (map (wire env key) R) @ take p (wire env key b2) @ wire env key b1 \<and>
    pendingRecord t = [] \<and> Sent BFX_RESULT_SUCCESS cb1 (length b1) \<in> set (stream_events t) \<and>
    Sent BFX_RESULT_SUCCESS cb2 (length b2) \<in> set (stream_events t) \<and>
    (\<exists>u. StreamConnectionSend env 0 p b2 (Some cb2) (snd (send_choose (send_request 0 b1 (Some cb1)) s)) =
        Some (BFX_RESULT_PENDING, u) \<and> stream_events u = stream_events s)"
proof -
  let ?m = "maxRecordSize (stream_config s)"
  have c: "0 < minRecordSize (stream_config s)" "?m < 65520" "sendRequestSize s = 0" "pendingRecord s = []"
      "sendingCallCount s = 0" "length (recordData s) = ?m + 32" "isCrypto (tcpInterface s)"
      "aesKey (tcpInterface s) = key" "cbc_ok env key" "wire_bytes (stream_events s) = concat (map (wire env key) R)"
      "ti_state (tcpInterface s) \<in> {BDT_TCP_INTERFACE_STATE_STREAM, BDT_TCP_INTERFACE_STATE_STREAM_RECV_CLOSED}"
    using ok by (auto simp: send_ok_def config_ok_def open_or_done_def)
  have ne: "b1 \<noteq> []" "b2 \<noteq> []" "length b1 \<le> ?m" "length b2 \<le> ?m" using len c(1) by auto
  let ?s1 = "s\<lparr>recordSize := length b1\<rparr>"
  let ?s2 = "s\<lparr>recordSize := length b2, immediates := immediates s + 1\<rparr>"
  have choose: "send_choose (send_request 0 b1 (Some cb1)) s = (SendRecordNow [] (length b1) False, ?s1)"
    using choose_reserves [OF ok(2-4) c(3) len(1,2) c(1)] .
  have drained: "StreamConnectionOnTcpDrain drain ?s1 = Some (?s2\<lparr>recordSize := 0\<rparr>)"
    using c ok(2) by (simp add: StreamConnectionOnTcpDrain_def StreamConnectionSendRecord_def Let_def)
  obtain mem t2 where t2: "length mem = ?m + 32"
    "send_finish env p (send_request 0 b2 (Some cb2)) (SendRecordNow [] (length b2) False) ?s2 = Some (BFX_RESULT_SUCCESS, t2)"
    "t2 = ?s2\<lparr>recordData := mem, pendingRecord := drop p (wire env key b2), stream_events := stream_events s @
       [Sent BFX_RESULT_SUCCESS cb2 (length b2), Wire (take p (wire env key b2))]\<rparr>"
    using finish_writes [of env ?s2 b2 ?m p 0 cb2] c ne p by auto
  have "send_choose (send_request 0 b2 (Some cb2)) (?s2\<lparr>recordSize := 0\<rparr>) = (SendRecordNow [] (length b2) False, ?s2)"
    using choose_reserves [of "?s2\<lparr>recordSize := 0\<rparr>" b2] ok(2,4) c(1,3) len(3,4) by simp
  then have second: "StreamConnectionSend env 0 p b2 (Some cb2) (?s2\<lparr>recordSize := 0\<rparr>) = Some (BFX_RESULT_SUCCESS, t2)"
    using t2(2) by (simp add: StreamConnectionSend_def)
  obtain t where t: "send_finish env q (send_request 0 b1 (Some cb1)) (SendRecordNow [] (length b1) False) t2 = Some (BFX_RESULT_SUCCESS, t)"
    "stream_events t = stream_events t2 @ [Sent BFX_RESULT_SUCCESS cb1 (length b1), Wire (take q (wire env key b1))]"
    "pendingRecord t = drop q (wire env key b1)"
    using finish_writes [of env t2 b1 ?m q 0 cb1] c ne t2(1,3) by auto
  have "drained_between env (q, b1, cb1) drain (p, b2, cb2) s = Some (BFX_RESULT_SUCCESS, BFX_RESULT_SUCCESS, t)"
    using choose drained second t(1) by (simp add: drained_between_def)
  moreover have "\<exists>u. StreamConnectionSend env 0 p b2 (Some cb2) ?s1 = Some (BFX_RESULT_PENDING, u) \<and>
      stream_events u = stream_events s"
    using ok(2) ne(1) by (simp add: StreamConnectionSend_def send_choose_def send_finish_def Let_def)
  ultimately show ?thesis using choose t(2,3) t2(3) q c(10) by auto
qed

text \<open>An instance, with a cipher that leaves the bytes as they are: the peer cannot open what it finds on the wire.\<close>

lemma mixed_frames:
  "frames (take 5 (wire toy_env key [4, 5]) @ wire toy_env key [1, 2, 3]) =
     ([[4, 5, 14, 16, 0, 1, 2, 3] @ replicate 8 13], replicate 5 13)"
  "\<not> opens toy_env (toy_interface BDT_TCP_INTERFACE_STATE_STREAM True) ([4, 5, 14, 16, 0, 1, 2, 3] @ replicate 8 13)"
  by code_simp+

theorem drain_mixes_records_witness:
  "\<exists>t body left. drained_between toy_env (100, [1, 2, 3], 1) 100 (5, [4, 5], 2) example_stream = Some (0, 0, t) \<and>
     frames (wire_bytes (stream_events t)) = ([body], left) \<and>
     \<not> opens toy_env (toy_interface BDT_TCP_INTERFACE_STATE_STREAM True) body"
proof -
  let ?key = "aesKey (toy_interface BDT_TCP_INTERFACE_STATE_STREAM True)"
  have "send_ok toy_env ?key [] [] example_stream"
    using example_start by (intro created_ok(1)) (simp_all add: stream_start_def)
  moreover have "length (wire toy_env ?key [4, 5]) = 18" "length (wire toy_env ?key [1, 2, 3]) = 18"
    by code_simp+
  ultimately obtain t where "drained_between toy_env (100, [1, 2, 3], 1) 100 (5, [4, 5], 2) example_stream = Some (0, 0, t)"
    "wire_bytes (stream_events t) = take 5 (wire toy_env ?key [4, 5]) @ wire toy_env ?key [1, 2, 3]"
    using drain_mixes_records [of toy_env ?key "[]" "[]" example_stream "[1, 2, 3]" "[4, 5]" 5 100 1 100 2]
    by (auto simp: StreamConnectionCreate_def example_stream_config_def)
  then show ?thesis using mixed_frames by (metis append.assoc)
qed

end
