(* ===== verification/KeyManager.thy ===== *)
theory KeyManager
  imports BufferStream
begin

text \<open>
  The keys a peer shares with others, \<^verbatim>\<open>BDTCore/History/KeyManager.imp.inl\<close>. A key is found by the peer
  it belongs to or by a hash of eight bytes: the hash of the key itself and, for the minutes around now, the hash
  of the key and the minute. The hashes that depend on the time are renewed when a search has failed and the
  minute has passed since the keys in the key list got theirs.

  A node of a key is allocated on a heap, and \<open>previous\<close> and \<open>next\<close> are the links of SGLib's doubly linked
  lists (\<^verbatim>\<open>SGLib/SGLib.h\<close>), whose macros are modelled here store by store. The list of the keys of one
  peer is a list of nodes, its first key first. The two red-black trees are association lists: the tree of
  hashes may hold several entries with one hash, and finds the latest of them here. \<open>asserts\<close> says whether the program was built with
  assertions, which matters where the code goes on after one; a failed assertion where nothing sensible follows is \<open>None\<close>
  in any case, like a null or freed pointer that is followed. The clock, in microseconds, is read once per operation.
\<close>

abbreviation (input) BFX_RESULT_ALREADY_OPERATION :: u32 where "BFX_RESULT_ALREADY_OPERATION \<equiv> 41"

section \<open>State\<close>

type_synonym key_id = nat

record MixHashInfo =
  mh_hash :: "u8 list"
  mh_minutes :: u32

text \<open>\<open>hashSlots\<close> is the array \<open>mixHashNodesWithAppend\<close> of three pointers.\<close>

record KeyNode =
  aes_key :: "u8 list"
  key_peerid :: "u8 list"
  isConfirmed :: bool
  isStorage :: bool
  expireTime :: int
  lastAccessTime :: int
  originalHashNode :: "MixHashInfo option"
  hashSlots :: "MixHashInfo option list"
  nextUpdateHash :: u32
  hashCount :: u32
  kn_previous :: "key_id option"
  kn_next :: "key_id option"

type_synonym key_heap = "key_id \<Rightarrow> KeyNode option"

record KeyManager =
  km_storage :: bool
  km_activeTime :: int
  mixHashKeyMap :: "(u8 list \<times> key_id) list"
  peeridKeyMap :: "(u8 list \<times> key_id list) list"
  keyHeader :: "key_id option"
  keyTail :: "key_id option"
  firstHashMinutes :: u32
  rehashKeyList :: "key_id option"
  nodes :: key_heap
  nextNode :: key_id

text \<open>The hash function of mbedtls, which may fail, and the answer of the storage.\<close>

record key_env =
  mbedtls_sha256 :: "u8 list \<Rightarrow> u8 list option"
  storage_answer :: u32
  asserts :: bool

text \<open>A call of the storage.\<close>

record storage_call =
  sc_peerid :: "u8 list"
  sc_key :: "u8 list"
  sc_expireTime :: int
  sc_flags :: "bool \<times> bool"
  sc_lastAccessTime :: int
  sc_isNew :: bool

definition KeyManagerInit :: "int \<Rightarrow> KeyManager" where
  "KeyManagerInit active =
     \<lparr>km_storage = False, km_activeTime = active, mixHashKeyMap = [], peeridKeyMap = [], keyHeader = None, keyTail = None,
      firstHashMinutes = 0, rehashKeyList = None, nodes = (\<lambda>_. None), nextNode = 0\<rparr>"

definition minutes_of :: "int \<Rightarrow> u32" where
  "minutes_of now = of_int (now div 60000000)"

definition seconds_of :: "int \<Rightarrow> int" where
  "seconds_of now = now div 1000000"

section \<open>The linked lists\<close>

definition change_node :: "key_id \<Rightarrow> (KeyNode \<Rightarrow> KeyNode) \<Rightarrow> key_heap \<Rightarrow> key_heap option" where
  "change_node p f h = map_option (\<lambda>n. h(p \<mapsto> f n)) (h p)"

definition change_if :: "key_id option \<Rightarrow> (KeyNode \<Rightarrow> KeyNode) \<Rightarrow> key_heap \<Rightarrow> key_heap option" where
  "change_if p f h = (case p of None \<Rightarrow> Some h | Some q \<Rightarrow> change_node q f h)"

definition add_before :: "key_id \<Rightarrow> key_id option \<Rightarrow> key_heap \<Rightarrow> (key_id option \<times> key_heap) option" where
  "add_before elem place h =
     (case place of
        None \<Rightarrow> do { h \<leftarrow> change_node elem (\<lambda>n. n\<lparr>kn_next := None, kn_previous := None\<rparr>) h; Some (Some elem, h) }
      | Some p \<Rightarrow> do {
          n \<leftarrow> h p;
          h \<leftarrow> change_node elem (\<lambda>e. e\<lparr>kn_next := Some p, kn_previous := kn_previous n\<rparr>) h;
          h \<leftarrow> change_node p (\<lambda>n. n\<lparr>kn_previous := Some elem\<rparr>) h;
          h \<leftarrow> change_if (kn_previous n) (\<lambda>q. q\<lparr>kn_next := Some elem\<rparr>) h;
          Some (place, h)
        })"

definition add_after :: "key_id \<Rightarrow> key_id option \<Rightarrow> key_heap \<Rightarrow> (key_id option \<times> key_heap) option" where
  "add_after elem place h =
     (case place of
        None \<Rightarrow> do { h \<leftarrow> change_node elem (\<lambda>n. n\<lparr>kn_next := None, kn_previous := None\<rparr>) h; Some (Some elem, h) }
      | Some p \<Rightarrow> do {
          n \<leftarrow> h p;
          h \<leftarrow> change_node elem (\<lambda>e. e\<lparr>kn_next := kn_next n, kn_previous := Some p\<rparr>) h;
          h \<leftarrow> change_node p (\<lambda>n. n\<lparr>kn_next := Some elem\<rparr>) h;
          h \<leftarrow> change_if (kn_next n) (\<lambda>q. q\<lparr>kn_previous := Some elem\<rparr>) h;
          Some (place, h)
        })"

definition list_delete :: "key_id \<Rightarrow> key_id option \<Rightarrow> key_heap \<Rightarrow> (key_id option \<times> key_heap) option" where
  "list_delete elem list h = do {
     e \<leftarrow> h elem;
     let list' = (if list = Some elem then (if kn_previous e \<noteq> None then kn_previous e else kn_next e) else list);
     h \<leftarrow> change_if (kn_next e) (\<lambda>n. n\<lparr>kn_previous := kn_previous e\<rparr>) h;
     h \<leftarrow> change_if (kn_previous e) (\<lambda>n. n\<lparr>kn_next := kn_next e\<rparr>) h;
     Some (list', h)
   }"

text \<open>
  The comparator of these lists is \<open>assert(FALSE); return 0\<close>: with assertions it stops the program, without them it takes the
  first node it is asked about for the node that is searched.
\<close>

definition delete_if_member ::
    "bool \<Rightarrow> key_id option \<Rightarrow> key_heap \<Rightarrow> (key_id option \<times> key_id option \<times> key_heap) option" where
  "delete_if_member asserting list h =
     (case list of
        None \<Rightarrow> Some (None, None, h)
      | Some p \<Rightarrow> if asserting then None
                  else do { (list', h) \<leftarrow> list_delete p list h; Some (Some p, list', h) })"

section \<open>The hashes of a key\<close>

abbreviation (input) MIX_HASH_WITH_APPEND_COUNT :: nat where "MIX_HASH_WITH_APPEND_COUNT \<equiv> 3"
abbreviation (input) MIX_HASH_REDUNDANCY_MINUTES :: u32 where "MIX_HASH_REDUNDANCY_MINUTES \<equiv> 1"

definition CalcKeyHashImpl :: "key_env \<Rightarrow> u8 list \<Rightarrow> u8 list \<Rightarrow> u8 list option" where
  "CalcKeyHashImpl env aesKey appendBuffer = map_option (take 8) (mbedtls_sha256 env (aesKey @ appendBuffer))"

definition BdtHistory_KeyManagerCalcKeyHash :: "key_env \<Rightarrow> u8 list \<Rightarrow> u8 list option" where
  "BdtHistory_KeyManagerCalcKeyHash env aesKey = CalcKeyHashImpl env aesKey []"

definition minute_bytes :: "u32 \<Rightarrow> u8 list" where
  "minute_bytes m = le_bytes 4 (unat m)"

text \<open>
  The slots are renewed from the next one on, as long as they are empty or older than \<open>minMinutes\<close>: the
  node, the new hashes and the old ones in their place.
\<close>

fun rehash_slots :: "nat \<Rightarrow> key_env \<Rightarrow> u32 \<Rightarrow> u32 \<Rightarrow> KeyNode \<Rightarrow>
    (KeyNode \<times> MixHashInfo list \<times> MixHashInfo option list) option" where
  "rehash_slots 0 env minMinutes minutes n = Some (n, [], [])"
| "rehash_slots (Suc k) env minMinutes minutes n =
     (let at = unat (nextUpdateHash n); old = hashSlots n ! at
      in if (case old of None \<Rightarrow> False | Some info \<Rightarrow> mh_minutes info \<ge> minMinutes) then Some (n, [], [])
         else (case CalcKeyHashImpl env (aes_key n) (minute_bytes minutes) of
                 None \<Rightarrow> if asserts env then None else Some (n, [], [])
               | Some hash \<Rightarrow> do {
                   let new = \<lparr>mh_hash = hash, mh_minutes = minutes\<rparr>;
                   (n, news, deads) \<leftarrow> rehash_slots k env minMinutes (minutes + 1)
                     (n\<lparr>hashSlots := (hashSlots n)[at := Some new], nextUpdateHash := (nextUpdateHash n + 1) mod 3\<rparr>);
                   Some (n, new # news, old # deads)
                 }))"

definition KeyManagerRehashAesKey ::
    "key_env \<Rightarrow> u32 \<Rightarrow> KeyNode \<Rightarrow> (KeyNode \<times> MixHashInfo list \<times> MixHashInfo option list) option" where
  "KeyManagerRehashAesKey env minutes n =
     (let minMinutes = minutes - MIX_HASH_REDUNDANCY_MINUTES; maxMinutes = minutes + MIX_HASH_REDUNDANCY_MINUTES
      in if hashCount n = 0 then
           (let n = n\<lparr>hashCount := 4\<rparr>
            in case CalcKeyHashImpl env (aes_key n) [] of
                 None \<Rightarrow> Some (n, [], [])
               | Some h \<Rightarrow> do {
                   let original = \<lparr>mh_hash = h, mh_minutes = 0\<rparr>;
                   (n, news, deads) \<leftarrow> rehash_slots MIX_HASH_WITH_APPEND_COUNT env minMinutes (minutes - MIX_HASH_REDUNDANCY_MINUTES)
                     (n\<lparr>nextUpdateHash := 0, originalHashNode := Some original\<rparr>);
                   Some (n, original # news, None # deads)
                 })
         else do {
           newest \<leftarrow> hashSlots n ! unat ((nextUpdateHash n - 1) mod 3);
           let nextMinutes = mh_minutes newest + 1;
           if nextMinutes < minMinutes
           then rehash_slots MIX_HASH_WITH_APPEND_COUNT env minMinutes (minutes - MIX_HASH_REDUNDANCY_MINUTES) n
           else if nextMinutes > maxMinutes then Some (n, [], [])
           else rehash_slots MIX_HASH_WITH_APPEND_COUNT env minMinutes minutes n
         })"

section \<open>The tree of hashes\<close>

text \<open>Deleting an entry that is not in the tree is an assertion of the tree.\<close>

definition KeyManagerDeleteMixHash :: "key_id \<Rightarrow> MixHashInfo option \<Rightarrow> (u8 list \<times> key_id) list \<Rightarrow> (u8 list \<times> key_id) list option" where
  "KeyManagerDeleteMixHash p info m =
     (case info of None \<Rightarrow> Some m
      | Some i \<Rightarrow> if (mh_hash i, p) \<in> set m then Some (remove1 (mh_hash i, p) m) else None)"

text \<open>The hashes that a key has lost are replaced one by one by those it has got.\<close>

fun replace_hashes :: "key_id \<Rightarrow> MixHashInfo list \<Rightarrow> MixHashInfo option list \<Rightarrow> (u8 list \<times> key_id) list \<Rightarrow>
    (u8 list \<times> key_id) list option" where
  "replace_hashes p (new # news) (dead # deads) m = do {
     m \<leftarrow> KeyManagerDeleteMixHash p dead m;
     replace_hashes p news deads ((mh_hash new, p) # m)
   }"
| "replace_hashes p news deads m = Some m"

definition KeyManagerFindByMixHashNoRehashNoLock :: "u8 list \<Rightarrow> KeyManager \<Rightarrow> key_id option" where
  "KeyManagerFindByMixHashNoRehashNoLock mixHash km = map_of (mixHashKeyMap km) mixHash"

section \<open>Searching by hash\<close>

text \<open>
  The first node of the rehash list gets its new hashes and goes to the front of the key list if one of
  them is searched, to its end otherwise: whether it has been found, how many hashes were new.
\<close>

definition KeyManagerFindByMixHashInNextRehashNodeNoLock ::
    "key_env \<Rightarrow> u32 \<Rightarrow> u8 list \<Rightarrow> KeyManager \<Rightarrow> (key_id option \<times> nat \<times> KeyManager) option" where
  "KeyManagerFindByMixHashInNextRehashNodeNoLock env minutes mixHash km =
     (case rehashKeyList km of
        None \<Rightarrow> Some (None, 0, km)
      | Some node \<Rightarrow> do {
          (rehash, h) \<leftarrow> list_delete node (rehashKeyList km) (nodes km);
          n \<leftarrow> h node;
          (n, news, deads) \<leftarrow> KeyManagerRehashAesKey env minutes n;
          m \<leftarrow> replace_hashes node news deads (mixHashKeyMap km);
          let h = h(node \<mapsto> n);
          if mixHash \<in> set (map mh_hash news) then do {
            (header, h) \<leftarrow> add_before node (keyHeader km) h;
            Some (Some node, length news,
              km\<lparr>rehashKeyList := rehash, nodes := h, mixHashKeyMap := m, keyHeader := header,
                firstHashMinutes := (if keyTail km = None then minutes else firstHashMinutes km),
                keyTail := (if keyTail km = None then Some node else keyTail km)\<rparr>)
          }
          else do {
            (tail, h) \<leftarrow> add_after node (keyTail km) h;
            Some (None, length news,
              km\<lparr>rehashKeyList := rehash, nodes := h, mixHashKeyMap := m, keyTail := tail,
                firstHashMinutes := (if keyHeader km = None then minutes else firstHashMinutes km),
                keyHeader := (if keyHeader km = None then Some node else keyHeader km)\<rparr>)
          }
        })"

definition KeyManagerMoveAllKeyToRehashNoLock :: "KeyManager \<Rightarrow> KeyManager option" where
  "KeyManagerMoveAllKeyToRehashNoLock km = do {
     tail \<leftarrow> keyTail km;
     h \<leftarrow> change_node tail (\<lambda>n. n\<lparr>kn_next := rehashKeyList km\<rparr>) (nodes km);
     h \<leftarrow> change_if (rehashKeyList km) (\<lambda>n. n\<lparr>kn_previous := Some tail\<rparr>) h;
     Some (km\<lparr>nodes := h, rehashKeyList := keyHeader km, keyHeader := None, keyTail := None\<rparr>)
   }"

definition KeyManagerUpdateKey :: "bool \<Rightarrow> int \<Rightarrow> KeyNode \<Rightarrow> bool \<times> KeyNode" where
  "KeyManagerUpdateKey confirmed expire n =
     (let (changed, n) = (if confirmed \<and> \<not> isConfirmed n then (True, n\<lparr>isConfirmed := True\<rparr>) else (False, n))
      in if expire \<noteq> 0 \<and> (expire < expireTime n \<or> expire - expireTime n > 60)
         then (True, n\<lparr>expireTime := expire\<rparr>) else (changed, n))"

text \<open>Whether the key is new for the storage, and whether there is a storage.\<close>

definition KeyManagerPrepareForStorage :: "KeyManager \<Rightarrow> KeyNode \<Rightarrow> bool \<times> bool \<times> KeyNode" where
  "KeyManagerPrepareForStorage km n =
     (if km_storage km then (\<not> isStorage n, True, n\<lparr>isStorage := True\<rparr>) else (False, False, n))"

definition storage_call_of :: "bool \<Rightarrow> KeyNode \<Rightarrow> storage_call" where
  "storage_call_of new n =
     \<lparr>sc_peerid = key_peerid n, sc_key = aes_key n, sc_expireTime = expireTime n, sc_flags = (isConfirmed n, isStorage n),
      sc_lastAccessTime = lastAccessTime n, sc_isNew = new\<rparr>"


definition KeyManagerFindKeyByPeeridNoLock :: "u8 list \<Rightarrow> KeyManager \<Rightarrow> key_id list option" where
  "KeyManagerFindKeyByPeeridNoLock peerid km = map_of (peeridKeyMap km) peerid"

fun key_among :: "key_heap \<Rightarrow> u8 list \<Rightarrow> key_id list \<Rightarrow> key_id option option" where
  "key_among h aesKey [] = Some None"
| "key_among h aesKey (p # ps) = do { n \<leftarrow> h p; if aes_key n = aesKey then Some (Some p) else key_among h aesKey ps }"

definition KeyManagerFindAesKeyNoLock :: "u8 list \<Rightarrow> u8 list \<Rightarrow> KeyManager \<Rightarrow> key_id option option" where
  "KeyManagerFindAesKeyNoLock aesKey peerid km =
     (case KeyManagerFindKeyByPeeridNoLock peerid km of
        None \<Rightarrow> Some None
      | Some ps \<Rightarrow> if ps = [] then None else key_among (nodes km) aesKey ps)"

text \<open>A call of the storage, and what its answer changes.\<close>

definition KeyManagerStorageUpdateAesKey :: "key_env \<Rightarrow> storage_call \<Rightarrow> KeyManager \<Rightarrow> KeyManager option" where
  "KeyManagerStorageUpdateAesKey env call km =
     (if storage_answer env \<noteq> BFX_RESULT_PENDING \<and> sc_isNew call \<and> storage_answer env \<noteq> BFX_RESULT_SUCCESS \<and>
         storage_answer env \<noteq> BFX_RESULT_ALREADY_OPERATION
      then do {
        found \<leftarrow> KeyManagerFindAesKeyNoLock (sc_key call) (sc_peerid call) km;
        h \<leftarrow> change_if found (\<lambda>n. n\<lparr>isStorage := False\<rparr>) (nodes km);
        Some (km\<lparr>nodes := h\<rparr>)
      }
      else Some km)"

definition store_if :: "key_env \<Rightarrow> bool \<Rightarrow> storage_call \<Rightarrow> KeyManager \<Rightarrow> (storage_call list \<times> KeyManager) option" where
  "store_if env wanted call km =
     (if wanted then do { km \<leftarrow> KeyManagerStorageUpdateAesKey env call km; Some ([call], km) } else Some ([], km))"

text \<open>A key that has been found: it is read, and its times and flags are renewed.\<close>

definition touch_key :: "int \<Rightarrow> bool \<Rightarrow> bool \<Rightarrow> int \<Rightarrow> KeyNode \<Rightarrow> bool \<times> KeyNode" where
  "touch_key now touch confirmedByRemote active n =
     KeyManagerUpdateKey confirmedByRemote (if touch then seconds_of now + active else 0) (n\<lparr>lastAccessTime := seconds_of now\<rparr>)"

text \<open>A key found in the tree.\<close>

definition use_found :: "key_env \<Rightarrow> int \<Rightarrow> bool \<Rightarrow> bool \<Rightarrow> key_id \<Rightarrow> KeyManager \<Rightarrow>
    (u8 list \<times> u8 list \<times> storage_call list \<times> KeyManager) option" where
  "use_found env now touch confirmedByRemote p km = do {
     n \<leftarrow> nodes km p;
     let (changed, n) = touch_key now touch confirmedByRemote (km_activeTime km) n;
     let (isNewStorage, canStorage, n) = KeyManagerPrepareForStorage km n;
     (calls, km) \<leftarrow> store_if env (changed \<and> canStorage) (storage_call_of isNewStorage n) (km\<lparr>nodes := (nodes km)(p \<mapsto> n)\<rparr>);
     Some (aes_key n, key_peerid n, calls, km)
   }"

text \<open>
  The loop over the rehash list. It ends when a key is found or the list is empty; whether it ends depends
  on the links.
\<close>

partial_function (option) rehash_loop ::
    "key_env \<Rightarrow> u32 \<Rightarrow> u8 list \<Rightarrow> KeyManager \<Rightarrow> (key_id option \<times> KeyManager) option" where
  "rehash_loop env minutes mixHash km =
     (if rehashKeyList km = None then Some (None, km)
      else do {
        r \<leftarrow> KeyManagerFindByMixHashInNextRehashNodeNoLock env minutes mixHash km;
        case r of
          (Some p, count, km) \<Rightarrow> Some (Some p, km)
        | (None, count, km) \<Rightarrow> rehash_loop env minutes mixHash km
      })"

declare rehash_loop.simps [code]

text \<open>
  The result with the key and its peer. A key found while its hashes are renewed is not stored,
  because nobody has looked whether there is a storage.
\<close>

definition BdtHistory_KeyManagerFindByMixHash :: "key_env \<Rightarrow> int \<Rightarrow> u8 list \<Rightarrow> bool \<Rightarrow> bool \<Rightarrow> KeyManager \<Rightarrow>
    ((u8 list \<times> u8 list) option \<times> storage_call list \<times> KeyManager) option" where
  "BdtHistory_KeyManagerFindByMixHash env now mixHash touch confirmedByRemote km =
     (case KeyManagerFindByMixHashNoRehashNoLock mixHash km of
        Some p \<Rightarrow> do {
          (key, peerid, calls, km) \<leftarrow> use_found env now touch confirmedByRemote p km;
          Some (Some (key, peerid), calls, km)
        }
      | None \<Rightarrow> do {
          km \<leftarrow> (if minutes_of now - firstHashMinutes km > 0 \<and> keyTail km \<noteq> None
                then KeyManagerMoveAllKeyToRehashNoLock km else Some km);
          (found, km) \<leftarrow> rehash_loop env (minutes_of now) mixHash km;
          case found of
            Some p \<Rightarrow> do {
              n \<leftarrow> nodes km p;
              let (changed, n) = touch_key now touch confirmedByRemote (km_activeTime km) n;
              Some (Some (aes_key n, key_peerid n), [], km\<lparr>nodes := (nodes km)(p \<mapsto> n)\<rparr>)
            }
          | None \<Rightarrow>
              (case KeyManagerFindByMixHashNoRehashNoLock mixHash km of
                 None \<Rightarrow> Some (None, [], km)
               | Some p \<Rightarrow> do {
                   (key, peerid, calls, km) \<leftarrow> use_found env now touch confirmedByRemote p km;
                   Some (Some (key, peerid), calls, km)
                 })
        })"

section \<open>Adding and deleting keys\<close>

definition KeyNodeCreate :: "int \<Rightarrow> u8 list \<Rightarrow> u8 list \<Rightarrow> KeyNode" where
  "KeyNodeCreate now aesKey peerid =
     \<lparr>aes_key = aesKey, key_peerid = peerid, isConfirmed = False, isStorage = False, expireTime = 0,
      lastAccessTime = seconds_of now, originalHashNode = None, hashSlots = [None, None, None], nextUpdateHash = 0,
      hashCount = 0, kn_previous = None, kn_next = None\<rparr>"

text \<open>All four hashes of a key; one that is missing is a null pointer that is followed.\<close>

definition all_hashes :: "KeyNode \<Rightarrow> u8 list list option" where
  "all_hashes n = those (map (map_option mh_hash) (originalHashNode n # hashSlots n))"

definition KeyManagerAddNewKeyNoLock :: "key_env \<Rightarrow> int \<Rightarrow> u8 list \<Rightarrow> u8 list \<Rightarrow> KeyManager \<Rightarrow>
    (u32 \<times> key_id \<times> KeyManager) option" where
  "KeyManagerAddNewKeyNoLock env now aesKey peerid km = do {
     found \<leftarrow> KeyManagerFindAesKeyNoLock aesKey peerid km;
     case found of
       Some p \<Rightarrow> Some (BFX_RESULT_ALREADY_EXISTS, p, km)
     | None \<Rightarrow> do {
         let p = nextNode km;
         let n = KeyNodeCreate now aesKey peerid;
         (n, news, deads) \<leftarrow> KeyManagerRehashAesKey env (minutes_of now) (n\<lparr>expireTime := lastAccessTime n + km_activeTime km\<rparr>);
         (header, h) \<leftarrow> add_before p (keyHeader km) ((nodes km)(p \<mapsto> n));
         hashes \<leftarrow> all_hashes n;
         Some (BFX_RESULT_SUCCESS, p,
           km\<lparr>nodes := h, nextNode := nextNode km + 1, keyHeader := header,
             firstHashMinutes := (if keyTail km = None then minutes_of now else firstHashMinutes km),
             keyTail := (if keyTail km = None then Some p else keyTail km),
             peeridKeyMap := (peerid, p # (case map_of (peeridKeyMap km) peerid of None \<Rightarrow> [] | Some ps \<Rightarrow> ps)) #
               filter (\<lambda>e. fst e \<noteq> peerid) (peeridKeyMap km),
             mixHashKeyMap := map (\<lambda>h. (h, p)) (rev hashes) @ mixHashKeyMap km\<rparr>)
       }
   }"

definition KeyManagerRemoveKeyNodeFromList :: "bool \<Rightarrow> u32 \<Rightarrow> key_id \<Rightarrow> KeyManager \<Rightarrow> KeyManager option" where
  "KeyManagerRemoveKeyNodeFromList asserting minHashMinutes p km = do {
     n \<leftarrow> nodes km p;
     oldest \<leftarrow> hashSlots n ! unat (nextUpdateHash n);
     if mh_minutes oldest < minHashMinutes then do {
       (found, rehash, h) \<leftarrow> delete_if_member asserting (rehashKeyList km) (nodes km);
       if found \<noteq> None then Some (km\<lparr>rehashKeyList := rehash, nodes := h\<rparr>)
       else do {
         (header, h) \<leftarrow> list_delete p (keyHeader km) h;
         Some (km\<lparr>rehashKeyList := rehash, nodes := h, keyHeader := header, keyTail := (if header = None then None else keyTail km)\<rparr>)
       }
     }
     else do {
       (found, header, h) \<leftarrow> delete_if_member asserting (keyHeader km) (nodes km);
       if found \<noteq> None
       then Some (km\<lparr>keyHeader := header, nodes := h, keyTail := (if header = None then None else keyTail km)\<rparr>)
       else do {
         (rehash, h) \<leftarrow> list_delete p (rehashKeyList km) h;
         Some (km\<lparr>keyHeader := header, nodes := h, rehashKeyList := rehash\<rparr>)
       }
     }
   }"

fun delete_hashes :: "key_id \<Rightarrow> MixHashInfo option list \<Rightarrow> (u8 list \<times> key_id) list \<Rightarrow> (u8 list \<times> key_id) list option" where
  "delete_hashes p [] m = Some m"
| "delete_hashes p (i # is) m = do { m \<leftarrow> KeyManagerDeleteMixHash p i m; delete_hashes p is m }"

definition KeyManagerDeleteKey :: "bool \<Rightarrow> u32 \<Rightarrow> key_id \<Rightarrow> KeyManager \<Rightarrow> KeyManager option" where
  "KeyManagerDeleteKey asserting minHashMinutes p km = do {
     n \<leftarrow> nodes km p;
     m \<leftarrow> delete_hashes p (originalHashNode n # hashSlots n) (mixHashKeyMap km);
     km \<leftarrow> KeyManagerRemoveKeyNodeFromList asserting minHashMinutes p (km\<lparr>mixHashKeyMap := m\<rparr>);
     Some (km\<lparr>nodes := (nodes km)(p := None)\<rparr>)
   }"

text \<open>The keys of one peer that have expired; the peer goes with its last key.\<close>

fun clear_expired :: "bool \<Rightarrow> int \<Rightarrow> u32 \<Rightarrow> key_id list \<Rightarrow> KeyManager \<Rightarrow> (key_id list \<times> KeyManager) option" where
  "clear_expired asserting nowSeconds minHashMinutes [] km = Some ([], km)"
| "clear_expired asserting nowSeconds minHashMinutes (p # ps) km = do {
     n \<leftarrow> nodes km p;
     if expireTime n > nowSeconds then do {
       (kept, km) \<leftarrow> clear_expired asserting nowSeconds minHashMinutes ps km;
       Some (p # kept, km)
     }
     else do {
       km \<leftarrow> KeyManagerDeleteKey asserting minHashMinutes p km;
       clear_expired asserting nowSeconds minHashMinutes ps km
     }
   }"

definition KeyManagerClearExpireKeyNoLock :: "bool \<Rightarrow> int \<Rightarrow> u8 list \<Rightarrow> KeyManager \<Rightarrow> KeyManager option" where
  "KeyManagerClearExpireKeyNoLock asserting now peerid km = do {
     ps \<leftarrow> KeyManagerFindKeyByPeeridNoLock peerid km;
     (kept, km) \<leftarrow> clear_expired asserting (seconds_of now) (minutes_of now - MIX_HASH_REDUNDANCY_MINUTES) ps km;
     let others = filter (\<lambda>e. fst e \<noteq> peerid) (peeridKeyMap km);
     Some (km\<lparr>peeridKeyMap := (if kept = [] then others else (peerid, kept) # others)\<rparr>)
   }"


section \<open>Keys by peer\<close>

text \<open>The first of the keys used last.\<close>

fun last_access :: "key_heap \<Rightarrow> key_id \<Rightarrow> key_id list \<Rightarrow> key_id option" where
  "last_access h best [] = Some best"
| "last_access h best (p # ps) = do {
     b \<leftarrow> h best;
     n \<leftarrow> h p;
     last_access h (if lastAccessTime n > lastAccessTime b then p else best) ps
   }"

definition KeyManagerFindLastAccessKeyByRemoteNoLock :: "int \<Rightarrow> u8 list \<Rightarrow> KeyManager \<Rightarrow> (key_id option \<times> KeyManager) option" where
  "KeyManagerFindLastAccessKeyByRemoteNoLock now peerid km =
     (case KeyManagerFindKeyByPeeridNoLock peerid km of
        None \<Rightarrow> Some (None, km)
      | Some [] \<Rightarrow> None
      | Some (p # ps) \<Rightarrow> do {
          best \<leftarrow> last_access (nodes km) p ps;
          n \<leftarrow> nodes km best;
          if seconds_of now < expireTime n
          then Some (Some best, km\<lparr>nodes := (nodes km)(best \<mapsto> n\<lparr>lastAccessTime := seconds_of now\<rparr>)\<rparr>)
          else Some (None, km)
        })"

record get_key_result =
  gk_result :: u32
  gk_key :: "u8 list option"
  gk_new :: bool
  gk_confirmed :: bool
  gk_calls :: "storage_call list"

text \<open>\<open>fresh\<close> is the key that the random generator makes when a new one is needed.\<close>

definition BdtHistory_KeyManagerGetKeyByRemote :: "key_env \<Rightarrow> int \<Rightarrow> u8 list \<Rightarrow> u8 list \<Rightarrow> bool \<Rightarrow> bool \<Rightarrow> KeyManager \<Rightarrow>
    (get_key_result \<times> KeyManager) option" where
  "BdtHistory_KeyManagerGetKeyByRemote env now fresh peerid new touch km = do {
     (found, km) \<leftarrow> KeyManagerFindLastAccessKeyByRemoteNoLock now peerid km;
     case found of
       Some p \<Rightarrow> do {
         n \<leftarrow> nodes km p;
         let (changed, n) = KeyManagerUpdateKey False (if touch then lastAccessTime n + km_activeTime km else 0) n;
         let (isNewStorage, canStorage, n) = KeyManagerPrepareForStorage km n;
         let km = km\<lparr>nodes := (nodes km)(p \<mapsto> n)\<rparr>;
         km \<leftarrow> (if (case KeyManagerFindKeyByPeeridNoLock peerid km of Some (q # r # ps) \<Rightarrow> True | _ \<Rightarrow> False)
               then KeyManagerClearExpireKeyNoLock (asserts env) now peerid km else Some km);
         (calls, km) \<leftarrow> store_if env (changed \<and> canStorage) ((storage_call_of isNewStorage n)\<lparr>sc_peerid := peerid\<rparr>) km;
         Some (\<lparr>gk_result = BFX_RESULT_SUCCESS, gk_key = Some (aes_key n), gk_new = False, gk_confirmed = isConfirmed n, gk_calls = calls\<rparr>, km)
       }
     | None \<Rightarrow>
         if \<not> new
         then Some (\<lparr>gk_result = BFX_RESULT_NOT_FOUND, gk_key = None, gk_new = False, gk_confirmed = False, gk_calls = []\<rparr>, km)
         else do {
           km \<leftarrow> (if KeyManagerFindKeyByPeeridNoLock peerid km \<noteq> None
                 then KeyManagerClearExpireKeyNoLock (asserts env) now peerid km else Some km);
           (result, p, km) \<leftarrow> KeyManagerAddNewKeyNoLock env now fresh peerid km;
           n \<leftarrow> nodes km p;
           let (isNewStorage, canStorage, n) = KeyManagerPrepareForStorage km n;
           (calls, km) \<leftarrow> store_if env canStorage ((storage_call_of True n)\<lparr>sc_key := fresh\<rparr>) (km\<lparr>nodes := (nodes km)(p \<mapsto> n)\<rparr>);
           Some (\<lparr>gk_result = result, gk_key = Some fresh, gk_new = True, gk_confirmed = False, gk_calls = calls\<rparr>, km)
         }
   }"

definition BdtHistory_KeyManagerAddKey :: "key_env \<Rightarrow> int \<Rightarrow> u8 list \<Rightarrow> u8 list \<Rightarrow> bool \<Rightarrow> KeyManager \<Rightarrow>
    (u32 \<times> storage_call list \<times> KeyManager) option" where
  "BdtHistory_KeyManagerAddKey env now aesKey peerid confirmedByRemote km = do {
     found \<leftarrow> KeyManagerFindAesKeyNoLock aesKey peerid km;
     (stored, km) \<leftarrow> (case found of
         None \<Rightarrow> Some (None, km)
       | Some p \<Rightarrow> do {
           n \<leftarrow> nodes km p;
           let (changed, n) = touch_key now True confirmedByRemote (km_activeTime km) n;
           let (isNewStorage, canStorage, n) = KeyManagerPrepareForStorage km n;
           Some (if canStorage then Some (storage_call_of isNewStorage n) else None, km\<lparr>nodes := (nodes km)(p \<mapsto> n)\<rparr>)
         });
     case stored of
       Some call \<Rightarrow> do {
         km \<leftarrow> KeyManagerStorageUpdateAesKey env call km;
         Some (BFX_RESULT_ALREADY_EXISTS, [call], km)
       }
     | None \<Rightarrow> do {
         (result, p, km) \<leftarrow> KeyManagerAddNewKeyNoLock env now aesKey peerid km;
         n \<leftarrow> nodes km p;
         let n = (if confirmedByRemote then n\<lparr>isConfirmed := True\<rparr> else n);
         let (isNewStorage, canStorage, n) = KeyManagerPrepareForStorage km n;
         (calls, km) \<leftarrow> store_if env canStorage (storage_call_of True n) (km\<lparr>nodes := (nodes km)(p \<mapsto> n)\<rparr>);
         Some (result, calls, km)
       }
   }"

section \<open>Keys from the storage\<close>

record BdtHistory_KeyInfo =
  ki_aesKey :: "u8 list"
  ki_isConfirmed :: bool
  ki_expireTime :: int
  ki_lastAccessTime :: int
  ki_peerid :: "u8 list"

definition KeyManagerAddOuterKey :: "key_env \<Rightarrow> int \<Rightarrow> BdtHistory_KeyInfo \<Rightarrow> KeyManager \<Rightarrow> KeyManager option" where
  "KeyManagerAddOuterKey env now outer km = do {
     (result, p, km) \<leftarrow> KeyManagerAddNewKeyNoLock env now (ki_aesKey outer) (ki_peerid outer) km;
     if result = BFX_RESULT_ALREADY_EXISTS then Some km
     else do {
       h \<leftarrow> change_node p (\<lambda>n. n\<lparr>isConfirmed := ki_isConfirmed outer, isStorage := True,
              expireTime := ki_expireTime outer, lastAccessTime := ki_lastAccessTime outer\<rparr>) (nodes km);
       Some (km\<lparr>nodes := h\<rparr>)
     }
   }"

fun KeyManagerMergeOuterKeysNoLock :: "key_env \<Rightarrow> int \<Rightarrow> BdtHistory_KeyInfo list \<Rightarrow> KeyManager \<Rightarrow> KeyManager option" where
  "KeyManagerMergeOuterKeysNoLock env now [] km = Some km"
| "KeyManagerMergeOuterKeysNoLock env now (k # ks) km = do {
     km \<leftarrow> KeyManagerAddOuterKey env now k km;
     KeyManagerMergeOuterKeysNoLock env now ks km
   }"

definition BdtHistory_KeyManagerOnLoadDone :: "key_env \<Rightarrow> int \<Rightarrow> u32 \<Rightarrow> BdtHistory_KeyInfo list \<Rightarrow> KeyManager \<Rightarrow> KeyManager option" where
  "BdtHistory_KeyManagerOnLoadDone env now errorCode keys km =
     (if errorCode \<noteq> BFX_RESULT_SUCCESS then Some km
      else KeyManagerMergeOuterKeysNoLock env now keys (km\<lparr>km_storage := True\<rparr>))"


end
