(* ===== verification/KeyFacts.thy ===== *)
theory KeyFacts
  imports KeyManager "HOL-Library.Multiset"
begin

text \<open>
  The tree of hashes holds, whatever happens, exactly the hashes of the keys that are alive. So a key that
  a search finds has the hash that was searched, and every key that is alive is found by the hash of the key
  itself. The hash of the current minute is among those of every key whose hashes have just been renewed.
\<close>

section \<open>The invariant\<close>

definition infos :: "MixHashInfo option list \<Rightarrow> u8 list list" where
  "infos is = concat (map (\<lambda>i. case i of None \<Rightarrow> [] | Some i \<Rightarrow> [mh_hash i]) is)"

lemma infos_simps [simp]:
  "infos [] = []" "infos (None # is) = infos is" "infos (Some i # is) = mh_hash i # infos is" "infos (xs @ ys) = infos xs @ infos ys"
  by (simp_all add: infos_def)

definition node_hashes :: "KeyNode \<Rightarrow> u8 list list" where
  "node_hashes n = infos (originalHashNode n # hashSlots n)"

definition original_ok :: "key_env \<Rightarrow> KeyNode \<Rightarrow> bool" where
  "original_ok env n \<longleftrightarrow> (\<exists>i. originalHashNode n = Some i \<and> CalcKeyHashImpl env (aes_key n) [] = Some (mh_hash i))"

definition slots_ok :: "key_env \<Rightarrow> KeyNode \<Rightarrow> bool" where
  "slots_ok env n \<longleftrightarrow> length (hashSlots n) = 3 \<and> unat (nextUpdateHash n) < 3 \<and>
     (\<forall>i. Some i \<in> set (hashSlots n) \<longrightarrow> CalcKeyHashImpl env (aes_key n) (minute_bytes (mh_minutes i)) = Some (mh_hash i))"

definition node_ok :: "(u8 list \<times> u8 list) set \<Rightarrow> key_env \<Rightarrow> KeyNode \<Rightarrow> bool" where
  "node_ok S env n \<longleftrightarrow> original_ok env n \<and> slots_ok env n \<and> hashCount n \<noteq> 0 \<and> (aes_key n, key_peerid n) \<in> S"

definition hashes_at :: "key_id \<Rightarrow> (u8 list \<times> key_id) list \<Rightarrow> u8 list list" where
  "hashes_at p m = map fst (filter (\<lambda>e. snd e = p) m)"

lemma hashes_at_simps [simp]:
  "hashes_at p [] = []" "hashes_at p ((h, p) # m) = h # hashes_at p m" "q \<noteq> p \<Longrightarrow> hashes_at p ((h, q) # m) = hashes_at p m"
  "hashes_at p (xs @ ys) = hashes_at p xs @ hashes_at p ys"
  by (simp_all add: hashes_at_def)

lemma in_hashes_at: "h \<in> set (hashes_at p m) \<longleftrightarrow> (h, p) \<in> set m"
  by (force simp: hashes_at_def)

text \<open>The part of a node that the links, times and flags do not belong to.\<close>

definition hash_part :: "KeyNode \<Rightarrow> u8 list \<times> u8 list \<times> MixHashInfo option \<times> MixHashInfo option list \<times> u32 \<times> u32" where
  "hash_part n = (aes_key n, key_peerid n, originalHashNode n, hashSlots n, nextUpdateHash n, hashCount n)"

definition keys_view :: "key_heap \<Rightarrow> key_id \<Rightarrow> (u8 list \<times> u8 list \<times> MixHashInfo option \<times> MixHashInfo option list \<times> u32 \<times> u32) option" where
  "keys_view h p = map_option hash_part (h p)"

lemma part_ok: "hash_part n' = hash_part n \<Longrightarrow> node_ok S env n' = node_ok S env n \<and> node_hashes n' = node_hashes n \<and>
    aes_key n' = aes_key n \<and> key_peerid n' = key_peerid n"
  by (simp add: hash_part_def node_ok_def original_ok_def slots_ok_def node_hashes_def)

definition key_at :: "(u8 list \<times> u8 list) set \<Rightarrow> key_env \<Rightarrow> KeyManager \<Rightarrow> key_id \<Rightarrow> bool" where
  "key_at S env km p \<longleftrightarrow>
     (case nodes km p of
        None \<Rightarrow> hashes_at p (mixHashKeyMap km) = []
      | Some n \<Rightarrow> p < nextNode km \<and> node_ok S env n \<and> mset (hashes_at p (mixHashKeyMap km)) = mset (node_hashes n))"

definition keys_inv :: "(u8 list \<times> u8 list) set \<Rightarrow> key_env \<Rightarrow> KeyManager \<Rightarrow> bool" where
  "keys_inv S env km \<longleftrightarrow> (\<forall>p. key_at S env km p)"

lemma key_at_same:
  assumes "key_at S env km p" and "keys_view (nodes km') p = keys_view (nodes km) p" and "nextNode km' = nextNode km"
    and "hashes_at p (mixHashKeyMap km') = hashes_at p (mixHashKeyMap km)"
  shows "key_at S env km' p"
proof (cases "nodes km p")
  case None
  then show ?thesis using assms by (simp add: key_at_def keys_view_def)
next
  case (Some n)
  then obtain n' where n': "nodes km' p = Some n'" "hash_part n' = hash_part n"
    using assms(2) by (auto simp: keys_view_def)
  then show ?thesis using part_ok [OF n'(2), of S env] assms Some by (simp add: key_at_def)
qed

lemma keys_inv_same:
  assumes "keys_inv S env km" and "keys_view (nodes km') = keys_view (nodes km)" and "mixHashKeyMap km' = mixHashKeyMap km"
    and "nextNode km' = nextNode km"
  shows "keys_inv S env km'"
proof -
  have "key_at S env km' p" for p
    using key_at_same [of S env km p km'] assms(1) unfolding assms(2-4) by (simp add: keys_inv_def)
  then show ?thesis by (simp add: keys_inv_def)
qed

lemma keys_inv_init: "keys_inv S env (KeyManagerInit active)"
  by (simp add: keys_inv_def key_at_def KeyManagerInit_def)

section \<open>Links, times and flags\<close>

definition keeps_part :: "(KeyNode \<Rightarrow> KeyNode) \<Rightarrow> bool" where
  "keeps_part f \<longleftrightarrow> (\<forall>n. hash_part (f n) = hash_part n)"

lemma keeps_part_simps [simp]:
  "keeps_part (\<lambda>n. n\<lparr>kn_next := a n, kn_previous := b n\<rparr>)" "keeps_part (\<lambda>n. n\<lparr>kn_next := a n\<rparr>)" "keeps_part (\<lambda>n. n\<lparr>kn_previous := a n\<rparr>)"
  "keeps_part (\<lambda>n. n\<lparr>isStorage := c n\<rparr>)"
  "keeps_part (\<lambda>n. n\<lparr>isConfirmed := c n, isStorage := d n, expireTime := e n, lastAccessTime := f n\<rparr>)"
  by (simp_all add: keeps_part_def hash_part_def)

lemma view_upd: "h p = Some n \<Longrightarrow> hash_part n' = hash_part n \<Longrightarrow> keys_view (h(p \<mapsto> n')) = keys_view h"
  by (auto simp: keys_view_def)

lemma change_node_view: "change_node p f h = Some h' \<Longrightarrow> keeps_part f \<Longrightarrow> keys_view h' = keys_view h"
  by (auto simp: change_node_def keys_view_def keeps_part_def)

lemma change_if_view: "change_if p f h = Some h' \<Longrightarrow> keeps_part f \<Longrightarrow> keys_view h' = keys_view h"
  by (auto simp: change_if_def dest: change_node_view split: option.splits)

lemma add_before_view: "add_before p l h = Some (l', h') \<Longrightarrow> keys_view h' = keys_view h"
  by (auto simp: add_before_def Option.bind_eq_Some_conv dest!: change_node_view change_if_view split: option.splits)

lemma add_after_view: "add_after p l h = Some (l', h') \<Longrightarrow> keys_view h' = keys_view h"
  by (auto simp: add_after_def Option.bind_eq_Some_conv dest!: change_node_view change_if_view split: option.splits)

lemma list_delete_view: "list_delete p l h = Some (l', h') \<Longrightarrow> keys_view h' = keys_view h"
  by (auto simp: list_delete_def Option.bind_eq_Some_conv Let_def dest!: change_if_view)

lemma delete_if_member_view: "delete_if_member a l h = Some (q, l', h') \<Longrightarrow> keys_view h' = keys_view h"
  by (auto simp: delete_if_member_def Option.bind_eq_Some_conv dest!: list_delete_view split: option.splits if_splits)

lemmas link_views = change_node_view change_if_view add_before_view add_after_view list_delete_view delete_if_member_view

section \<open>Renewing hashes\<close>

lemma mset_infos_update:
  assumes "k < length is"
  shows "mset (infos (is[k := Some i])) + mset (infos [is ! k]) = mset (infos is) + {#mh_hash i#}"
  using assms
proof (induction "is" arbitrary: k)
  case (Cons j js)
  then show ?case by (cases k; cases j) (auto simp: nth_Cons')
qed simp

lemma mod_3_less: "unat ((w + 1 :: u32) mod 3) < 3"
  by (simp add: unat_mod)

lemma slots_ok_renew:
  assumes "slots_ok env n" and "CalcKeyHashImpl env (aes_key n) (minute_bytes minutes) = Some hash"
  shows "slots_ok env (n\<lparr>hashSlots := (hashSlots n)[unat (nextUpdateHash n) := Some \<lparr>mh_hash = hash, mh_minutes = minutes\<rparr>],
      nextUpdateHash := (nextUpdateHash n + 1) mod 3\<rparr>)"
  using assms mod_3_less [of "nextUpdateHash n"] set_update_subset_insert
  by (fastforce simp: slots_ok_def)

definition has_hash :: "key_env \<Rightarrow> u8 list \<Rightarrow> u8 list \<Rightarrow> bool" where
  "has_hash env key h \<longleftrightarrow> CalcKeyHashImpl env key [] = Some h \<or> (\<exists>m. CalcKeyHashImpl env key (minute_bytes m) = Some h)"

lemma node_has_hash: "node_ok S env n \<Longrightarrow> h \<in> set (node_hashes n) \<Longrightarrow> has_hash env (aes_key n) h"
  by (fastforce simp: node_ok_def original_ok_def slots_ok_def node_hashes_def infos_def has_hash_def split: option.splits)

text \<open>What renewing changes: the slots, and as many hashes come as places are looked at.\<close>

definition renewed :: "key_env \<Rightarrow> KeyNode \<Rightarrow> KeyNode \<Rightarrow> MixHashInfo list \<Rightarrow> MixHashInfo option list \<Rightarrow> bool" where
  "renewed env n n' news deads \<longleftrightarrow>
     slots_ok env n' \<and> aes_key n' = aes_key n \<and> key_peerid n' = key_peerid n \<and> length deads = length news \<and>
     (\<forall>i\<in>set news. has_hash env (aes_key n) (mh_hash i)) \<and>
     mset (node_hashes n') + mset (infos deads) = mset (node_hashes n) + mset (map mh_hash news)"

lemma rehash_slots_renew:
  assumes "rehash_slots k env minM minutes n = Some (n', news, deads)" and "slots_ok env n"
  shows "renewed env n n' news deads \<and> originalHashNode n' = originalHashNode n \<and> hashCount n' = hashCount n"
  using assms
proof (induction k arbitrary: minutes n n' news deads)
  case 0
  then show ?case by (simp add: renewed_def)
next
  case (Suc k)
  let ?at = "unat (nextUpdateHash n)"
  show ?case
  proof (cases "n' = n \<and> news = [] \<and> deads = []")
    case True
    then show ?thesis using Suc.prems by (simp add: renewed_def)
  next
    case False
    let ?new = "\<lambda>hash. \<lparr>mh_hash = hash, mh_minutes = minutes\<rparr>"
    let ?n = "\<lambda>hash. n\<lparr>hashSlots := (hashSlots n)[?at := Some (?new hash)], nextUpdateHash := (nextUpdateHash n + 1) mod 3\<rparr>"
    obtain hash ns ds where r: "CalcKeyHashImpl env (aes_key n) (minute_bytes minutes) = Some hash"
        "rehash_slots k env minM (minutes + 1) (?n hash) = Some (n', ns, ds)" "news = ?new hash # ns" "deads = hashSlots n ! ?at # ds"
      using Suc.prems(1) False
      by (auto simp: Let_def Option.bind_eq_Some_conv split: option.splits[where option = "CalcKeyHashImpl env (aes_key n) (minute_bytes minutes)"] if_splits)
    have IH: "renewed env (?n hash) n' ns ds \<and> originalHashNode n' = originalHashNode (?n hash) \<and> hashCount n' = hashCount (?n hash)"
      using Suc.IH [OF r(2) slots_ok_renew [OF Suc.prems(2) r(1)]] .
    have at: "?at < length (hashSlots n)" using Suc.prems(2) by (simp add: slots_ok_def)
    have here: "mset (node_hashes (?n hash)) + mset (infos [hashSlots n ! ?at]) = mset (node_hashes n) + {#hash#}"
      using mset_infos_update [OF at, of "?new hash"]
      by (cases "originalHashNode n") (simp_all add: node_hashes_def)
    have split: "mset (infos (hashSlots n ! ?at # ds)) = mset (infos [hashSlots n ! ?at]) + mset (infos ds)"
      by (cases "hashSlots n ! ?at") simp_all
    have "mset (node_hashes n') + mset (infos deads) = mset (node_hashes n) + mset (map mh_hash news)"
      unfolding r(3,4) split using IH here by (simp add: renewed_def) (metis (no_types, lifting) add.assoc add.commute add_mset_add_single)
    moreover have "has_hash env (aes_key n) hash" using r(1) by (auto simp: has_hash_def)
    ultimately show ?thesis using IH r(3,4) by (simp add: renewed_def)
  qed
qed

lemma rehash_renew:
  assumes "KeyManagerRehashAesKey env minutes n = Some (n', news, deads)" and "node_ok S env n"
  shows "renewed env n n' news deads \<and> node_ok S env n'"
proof -
  have n: "hashCount n \<noteq> 0" "slots_ok env n" using assms(2) by (simp_all add: node_ok_def)
  then have "(\<exists>k minM m. rehash_slots k env minM m n = Some (n', news, deads)) \<or> n' = n \<and> news = [] \<and> deads = []"
    using assms(1) by (auto simp: KeyManagerRehashAesKey_def Let_def Option.bind_eq_Some_conv split: if_splits)
  then show ?thesis
  proof
    assume "\<exists>k minM m. rehash_slots k env minM m n = Some (n', news, deads)"
    then have "renewed env n n' news deads \<and> originalHashNode n' = originalHashNode n \<and> hashCount n' = hashCount n"
      using rehash_slots_renew [OF _ n(2)] by blast
    then show ?thesis using assms(2) by (simp add: node_ok_def original_ok_def renewed_def)
  qed (use assms(2) n in \<open>simp add: renewed_def\<close>)
qed

lemma delete_mix_hash:
  assumes "KeyManagerDeleteMixHash p i m = Some m'"
  shows "mset (hashes_at p m') + mset (infos [i]) = mset (hashes_at p m)" and "q \<noteq> p \<Longrightarrow> hashes_at q m' = hashes_at q m"
proof -
  have "mset (hashes_at p (remove1 (h, p) m)) + {#h#} = mset (hashes_at p m) \<and>
      (q \<noteq> p \<longrightarrow> hashes_at q (remove1 (h, p) m) = hashes_at q m)" if "(h, p) \<in> set m" for h q
    using that by (induction m) (auto simp: hashes_at_def)
  then show "mset (hashes_at p m') + mset (infos [i]) = mset (hashes_at p m)" and "q \<noteq> p \<Longrightarrow> hashes_at q m' = hashes_at q m"
    using assms by (auto simp: KeyManagerDeleteMixHash_def split: option.splits if_splits)
qed

lemma replace_hashes_at:
  assumes "replace_hashes p news deads m = Some m'" and "length deads = length news"
  shows "mset (hashes_at p m') + mset (infos deads) = mset (hashes_at p m) + mset (map mh_hash news) \<and>
    (\<forall>q. q \<noteq> p \<longrightarrow> hashes_at q m' = hashes_at q m)"
  using assms
proof (induction p news deads m arbitrary: m' rule: replace_hashes.induct)
  case (1 p new news dead deads m)
  obtain m1 where m1: "KeyManagerDeleteMixHash p dead m = Some m1" "replace_hashes p news deads ((mh_hash new, p) # m1) = Some m'"
    using 1(2) by (auto simp: Option.bind_eq_Some_conv)
  have IH: "mset (hashes_at p m') + mset (infos deads) = mset (hashes_at p ((mh_hash new, p) # m1)) + mset (map mh_hash news) \<and>
      (\<forall>q. q \<noteq> p \<longrightarrow> hashes_at q m' = hashes_at q ((mh_hash new, p) # m1))"
    using 1(1) [OF m1] 1(3) by simp
  have split: "mset (infos (dead # deads)) = mset (infos [dead]) + mset (infos deads)" by (cases dead) simp_all
  have "mset (hashes_at p m') + mset (infos (dead # deads)) = mset (hashes_at p m) + mset (map mh_hash (new # news))"
    unfolding split delete_mix_hash(1) [OF m1(1), symmetric] using IH by (simp add: ac_simps)
  then show ?case using IH delete_mix_hash(2) [OF m1(1)] by auto
qed auto

section \<open>Every operation keeps the invariant\<close>

lemma keys_invD:
  assumes "keys_inv S env km" and "nodes km p = Some n"
  shows "node_ok S env n" and "mset (hashes_at p (mixHashKeyMap km)) = mset (node_hashes n)" and "p < nextNode km"
proof -
  have "key_at S env km p" using assms(1) by (simp add: keys_inv_def)
  then show "node_ok S env n" and "mset (hashes_at p (mixHashKeyMap km)) = mset (node_hashes n)" and "p < nextNode km"
    using assms(2) by (simp_all add: key_at_def)
qed

lemma key_set_inv:
  assumes "keys_inv S env km" and "nodes km p = Some n" and "hash_part n' = hash_part n"
  shows "keys_inv S env (km\<lparr>nodes := (nodes km)(p \<mapsto> n')\<rparr>)"
  by (rule keys_inv_same [OF assms(1)]) (simp_all add: view_upd [where h = "nodes km" and p = p and n = n] assms(2,3))

lemma renewed_inv:
  assumes inv: "keys_inv S env km" and n: "nodes km p = Some n" and r: "renewed env n n' news deads" "node_ok S env n'"
    and m: "replace_hashes p news deads (mixHashKeyMap km) = Some m"
    and km': "keys_view (nodes km') = keys_view ((nodes km)(p \<mapsto> n'))" "mixHashKeyMap km' = m" "nextNode km' = nextNode km"
  shows "keys_inv S env km'"
proof -
  let ?km = "km\<lparr>nodes := (nodes km)(p \<mapsto> n'), mixHashKeyMap := m\<rparr>"
  have len: "length deads = length news" using r(1) by (simp add: renewed_def)
  note rep = replace_hashes_at [OF m len]
  have "mset (hashes_at p m) + mset (infos deads) = mset (node_hashes n') + mset (infos deads)"
    using rep keys_invD(2) [OF inv n] r(1) by (simp add: renewed_def)
  then have p: "key_at S env ?km p" using r(2) keys_invD(3) [OF inv n] by (simp add: key_at_def)
  have "key_at S env ?km q" if "q \<noteq> p" for q
    by (rule key_at_same [of S env km]) (use inv rep that in \<open>simp_all add: keys_inv_def keys_view_def\<close>)
  then have "key_at S env ?km q" for q using p by (cases "q = p") simp_all
  then have "keys_inv S env ?km" unfolding keys_inv_def by blast
  then show ?thesis by (rule keys_inv_same) (use km' in simp_all)
qed

lemma view_fun_upd: "keys_view h = keys_view h' \<Longrightarrow> keys_view (h(p \<mapsto> n)) = keys_view (h'(p \<mapsto> n))"
  by (auto simp: keys_view_def fun_eq_iff)

lemma view_Some:
  assumes "keys_view h = keys_view h'" and "h p = Some n"
  shows "\<exists>n'. h' p = Some n' \<and> hash_part n' = hash_part n"
proof -
  have "keys_view h p = keys_view h' p" by (simp add: assms(1))
  then show ?thesis using assms(2) by (cases "h' p") (simp_all add: keys_view_def)
qed

lemma next_rehash_inv:
  assumes find: "KeyManagerFindByMixHashInNextRehashNodeNoLock env minutes mixHash km = Some (found, k, km')"
    and inv: "keys_inv S env km"
  shows "keys_inv S env km' \<and> (\<forall>p. found = Some p \<longrightarrow> (\<exists>n. nodes km' p = Some n \<and> has_hash env (aes_key n) mixHash))"
proof (cases "rehashKeyList km")
  case None
  then show ?thesis using assms by (auto simp: KeyManagerFindByMixHashInNextRehashNodeNoLock_def)
next
  case (Some p)
  obtain rehash h n n' news deads m where r: "list_delete p (Some p) (nodes km) = Some (rehash, h)" "h p = Some n"
      "KeyManagerRehashAesKey env minutes n = Some (n', news, deads)" "replace_hashes p news deads (mixHashKeyMap km) = Some m"
    using find Some by (auto simp: KeyManagerFindByMixHashInNextRehashNodeNoLock_def Let_def Option.bind_eq_Some_conv)
  have km': "keys_view (nodes km') = keys_view (h(p \<mapsto> n'))" "mixHashKeyMap km' = m" "nextNode km' = nextNode km"
      "found = None \<or> found = Some p \<and> mixHash \<in> set (map mh_hash news)"
    using find Some r
    by (auto simp: KeyManagerFindByMixHashInNextRehashNodeNoLock_def Let_def Option.bind_eq_Some_conv
        dest: add_before_view add_after_view split: if_splits)
  let ?km = "km\<lparr>nodes := h\<rparr>"
  have h: "keys_inv S env ?km" by (rule keys_inv_same [OF inv]) (use list_delete_view [OF r(1)] in simp_all)
  have n: "nodes ?km p = Some n" using r(2) by simp
  have new: "renewed env n n' news deads" "node_ok S env n'" using rehash_renew [OF r(3) keys_invD(1) [OF h n]] by simp_all
  have "keys_inv S env km'" by (rule renewed_inv [OF h n new]) (use r(4) km' in simp_all)
  moreover obtain n2 where "nodes km' p = Some n2" "hash_part n2 = hash_part n'"
    using view_Some [OF km'(1) [symmetric], of p n'] by auto
  ultimately show ?thesis using km'(4) new(1) part_ok [of n2 n' S env] by (auto simp: renewed_def)
qed

lemma move_all_inv:
  assumes "KeyManagerMoveAllKeyToRehashNoLock km = Some km'" and "keys_inv S env km"
  shows "keys_inv S env km'"
proof -
  have "keys_view (nodes km') = keys_view (nodes km)" "mixHashKeyMap km' = mixHashKeyMap km" "nextNode km' = nextNode km"
    using assms(1) by (auto simp: KeyManagerMoveAllKeyToRehashNoLock_def Option.bind_eq_Some_conv dest!: link_views)
  then show ?thesis by (rule keys_inv_same [OF assms(2)])
qed

lemma rehash_loop_inv:
  assumes "rehash_loop env minutes mixHash km = Some (found, km')" and "keys_inv S env km"
  shows "keys_inv S env km' \<and> (\<forall>p. found = Some p \<longrightarrow> (\<exists>n. nodes km' p = Some n \<and> has_hash env (aes_key n) mixHash))"
proof -
  have "keys_inv S env km \<longrightarrow> keys_inv S env (snd r) \<and>
      (\<forall>p. fst r = Some p \<longrightarrow> (\<exists>n. nodes (snd r) p = Some n \<and> has_hash env (aes_key n) mixHash))"
    if loop: "rehash_loop env minutes mixHash km = Some r" for env minutes mixHash km r
  proof (rule rehash_loop.raw_induct [OF _ loop])
    fix self :: "key_env \<Rightarrow> u32 \<Rightarrow> u8 list \<Rightarrow> KeyManager \<Rightarrow> (key_id option \<times> KeyManager) option"
      and env minutes mixHash km r
    assume IH: "\<And>env minutes mixHash km r. self env minutes mixHash km = Some r \<Longrightarrow>
          keys_inv S env km \<longrightarrow> keys_inv S env (snd r) \<and>
          (\<forall>p. fst r = Some p \<longrightarrow> (\<exists>n. nodes (snd r) p = Some n \<and> has_hash env (aes_key n) mixHash))"
      and body: "(if rehashKeyList km = None then Some (None, km)
         else KeyManagerFindByMixHashInNextRehashNodeNoLock env minutes mixHash km \<bind>
              (\<lambda>r. case r of (None, k, km) \<Rightarrow> self env minutes mixHash km | (Some p, k, km) \<Rightarrow> Some (Some p, km))) = Some r"
    show "keys_inv S env km \<longrightarrow> keys_inv S env (snd r) \<and>
        (\<forall>p. fst r = Some p \<longrightarrow> (\<exists>n. nodes (snd r) p = Some n \<and> has_hash env (aes_key n) mixHash))"
    proof (cases "rehashKeyList km = None")
      case True
      then show ?thesis using body by auto
    next
      case False
      then obtain f k km1 where f: "KeyManagerFindByMixHashInNextRehashNodeNoLock env minutes mixHash km = Some (f, k, km1)"
          "(case f of Some p \<Rightarrow> Some (Some p, km1) | None \<Rightarrow> self env minutes mixHash km1) = Some r"
        using body by (auto simp: Option.bind_eq_Some_conv split: option.splits)
      show ?thesis using next_rehash_inv [OF f(1)] f(2) IH [of env minutes mixHash km1 r] by (auto split: option.splits)
    qed
  qed
  from this [OF assms(1)] show ?thesis using assms(2) by simp
qed

lemma update_key_part: "KeyManagerUpdateKey c e n = (changed, n') \<Longrightarrow> hash_part n' = hash_part n"
  by (auto simp: KeyManagerUpdateKey_def hash_part_def Let_def split: if_splits)

lemma touch_key_part: "touch_key now t c active n = (changed, n') \<Longrightarrow> hash_part n' = hash_part n"
  by (auto simp: touch_key_def hash_part_def dest!: update_key_part)

lemma prepare_part: "KeyManagerPrepareForStorage km n = (isNew, can, n') \<Longrightarrow> hash_part n' = hash_part n"
  by (auto simp: KeyManagerPrepareForStorage_def hash_part_def split: if_splits)

lemma store_if_inv:
  assumes "store_if env w call km = Some (calls, km')" and "keys_inv S env km"
  shows "keys_inv S env km' \<and> keys_view (nodes km') = keys_view (nodes km)"
proof -
  have "keys_view (nodes km') = keys_view (nodes km)" "mixHashKeyMap km' = mixHashKeyMap km" "nextNode km' = nextNode km"
    using assms(1)
    by (auto simp: store_if_def KeyManagerStorageUpdateAesKey_def Option.bind_eq_Some_conv dest!: link_views split: if_splits)
  then show ?thesis using keys_inv_same [OF assms(2)] by simp
qed

lemma use_found_inv:
  assumes use: "use_found env now t c p km = Some (key, peerid, calls, km')" and inv: "keys_inv S env km"
  shows "keys_inv S env km' \<and> (\<exists>n. nodes km p = Some n \<and> aes_key n = key \<and> key_peerid n = peerid)"
proof -
  obtain n where n: "nodes km p = Some n" using use by (auto simp: use_found_def Option.bind_eq_Some_conv)
  obtain changed n1 where n1: "touch_key now t c (km_activeTime km) n = (changed, n1)" by fastforce
  obtain new can n2 where n2: "KeyManagerPrepareForStorage km n1 = (new, can, n2)" by (metis prod_cases3)
  have part: "hash_part n2 = hash_part n" using touch_key_part [OF n1] prepare_part [OF n2] by simp
  have st: "store_if env (changed \<and> can) (storage_call_of new n2) (km\<lparr>nodes := (nodes km)(p \<mapsto> n2)\<rparr>) = Some (calls, km')"
      "key = aes_key n2" "peerid = key_peerid n2"
    using use n n1 n2 by (auto simp: use_found_def Option.bind_eq_Some_conv)
  show ?thesis using store_if_inv [OF st(1) key_set_inv [OF inv n part]] st(2,3) n part_ok [OF part] by auto
qed

lemma map_entry_alive:
  assumes "keys_inv S env km" and "(h, p) \<in> set (mixHashKeyMap km)"
  shows "\<exists>n. nodes km p = Some n \<and> h \<in> set (node_hashes n) \<and> has_hash env (aes_key n) h"
proof -
  have h: "h \<in> set (hashes_at p (mixHashKeyMap km))" using assms(2) by (simp add: in_hashes_at)
  have at: "key_at S env km p" using assms(1) by (simp add: keys_inv_def)
  then obtain n where n: "nodes km p = Some n" using h by (cases "nodes km p") (auto simp: key_at_def)
  then have "h \<in> set (node_hashes n)" using h keys_invD(2) [OF assms(1) n] by (metis set_mset_mset)
  then show ?thesis using n node_has_hash keys_invD(1) [OF assms(1) n] by blast
qed

lemma given_key: "keys_inv S env km \<Longrightarrow> nodes km p = Some n \<Longrightarrow> (aes_key n, key_peerid n) \<in> S"
  using keys_invD(1) by (fastforce simp: node_ok_def)

lemma find_inv:
  assumes find: "BdtHistory_KeyManagerFindByMixHash env now mixHash t c km = Some (found, calls, km')" and inv: "keys_inv S env km"
  shows "keys_inv S env km' \<and> (\<forall>key peerid. found = Some (key, peerid) \<longrightarrow> has_hash env key mixHash \<and> (key, peerid) \<in> S)"
proof (cases "KeyManagerFindByMixHashNoRehashNoLock mixHash km")
  case (Some p)
  then obtain key peerid where u: "use_found env now t c p km = Some (key, peerid, calls, km')" "found = Some (key, peerid)"
    using find by (auto simp: BdtHistory_KeyManagerFindByMixHash_def Option.bind_eq_Some_conv)
  have "(mixHash, p) \<in> set (mixHashKeyMap km)"
    using Some by (simp add: KeyManagerFindByMixHashNoRehashNoLock_def map_of_SomeD)
  then show ?thesis using map_entry_alive [OF inv] use_found_inv [OF u(1) inv] u(2) given_key [OF inv] by fastforce
next
  case None
  obtain km1 f km2 where s: "(if minutes_of now - firstHashMinutes km > 0 \<and> keyTail km \<noteq> None
        then KeyManagerMoveAllKeyToRehashNoLock km else Some km) = Some km1"
      "rehash_loop env (minutes_of now) mixHash km1 = Some (f, km2)"
    using find None by (auto simp: BdtHistory_KeyManagerFindByMixHash_def Option.bind_eq_Some_conv split: if_splits)
  have "keys_inv S env km1" using s(1) inv move_all_inv by (auto split: if_splits)
  then have inv2: "keys_inv S env km2" "\<And>p. f = Some p \<Longrightarrow> \<exists>n. nodes km2 p = Some n \<and> has_hash env (aes_key n) mixHash"
    using rehash_loop_inv [OF s(2)] by auto
  show ?thesis
  proof (cases f)
    case f: (Some p)
    obtain n where n: "nodes km2 p = Some n" "has_hash env (aes_key n) mixHash" using inv2(2) f by blast
    obtain changed n1 where n1: "touch_key now t c (km_activeTime km2) n = (changed, n1)" by fastforce
    have "km' = km2\<lparr>nodes := (nodes km2)(p \<mapsto> n1)\<rparr>" "found = Some (aes_key n1, key_peerid n1)"
      using find None s f n(1) n1 by (auto simp: BdtHistory_KeyManagerFindByMixHash_def)
    then show ?thesis
      using key_set_inv [OF inv2(1) n(1) touch_key_part [OF n1]] part_ok [OF touch_key_part [OF n1]] n(2) given_key [OF inv2(1) n(1)] by simp
  next
    case f: None
    then have rest: "(case KeyManagerFindByMixHashNoRehashNoLock mixHash km2 of
          None \<Rightarrow> Some (None, [], km2)
        | Some p \<Rightarrow> do { (key, peerid, calls, km) \<leftarrow> use_found env now t c p km2; Some (Some (key, peerid), calls, km) })
        = Some (found, calls, km')"
      using find None s by (simp add: BdtHistory_KeyManagerFindByMixHash_def)
    show ?thesis
    proof (cases "KeyManagerFindByMixHashNoRehashNoLock mixHash km2")
      case (Some p)
      then obtain key peerid where u: "use_found env now t c p km2 = Some (key, peerid, calls, km')" "found = Some (key, peerid)"
        using rest by (auto simp: Option.bind_eq_Some_conv)
      have "(mixHash, p) \<in> set (mixHashKeyMap km2)"
        using Some by (simp add: KeyManagerFindByMixHashNoRehashNoLock_def map_of_SomeD)
      then show ?thesis using map_entry_alive [OF inv2(1)] use_found_inv [OF u(1) inv2(1)] u(2) given_key [OF inv2(1)] by fastforce
    qed (use rest inv2(1) in auto)
  qed
qed

section \<open>Adding and deleting\<close>

lemma those_Some: "those is = Some xs \<Longrightarrow> is = map Some xs"
  by (induction "is" arbitrary: xs) (auto split: option.splits)

lemma all_hashes_node:
  assumes "all_hashes n = Some hs"
  shows "node_hashes n = hs" and "originalHashNode n \<noteq> None"
proof -
  have "map (map_option mh_hash) is = map Some hs \<Longrightarrow> infos is = hs" for "is"
    by (induction "is" arbitrary: hs) (auto simp: infos_def)
  then show "node_hashes n = hs" and "originalHashNode n \<noteq> None"
    using those_Some [OF assms [unfolded all_hashes_def]] by (auto simp: node_hashes_def)
qed

lemma first_hashes:
  assumes hash: "KeyManagerRehashAesKey env minutes n = Some (n', news, deads)" and full: "all_hashes n' = Some hs"
    and n: "hashCount n = 0" "hashSlots n = [None, None, None]" "originalHashNode n = None" "(aes_key n, key_peerid n) \<in> S"
  shows "node_ok S env n' \<and> aes_key n' = aes_key n \<and> key_peerid n' = key_peerid n"
proof -
  obtain h where h: "CalcKeyHashImpl env (aes_key n) [] = Some h"
    using hash full all_hashes_node(2) [OF full] n by (auto simp: KeyManagerRehashAesKey_def Let_def split: option.splits)
  let ?n = "n\<lparr>hashCount := 4, nextUpdateHash := 0, originalHashNode := Some \<lparr>mh_hash = h, mh_minutes = 0\<rparr>\<rparr>"
  obtain news' deads' where r: "rehash_slots 3 env (minutes - 1) (minutes - 1) ?n = Some (n', news', deads')"
    using hash h n(1) by (auto simp: KeyManagerRehashAesKey_def Let_def Option.bind_eq_Some_conv)
  have "slots_ok env ?n" using n(2) by (simp add: slots_ok_def)
  from rehash_slots_renew [OF r this] show ?thesis
    using h n(4) by (simp add: node_ok_def original_ok_def renewed_def)
qed

lemma add_new_inv:
  assumes add: "KeyManagerAddNewKeyNoLock env now key peerid km = Some (result, p, km')" and inv: "keys_inv S env km" and new: "(key, peerid) \<in> S"
  shows "keys_inv S env km'"
proof (cases "KeyManagerFindAesKeyNoLock key peerid km = Some None")
  case False
  then have "km' = km" using add by (auto simp: KeyManagerAddNewKeyNoLock_def Option.bind_eq_Some_conv split: option.splits)
  then show ?thesis using inv by simp
next
  case True
  let ?p = "nextNode km"
  obtain n news deads header h hs where r:
      "KeyManagerRehashAesKey env (minutes_of now) ((KeyNodeCreate now key peerid)
         \<lparr>expireTime := lastAccessTime (KeyNodeCreate now key peerid) + km_activeTime km\<rparr>) = Some (n, news, deads)"
      "add_before ?p (keyHeader km) ((nodes km)(?p \<mapsto> n)) = Some (header, h)" "all_hashes n = Some hs"
      "nodes km' = h" "nextNode km' = ?p + 1" "mixHashKeyMap km' = map (\<lambda>h. (h, ?p)) (rev hs) @ mixHashKeyMap km"
    using add True by (auto simp: KeyManagerAddNewKeyNoLock_def Let_def Option.bind_eq_Some_conv)
  have n: "node_ok S env n" using first_hashes [OF r(1,3)] new by (simp add: KeyNodeCreate_def)
  have at: "key_at S env km q" for q using inv by (simp add: keys_inv_def)
  have none: "nodes km ?p = None" using keys_invD(3) [OF inv, of ?p] by (cases "nodes km ?p") auto
  have others: "hashes_at q (map (\<lambda>h. (h, ?p)) xs) = (if q = ?p then xs else [])" for q xs
    by (induction xs) auto
  have view: "keys_view h = keys_view ((nodes km)(?p \<mapsto> n))" using add_before_view [OF r(2)] .
  have "key_at S env km' q" for q
  proof (cases "q = ?p")
    case True
    obtain n2 where n2: "h ?p = Some n2" "hash_part n2 = hash_part n" using view_Some [OF view [symmetric], of ?p n] by auto
    have "hashes_at ?p (mixHashKeyMap km) = []" using at [of ?p] none by (simp add: key_at_def)
    then show ?thesis
      using True n2(1) n r(4-6) part_ok [OF n2(2), of S env] all_hashes_node(1) [OF r(3)] by (simp add: key_at_def others)
  next
    case False
    have view_q: "keys_view h q = keys_view (nodes km) q" unfolding view using False by (simp add: keys_view_def)
    show ?thesis
    proof (cases "nodes km q")
      case None
      then have "h q = None" using view_q by (simp add: keys_view_def)
      then show ?thesis using at [of q] None False r(4,6) by (simp add: key_at_def others)
    next
      case (Some n1)
      then obtain n2 where n2: "h q = Some n2" "hash_part n2 = hash_part n1" using view_q by (auto simp: keys_view_def)
      then show ?thesis using at [of q] Some False r(4-6) part_ok [OF n2(2), of S env] by (simp add: key_at_def others)
    qed
  qed
  then show ?thesis by (simp add: keys_inv_def)
qed

lemma delete_hashes_at:
  assumes "delete_hashes p is m = Some m'"
  shows "mset (hashes_at p m') + mset (infos is) = mset (hashes_at p m) \<and> (\<forall>q. q \<noteq> p \<longrightarrow> hashes_at q m' = hashes_at q m)"
  using assms
proof (induction p "is" m arbitrary: m' rule: delete_hashes.induct)
  case (2 p i "is" m)
  obtain m1 where m1: "KeyManagerDeleteMixHash p i m = Some m1" "delete_hashes p is m1 = Some m'"
    using 2(2) by (auto simp: Option.bind_eq_Some_conv)
  have split: "mset (infos (i # is)) = mset (infos [i]) + mset (infos is)" by (cases i) simp_all
  have IH: "mset (hashes_at p m') + mset (infos is) = mset (hashes_at p m1)" "\<forall>q. q \<noteq> p \<longrightarrow> hashes_at q m' = hashes_at q m1"
    using 2(1) [OF m1] by simp_all
  have "mset (hashes_at p m') + mset (infos (i # is)) = mset (hashes_at p m)"
    unfolding split delete_mix_hash(1) [OF m1(1), symmetric] IH(1) [symmetric] by (simp only: ac_simps)
  then show ?case using IH(2) delete_mix_hash(2) [OF m1(1)] by auto
qed simp

lemma remove_node_view:
  assumes "KeyManagerRemoveKeyNodeFromList a minM p km = Some km'"
  shows "keys_view (nodes km') = keys_view (nodes km)" and "mixHashKeyMap km' = mixHashKeyMap km" and "nextNode km' = nextNode km"
    and "peeridKeyMap km' = peeridKeyMap km"
proof -
  obtain n oldest where n: "nodes km p = Some n" "hashSlots n ! unat (nextUpdateHash n) = Some oldest"
    using assms by (auto simp: KeyManagerRemoveKeyNodeFromList_def Option.bind_eq_Some_conv)
  define lists where "lists = (if mh_minutes oldest < minM then (rehashKeyList km, keyHeader km) else (keyHeader km, rehashKeyList km))"
  obtain found l h where d: "delete_if_member a (fst lists) (nodes km) = Some (found, l, h)"
    using assms n by (auto simp: KeyManagerRemoveKeyNodeFromList_def lists_def Option.bind_eq_Some_conv split: if_splits)
  have "nodes km' = h \<or> (\<exists>l' h'. list_delete p (snd lists) h = Some (l', h') \<and> nodes km' = h')"
    and rest: "mixHashKeyMap km' = mixHashKeyMap km" "nextNode km' = nextNode km" "peeridKeyMap km' = peeridKeyMap km"
    using assms n d by (auto simp: KeyManagerRemoveKeyNodeFromList_def lists_def Option.bind_eq_Some_conv split: if_splits)
  then show "keys_view (nodes km') = keys_view (nodes km)"
    using delete_if_member_view [OF d] list_delete_view by metis
  show "mixHashKeyMap km' = mixHashKeyMap km" "nextNode km' = nextNode km" "peeridKeyMap km' = peeridKeyMap km" by (fact rest)+
qed

lemma delete_key_inv:
  assumes del: "KeyManagerDeleteKey a minM p km = Some km'" and inv: "keys_inv S env km"
  shows "keys_inv S env km'"
proof -
  obtain n m km1 where r: "nodes km p = Some n" "delete_hashes p (originalHashNode n # hashSlots n) (mixHashKeyMap km) = Some m"
      "KeyManagerRemoveKeyNodeFromList a minM p (km\<lparr>mixHashKeyMap := m\<rparr>) = Some km1" "km' = km1\<lparr>nodes := (nodes km1)(p := None)\<rparr>"
    using del by (auto simp: KeyManagerDeleteKey_def Option.bind_eq_Some_conv)
  note gone = delete_hashes_at [OF r(2)] and same = remove_node_view [OF r(3)]
  have "hashes_at p m = []" using gone keys_invD(2) [OF inv r(1)] by (simp add: node_hashes_def)
  then have p: "key_at S env km' p" using same(2) r(4) by (simp add: key_at_def)
  have "key_at S env km' q" if "q \<noteq> p" for q
  proof (rule key_at_same [of S env km])
    have "keys_view (nodes km1) q = keys_view (nodes km) q" using same(1) by simp
    then show "keys_view (nodes km') q = keys_view (nodes km) q" using r(4) that by (simp add: keys_view_def)
  qed (use inv same gone r(4) that in \<open>simp_all add: keys_inv_def\<close>)
  then have "key_at S env km' q" for q using p by (cases "q = p") simp_all
  then show ?thesis by (simp add: keys_inv_def)
qed

lemma clear_expired_inv:
  "clear_expired a now minM ps km = Some (kept, km') \<Longrightarrow> keys_inv S env km \<Longrightarrow> keys_inv S env km'"
  by (induction ps arbitrary: kept km) (auto simp: Option.bind_eq_Some_conv dest: delete_key_inv split: if_splits)

lemma clear_expire_inv:
  assumes "KeyManagerClearExpireKeyNoLock a now peerid km = Some km'" and "keys_inv S env km"
  shows "keys_inv S env km'"
proof -
  obtain minM s ps kept km1 where r: "clear_expired a s minM ps km = Some (kept, km1)"
      "nodes km' = nodes km1" "mixHashKeyMap km' = mixHashKeyMap km1" "nextNode km' = nextNode km1"
    using assms(1) by (auto simp: KeyManagerClearExpireKeyNoLock_def Let_def Option.bind_eq_Some_conv)
  show ?thesis by (rule keys_inv_same [OF clear_expired_inv [OF r(1) assms(2)]]) (use r in simp_all)
qed

lemma key_set_update:
  assumes "keys_inv S env km" and "nodes km p = Some n" and "KeyManagerPrepareForStorage km n1 = (isNew, can, n2)"
    and "hash_part n1 = hash_part n" and "store_if env w call (km\<lparr>nodes := (nodes km)(p \<mapsto> n2)\<rparr>) = Some (calls, km')"
  shows "keys_inv S env km'"
  using store_if_inv [OF assms(5) key_set_inv [OF assms(1,2)]] prepare_part [OF assms(3)] assms(4) by simp

lemma last_access_inv:
  assumes "KeyManagerFindLastAccessKeyByRemoteNoLock now peerid km = Some (found, km')" and "keys_inv S env km"
  shows "keys_inv S env km'"
proof (cases found)
  case None
  then have "km' = km" using assms(1)
    by (auto simp: KeyManagerFindLastAccessKeyByRemoteNoLock_def Option.bind_eq_Some_conv split: option.splits list.splits if_splits)
  then show ?thesis using assms(2) by simp
next
  case (Some p)
  then obtain n where "nodes km p = Some n" "km' = km\<lparr>nodes := (nodes km)(p \<mapsto> n\<lparr>lastAccessTime := seconds_of now\<rparr>)\<rparr>" using assms(1)
    by (auto simp: KeyManagerFindLastAccessKeyByRemoteNoLock_def Option.bind_eq_Some_conv split: option.splits list.splits if_splits)
  then show ?thesis using key_set_inv [OF assms(2), of p n] by (simp add: hash_part_def)
qed

lemma get_inv:
  assumes get: "BdtHistory_KeyManagerGetKeyByRemote env now fresh peerid new touch km = Some (r, km')" and inv: "keys_inv S env km" and given: "(fresh, peerid) \<in> S"
  shows "keys_inv S env km'"
proof -
  obtain found km1 where f: "KeyManagerFindLastAccessKeyByRemoteNoLock now peerid km = Some (found, km1)"
    using get by (auto simp: BdtHistory_KeyManagerGetKeyByRemote_def Option.bind_eq_Some_conv)
  have inv1: "keys_inv S env km1" using last_access_inv [OF f inv] .
  show ?thesis
  proof (cases found)
    case (Some p)
    obtain n where n: "nodes km1 p = Some n" using get f Some by (auto simp: BdtHistory_KeyManagerGetKeyByRemote_def Option.bind_eq_Some_conv)
    obtain ch n1 where n1: "KeyManagerUpdateKey False (if touch then lastAccessTime n + km_activeTime km1 else 0) n = (ch, n1)" by fastforce
    obtain isNew can n2 where n2: "KeyManagerPrepareForStorage km1 n1 = (isNew, can, n2)" by (metis prod_cases3)
    let ?km = "km1\<lparr>nodes := (nodes km1)(p \<mapsto> n2)\<rparr>"
    have i: "keys_inv S env ?km" using key_set_inv [OF inv1 n] update_key_part [OF n1] prepare_part [OF n2] by simp
    obtain km2 w call calls where c: "?km = km2 \<or> KeyManagerClearExpireKeyNoLock (asserts env) now peerid ?km = Some km2"
        "store_if env w call km2 = Some (calls, km')"
      using get f Some n n1 n2 by (simp add: BdtHistory_KeyManagerGetKeyByRemote_def Option.bind_eq_Some_conv Let_def) (auto split: if_splits)
    have "keys_inv S env km2" using c(1) i clear_expire_inv by auto
    then show ?thesis using store_if_inv [OF c(2)] by simp
  next
    case None
    show ?thesis
    proof (cases new)
      case True
      obtain km2 where c: "(if KeyManagerFindKeyByPeeridNoLock peerid km1 \<noteq> None
            then KeyManagerClearExpireKeyNoLock (asserts env) now peerid km1 else Some km1) = Some km2"
        using get f None True by (auto simp: BdtHistory_KeyManagerGetKeyByRemote_def Option.bind_eq_Some_conv)
      obtain result p km3 n where a: "KeyManagerAddNewKeyNoLock env now fresh peerid km2 = Some (result, p, km3)" "nodes km3 p = Some n"
        using get f None True c by (auto simp: BdtHistory_KeyManagerGetKeyByRemote_def Option.bind_eq_Some_conv)
      obtain isNew can n2 where q: "KeyManagerPrepareForStorage km3 n = (isNew, can, n2)" by (metis prod_cases3)
      obtain call calls where st: "store_if env can call (km3\<lparr>nodes := (nodes km3)(p \<mapsto> n2)\<rparr>) = Some (calls, km')"
        using get f None True c a q by (auto simp: BdtHistory_KeyManagerGetKeyByRemote_def Option.bind_eq_Some_conv)
      have "keys_inv S env km2" using c inv1 clear_expire_inv by (auto split: if_splits)
      from key_set_update [OF add_new_inv [OF a(1) this given] a(2) q refl st] show ?thesis .
    qed (use get f None inv1 in \<open>auto simp: BdtHistory_KeyManagerGetKeyByRemote_def\<close>)
  qed
qed

lemma update_answer_inv:
  assumes "KeyManagerStorageUpdateAesKey env call km = Some km'" and "keys_inv S env km"
  shows "keys_inv S env km'"
  using store_if_inv [of env True call km "[call]" km'] assms by (simp add: store_if_def)

text \<open>Adding a key touches the one that is there, or makes a node.\<close>

lemma add_key_steps:
  assumes add: "BdtHistory_KeyManagerAddKey env now key peerid c km = Some (result, calls, km')"
  obtains km1 call where "km1 = km \<or> (\<exists>p n n'. nodes km p = Some n \<and> hash_part n' = hash_part n \<and> km1 = km\<lparr>nodes := (nodes km)(p \<mapsto> n')\<rparr>)"
      and "result = BFX_RESULT_ALREADY_EXISTS" and "KeyManagerStorageUpdateAesKey env call km1 = Some km'"
  | km1 p km2 n isNew can n2 call
    where "km1 = km \<or> (\<exists>p n n'. nodes km p = Some n \<and> hash_part n' = hash_part n \<and> km1 = km\<lparr>nodes := (nodes km)(p \<mapsto> n')\<rparr>)"
      and "KeyManagerAddNewKeyNoLock env now key peerid km1 = Some (result, p, km2)" and "nodes km2 p = Some n"
      and "KeyManagerPrepareForStorage km2 (if c then n\<lparr>isConfirmed := True\<rparr> else n) = (isNew, can, n2)"
      and "store_if env can call (km2\<lparr>nodes := (nodes km2)(p \<mapsto> n2)\<rparr>) = Some (calls, km')"
proof -
  obtain found where f: "KeyManagerFindAesKeyNoLock key peerid km = Some found"
    using add by (auto simp: BdtHistory_KeyManagerAddKey_def Option.bind_eq_Some_conv)
  obtain stored km1 where s: "(case found of None \<Rightarrow> Some (None, km)
       | Some p \<Rightarrow> do {
           n \<leftarrow> nodes km p;
           let (changed, n) = touch_key now True c (km_activeTime km) n;
           let (isNewStorage, canStorage, n) = KeyManagerPrepareForStorage km n;
           Some (if canStorage then Some (storage_call_of isNewStorage n) else None, km\<lparr>nodes := (nodes km)(p \<mapsto> n)\<rparr>)
         }) = Some (stored, km1)"
    using add f by (auto simp: BdtHistory_KeyManagerAddKey_def Option.bind_eq_Some_conv)
  have touched: "km1 = km \<or> (\<exists>p n n'. nodes km p = Some n \<and> hash_part n' = hash_part n \<and> km1 = km\<lparr>nodes := (nodes km)(p \<mapsto> n')\<rparr>)"
  proof (cases found)
    case (Some p)
    obtain n where n: "nodes km p = Some n" using s Some by (auto simp: Option.bind_eq_Some_conv)
    obtain ch n1 where t: "touch_key now True c (km_activeTime km) n = (ch, n1)" by fastforce
    obtain isNew can n2 where q: "KeyManagerPrepareForStorage km n1 = (isNew, can, n2)" by (metis prod_cases3)
    have "km1 = km\<lparr>nodes := (nodes km)(p \<mapsto> n2)\<rparr>" using s Some n t q by simp
    then show ?thesis using n touch_key_part [OF t] prepare_part [OF q] by fastforce
  qed (use s in simp)
  show ?thesis
  proof (cases stored)
    case (Some call)
    then have "KeyManagerStorageUpdateAesKey env call km1 = Some km'" "result = BFX_RESULT_ALREADY_EXISTS"
      using add f s by (auto simp: BdtHistory_KeyManagerAddKey_def Option.bind_eq_Some_conv)
    then show ?thesis using that(1) touched by blast
  next
    case None
    have rest: "do {
         (result, p, km) \<leftarrow> KeyManagerAddNewKeyNoLock env now key peerid km1;
         n \<leftarrow> nodes km p;
         let n = (if c then n\<lparr>isConfirmed := True\<rparr> else n);
         let (isNewStorage, canStorage, n) = KeyManagerPrepareForStorage km n;
         (calls, km) \<leftarrow> store_if env canStorage (storage_call_of True n) (km\<lparr>nodes := (nodes km)(p \<mapsto> n)\<rparr>);
         Some (result, calls, km)
       } = Some (result, calls, km')"
      using add f s None by (simp add: BdtHistory_KeyManagerAddKey_def)
    then obtain added p km2 n where a: "KeyManagerAddNewKeyNoLock env now key peerid km1 = Some (added, p, km2)" "nodes km2 p = Some n"
      by (auto simp: Option.bind_eq_Some_conv)
    obtain isNew can n2 where q: "KeyManagerPrepareForStorage km2 (if c then n\<lparr>isConfirmed := True\<rparr> else n) = (isNew, can, n2)"
      by (metis prod_cases3)
    have "added = result" "store_if env can (storage_call_of True n2) (km2\<lparr>nodes := (nodes km2)(p \<mapsto> n2)\<rparr>) = Some (calls, km')"
      using rest q by (simp only: Let_def a bind.simps prod.case, auto simp: a Option.bind_eq_Some_conv)+
    then show ?thesis using that(2) touched a q by blast
  qed
qed

lemma add_inv:
  assumes add: "BdtHistory_KeyManagerAddKey env now key peerid c km = Some (result, calls, km')" and inv: "keys_inv S env km"
    and given: "(key, peerid) \<in> S"
  shows "keys_inv S env km'"
  using add
proof (cases rule: add_key_steps)
  case (1 km1 call)
  have "keys_inv S env km1" using 1(1) key_set_inv [OF inv] inv by auto
  then show ?thesis using update_answer_inv [OF 1(3)] by simp
next
  case (2 km1 p km2 n isNew can n2 call)
  have inv1: "keys_inv S env km1" using 2(1) key_set_inv [OF inv] inv by auto
  show ?thesis
    by (rule key_set_update [OF add_new_inv [OF 2(2) inv1 given] 2(3,4) _ 2(5)]) (simp add: hash_part_def)
qed

lemma outer_inv:
  assumes "KeyManagerAddOuterKey env now k km = Some km'" and inv: "keys_inv S env km" and given: "(ki_aesKey k, ki_peerid k) \<in> S"
  shows "keys_inv S env km'"
proof -
  obtain r p km1 where a: "KeyManagerAddNewKeyNoLock env now (ki_aesKey k) (ki_peerid k) km = Some (r, p, km1)"
    using assms(1) by (auto simp: KeyManagerAddOuterKey_def Option.bind_eq_Some_conv)
  let ?f = "\<lambda>n. n\<lparr>isConfirmed := ki_isConfirmed k, isStorage := True, expireTime := ki_expireTime k, lastAccessTime := ki_lastAccessTime k\<rparr>"
  have flags: "keeps_part ?f" by (simp add: keeps_part_def hash_part_def)
  have "km' = km1 \<or> (\<exists>h. change_node p ?f (nodes km1) = Some h \<and> km' = km1\<lparr>nodes := h\<rparr>)"
    using assms(1) a by (auto simp: KeyManagerAddOuterKey_def Option.bind_eq_Some_conv split: if_splits)
  then have cases: "km' = km1 \<or> (\<exists>f h. keeps_part f \<and> change_node p f (nodes km1) = Some h \<and> km' = km1\<lparr>nodes := h\<rparr>)"
    using flags by blast
  have i: "keys_inv S env km1" using add_new_inv [OF a inv given] .
  from cases show ?thesis
  proof
    assume "\<exists>f h. keeps_part f \<and> change_node p f (nodes km1) = Some h \<and> km' = km1\<lparr>nodes := h\<rparr>"
    then obtain h where "keys_view h = keys_view (nodes km1)" "km' = km1\<lparr>nodes := h\<rparr>" using change_node_view by blast
    then show ?thesis using keys_inv_same [OF i] by simp
  qed (use i in simp)
qed

lemma merge_inv:
  "KeyManagerMergeOuterKeysNoLock env now ks km = Some km' \<Longrightarrow> keys_inv S env km \<Longrightarrow>
    \<forall>k\<in>set ks. (ki_aesKey k, ki_peerid k) \<in> S \<Longrightarrow> keys_inv S env km'"
  by (induction ks arbitrary: km) (auto simp: Option.bind_eq_Some_conv dest: outer_inv)

lemma load_inv:
  assumes "BdtHistory_KeyManagerOnLoadDone env now e ks km = Some km'" and "keys_inv S env km"
    and "\<forall>k\<in>set ks. (ki_aesKey k, ki_peerid k) \<in> S"
  shows "keys_inv S env km'"
proof -
  have "keys_inv S env (km\<lparr>km_storage := True\<rparr>)" by (rule keys_inv_same [OF assms(2)]) simp_all
  then show ?thesis using assms merge_inv by (auto simp: BdtHistory_KeyManagerOnLoadDone_def split: if_splits)
qed

end
