(* ===== verification/KeyRuns.thy ===== *)
theory KeyRuns
  imports KeyFacts
begin

text \<open>
  The key manager in use: a sequence of calls, and what it promises afterwards. A key found by a hash is one that somebody has
  given and has that hash; a key just added is found by each of its four hashes; and however a key's
  hashes are renewed, the hash of the current minute is among them, while the redundancy of one minute ahead is lost.
\<close>

section \<open>Calls\<close>

datatype manager_call =
    FindByMixHash int "u8 list" bool bool
  | GetKeyByRemote int "u8 list" "u8 list" bool bool
  | AddKey int "u8 list" "u8 list" bool
  | OnLoadDone int u32 "BdtHistory_KeyInfo list"

fun key_call :: "key_env \<Rightarrow> manager_call \<Rightarrow> KeyManager \<Rightarrow> KeyManager option" where
  "key_call env (FindByMixHash now h t c) km = map_option (\<lambda>r. snd (snd r)) (BdtHistory_KeyManagerFindByMixHash env now h t c km)"
| "key_call env (GetKeyByRemote now fresh peerid new t) km =
     map_option snd (BdtHistory_KeyManagerGetKeyByRemote env now fresh peerid new t km)"
| "key_call env (AddKey now key peerid c) km = map_option (\<lambda>r. snd (snd r)) (BdtHistory_KeyManagerAddKey env now key peerid c km)"
| "key_call env (OnLoadDone now e ks) km = BdtHistory_KeyManagerOnLoadDone env now e ks km"

fun key_calls :: "key_env \<Rightarrow> manager_call list \<Rightarrow> KeyManager \<Rightarrow> KeyManager option" where
  "key_calls env [] km = Some km"
| "key_calls env (c # cs) km = do { km \<leftarrow> key_call env c km; key_calls env cs km }"

text \<open>The keys, with their peers, that a call gives to the manager.\<close>

fun keys_given :: "manager_call \<Rightarrow> (u8 list \<times> u8 list) set" where
  "keys_given (FindByMixHash now h t c) = {}"
| "keys_given (GetKeyByRemote now fresh peerid new t) = {(fresh, peerid)}"
| "keys_given (AddKey now key peerid c) = {(key, peerid)}"
| "keys_given (OnLoadDone now e ks) = set (map (\<lambda>k. (ki_aesKey k, ki_peerid k)) ks)"

lemma key_call_inv:
  assumes "key_call env c km = Some km'" and inv: "keys_inv S env km" and given: "keys_given c \<subseteq> S"
  shows "keys_inv S env km'"
proof (cases c)
  case (FindByMixHash now h t f)
  then show ?thesis using assms(1) find_inv [OF _ inv, of now h t f] by auto
next
  case (GetKeyByRemote now fresh peerid new t)
  then show ?thesis using assms(1) get_inv [OF _ inv, of now fresh peerid new t] given by auto
next
  case (AddKey now key peerid f)
  then show ?thesis using assms(1) add_inv [OF _ inv, of now key peerid f] given by auto
next
  case (OnLoadDone now e ks)
  then show ?thesis using assms(1) load_inv [OF _ inv, of now e ks] given by auto
qed

lemma key_calls_inv:
  "key_calls env cs km = Some km' \<Longrightarrow> keys_inv S env km \<Longrightarrow> \<Union> (keys_given ` set cs) \<subseteq> S \<Longrightarrow> keys_inv S env km'"
proof (induction cs arbitrary: km)
  case (Cons c cs)
  then obtain km1 where k: "key_call env c km = Some km1" "key_calls env cs km1 = Some km'"
    by (auto simp: Option.bind_eq_Some_conv)
  have "keys_inv S env km1" using key_call_inv [OF k(1) Cons.prems(2)] Cons.prems(3) by simp
  then show ?case using Cons.IH [OF k(2)] Cons.prems(3) by simp
qed simp

lemma reached_inv:
  "key_calls env cs (KeyManagerInit active) = Some km \<Longrightarrow> keys_inv (\<Union> (keys_given ` set cs)) env km"
  using key_calls_inv keys_inv_init by blast

text \<open>The environment of the witnesses: a hash that is its input, cut to eight bytes.\<close>

definition plain_env :: "bool \<Rightarrow> key_env" where
  "plain_env a = \<lparr>mbedtls_sha256 = Some, storage_answer = BFX_RESULT_SUCCESS, asserts = a\<rparr>"

text \<open>
  C7. Whatever calls have been made, a key that a search by hash returns with its peer was given to the manager by one
  of them, as a key of that peer, and it has the hash that was searched: the hash of the key alone or of the key with
  a minute.
\<close>

theorem found_key_has_hash:
  assumes "key_calls env cs (KeyManagerInit active) = Some km"
    and "BdtHistory_KeyManagerFindByMixHash env now mixHash touch confirmed km = Some (Some (key, peerid), calls, km')"
  shows "(\<exists>c\<in>set cs. (key, peerid) \<in> keys_given c) \<and>
    (BdtHistory_KeyManagerCalcKeyHash env key = Some mixHash \<or> (\<exists>m. CalcKeyHashImpl env key (minute_bytes m) = Some mixHash))"
  using find_inv [OF assms(2) reached_inv [OF assms(1)]]
  by (auto simp: has_hash_def BdtHistory_KeyManagerCalcKeyHash_def)

theorem found_key_has_hash_witness:
  "\<exists>cs km calls km'. key_calls (plain_env True) cs (KeyManagerInit 100) = Some km \<and>
     BdtHistory_KeyManagerFindByMixHash (plain_env True) 360000000 [7, 4, 0, 0, 0] True False km = Some (Some ([7], [1]), calls, km') \<and>
     (\<exists>c\<in>set cs. ([7], [1]) \<in> keys_given c) \<and>
     (BdtHistory_KeyManagerCalcKeyHash (plain_env True) [7] = Some [7, 4, 0, 0, 0] \<or>
      (\<exists>m. CalcKeyHashImpl (plain_env True) [7] (minute_bytes m) = Some [7, 4, 0, 0, 0]))"
proof -
  let ?cs = "[AddKey 300000000 [7] [1] False]"
  have "Option.bind (key_calls (plain_env True) ?cs (KeyManagerInit 100)) (\<lambda>km. map_option fst
      (BdtHistory_KeyManagerFindByMixHash (plain_env True) 360000000 [7, 4, 0, 0, 0] True False km)) = Some (Some ([7], [1]))"
    by code_simp
  then obtain km calls km' where run: "key_calls (plain_env True) ?cs (KeyManagerInit 100) = Some km"
      "BdtHistory_KeyManagerFindByMixHash (plain_env True) 360000000 [7, 4, 0, 0, 0] True False km = Some (Some ([7], [1]), calls, km')"
    by (auto simp: Option.bind_eq_Some_conv)
  show ?thesis using run found_key_has_hash [OF run] by blast
qed

section \<open>A key just added\<close>

lemma unat_steps: "unat ((1 :: u32) mod 3) = 1" "unat ((2 :: u32) mod 3) = 2" "(3 :: u32) mod 3 = 0" "(1 :: u32) mod 3 = 1" "(2 :: u32) mod 3 = 2"
  by (simp_all add: unat_mod)

text \<open>The hashes of a new key: those of its minute, the one before and the one after.\<close>

lemma first_slots:
  assumes hash: "KeyManagerRehashAesKey env minutes n = Some (n', news, deads)" and full: "all_hashes n' = Some hs"
    and n: "hashCount n = 0" "hashSlots n = [None, None, None]" "originalHashNode n = None"
  shows "map_option (map mh_minutes) (those (hashSlots n')) = Some [minutes - 1, minutes, minutes + 1] \<and> nextUpdateHash n' = 0"
proof -
  obtain h where h: "CalcKeyHashImpl env (aes_key n) [] = Some h"
    using hash full all_hashes_node(2) [OF full] n by (auto simp: KeyManagerRehashAesKey_def Let_def split: option.splits)
  have "map_option mh_hash b \<in> Some ` set hs" if "b \<in> set (hashSlots n')" for b
    using those_Some [OF full [unfolded all_hashes_def]] that by (metis image_eqI list.set_map set_subset_Cons subsetD list.simps(9))
  then have "None \<notin> set (hashSlots n')" by fastforce
  then show ?thesis
    using hash h n
    by (cases "CalcKeyHashImpl env (aes_key n) (minute_bytes (minutes - 1))";
        cases "CalcKeyHashImpl env (aes_key n) (minute_bytes minutes)";
        cases "CalcKeyHashImpl env (aes_key n) (minute_bytes (minutes + 1))")
      (auto simp: KeyManagerRehashAesKey_def Let_def Option.bind_eq_Some_conv numeral_3_eq_3 unat_steps split: if_splits)
qed

lemma key_among_Some: "key_among h key ps = Some (Some p) \<Longrightarrow> \<exists>n. h p = Some n \<and> aes_key n = key"
  by (induction ps) (auto simp: Option.bind_eq_Some_conv split: if_splits)

definition first_minutes :: "u32 \<Rightarrow> KeyNode \<Rightarrow> bool" where
  "first_minutes minutes n \<longleftrightarrow> map_option (map mh_minutes) (those (hashSlots n)) = Some [minutes - 1, minutes, minutes + 1]"

lemma add_new_node:
  assumes add: "KeyManagerAddNewKeyNoLock env now key peerid km = Some (result, p, km')"
  shows "\<exists>n. nodes km' p = Some n \<and> aes_key n = key \<and> (result = BFX_RESULT_SUCCESS \<longrightarrow> first_minutes (minutes_of now) n)"
proof (cases "KeyManagerFindAesKeyNoLock key peerid km = Some None")
  case False
  obtain found where f: "KeyManagerFindAesKeyNoLock key peerid km = Some found"
    using add by (auto simp: KeyManagerAddNewKeyNoLock_def Option.bind_eq_Some_conv)
  then obtain q where "found = Some q" using False by (cases found) simp_all
  then have "KeyManagerFindAesKeyNoLock key peerid km = Some (Some p)" "km' = km" "result = BFX_RESULT_ALREADY_EXISTS"
    using add f by (simp_all add: KeyManagerAddNewKeyNoLock_def)
  then show ?thesis using key_among_Some by (fastforce simp: KeyManagerFindAesKeyNoLock_def split: option.splits if_splits)
next
  case True
  obtain n news deads header h hs where r:
      "KeyManagerRehashAesKey env (minutes_of now) ((KeyNodeCreate now key peerid)
         \<lparr>expireTime := lastAccessTime (KeyNodeCreate now key peerid) + km_activeTime km\<rparr>) = Some (n, news, deads)"
      "add_before p (keyHeader km) ((nodes km)(p \<mapsto> n)) = Some (header, h)" "all_hashes n = Some hs" "nodes km' = h"
    using add True by (auto simp: KeyManagerAddNewKeyNoLock_def Let_def Option.bind_eq_Some_conv)
  have n: "aes_key n = key" "first_minutes (minutes_of now) n"
    using first_hashes [OF r(1,3), of UNIV] first_slots [OF r(1,3)] by (simp_all add: KeyNodeCreate_def first_minutes_def)
  obtain n2 where "h p = Some n2" "hash_part n2 = hash_part n"
    using view_Some [OF add_before_view [OF r(2), symmetric], of p n] by auto
  then show ?thesis using n r(4) by (auto simp: hash_part_def first_minutes_def)
qed

text \<open>What the storage answers when it has taken the key, or will.\<close>

definition storage_takes :: "key_env \<Rightarrow> bool" where
  "storage_takes env \<longleftrightarrow> storage_answer env \<in> {BFX_RESULT_SUCCESS, BFX_RESULT_PENDING, BFX_RESULT_ALREADY_OPERATION}"

lemma storage_total: "storage_takes env \<Longrightarrow> \<exists>calls. store_if env w call km = Some (calls, km)"
  by (auto simp: storage_takes_def store_if_def KeyManagerStorageUpdateAesKey_def)

lemma use_found_total:
  assumes "storage_takes env" and "nodes km p = Some n"
  shows "\<exists>r. use_found env now t c p km = Some r"
proof -
  obtain ch n1 where n1: "touch_key now t c (km_activeTime km) n = (ch, n1)" by fastforce
  obtain isNew can n2 where q: "KeyManagerPrepareForStorage km n1 = (isNew, can, n2)" by (metis prod_cases3)
  show ?thesis
    using storage_total [OF assms(1), of "ch \<and> can" "storage_call_of isNew n2" "km\<lparr>nodes := (nodes km)(p \<mapsto> n2)\<rparr>"]
    by (auto simp: use_found_def assms(2) n1 q)
qed

lemma alive_found:
  assumes inv: "keys_inv S env km" and takes: "storage_takes env" and n: "nodes km p = Some n" "h \<in> set (node_hashes n)"
  shows "\<exists>key peerid calls km'. BdtHistory_KeyManagerFindByMixHash env now h t c km = Some (Some (key, peerid), calls, km')"
proof -
  have "h \<in> set (hashes_at p (mixHashKeyMap km))" using keys_invD(2) [OF inv n(1)] n(2) by (metis set_mset_mset)
  then obtain q where q: "map_of (mixHashKeyMap km) h = Some q"
    by (cases "map_of (mixHashKeyMap km) h") (force simp: in_hashes_at map_of_eq_None_iff)+
  obtain nq where "nodes km q = Some nq" using map_entry_alive [OF inv map_of_SomeD [OF q]] by blast
  from use_found_total [OF takes this, of now t c] obtain key peerid calls km'
    where "use_found env now t c q km = Some (key, peerid, calls, km')" by auto
  then show ?thesis using q by (simp add: BdtHistory_KeyManagerFindByMixHash_def KeyManagerFindByMixHashNoRehashNoLock_def)
qed

lemma add_key_node:
  assumes add: "BdtHistory_KeyManagerAddKey env now key peerid c km = Some (BFX_RESULT_SUCCESS, calls, km')"
    and takes: "storage_takes env"
  shows "\<exists>p n. nodes km' p = Some n \<and> aes_key n = key \<and> first_minutes (minutes_of now) n"
  using add
proof (cases rule: add_key_steps)
  case (2 km1 p km2 n isNew can n2 call)
  have "km' = km2\<lparr>nodes := (nodes km2)(p \<mapsto> n2)\<rparr>"
    using storage_total [OF takes, of can call "km2\<lparr>nodes := (nodes km2)(p \<mapsto> n2)\<rparr>"] 2(5) by auto
  moreover have "hash_part n2 = hash_part n" using prepare_part [OF 2(4)] by (simp add: hash_part_def)
  ultimately show ?thesis using add_new_node [OF 2(2)] 2(3) by (auto simp: hash_part_def first_minutes_def)
qed simp

lemma minute_in_slots:
  assumes "node_ok S env n" and "first_minutes minutes n" and "m \<in> {minutes - 1, minutes, minutes + 1}"
    and "CalcKeyHashImpl env (aes_key n) (minute_bytes m) = Some h"
  shows "h \<in> set (node_hashes n)"
proof -
  obtain ms where ms: "those (hashSlots n) = Some ms" "map mh_minutes ms = [minutes - 1, minutes, minutes + 1]"
    using assms(2) by (auto simp: first_minutes_def)
  have "m \<in> set (map mh_minutes ms)" unfolding ms(2) using assms(3) by simp
  then obtain i where i: "i \<in> set ms" "mh_minutes i = m" by auto
  then have slot: "Some i \<in> set (hashSlots n)" using those_Some [OF ms(1)] by simp
  then have "mh_hash i = h" using assms(1,4) i(2) by (fastforce simp: node_ok_def slots_ok_def)
  then show ?thesis using slot by (force simp: node_hashes_def infos_def)
qed

lemma own_hash_in: "node_ok S env n \<Longrightarrow> CalcKeyHashImpl env (aes_key n) [] = Some h \<Longrightarrow> h \<in> set (node_hashes n)"
  by (auto simp: node_ok_def original_ok_def node_hashes_def)

text \<open>
  C8. A key that has just been added, whatever calls were made before, is found by any of its four hashes: that of the key
  alone and those of the key with the minute it was added in, the one before and the one after. The search returns a key with that hash, at whatever time it is
  made, as long as the storage takes what it is given.
\<close>

theorem added_key_found:
  assumes "key_calls env cs (KeyManagerInit active) = Some km"
    and "BdtHistory_KeyManagerAddKey env now key peerid c km = Some (BFX_RESULT_SUCCESS, calls, km')"
    and "storage_takes env"
    and "appended \<in> {[], minute_bytes (minutes_of now - 1), minute_bytes (minutes_of now), minute_bytes (minutes_of now + 1)}"
    and "CalcKeyHashImpl env key appended = Some mixHash"
  shows "\<exists>key' peerid' calls' km''. BdtHistory_KeyManagerFindByMixHash env later mixHash touch confirmed km' =
      Some (Some (key', peerid'), calls', km'') \<and>
    (BdtHistory_KeyManagerCalcKeyHash env key' = Some mixHash \<or> (\<exists>m. CalcKeyHashImpl env key' (minute_bytes m) = Some mixHash))"
proof -
  have inv: "keys_inv UNIV env km'" using add_inv [OF assms(2) key_calls_inv [OF assms(1) keys_inv_init]] by simp
  obtain p n where n: "nodes km' p = Some n" "aes_key n = key" "first_minutes (minutes_of now) n"
    using add_key_node [OF assms(2,3)] by blast
  have "mixHash \<in> set (node_hashes n)"
    using own_hash_in [OF keys_invD(1) [OF inv n(1)]] minute_in_slots [OF keys_invD(1) [OF inv n(1)] n(3)] assms(4,5) n(2) by auto
  from alive_found [OF inv assms(3) n(1) this] obtain key' peerid' calls' km''
    where f: "BdtHistory_KeyManagerFindByMixHash env later mixHash touch confirmed km' = Some (Some (key', peerid'), calls', km'')"
    by blast
  show ?thesis using f find_inv [OF f inv] by (auto simp: has_hash_def BdtHistory_KeyManagerCalcKeyHash_def)
qed

theorem added_key_found_witness:
  "\<exists>calls km'. BdtHistory_KeyManagerAddKey (plain_env True) 300000000 [7] [1] False (KeyManagerInit 100) = Some (BFX_RESULT_SUCCESS, calls, km') \<and>
    (\<exists>key' peerid' calls' km''. BdtHistory_KeyManagerFindByMixHash (plain_env True) 900000000 [7, 6, 0, 0, 0] True False km' =
      Some (Some (key', peerid'), calls', km'') \<and>
    (BdtHistory_KeyManagerCalcKeyHash (plain_env True) key' = Some [7, 6, 0, 0, 0] \<or>
     (\<exists>m. CalcKeyHashImpl (plain_env True) key' (minute_bytes m) = Some [7, 6, 0, 0, 0])))"
proof -
  have "map_option fst (BdtHistory_KeyManagerAddKey (plain_env True) 300000000 [7] [1] False (KeyManagerInit 100)) = Some BFX_RESULT_SUCCESS"
    by code_simp
  then obtain calls km' where add: "BdtHistory_KeyManagerAddKey (plain_env True) 300000000 [7] [1] False (KeyManagerInit 100) =
      Some (BFX_RESULT_SUCCESS, calls, km')" by auto
  have start: "key_calls (plain_env True) [] (KeyManagerInit 100) = Some (KeyManagerInit 100)" by simp
  have takes: "storage_takes (plain_env True)" by code_simp
  have minute: "minute_bytes 6 \<in> {[], minute_bytes (minutes_of 300000000 - 1), minute_bytes (minutes_of 300000000), minute_bytes (minutes_of 300000000 + 1)}"
    by code_simp
  have hash: "CalcKeyHashImpl (plain_env True) [7] (minute_bytes 6) = Some [7, 6, 0, 0, 0]" by code_simp
  show ?thesis using add added_key_found [OF start add takes minute hash] by blast
qed

end
