(* ===== verification/KeyWindow.thy ===== *)
theory KeyWindow
  imports KeyRuns
begin

text \<open>
  The minutes whose hashes a key has. When its hashes are renewed again and again, at minutes that never go
  back, the three slots are always in one of eleven positions around the minute of the last renewal, and
  that minute is in all of them. The minutes before and after it are not.
\<close>

section \<open>The slots as numbers\<close>

definition slot_minutes :: "KeyNode \<Rightarrow> nat list" where
  "slot_minutes n = map (\<lambda>i. case i of None \<Rightarrow> 0 | Some i \<Rightarrow> unat (mh_minutes i)) (hashSlots n)"

definition full_node :: "KeyNode \<Rightarrow> bool" where
  "full_node n \<longleftrightarrow> length (hashSlots n) = 3 \<and> None \<notin> set (hashSlots n) \<and> unat (nextUpdateHash n) < 3 \<and> hashCount n \<noteq> 0"

fun renew_minutes :: "nat \<Rightarrow> nat \<Rightarrow> nat \<Rightarrow> nat list \<times> nat \<Rightarrow> nat list \<times> nat" where
  "renew_minutes 0 low m w = w"
| "renew_minutes (Suc k) low m (xs, at) =
     (if low \<le> xs ! at then (xs, at) else renew_minutes k low (m + 1) (xs[at := m], (at + 1) mod 3))"

definition renew_window :: "nat \<Rightarrow> nat list \<times> nat \<Rightarrow> nat list \<times> nat" where
  "renew_window m w =
     (let next = fst w ! (if snd w = 0 then 0 else snd w - 1) + 1
      in if next < m - 1 then renew_minutes 3 (m - 1) (m - 1) w
         else if next > m + 1 then w else renew_minutes 3 (m - 1) m w)"

definition window :: "KeyNode \<Rightarrow> nat list \<times> nat" where
  "window n = (slot_minutes n, unat (nextUpdateHash n))"

lemma next_index: "unat (w :: u32) < 3 \<Longrightarrow> unat ((w + 1) mod 3) = (unat w + 1) mod 3"
proof -
  assume "unat w < 3"
  then have "unat (w + 1) = unat w + 1" by (subst unat_add_lem [THEN iffD1]) simp_all
  then show ?thesis by (simp add: unat_mod)
qed

lemma previous_index: "unat (w :: u32) < 3 \<Longrightarrow> unat ((w - 1) mod 3) = (if unat w = 0 then 0 else unat w - 1)"
proof -
  assume "unat w < 3"
  then have "unat w = 0 \<or> unat w = 1 \<or> unat w = 2" by linarith
  then have "w = 0 \<or> w = 1 \<or> w = 2" by (auto simp: word_unat_eq_iff)
  moreover have "unat (- 1 :: u32) mod 3 = 0" by (simp add: unsigned_minus_1_eq_mask mask_eq_exp_minus_1)
  ultimately show ?thesis by (auto simp: unat_mod)
qed

lemma slot_at:
  assumes "full_node n" and "k < 3"
  shows "\<exists>i. hashSlots n ! k = Some i \<and> slot_minutes n ! k = unat (mh_minutes i)"
proof -
  have k: "k < length (hashSlots n)" using assms by (simp add: full_node_def)
  have "hashSlots n ! k \<noteq> None" using nth_mem [OF k] assms(1) unfolding full_node_def by metis
  then show ?thesis using k by (auto simp: slot_minutes_def)
qed

lemma full_renew:
  "full_node n \<Longrightarrow> full_node (n\<lparr>hashSlots := (hashSlots n)[at := Some i], nextUpdateHash := (nextUpdateHash n + 1) mod 3\<rparr>)"
  using set_update_subset_insert by (fastforce simp: full_node_def mod_3_less)

lemma rehash_slots_window:
  assumes "full_node n" and "unat minutes + k < 2 ^ 32" and total: "\<And>b. mbedtls_sha256 env b \<noteq> None"
  shows "\<exists>n' news deads. rehash_slots k env minM minutes n = Some (n', news, deads) \<and> full_node n' \<and>
    window n' = renew_minutes k (unat minM) (unat minutes) (window n)"
  using assms(1,2)
proof (induction k arbitrary: n minutes)
  case 0
  then show ?case by simp
next
  case (Suc k)
  have at: "unat (nextUpdateHash n) < 3" using Suc.prems(1) by (simp add: full_node_def)
  obtain i where i: "hashSlots n ! unat (nextUpdateHash n) = Some i" "slot_minutes n ! unat (nextUpdateHash n) = unat (mh_minutes i)"
    using slot_at [OF Suc.prems(1) at] by blast
  show ?case
  proof (cases "minM \<le> mh_minutes i")
    case True
    then show ?thesis using i Suc.prems(1) by (simp add: window_def word_le_nat_alt)
  next
    case False
    obtain hash where hash: "CalcKeyHashImpl env (aes_key n) (minute_bytes minutes) = Some hash"
      using total [of "aes_key n @ minute_bytes minutes"] by (auto simp: CalcKeyHashImpl_def)
    let ?i = "\<lparr>mh_hash = hash, mh_minutes = minutes\<rparr>"
    let ?n = "n\<lparr>hashSlots := (hashSlots n)[unat (nextUpdateHash n) := Some ?i], nextUpdateHash := (nextUpdateHash n + 1) mod 3\<rparr>"
    have m: "unat (minutes + 1) = unat minutes + 1" using Suc.prems(2) by (subst unat_add_lem [THEN iffD1]) simp_all
    have w: "window ?n = ((slot_minutes n)[unat (nextUpdateHash n) := unat minutes], (unat (nextUpdateHash n) + 1) mod 3)"
      using next_index [OF at] by (simp add: window_def slot_minutes_def map_update)
    obtain n' news deads where r: "rehash_slots k env minM (minutes + 1) ?n = Some (n', news, deads)" "full_node n'"
        "window n' = renew_minutes k (unat minM) (unat minutes + 1) (window ?n)"
      using Suc.IH [OF full_renew [OF Suc.prems(1)], of "minutes + 1" "unat (nextUpdateHash n)" ?i] Suc.prems(2) m by auto
    have "rehash_slots (Suc k) env minM minutes n = Some (n', ?i # news, Some i # deads)"
      using i(1) False hash r(1) by (simp add: Let_def)
    moreover have "window n' = renew_minutes (Suc k) (unat minM) (unat minutes) (window n)"
      using False i(2) r(3) w by (simp add: window_def word_le_nat_alt)
    ultimately show ?thesis using r(2) by blast
  qed
qed

section \<open>The eleven positions\<close>

definition positions :: "nat \<Rightarrow> (nat list \<times> nat) list" where
  "positions m =
     [([m - 1, m, m + 1], 0), ([m - 1, m, m], 0), ([m - 1, m - 1, m], 0),
      ([m, m - 1, m - 1], 1), ([m, m - 1, m], 1), ([m + 1, m - 1, m], 1), ([m + 2, m, m + 1], 1),
      ([m - 1, m, m - 1], 2), ([m, m, m - 1], 2), ([m, m + 1, m - 1], 2), ([m + 1, m + 2, m], 2)]"

lemma renew_minutes_3: "renew_minutes 3 = renew_minutes (Suc (Suc (Suc 0)))"
  by (simp add: numeral_3_eq_3)

lemma position_renewed:
  assumes "w \<in> set (positions m)" and "1 \<le> m" and "m \<le> m'"
  shows "renew_window m' w \<in> set (positions m')"
proof -
  obtain c d where m: "m = c + 1" "m' = c + 1 + d" using assms(2,3) by (metis add.commute le_Suc_ex)
  define rest where "rest = positions (c + 1 + d)"
  have "d = 0 \<or> d = 1 \<or> d = 2 \<or> d = 3 \<or> d = 4 \<or> (\<exists>e. d = e + 5)" by presburger
  moreover have "w = ([c, c + 1, c + 2], 0) \<or> w = ([c, c + 1, c + 1], 0) \<or> w = ([c, c, c + 1], 0) \<or>
      w = ([c + 1, c, c], 1) \<or> w = ([c + 1, c, c + 1], 1) \<or> w = ([c + 2, c, c + 1], 1) \<or> w = ([c + 3, c + 1, c + 2], 1) \<or>
      w = ([c, c + 1, c], 2) \<or> w = ([c + 1, c + 1, c], 2) \<or> w = ([c + 1, c + 2, c], 2) \<or> w = ([c + 2, c + 3, c + 1], 2)"
    using assms(1) unfolding m(1) positions_def by (simp add: numeral_3_eq_3)
  ultimately show ?thesis
    unfolding m(2) by (elim disjE exE; simp add: renew_window_def renew_minutes_3 positions_def)
qed

section \<open>Hashes renewed again and again\<close>

fun renew_hashes :: "key_env \<Rightarrow> u32 list \<Rightarrow> KeyNode \<Rightarrow> KeyNode option" where
  "renew_hashes env [] n = Some n"
| "renew_hashes env (m # ms) n = do {
     (n, news, deads) \<leftarrow> KeyManagerRehashAesKey env m n;
     renew_hashes env ms n
   }"

lemma rehash_window:
  assumes full: "full_node n" and m: "1 \<le> unat minutes" "unat minutes + 4 < 2 ^ 32" and total: "\<And>b. mbedtls_sha256 env b \<noteq> None"
    and small: "\<forall>x\<in>set (slot_minutes n). x + 1 < 2 ^ 32"
  shows "\<exists>n' news deads. KeyManagerRehashAesKey env minutes n = Some (n', news, deads) \<and> full_node n' \<and>
    window n' = renew_window (unat minutes) (window n)"
proof -
  let ?at = "if unat (nextUpdateHash n) = 0 then 0 else unat (nextUpdateHash n) - 1"
  have at: "unat (nextUpdateHash n) < 3" "?at < 3" "hashCount n \<noteq> 0" using full by (auto simp: full_node_def)
  obtain i where i: "hashSlots n ! ?at = Some i" "slot_minutes n ! ?at = unat (mh_minutes i)" using slot_at [OF full at(2)] by blast
  have "length (slot_minutes n) = 3" using full by (simp add: slot_minutes_def full_node_def)
  then have "unat (mh_minutes i) + 1 < 2 ^ 32" using small i(2) at(2) nth_mem [of ?at "slot_minutes n"] by simp
  then have new: "unat (mh_minutes i + 1) = unat (mh_minutes i) + 1" by (subst unat_add_lem [THEN iffD1]) simp_all
  have low: "unat (minutes - 1) = unat minutes - 1"
    using m(1) by (simp add: unat_sub word_le_nat_alt)
  have high: "unat (minutes + 1) = unat minutes + 1" using m(2) by (subst unat_add_lem [THEN iffD1]) simp_all
  have slots: "\<exists>n' news deads. rehash_slots 3 env (minutes - 1) m n = Some (n', news, deads) \<and> full_node n' \<and>
      window n' = renew_minutes 3 (unat minutes - 1) (unat m) (window n)" if "m = minutes \<or> m = minutes - 1" for m
    using rehash_slots_window [OF full _ total, of m 3 "minutes - 1"] that m low by auto
  have w: "renew_window (unat minutes) (window n) =
     (if unat (mh_minutes i) + 1 < unat minutes - 1 then renew_minutes 3 (unat minutes - 1) (unat minutes - 1) (window n)
      else if unat (mh_minutes i) + 1 > unat minutes + 1 then window n
      else renew_minutes 3 (unat minutes - 1) (unat minutes) (window n))"
    unfolding window_def renew_window_def Let_def fst_conv snd_conv i(2) by (rule refl)
  show ?thesis
    using slots [of minutes] slots [of "minutes - 1"] full at(3) i(1) previous_index [OF at(1)] unfolding w
    by (auto simp: KeyManagerRehashAesKey_def Let_def word_less_nat_alt new low high)
qed

lemma positions_hold: "w \<in> set (positions m) \<Longrightarrow> m \<in> set (fst w) \<and> (\<forall>x\<in>set (fst w). x \<le> m + 2)"
  by (auto simp: positions_def)

lemma renew_hashes_window:
  assumes "full_node n" and "window n \<in> set (positions c)" and "1 \<le> c" and "sorted (c # map unat ms)"
    and "last (c # map unat ms) + 4 < 2 ^ 32" and total: "\<And>b. mbedtls_sha256 env b \<noteq> None"
  shows "\<exists>n'. renew_hashes env ms n = Some n' \<and> full_node n' \<and> window n' \<in> set (positions (last (c # map unat ms)))"
  using assms(1-5)
proof (induction ms arbitrary: n c)
  case (Cons m ms)
  have "sorted (unat m # map unat ms)" using Cons.prems(4) by simp
  then have "unat m \<le> last (unat m # map unat ms)"
    by (cases ms rule: rev_cases) (auto simp: sorted_append)
  then have bound: "unat m + 4 < 2 ^ 32" "c \<le> unat m" using Cons.prems(4,5) by auto
  have small: "\<forall>x\<in>set (slot_minutes n). x + 1 < 2 ^ 32"
    using positions_hold [OF Cons.prems(2)] bound by (auto simp: window_def)
  obtain n1 news deads where r: "KeyManagerRehashAesKey env m n = Some (n1, news, deads)" "full_node n1"
      "window n1 = renew_window (unat m) (window n)"
    using rehash_window [OF Cons.prems(1) _ bound(1) total small] Cons.prems(3) bound(2) by auto
  have "window n1 \<in> set (positions (unat m))" using position_renewed [OF Cons.prems(2,3) bound(2)] r(3) by simp
  from Cons.IH [OF r(2) this] show ?case using Cons.prems(3-5) bound(2) r(1) by auto
qed simp

lemma renew_hashes_ok:
  assumes "renew_hashes env ms n = Some n'" and "node_ok S env n"
  shows "node_ok S env n' \<and> aes_key n' = aes_key n"
  using assms
proof (induction ms arbitrary: n)
  case (Cons m ms)
  obtain n1 news deads where r: "KeyManagerRehashAesKey env m n = Some (n1, news, deads)" "renew_hashes env ms n1 = Some n'"
    using Cons.prems(1) by (auto simp: Option.bind_eq_Some_conv)
  then show ?case using Cons.IH [OF r(2)] rehash_renew [OF r(1) Cons.prems(2)] by (simp add: renewed_def)
qed simp

lemma created_window:
  assumes m: "1 \<le> unat m" "unat m + 4 < 2 ^ 32" and total: "\<And>b. mbedtls_sha256 env b \<noteq> None"
  shows "\<exists>n news deads. KeyManagerRehashAesKey env m (KeyNodeCreate now key peerid) = Some (n, news, deads) \<and> full_node n \<and>
    window n = ([unat m - 1, unat m, unat m + 1], 0) \<and> node_ok UNIV env n \<and> aes_key n = key"
proof -
  let ?n = "KeyNodeCreate now key peerid"
  have hash: "\<exists>h. CalcKeyHashImpl env key b = Some h" for b using total [of "key @ b"] by (auto simp: CalcKeyHashImpl_def)
  obtain h a b c where hs: "CalcKeyHashImpl env key [] = Some h" "CalcKeyHashImpl env key (minute_bytes (m - 1)) = Some a"
      "CalcKeyHashImpl env key (minute_bytes m) = Some b" "CalcKeyHashImpl env key (minute_bytes (m + 1)) = Some c"
    using hash [of "[]"] hash [of "minute_bytes (m - 1)"] hash [of "minute_bytes m"] hash [of "minute_bytes (m + 1)"] by auto
  have "\<exists>n news deads. KeyManagerRehashAesKey env m ?n = Some (n, news, deads) \<and> aes_key n = key \<and> hashCount n = 4 \<and>
      all_hashes n = Some [h, a, b, c]"
    using hs by (simp add: KeyManagerRehashAesKey_def KeyNodeCreate_def Let_def numeral_3_eq_3 unat_steps all_hashes_def)
  then obtain n news deads where r: "KeyManagerRehashAesKey env m ?n = Some (n, news, deads)" "aes_key n = key" "hashCount n = 4"
      "all_hashes n = Some [h, a, b, c]" by blast
  have fresh: "hashCount ?n = 0" "hashSlots ?n = [None, None, None]" "originalHashNode ?n = None" by (simp_all add: KeyNodeCreate_def)
  have ok: "node_ok UNIV env n" using first_hashes [OF r(1,4) fresh] by simp
  obtain ms where ms: "those (hashSlots n) = Some ms" "map mh_minutes ms = [m - 1, m, m + 1]" "nextUpdateHash n = 0"
    using first_slots [OF r(1,4) fresh] by auto
  have low: "unat (m - 1) = unat m - 1" using m(1) by (simp add: unat_sub word_le_nat_alt)
  have high: "unat (m + 1) = unat m + 1" using m(2) by (subst unat_add_lem [THEN iffD1]) simp_all
  have slots: "hashSlots n = map Some ms" using those_Some [OF ms(1)] .
  have "slot_minutes n = map unat (map mh_minutes ms)" unfolding slot_minutes_def slots by (simp add: comp_def)
  then have "window n = ([unat m - 1, unat m, unat m + 1], 0)" unfolding ms(2) using ms(3) by (simp add: window_def low high)
  moreover have "full_node n" using slots arg_cong [OF ms(2), of length] ms(3) r(3) by (auto simp: full_node_def)
  ultimately show ?thesis using r(1,2) ok by blast
qed

text \<open>
  C9. Once a key has got its first hashes, and then new ones at any minutes that do not go back, with any gaps between
  them, the hash of the key with the minute of the last renewal is in one of its three slots: every renewal succeeds,
  and the slot holds the minute and the hash.
\<close>

theorem current_minute_kept:
  assumes "sorted (map unat (m # ms))" and "1 \<le> unat m" and "unat (last (m # ms)) + 4 < 2 ^ 32"
    and "\<And>b. mbedtls_sha256 env b \<noteq> None"
  shows "\<exists>n i. renew_hashes env (m # ms) (KeyNodeCreate now key peerid) = Some n \<and> Some i \<in> set (hashSlots n) \<and>
    mh_minutes i = last (m # ms) \<and> CalcKeyHashImpl env key (minute_bytes (last (m # ms))) = Some (mh_hash i)"
proof -
  have last: "last (unat m # map unat ms) = unat (last (m # ms))" by (simp add: last_map)
  have "unat m \<le> unat (last (m # ms))" using assms(1) by (cases ms rule: rev_cases) (auto simp: sorted_append)
  then have m: "unat m + 4 < 2 ^ 32" using assms(3) by simp
  obtain n1 news deads where n1: "KeyManagerRehashAesKey env m (KeyNodeCreate now key peerid) = Some (n1, news, deads)"
      "full_node n1" "window n1 = ([unat m - 1, unat m, unat m + 1], 0)" "node_ok UNIV env n1" "aes_key n1 = key"
    using created_window [OF assms(2) m assms(4)] by metis
  obtain n where n: "renew_hashes env ms n1 = Some n" "full_node n" "window n \<in> set (positions (unat (last (m # ms))))"
    using renew_hashes_window [OF n1(2) _ assms(2) _ _ assms(4), of ms] n1(3) assms(1,3) unfolding last
    by (auto simp: positions_def)
  have "unat (last (m # ms)) \<in> set (slot_minutes n)" using positions_hold [OF n(3)] by (simp add: window_def)
  then obtain i where i: "Some i \<in> set (hashSlots n)" "mh_minutes i = last (m # ms)"
    using n(2) by (fastforce simp: slot_minutes_def full_node_def word_unat_eq_iff split: option.splits)
  have "CalcKeyHashImpl env key (minute_bytes (last (m # ms))) = Some (mh_hash i)"
    using renew_hashes_ok [OF n(1) n1(4)] n1(5) i unfolding node_ok_def slots_ok_def by metis
  then show ?thesis using n1(1) n(1) i by auto
qed

theorem current_minute_kept_witness:
  "\<exists>n i. renew_hashes (plain_env True) [100, 101, 101, 103, 250] (KeyNodeCreate 0 [7] [1]) = Some n \<and> Some i \<in> set (hashSlots n) \<and>
    mh_minutes i = 250 \<and> CalcKeyHashImpl (plain_env True) [7] (minute_bytes 250) = Some (mh_hash i)"
  using current_minute_kept [of 100 "[101, 101, 103, 250]" "plain_env True" 0 "[7]" "[1]"] by (simp add: plain_env_def)

text \<open>
  C34. The redundancy of one minute does not survive a renewal: a key that got its hashes in one minute and new ones in the next
  has the new minute twice, and the hash of the minute after it, which a peer whose clock is a minute ahead searches, is
  not among them, although there was one for the minute after the first.
\<close>

theorem next_minute_lost:
  assumes "1 \<le> unat m" and "unat m + 5 < 2 ^ 32" and "\<And>b. mbedtls_sha256 env b \<noteq> None"
  shows "map_option slot_minutes (renew_hashes env [m] (KeyNodeCreate now key peerid)) = Some [unat m - 1, unat m, unat m + 1] \<and>
    map_option slot_minutes (renew_hashes env [m, m + 1] (KeyNodeCreate now key peerid)) = Some [unat m + 1, unat m, unat m + 1]"
proof -
  have m: "unat m + 4 < 2 ^ 32" using assms(2) by simp
  have next_m: "unat (m + 1) = unat m + 1" using assms(2) by (subst unat_add_lem [THEN iffD1]) simp_all
  obtain n1 news deads where n1: "KeyManagerRehashAesKey env m (KeyNodeCreate now key peerid) = Some (n1, news, deads)"
      "full_node n1" "window n1 = ([unat m - 1, unat m, unat m + 1], 0)"
    using created_window [OF assms(1) m assms(3)] by metis
  have small: "\<forall>x\<in>set (slot_minutes n1). x + 1 < 2 ^ 32" using n1(3) assms(2) by (auto simp: window_def)
  obtain n2 news2 deads2 where n2: "KeyManagerRehashAesKey env (m + 1) n1 = Some (n2, news2, deads2)"
      "window n2 = renew_window (unat (m + 1)) (window n1)"
    using rehash_window [OF n1(2) _ _ assms(3) small, of "m + 1"] assms(1,2) next_m by auto
  have "renew_window (unat m + 1) ([unat m - 1, unat m, unat m + 1], 0) = ([unat m + 1, unat m, unat m + 1], 1)"
    using assms(1) by (cases "unat m") (simp_all add: renew_window_def renew_minutes_3)
  then show ?thesis using n1(1,3) n2 next_m by (simp add: window_def)
qed

theorem next_minute_lost_witness:
  "map_option slot_minutes (renew_hashes (plain_env True) [100] (KeyNodeCreate 0 [7] [1])) = Some [99, 100, 101] \<and>
    map_option slot_minutes (renew_hashes (plain_env True) [100, 101] (KeyNodeCreate 0 [7] [1])) = Some [101, 100, 101]"
  using next_minute_lost [of 100 "plain_env True" 0 "[7]" "[1]"] by (simp add: plain_env_def)

end
