(* ===== verification/KeyLinks.thy ===== *)
theory KeyLinks
  imports KeyManager
begin

text \<open>
  Doubly linked lists on the heap of keys: which nodes a list holds, in their order, and what the operations of
  SGLib do to it. The list is described from its first node to its last one, whichever of them the pointer to the list is.
\<close>

definition first_of :: "'a list \<Rightarrow> 'a option \<Rightarrow> 'a option" where
  "first_of xs q = (case xs of [] \<Rightarrow> q | x # _ \<Rightarrow> Some x)"

definition last_of :: "'a option \<Rightarrow> 'a list \<Rightarrow> 'a option" where
  "last_of p xs = (if xs = [] then p else Some (last xs))"

lemma ends_simps [simp]:
  "first_of [] q = q" "first_of (x # xs) q = Some x" "first_of (xs @ ys) q = first_of xs (first_of ys q)"
  "last_of p [] = p" "last_of p (xs @ [x]) = Some x" "last_of p (x # xs) = last_of (Some x) xs"
  by (auto simp: first_of_def last_of_def split: list.split)

text \<open>The nodes \<open>xs\<close> are alive and linked both ways; \<open>p\<close> and \<open>q\<close> are the links at the ends.\<close>

fun chain :: "key_heap \<Rightarrow> key_id option \<Rightarrow> key_id list \<Rightarrow> key_id option \<Rightarrow> bool" where
  "chain h p [] q = True"
| "chain h p (x # xs) q =
     (\<exists>n. h x = Some n \<and> kn_previous n = p \<and> kn_next n = first_of xs q \<and> chain h (Some x) xs q)"

lemma chain_append: "chain h p (xs @ ys) q \<longleftrightarrow> chain h p xs (first_of ys q) \<and> chain h (last_of p xs) ys q"
  by (induction xs arbitrary: p) auto

lemma chain_frame: "(\<forall>x\<in>set xs. h' x = h x) \<Longrightarrow> chain h' p xs q = chain h p xs q"
  by (induction xs arbitrary: p) auto

lemma chain_alive: "chain h p xs q \<Longrightarrow> x \<in> set xs \<Longrightarrow> \<exists>n. h x = Some n"
  by (induction xs arbitrary: p) auto

lemma chain_last:
  "chain h p (xs @ [y]) q \<longleftrightarrow> chain h p xs (Some y) \<and> (\<exists>n. h y = Some n \<and> kn_previous n = last_of p xs \<and> kn_next n = q)"
  by (simp add: chain_append)

text \<open>The links of the first and of the last node are changed.\<close>

lemma chain_first_link:
  assumes "chain h p xs q" and "distinct xs"
  shows "\<exists>h'. change_if (first_of xs None) (\<lambda>n. n\<lparr>kn_previous := p'\<rparr>) h = Some h' \<and> chain h' p' xs q \<and>
    (\<forall>a. a \<notin> set xs \<longrightarrow> h' a = h a) \<and> dom h' = dom h"
proof (cases xs)
  case Nil
  then show ?thesis by (simp add: change_if_def)
next
  case (Cons x ys)
  then obtain n where n: "h x = Some n" "kn_next n = first_of ys q" "chain h (Some x) ys q"
    using assms(1) by auto
  let ?h = "h(x \<mapsto> n\<lparr>kn_previous := p'\<rparr>)"
  have "chain ?h (Some x) ys q" using n(3) assms(2) Cons by (subst chain_frame [of ys ?h h]) auto
  then show ?thesis
    using n Cons by (intro exI [of _ ?h]) (auto simp: change_if_def change_node_def)
qed

lemma chain_last_link:
  assumes "chain h p xs q" and "distinct xs"
  shows "\<exists>h'. change_if (last_of None xs) (\<lambda>n. n\<lparr>kn_next := q'\<rparr>) h = Some h' \<and> chain h' p xs q' \<and>
    (\<forall>a. a \<notin> set xs \<longrightarrow> h' a = h a) \<and> dom h' = dom h"
proof (cases xs rule: rev_cases)
  case Nil
  then show ?thesis by (simp add: change_if_def)
next
  case (snoc ys y)
  then obtain n where n: "h y = Some n" "kn_previous n = last_of p ys" "chain h p ys (Some y)"
    using assms(1) chain_last by blast
  let ?h = "h(y \<mapsto> n\<lparr>kn_next := q'\<rparr>)"
  have "chain ?h p ys (Some y)" using n(3) assms(2) snoc by (subst chain_frame [of ys ?h h]) auto
  then show ?thesis
    using n snoc by (intro exI [of _ ?h]) (auto simp: change_if_def change_node_def chain_last)
qed

text \<open>
  A node of the list is taken out: its neighbours are linked, and it keeps its own links. A pointer to it goes to
  the node before it, or else to the one behind.
\<close>

lemma list_delete_chain:
  assumes ch: "chain h None (us @ x # vs) None" and d: "distinct (us @ x # vs)"
  shows "\<exists>h'. list_delete x (Some x) h = Some (last_of (first_of vs None) us, h') \<and> chain h' None (us @ vs) None \<and>
    (\<forall>a. a \<notin> set (us @ vs) \<longrightarrow> h' a = h a) \<and> dom h' = dom h"
proof -
  obtain n where n: "h x = Some n" "kn_previous n = last_of None us" "kn_next n = first_of vs None"
    and us: "chain h None us (Some x)" and vs: "chain h (Some x) vs None"
    using ch by (auto simp: chain_append)
  obtain h1 where h1: "change_if (first_of vs None) (\<lambda>n. n\<lparr>kn_previous := last_of None us\<rparr>) h = Some h1"
    "chain h1 (last_of None us) vs None" "\<forall>a. a \<notin> set vs \<longrightarrow> h1 a = h a" "dom h1 = dom h"
    using chain_first_link [OF vs, of "last_of None us"] d by auto
  have "chain h1 None us (Some x)" using us h1(3) d by (subst chain_frame [of us h1 h]) auto
  then obtain h2 where h2: "change_if (last_of None us) (\<lambda>n. n\<lparr>kn_next := first_of vs None\<rparr>) h1 = Some h2"
    "chain h2 None us (first_of vs None)" "\<forall>a. a \<notin> set us \<longrightarrow> h2 a = h1 a" "dom h2 = dom h1"
    using chain_last_link [of h1 None us "Some x" "first_of vs None"] d by auto
  have "chain h2 (last_of None us) vs None" using h1(2) h2(3) d by (subst chain_frame [of vs h2 h1]) auto
  then have "chain h2 None (us @ vs) None" using h2(2) by (simp add: chain_append)
  then show ?thesis
    using n h1 h2 by (intro exI [of _ h2]) (simp add: list_delete_def last_of_def)
qed

text \<open>A step along a link.\<close>

definition linked :: "key_heap \<Rightarrow> key_id \<Rightarrow> key_id \<Rightarrow> bool" where
  "linked h a b \<longleftrightarrow> (\<exists>n. h a = Some n \<and> (kn_next n = Some b \<or> kn_previous n = Some b))"

lemma no_links_reach: "h x = Some n \<Longrightarrow> kn_next n = None \<Longrightarrow> kn_previous n = None \<Longrightarrow> (linked h)\<^sup>*\<^sup>* x p \<Longrightarrow> p = x"
  by (erule converse_rtranclpE) (auto simp: linked_def)

lemma chain_links:
  assumes "chain h p xs q" and "a \<in> set xs" and "linked h a b"
  shows "b \<in> set xs \<or> p = Some b \<or> q = Some b"
  using assms
proof (induction xs arbitrary: p)
  case (Cons x xs)
  show ?case
  proof (cases "a = x")
    case True
    then show ?thesis using Cons.prems by (cases xs) (auto simp: linked_def)
  next
    case False
    then show ?thesis using Cons.IH [of "Some x"] Cons.prems by auto
  qed
qed simp

text \<open>In a list of more than one node, each has a neighbour that points at it.\<close>

lemma chain_neighbour:
  assumes "chain h None xs None" and "x \<in> set xs" and "xs \<noteq> [x]" and "distinct xs"
  shows "\<exists>y\<in>set xs. y \<noteq> x \<and> linked h y x"
proof -
  obtain us vs where xs: "xs = us @ x # vs" using assms(2) by (meson split_list)
  show ?thesis
  proof (cases vs)
    case Nil
    then obtain ws y where us: "us = ws @ [y]" using assms(3) xs by (cases us rule: rev_cases) auto
    then have "linked h y x" "y \<noteq> x" using assms(1,4) xs by (auto simp: chain_append linked_def)
    then show ?thesis using us xs by auto
  next
    case (Cons y ws)
    then have "linked h y x" "y \<noteq> x" using assms(1,4) xs by (auto simp: chain_append linked_def)
    then show ?thesis using Cons xs by auto
  qed
qed

end
