(* ===== verification/KeyFaults.thy ===== *)
theory KeyFaults
  imports KeyRuns KeyLinks
begin

text \<open>
  Where the key manager's lists go wrong: the links of the key list when there is more than one key, and the comparator of
  its nodes. Both are shown for lists of any length; two keys of different peers, added in the same minute, are
  enough for both.
\<close>

section \<open>A renewal that does not find the key\<close>

text \<open>
  While a renewal goes on: the key \<open>k\<close> that was renewed first is both the header and the tail of the key list, and
  nothing is before it; the keys \<open>ws\<close> are still to be renewed.
\<close>

definition renewing :: "KeyManager \<Rightarrow> key_id \<Rightarrow> key_id list \<Rightarrow> bool" where
  "renewing km k ws \<longleftrightarrow> keyHeader km = Some k \<and> keyTail km = Some k \<and> k \<notin> set ws \<and> distinct ws \<and>
     chain (nodes km) None ws None \<and>
     (case rehashKeyList km of None \<Rightarrow> ws = [] | Some y \<Rightarrow> y \<in> set ws) \<and>
     (\<exists>n. nodes km k = Some n \<and> kn_previous n = None \<and> (\<forall>q. kn_next n = Some q \<longrightarrow> q \<notin> set ws \<and> q \<noteq> k))"

text \<open>The next key of the rehash list goes out of it and gets its hashes.\<close>

lemma next_key_taken:
  assumes ch: "chain (nodes km) None ws None" "distinct ws" and y: "rehashKeyList km = Some y" "y \<in> set ws"
    and miss: "KeyManagerFindByMixHashInNextRehashNodeNoLock env m hash km = Some (None, c, km')"
  obtains us vs h n tail h' where "ws = us @ y # vs" "chain h None (us @ vs) None" "h y = Some n"
    "\<forall>a. a \<notin> set ws \<longrightarrow> h a = nodes km a" "dom h = dom (nodes km)" "add_after y (keyTail km) h = Some (tail, h')"
    "nodes km' = h'" "keyTail km' = tail" "rehashKeyList km' = last_of (first_of vs None) us"
    "keyHeader km' = (if keyHeader km = None then Some y else keyHeader km)"
proof -
  obtain us vs where ws: "ws = us @ y # vs" using y(2) by (meson split_list)
  obtain g where g: "list_delete y (Some y) (nodes km) = Some (last_of (first_of vs None) us, g)"
    "chain g None (us @ vs) None" "\<forall>a. a \<notin> set (us @ vs) \<longrightarrow> g a = nodes km a" "dom g = dom (nodes km)"
    using list_delete_chain [of "nodes km" us y vs] ch ws by auto
  obtain n0 n news deads tail h' where s: "g y = Some n0" "KeyManagerRehashAesKey env m n0 = Some (n, news, deads)"
    "add_after y (keyTail km) (g(y \<mapsto> n)) = Some (tail, h')"
    "nodes km' = h'" "keyTail km' = tail" "rehashKeyList km' = last_of (first_of vs None) us"
    "keyHeader km' = (if keyHeader km = None then Some y else keyHeader km)"
    using miss y(1) g(1)
    by (auto simp: KeyManagerFindByMixHashInNextRehashNodeNoLock_def Let_def split: Option.bind_splits if_splits)
  have y_out: "y \<notin> set (us @ vs)" using ch(2) ws by auto
  have "chain (g(y \<mapsto> n)) None (us @ vs) None"
    using g(2) y_out by (subst chain_frame [of "us @ vs" "g(y \<mapsto> n)" g]) auto
  moreover have "dom (g(y \<mapsto> n)) = dom (nodes km)" using g(4) s(1) by auto
  ultimately show ?thesis
    using that [of us vs "g(y \<mapsto> n)" n tail h'] ws g(3) s(3-7) by simp
qed

lemma next_length: "last_of (first_of vs None) us = None \<longleftrightarrow> us @ vs = []"
  by (auto simp: last_of_def first_of_def split: list.split)

lemma next_member: "last_of (first_of vs None) us = Some z \<Longrightarrow> z \<in> set (us @ vs)"
  by (auto simp: last_of_def first_of_def split: list.splits if_splits)

lemma first_renewed:
  assumes ch: "chain (nodes km) None ws None" "distinct ws" and y: "rehashKeyList km = Some y" "y \<in> set ws"
    and none: "keyHeader km = None" "keyTail km = None"
    and miss: "KeyManagerFindByMixHashInNextRehashNodeNoLock env m hash km = Some (None, c, km')"
  shows "\<exists>ws'. renewing km' y ws' \<and> dom (nodes km) \<subseteq> dom (nodes km')"
proof -
  obtain us vs h n tail h' where s: "ws = us @ y # vs" "chain h None (us @ vs) None" "h y = Some n"
    "\<forall>a. a \<notin> set ws \<longrightarrow> h a = nodes km a" "dom h = dom (nodes km)" "add_after y (keyTail km) h = Some (tail, h')"
    "nodes km' = h'" "keyTail km' = tail" "rehashKeyList km' = last_of (first_of vs None) us"
    "keyHeader km' = (if keyHeader km = None then Some y else keyHeader km)"
    by (rule next_key_taken [OF ch y miss])
  have h': "h' = h(y \<mapsto> n\<lparr>kn_next := None, kn_previous := None\<rparr>)" "tail = Some y"
    using s(3,6) none(2) by (auto simp: add_after_def change_node_def)
  have "chain h' None (us @ vs) None"
    using s(1,2) ch(2) unfolding h' by (subst chain_frame [of "us @ vs" _ h]) auto
  then have "renewing km' y (us @ vs)"
    using s h' none ch(2) next_member [of vs us] next_length [of vs us] by (auto simp: renewing_def split: option.split)
  moreover have "dom (nodes km) \<subseteq> dom (nodes km')" using s(5,7) h' by auto
  ultimately show ?thesis by blast
qed

lemma next_renewed:
  assumes r: "renewing km k ws" and y: "rehashKeyList km = Some y"
    and miss: "KeyManagerFindByMixHashInNextRehashNodeNoLock env m hash km = Some (None, c, km')"
  shows "\<exists>ws'. renewing km' k ws' \<and> length ws' < length ws \<and> dom (nodes km) \<subseteq> dom (nodes km')"
proof -
  have k: "keyHeader km = Some k" "keyTail km = Some k" "k \<notin> set ws" "distinct ws" "chain (nodes km) None ws None" "y \<in> set ws"
    using r y by (auto simp: renewing_def)
  obtain nk where nk: "nodes km k = Some nk" "kn_previous nk = None" "\<forall>q. kn_next nk = Some q \<longrightarrow> q \<notin> set ws \<and> q \<noteq> k"
    using r by (auto simp: renewing_def)
  obtain us vs h n tail h' where s: "ws = us @ y # vs" "chain h None (us @ vs) None" "h y = Some n"
    "\<forall>a. a \<notin> set ws \<longrightarrow> h a = nodes km a" "dom h = dom (nodes km)" "add_after y (keyTail km) h = Some (tail, h')"
    "nodes km' = h'" "keyTail km' = tail" "rehashKeyList km' = last_of (first_of vs None) us"
    "keyHeader km' = (if keyHeader km = None then Some y else keyHeader km)"
    by (rule next_key_taken [OF k(5,4) y k(6) miss])
  have hk: "h k = Some nk" "y \<noteq> k" using s(4) k(3,6) nk(1) by auto
  let ?h = "h(y \<mapsto> n\<lparr>kn_next := kn_next nk, kn_previous := Some k\<rparr>, k \<mapsto> nk\<lparr>kn_next := Some y\<rparr>)"
  have a: "change_if (kn_next nk) (\<lambda>q. q\<lparr>kn_previous := Some y\<rparr>) ?h = Some h'" "tail = Some k"
    using s(3,6) k(2) hk by (auto simp: add_after_def change_node_def split: Option.bind_splits)
  have out: "h' a = h a" if "a \<in> set (us @ vs)" for a
    using a(1) that nk(3) s(1) k(3,4) by (auto simp: change_if_def change_node_def split: option.splits)
  have "h' k = Some (nk\<lparr>kn_next := Some y\<rparr>)"
    using a(1) nk(3) by (auto simp: change_if_def change_node_def split: option.splits)
  moreover have "chain h' None (us @ vs) None" using s(2) out chain_frame [of "us @ vs" h' h] by simp
  ultimately have "renewing km' k (us @ vs)"
    using s(1,7-10) a(2) k nk(2) hk(2) next_member [of vs us] next_length [of vs us]
    by (auto simp: renewing_def split: option.split)
  moreover have "dom h \<subseteq> dom h'"
    using a(1) by (auto simp: change_if_def change_node_def split: option.splits if_splits)
  ultimately show ?thesis using s(1,5,7) by (intro exI [of _ "us @ vs"]) auto
qed

lemma renewal_ends:
  assumes "renewing km k ws" and "rehash_loop env m hash km = Some (None, km')"
  shows "renewing km' k [] \<and> dom (nodes km) \<subseteq> dom (nodes km')"
  using assms
proof (induction "length ws" arbitrary: km ws rule: less_induct)
  case less
  show ?case
  proof (cases "rehashKeyList km")
    case None
    then have "km' = km" using less.prems(2) by (simp add: rehash_loop.simps)
    then show ?thesis using less.prems(1) None by (auto simp: renewing_def)
  next
    case (Some y)
    obtain f c km1 where f: "KeyManagerFindByMixHashInNextRehashNodeNoLock env m hash km = Some (f, c, km1)"
      using less.prems(2) Some by (subst (asm) rehash_loop.simps) (auto split: Option.bind_splits)
    have miss: "f = None" "rehash_loop env m hash km1 = Some (None, km')"
      using less.prems(2) Some f by (subst (asm) rehash_loop.simps, simp split: option.splits)+
    obtain ws' where ws': "renewing km1 k ws'" "length ws' < length ws" "dom (nodes km) \<subseteq> dom (nodes km1)"
      using next_renewed [OF less.prems(1) Some] f miss(1) by blast
    show ?thesis using less.hyps [OF ws'(2,1) miss(2)] ws'(3) by blast
  qed
qed

text \<open>A rehash list of one key, which is renewed and put into an empty key list.\<close>

lemma renew_single:
  assumes k: "rehashKeyList km = Some k" "nodes km k = Some n" "kn_next n = None" "kn_previous n = None"
    and none: "keyHeader km = None" "keyTail km = None" and loop: "rehash_loop env m hash km = Some (found, km')"
  shows "rehashKeyList km' = None \<and> (\<forall>p. p \<noteq> k \<longrightarrow> nodes km' p = nodes km p)"
proof -
  obtain f c km1 where f: "KeyManagerFindByMixHashInNextRehashNodeNoLock env m hash km = Some (f, c, km1)"
    using loop k(1) by (subst (asm) rehash_loop.simps) (auto split: Option.bind_splits)
  have km1: "rehashKeyList km1 = None" "\<forall>p. p \<noteq> k \<longrightarrow> nodes km1 p = nodes km p"
    using f k none
    by (auto simp: KeyManagerFindByMixHashInNextRehashNodeNoLock_def list_delete_def change_if_def add_before_def add_after_def
        change_node_def Let_def split: Option.bind_splits if_splits)
  then have "rehash_loop env m hash km1 = Some (None, km1)" by (simp add: rehash_loop.simps)
  then have "km' = km1" using loop k(1) f by (subst (asm) (1) rehash_loop.simps) (auto split: option.splits)
  then show ?thesis using km1 by simp
qed

text \<open>
  C35. A renewal loses keys. Let the keys \<open>ks\<close> be in the rehash list, in whatever order and with the pointer at any of
  them, the first one renewed being \<open>k\<close>; and let a search renew all of them without finding its hash. Then
  \<open>k\<close> alone is in the list that the next renewal (\<open>KeyManagerMoveAllKeyToRehashNoLock\<close>) takes: no other key can be reached
  from it along any links, although all of them are still there, and whatever is searched then, none of the
  other keys gets new hashes. The reason is that each key is put behind the tail of the key list, while the tail stays where it is, and
  when the list is moved, what is behind the tail is cut off.
\<close>

theorem only_first_key_renewed:
  assumes "chain (nodes km) None ks None" and "distinct ks" and "rehashKeyList km = Some k" and "k \<in> set ks"
    and "keyHeader km = None" and "keyTail km = None" and "rehash_loop env m hash km = Some (None, km1)"
  shows "\<exists>km2. KeyManagerMoveAllKeyToRehashNoLock km1 = Some km2 \<and> rehashKeyList km2 = Some k \<and>
    (\<forall>p. (linked (nodes km2))\<^sup>*\<^sup>* k p \<longrightarrow> p = k) \<and> (\<forall>p\<in>set ks. nodes km2 p \<noteq> None) \<and>
    (\<forall>env' m' hash' found km3. rehash_loop env' m' hash' km2 = Some (found, km3) \<longrightarrow>
       rehashKeyList km3 = None \<and> (\<forall>p. p \<noteq> k \<longrightarrow> nodes km3 p = nodes km2 p))"
proof -
  obtain f c km' where f: "KeyManagerFindByMixHashInNextRehashNodeNoLock env m hash km = Some (f, c, km')"
    using assms(3,7) by (subst (asm) rehash_loop.simps) (auto split: Option.bind_splits)
  then have miss: "f = None" "rehash_loop env m hash km' = Some (None, km1)"
    using assms(3,7) by (subst (asm) rehash_loop.simps, simp split: option.splits)+
  obtain ws where "renewing km' k ws" "dom (nodes km) \<subseteq> dom (nodes km')"
    using first_renewed [OF assms(1-6)] f miss(1) by blast
  then have r: "renewing km1 k []" "dom (nodes km) \<subseteq> dom (nodes km1)"
    using renewal_ends [OF _ miss(2)] by blast+
  obtain n where n: "nodes km1 k = Some n" "kn_previous n = None" and km1: "keyHeader km1 = Some k" "keyTail km1 = Some k"
      "rehashKeyList km1 = None"
    using r(1) by (auto simp: renewing_def split: option.splits)
  let ?km2 = "km1\<lparr>nodes := (nodes km1)(k \<mapsto> n\<lparr>kn_next := None\<rparr>), rehashKeyList := Some k, keyHeader := None, keyTail := None\<rparr>"
  have move: "KeyManagerMoveAllKeyToRehashNoLock km1 = Some ?km2"
    using n km1 by (simp add: KeyManagerMoveAllKeyToRehashNoLock_def change_node_def change_if_def)
  have alive: "\<forall>p\<in>set ks. nodes ?km2 p \<noteq> None"
    using chain_alive [OF assms(1)] r(2) by fastforce
  have "\<forall>p. (linked (nodes ?km2))\<^sup>*\<^sup>* k p \<longrightarrow> p = k"
    using no_links_reach [of "nodes ?km2" k "n\<lparr>kn_next := None\<rparr>"] n(2) by simp
  moreover have "\<forall>env' m' hash' found km3. rehash_loop env' m' hash' ?km2 = Some (found, km3) \<longrightarrow>
       rehashKeyList km3 = None \<and> (\<forall>p. p \<noteq> k \<longrightarrow> nodes km3 p = nodes ?km2 p)"
    using renew_single [of ?km2 k "n\<lparr>kn_next := None\<rparr>"] n(2) by simp
  ultimately show ?thesis using move alive by (intro exI [of _ ?km2]) simp
qed

section \<open>An expired key\<close>

text \<open>The list in which \<open>KeyManagerRemoveKeyNodeFromList\<close> looks for a key first.\<close>

definition list_searched :: "u32 \<Rightarrow> MixHashInfo \<Rightarrow> KeyManager \<Rightarrow> key_id option" where
  "list_searched minMinutes oldest km = (if mh_minutes oldest < minMinutes then rehashKeyList km else keyHeader km)"

lemma delete_key_first:
  assumes "nodes km p = Some n" and "hashSlots n ! unat (nextUpdateHash n) = Some oldest"
    and "delete_hashes p (originalHashNode n # hashSlots n) (mixHashKeyMap km) = Some m"
    and "list_searched minM oldest km = Some k"
  shows "KeyManagerDeleteKey True minM p km = None"
    and "list_delete k (Some k) (nodes km) = Some (l, h) \<Longrightarrow>
      \<exists>km'. KeyManagerDeleteKey False minM p km = Some km' \<and> nodes km' = h(p := None) \<and> list_searched minM oldest km' = l"
  using assms
  by (auto simp: list_searched_def KeyManagerDeleteKey_def KeyManagerRemoveKeyNodeFromList_def delete_if_member_def
      simp del: delete_hashes.simps split: if_splits)

text \<open>
  C36. Deleting a key takes another one out of its list. \<open>KeyManagerRemoveKeyNodeFromList\<close> looks for the key first in
  the key list if its hashes have been renewed, in the rehash list otherwise, and the comparator of these lists is an
  assertion that fails. So with assertions, a key cannot be deleted while that list has any node. Without them, if
  the key \<open>p\<close> is in that list \<open>ks\<close> and the pointer to the list is another one, \<open>k\<close>, then \<open>k\<close> is taken out of the list
  instead of \<open>p\<close>: nothing in the list points at \<open>k\<close> any more, while \<open>p\<close> is freed and stays in the list, where the pointer to the list or
  a neighbour points at it.
\<close>

theorem expired_key_breaks_list:
  assumes "nodes km p = Some n" and "hashSlots n ! unat (nextUpdateHash n) = Some oldest"
    and "delete_hashes p (originalHashNode n # hashSlots n) (mixHashKeyMap km) = Some m"
    and "list_searched minM oldest km = Some k"
  shows "KeyManagerDeleteKey True minM p km = None \<and>
    (chain (nodes km) None ks None \<and> distinct ks \<and> k \<in> set ks \<and> p \<in> set ks \<and> p \<noteq> k \<longrightarrow>
      (\<exists>km'. KeyManagerDeleteKey False minM p km = Some km' \<and>
         nodes km' p = None \<and> (list_searched minM oldest km' = Some p \<or> (\<exists>q\<in>set ks - {k}. linked (nodes km') q p)) \<and>
         nodes km' k = nodes km k \<and> list_searched minM oldest km' \<noteq> Some k \<and> (\<forall>q\<in>set ks - {k}. \<not> linked (nodes km') q k)))"
proof (intro conjI impI)
  show "KeyManagerDeleteKey True minM p km = None" by (rule delete_key_first [OF assms])
next
  assume a: "chain (nodes km) None ks None \<and> distinct ks \<and> k \<in> set ks \<and> p \<in> set ks \<and> p \<noteq> k"
  then obtain us vs where ks: "ks = us @ k # vs" by (meson split_list)
  let ?list = "last_of (first_of vs None) us"
  obtain h where h: "list_delete k (Some k) (nodes km) = Some (?list, h)" "chain h None (us @ vs) None"
    "\<forall>q. q \<notin> set (us @ vs) \<longrightarrow> h q = nodes km q"
    using list_delete_chain [of "nodes km" us k vs] a ks by auto
  have p: "p \<in> set (us @ vs)" and k: "k \<notin> set (us @ vs)" "distinct (us @ vs)" using a ks by auto
  obtain km' where km': "KeyManagerDeleteKey False minM p km = Some km'" "nodes km' = h(p := None)"
      "list_searched minM oldest km' = ?list"
    using delete_key_first(2) [OF assms h(1)] by blast
  have "list_searched minM oldest km' = Some p \<or> (\<exists>q\<in>set ks - {k}. linked (nodes km') q p)"
  proof (cases "us @ vs = [p]")
    case True
    then show ?thesis using km'(3) by (cases us) auto
  next
    case False
    then obtain q where "q \<in> set (us @ vs)" "q \<noteq> p" "linked h q p"
      using chain_neighbour [OF h(2) p _ k(2)] by blast
    then have "q \<in> set ks - {k}" "linked (nodes km') q p" using ks km'(2) k(1) by (auto simp: linked_def)
    then show ?thesis by blast
  qed
  moreover have "\<not> linked (nodes km') q k" if "q \<in> set ks - {k}" for q
  proof
    assume "linked (nodes km') q k"
    then have "linked h q k" using km'(2) by (auto simp: linked_def split: if_splits)
    moreover have "q \<in> set (us @ vs)" using that ks by auto
    ultimately show False using chain_links [OF h(2)] k(1) by auto
  qed
  moreover have "nodes km' k = nodes km k" using km'(2) h(3) k(1) a by simp
  moreover have "?list \<noteq> Some k" using next_member [of vs us k] k(1) by auto
  ultimately show "\<exists>km'. KeyManagerDeleteKey False minM p km = Some km' \<and>
         nodes km' p = None \<and> (list_searched minM oldest km' = Some p \<or> (\<exists>q\<in>set ks - {k}. linked (nodes km') q p)) \<and>
         nodes km' k = nodes km k \<and> list_searched minM oldest km' \<noteq> Some k \<and> (\<forall>q\<in>set ks - {k}. \<not> linked (nodes km') q k)"
    using km' by (intro exI [of _ km']) simp
qed

section \<open>Two keys\<close>

definition at_minute :: "int \<Rightarrow> int" where
  "at_minute m = m * 60000000"

text \<open>Two keys, and a search for a hash that no key has.\<close>

definition two_keys :: "manager_call list" where
  "two_keys = [AddKey (at_minute 100) [7] [1] False, AddKey (at_minute 100) [8] [2] False]"

definition failed_search :: "int \<Rightarrow> manager_call" where
  "failed_search m = FindByMixHash (at_minute m) [99] True False"

definition searched :: "key_env \<Rightarrow> manager_call list \<Rightarrow> int \<Rightarrow> int \<Rightarrow> u8 list \<Rightarrow> (u8 list \<times> u8 list) option option" where
  "searched env cs active now h =
     do { km \<leftarrow> key_calls env cs (KeyManagerInit active);
          r \<leftarrow> BdtHistory_KeyManagerFindByMixHash env now h True False km;
          Some (fst r) }"

definition links_of :: "KeyManager \<Rightarrow> key_id \<Rightarrow> (key_id option \<times> key_id option) option" where
  "links_of km p = map_option (\<lambda>n. (kn_previous n, kn_next n)) (nodes km p)"

lemma two_keys_chain:
  assumes "links_of km 0 = Some (Some (Suc 0), None)" and "links_of km (Suc 0) = Some (None, Some 0)"
  shows "chain (nodes km) None [Suc 0, 0] None"
  using assms by (auto simp: links_of_def)

definition moved_keys :: "KeyManager option" where
  "moved_keys = key_calls (plain_env True) two_keys (KeyManagerInit 100000) \<bind> KeyManagerMoveAllKeyToRehashNoLock"

lemma moved_keys_facts:
  "map_option (\<lambda>km. (rehashKeyList km, keyHeader km, keyTail km, links_of km 0, links_of km (Suc 0))) moved_keys =
     Some (Some 0, None, None, Some (Some (Suc 0), None), Some (None, Some 0))"
  "map_option fst (moved_keys \<bind> rehash_loop (plain_env True) 101 [99]) = Some None"
  by code_simp+

theorem only_first_key_renewed_witness:
  "\<exists>km km1 km2. moved_keys = Some km \<and> rehash_loop (plain_env True) 101 [99] km = Some (None, km1) \<and>
     KeyManagerMoveAllKeyToRehashNoLock km1 = Some km2 \<and>
     \<not> (linked (nodes km2))\<^sup>*\<^sup>* 0 (Suc 0) \<and> nodes km2 (Suc 0) \<noteq> None"
proof -
  obtain km where km: "moved_keys = Some km" "rehashKeyList km = Some 0" "keyHeader km = None" "keyTail km = None"
      "links_of km 0 = Some (Some (Suc 0), None)" "links_of km (Suc 0) = Some (None, Some 0)"
    using moved_keys_facts(1) by auto
  obtain km1 where km1: "rehash_loop (plain_env True) 101 [99] km = Some (None, km1)"
    using moved_keys_facts(2) unfolding km(1) by auto
  have "distinct [Suc 0, 0]" "0 \<in> set [Suc 0, 0]" "Suc 0 \<in> set [Suc 0, 0]" "0 \<noteq> Suc 0" by simp_all
  note d = this
  obtain km2 where "KeyManagerMoveAllKeyToRehashNoLock km1 = Some km2" "\<forall>p. (linked (nodes km2))\<^sup>*\<^sup>* 0 p \<longrightarrow> p = 0"
      "\<forall>p\<in>set [Suc 0, 0]. nodes km2 p \<noteq> None"
    using only_first_key_renewed [OF two_keys_chain [OF km(5,6)] d(1) km(2) d(2) km(3,4) km1] by blast
  then show ?thesis using km(1) km1 d(3,4) by blast
qed

text \<open>
  What it means for a search: after two renewals, the hash that the second key has in the current minute is not
  found, while the key is found by its own hash and the first key by the hash of the minute.
\<close>

lemma second_key_not_found:
  "searched (plain_env True) (two_keys @ [failed_search 101, failed_search 102]) 100000 (at_minute 103) [8, 103, 0, 0, 0] = Some None \<and>
   searched (plain_env True) (two_keys @ [failed_search 101, failed_search 102]) 100000 (at_minute 103) [8] = Some (Some ([8], [2])) \<and>
   searched (plain_env True) (two_keys @ [failed_search 101, failed_search 102]) 100000 (at_minute 103) [7, 103, 0, 0, 0] =
     Some (Some ([7], [1]))"
  by (intro conjI; code_simp)

text \<open>The second key, deleted: the first one is unlinked, and the header of the key list points at the freed one.\<close>

definition second_key :: "KeyManager \<Rightarrow> (u32 option \<times> bool) option" where
  "second_key km = map_option (\<lambda>n. (map_option mh_minutes (hashSlots n ! unat (nextUpdateHash n)),
     delete_hashes (Suc 0) (originalHashNode n # hashSlots n) (mixHashKeyMap km) \<noteq> None)) (nodes km (Suc 0))"

lemma two_keys_facts:
  "map_option (\<lambda>km. (keyHeader km, links_of km 0, links_of km (Suc 0), second_key km))
      (key_calls (plain_env True) two_keys (KeyManagerInit 100000)) =
     Some (Some 0, Some (Some (Suc 0), None), Some (None, Some 0), Some (Some 99, True))"
  by code_simp

theorem expired_key_breaks_list_witness:
  "\<exists>km km'. key_calls (plain_env True) two_keys (KeyManagerInit 100000) = Some km \<and>
     KeyManagerDeleteKey True 99 (Suc 0) km = None \<and>
     KeyManagerDeleteKey False 99 (Suc 0) km = Some km' \<and> nodes km' (Suc 0) = None \<and> keyHeader km' = Some (Suc 0)"
proof -
  obtain km where km: "key_calls (plain_env True) two_keys (KeyManagerInit 100000) = Some km" "keyHeader km = Some 0"
      "links_of km 0 = Some (Some (Suc 0), None)" "links_of km (Suc 0) = Some (None, Some 0)"
      "second_key km = Some (Some 99, True)"
    using two_keys_facts by auto
  obtain n oldest m where n: "nodes km (Suc 0) = Some n" "hashSlots n ! unat (nextUpdateHash n) = Some oldest" "mh_minutes oldest = 99"
      "delete_hashes (Suc 0) (originalHashNode n # hashSlots n) (mixHashKeyMap km) = Some m"
    using km(5) by (auto simp: second_key_def simp del: delete_hashes.simps)
  have list: "list_searched 99 oldest km' = keyHeader km'" for km' using n(3) by (simp add: list_searched_def)
  have first: "list_searched 99 oldest km = Some 0" using list km(2) by simp
  have d: "distinct [Suc 0, 0]" "0 \<in> set [Suc 0, 0]" "Suc 0 \<in> set [Suc 0, 0]" "Suc 0 \<noteq> 0" "set [Suc 0, 0] - {0} = {Suc 0}" by auto
  have b: "KeyManagerDeleteKey True 99 (Suc 0) km = None"
    and "\<exists>km'. KeyManagerDeleteKey False 99 (Suc 0) km = Some km' \<and> nodes km' (Suc 0) = None \<and>
      (keyHeader km' = Some (Suc 0) \<or> (\<exists>q\<in>set [Suc 0, 0] - {0}. linked (nodes km') q (Suc 0)))"
    using expired_key_breaks_list [OF n(1,2,4) first, of "[Suc 0, 0]"] two_keys_chain [OF km(3,4)] d(1-4) unfolding list by blast+
  then obtain km' where km': "KeyManagerDeleteKey False 99 (Suc 0) km = Some km'" "nodes km' (Suc 0) = None"
      "keyHeader km' = Some (Suc 0) \<or> linked (nodes km') (Suc 0) (Suc 0)"
    unfolding d(5) by blast
  then have "keyHeader km' = Some (Suc 0)" by (auto simp: linked_def)
  then show ?thesis using km(1) b km' by blast
qed

text \<open>The same by calls: once keys have expired, asking for a new key of a peer fails, with assertions and without.\<close>

lemma expired_run_fails:
  "Option.is_none (key_calls (plain_env a)
     (two_keys @ [failed_search 1500, GetKeyByRemote (at_minute 1500) [9] [2] True True]) (KeyManagerInit 1000))"
  by (induction a rule: bool.induct) code_simp+

end
