(* ===== verification/Endpoint.thy ===== *)
theory Endpoint
  imports Prelude "HOL-Library.Char_ord"
begin

unbundle bit_operations_syntax

text \<open>
  Endpoints, \<^verbatim>\<open>BDTCore/Global/Endpoint.imp.inl\<close>: an address, a port and flags, their comparison, and the text
  form in which they are configured and logged, for instance \<^verbatim>\<open>v4tcp127.0.0.1:80\<close> or \<^verbatim>\<open>v6udp[2001:db8::1]:80\<close>.
  A text in memory is its characters and the terminating zero; reading behind it is \<open>None\<close>. What
  \<open>BdtEndpointFromString\<close> leaves in the endpoint when it fails is not modelled.
\<close>

section \<open>Data\<close>

abbreviation (input) BDT_ENDPOINT_PROTOCOL_UNK :: u8 where "BDT_ENDPOINT_PROTOCOL_UNK \<equiv> 1"
abbreviation (input) BDT_ENDPOINT_PROTOCOL_TCP :: u8 where "BDT_ENDPOINT_PROTOCOL_TCP \<equiv> 2"
abbreviation (input) BDT_ENDPOINT_PROTOCOL_UDP :: u8 where "BDT_ENDPOINT_PROTOCOL_UDP \<equiv> 4"
abbreviation (input) BDT_ENDPOINT_IP_VERSION_UNK :: u8 where "BDT_ENDPOINT_IP_VERSION_UNK \<equiv> 1"
abbreviation (input) BDT_ENDPOINT_IP_VERSION_4 :: u8 where "BDT_ENDPOINT_IP_VERSION_4 \<equiv> 8"
abbreviation (input) BDT_ENDPOINT_IP_VERSION_6 :: u8 where "BDT_ENDPOINT_IP_VERSION_6 \<equiv> 16"

text \<open>The union of the two addresses is the 16 bytes of the longer one.\<close>

record BdtEndpoint =
  ep_flag :: u8
  ep_reserve :: u8
  ep_port :: u16
  addressV6 :: "u8 list"

definition address :: "BdtEndpoint \<Rightarrow> u8 list" where
  "address e = take 4 (addressV6 e)"

definition has_flag :: "BdtEndpoint \<Rightarrow> u8 \<Rightarrow> bool" where
  "has_flag e f \<longleftrightarrow> ep_flag e AND f \<noteq> 0"

section \<open>Numbers as text\<close>

text \<open>\<^verbatim>\<open>%u\<close> and \<^verbatim>\<open>%x\<close> of \<^verbatim>\<open>sprintf\<close>.\<close>

definition digit_char :: "nat \<Rightarrow> char" where
  "digit_char d = char_of (if d < 10 then 48 + d else 87 + d)"

fun digits :: "nat \<Rightarrow> nat \<Rightarrow> string" where
  "digits b n = (if n < b \<or> b < 2 then [digit_char n] else digits b (n div b) @ [digit_char (n mod b)])"

declare digits.simps [simp del]

text \<open>\<open>atoi\<close>: blanks, a sign, digits; a number that does not fit an \<open>int\<close>, which C leaves open, is taken as it is.\<close>

definition isspace :: "char \<Rightarrow> bool" where
  "isspace c \<longleftrightarrow> of_char c = (32 :: nat) \<or> 9 \<le> (of_char c :: nat) \<and> (of_char c :: nat) \<le> 13"

definition isdigit :: "char \<Rightarrow> bool" where
  "isdigit c \<longleftrightarrow> 48 \<le> (of_char c :: nat) \<and> (of_char c :: nat) \<le> 57"

definition isalpha :: "char \<Rightarrow> bool" where
  "isalpha c \<longleftrightarrow> 65 \<le> (of_char c :: nat) \<and> (of_char c :: nat) \<le> 90 \<or> 97 \<le> (of_char c :: nat) \<and> (of_char c :: nat) \<le> 122"

definition isupper :: "char \<Rightarrow> bool" where
  "isupper c \<longleftrightarrow> 65 \<le> (of_char c :: nat) \<and> (of_char c :: nat) \<le> 90"

fun atoi_digits :: "int \<Rightarrow> string \<Rightarrow> int" where
  "atoi_digits v (c # cs) = (if isdigit c then atoi_digits (10 * v + (of_char c - 48)) cs else v)"
| "atoi_digits v [] = v"

definition atoi :: "string \<Rightarrow> int" where
  "atoi s =
     (case dropWhile isspace s of
        c # cs \<Rightarrow> if c = CHR ''-'' then - atoi_digits 0 cs else if c = CHR ''+'' then atoi_digits 0 cs else atoi_digits 0 (c # cs)
      | [] \<Rightarrow> 0)"

section \<open>To text\<close>

definition parts_of :: "BdtEndpoint \<Rightarrow> u16 list" where
  "parts_of e = map (\<lambda>ix. push_bit 8 (ucast (addressV6 e ! (2 * ix))) + ucast (addressV6 e ! (2 * ix + 1))) [0..<8]"

text \<open>The first run of zeros, from its start to behind its end.\<close>

definition zero_run :: "u16 list \<Rightarrow> (nat \<times> nat) option" where
  "zero_run as =
     (let start = length (takeWhile (\<lambda>a. a \<noteq> 0) as)
      in if start = length as then None else Some (start, start + length (takeWhile (\<lambda>a. a = 0) (drop start as))))"

definition hex :: "u16 \<Rightarrow> string" where
  "hex a = digits 16 (unat a)"

definition dec :: "nat \<Rightarrow> string" where
  "dec n = digits 10 n"

fun joined :: "u16 list \<Rightarrow> string" where
  "joined [] = []"
| "joined [a] = hex a"
| "joined (a # as) = hex a @ '':'' @ joined as"

definition v6_text :: "u16 list \<Rightarrow> string" where
  "v6_text as =
     (case zero_run as of
        None \<Rightarrow> joined as
      | Some (start, end) \<Rightarrow>
          (if start \<noteq> 0 then concat (map (\<lambda>a. hex a @ '':'') (take start as)) else '':'') @
          (if end = 8 then '':'' else concat (map (\<lambda>a. '':'' @ hex a) (drop end as))))"

definition version_text :: "BdtEndpoint \<Rightarrow> string" where
  "version_text e =
     (if has_flag e BDT_ENDPOINT_IP_VERSION_4 then ''v4''
      else if has_flag e BDT_ENDPOINT_IP_VERSION_6 then ''v6'' else ''v?'')"

definition protocol_text :: "BdtEndpoint \<Rightarrow> string" where
  "protocol_text e =
     (if has_flag e BDT_ENDPOINT_PROTOCOL_TCP then ''tcp''
      else if has_flag e BDT_ENDPOINT_PROTOCOL_UDP then ''udp'' else ''unk'')"

definition BdtEndpointToString :: "BdtEndpoint \<Rightarrow> string" where
  "BdtEndpointToString e =
     (if has_flag e BDT_ENDPOINT_IP_VERSION_4 then
        version_text e @ protocol_text e @ dec (unat (addressV6 e ! 0)) @ ''.'' @ dec (unat (addressV6 e ! 1)) @ ''.'' @
          dec (unat (addressV6 e ! 2)) @ ''.'' @ dec (unat (addressV6 e ! 3)) @ '':'' @ dec (unat (ep_port e))
      else if has_flag e BDT_ENDPOINT_IP_VERSION_6 then
        version_text e @ protocol_text e @ ''['' @ v6_text (parts_of e) @ '']:'' @ dec (unat (ep_port e))
      else [])"

section \<open>From text\<close>

type_synonym 'a parse = "(u32 + 'a) option"

definition parse_bind :: "'a parse \<Rightarrow> ('a \<Rightarrow> 'b parse) \<Rightarrow> 'b parse" where
  "parse_bind m f = (case m of None \<Rightarrow> None | Some (Inl e) \<Rightarrow> Some (Inl e) | Some (Inr a) \<Rightarrow> f a)"

text \<open>The bytes of an address of version 4: at most three characters up to the separator.\<close>

fun take_part :: "nat \<Rightarrow> char \<Rightarrow> string \<Rightarrow> (string \<times> string) parse" where
  "take_part n c [] = None"
| "take_part n c (x # xs) =
     (if x = c then Some (Inr ([], xs))
      else if n \<ge> 3 then Some (Inl BFX_RESULT_INVALID_FORMAT)
      else parse_bind (take_part (n + 1) c xs) (\<lambda>(u8, rest). Some (Inr (x # u8, rest))))"

fun parse_v4 :: "char list \<Rightarrow> string \<Rightarrow> (u8 list \<times> string) parse" where
  "parse_v4 [] s = Some (Inr ([], s))"
| "parse_v4 (c # cs) s =
     parse_bind (take_part 0 c s) (\<lambda>(u8, rest).
       if u8 = [] then Some (Inl BFX_RESULT_INVALID_FORMAT)
       else parse_bind (parse_v4 cs rest) (\<lambda>(bs, rest). Some (Inr (word_of_int (atoi u8) # bs, rest))))"

text \<open>The hexadecimal digits of a part of an address of version 6, at most four characters; every letter counts as one.\<close>

definition digit_value :: "char \<Rightarrow> u8" where
  "digit_value c = (if isalpha c then 10 + of_nat (of_char c - (if isupper c then 65 else 97)) else of_nat (of_char c - 48))"

definition take_digits :: "string \<Rightarrow> u8 list" where
  "take_digits s = map digit_value (takeWhile (\<lambda>c. isalpha c \<or> isdigit c) (take 4 s))"

definition digits_value :: "u8 list \<Rightarrow> u16" where
  "digits_value u16 = (\<Sum>ix\<leftarrow>[0..<length u16]. push_bit (4 * (length u16 - 1 - ix)) (ucast (u16 ! ix)))"

text \<open>
  The loop over the parts: where the zeros start, the number of parts, the parts, and what follows the closing bracket.
  (The code's test for a part of no digits cannot hold, because a colon or bracket at the start of a part has been
  dealt with before.)
\<close>

function parse_v6 :: "nat option \<Rightarrow> nat \<Rightarrow> u16 list \<Rightarrow> string \<Rightarrow> (nat option \<times> nat \<times> u16 list \<times> string) parse" where
  "parse_v6 zeroStart parts as s =
     (case s of
        [] \<Rightarrow> None
      | c # cs \<Rightarrow>
          if c = CHR '':'' then
            (if zeroStart = None then parse_v6 (Some parts) parts as cs else Some (Inl BFX_RESULT_INVALID_FORMAT))
          else if c = CHR '']'' then Some (Inr (zeroStart, parts, as, cs))
          else (let u16 = take_digits s
                in case drop (length u16) s of
                     [] \<Rightarrow> None
                   | d # ds \<Rightarrow>
                       if d = CHR '':'' \<or> d = CHR '']'' then
                         (let as = as[parts := as ! parts + digits_value u16]
                          in if d = CHR '']'' then Some (Inr (zeroStart, parts + 1, as, ds))
                             else if parts + 1 = 8 then Some (Inl BFX_RESULT_INVALID_FORMAT)
                             else parse_v6 zeroStart (parts + 1) as ds)
                       else Some (Inl BFX_RESULT_INVALID_FORMAT)))"
  by pat_completeness auto

termination
proof (relation "measure (\<lambda>(z, p, as, s). length s)")
  fix zeroStart :: "nat option" and parts :: nat and as :: "u16 list" and s :: string and c cs x d ds xa
  assume "s = c # cs" "x = take_digits s" "drop (length x) s = d # ds"
  then have "length (d # ds) \<le> length s" by (metis length_drop diff_le_self)
  then show "((zeroStart, parts + 1, xa, ds), zeroStart, parts, as, s) \<in> measure (\<lambda>(z, p, as, s). length s)" by simp
qed simp_all

declare parse_v6.simps [simp del]

definition part_bytes :: "u16 \<Rightarrow> u8 list" where
  "part_bytes a = [ucast (drop_bit 8 a), ucast a]"

definition expand_v6 :: "nat option \<Rightarrow> nat \<Rightarrow> u16 list \<Rightarrow> u8 list parse" where
  "expand_v6 zeroStart parts as =
     (case zeroStart of
        None \<Rightarrow> if parts < 8 then Some (Inl BFX_RESULT_INVALID_FORMAT) else Some (Inr (concat (map part_bytes as)))
      | Some start \<Rightarrow>
          if parts = 8 then Some (Inl BFX_RESULT_INVALID_FORMAT)
          else Some (Inr (concat (map part_bytes
                 (take start as @ replicate (8 - parts) 0 @ take (parts - start) (drop start as))))))"

definition parse_v6_address :: "string \<Rightarrow> (u8 list \<times> string) parse" where
  "parse_v6_address s =
     (case s of
        [] \<Rightarrow> None
      | c # cs \<Rightarrow>
          if c \<noteq> CHR ''['' then Some (Inl BFX_RESULT_INVALID_FORMAT)
          else parse_bind
            (case cs of
               x # xs \<Rightarrow>
                 if x = CHR '':'' then
                   (case xs of [] \<Rightarrow> None | y # ys \<Rightarrow> if y \<noteq> CHR '':'' then Some (Inl BFX_RESULT_INVALID_FORMAT) else Some (Inr xs))
                 else Some (Inr cs)
             | [] \<Rightarrow> None) (\<lambda>cs.
            parse_bind (parse_v6 None 0 (replicate 8 0) cs) (\<lambda>(zeroStart, parts, as, rest).
            parse_bind (expand_v6 zeroStart parts as) (\<lambda>bytes.
            case rest of
              [] \<Rightarrow> None
            | r # rs \<Rightarrow> if r \<noteq> CHR '':'' then Some (Inl BFX_RESULT_INVALID_FORMAT) else Some (Inr (bytes, rs))))))"

definition version_of :: "string \<Rightarrow> u8" where
  "version_of s = (if s = ''v4'' then BDT_ENDPOINT_IP_VERSION_4 else if s = ''v6'' then BDT_ENDPOINT_IP_VERSION_6 else 0)"

definition protocol_of :: "string \<Rightarrow> u8" where
  "protocol_of s = (if s = ''tcp'' then BDT_ENDPOINT_PROTOCOL_TCP else if s = ''udp'' then BDT_ENDPOINT_PROTOCOL_UDP else 0)"

definition BdtEndpointFromString :: "string \<Rightarrow> BdtEndpoint parse" where
  "BdtEndpointFromString str =
     (let mem = str @ [CHR 0x00]
      in if length mem < 5 then None
         else
           (let flag = version_of (take 2 mem) OR protocol_of (take 3 (drop 2 mem)); s = drop 5 mem
            in if version_of (take 2 mem) = BDT_ENDPOINT_IP_VERSION_4 then
                 parse_bind (parse_v4 [CHR ''.'', CHR ''.'', CHR ''.'', CHR '':''] s) (\<lambda>(bytes, rest).
                   Some (Inr \<lparr>ep_flag = flag, ep_reserve = 0, ep_port = word_of_int (atoi rest), addressV6 = bytes @ replicate 12 0\<rparr>))
               else if version_of (take 2 mem) = BDT_ENDPOINT_IP_VERSION_6 then
                 parse_bind (parse_v6_address s) (\<lambda>(bytes, rest).
                   Some (Inr \<lparr>ep_flag = flag, ep_reserve = 0, ep_port = word_of_int (atoi rest), addressV6 = bytes\<rparr>))
               else Some (Inr \<lparr>ep_flag = flag, ep_reserve = 0, ep_port = 0, addressV6 = replicate 16 0\<rparr>)))"

section \<open>Comparison and socket addresses\<close>

definition BdtEndpointIsSameIpVersion :: "BdtEndpoint \<Rightarrow> BdtEndpoint \<Rightarrow> bool" where
  "BdtEndpointIsSameIpVersion l r \<longleftrightarrow>
     has_flag l BDT_ENDPOINT_IP_VERSION_4 \<and> has_flag r BDT_ENDPOINT_IP_VERSION_4 \<or>
     has_flag l BDT_ENDPOINT_IP_VERSION_6 \<and> has_flag r BDT_ENDPOINT_IP_VERSION_6"

text \<open>\<open>memcmp\<close>: the sign of the first difference.\<close>

fun memcmp :: "u8 list \<Rightarrow> u8 list \<Rightarrow> int" where
  "memcmp (a # as) (b # bs) = (if a < b then -1 else if b < a then 1 else memcmp as bs)"
| "memcmp as bs = 0"

abbreviation (input) BDT_ENDPOINT_COMPARE_FLAG :: u8 where "BDT_ENDPOINT_COMPARE_FLAG \<equiv> 31"

definition BdtEndpointCompare :: "BdtEndpoint \<Rightarrow> BdtEndpoint \<Rightarrow> bool \<Rightarrow> int" where
  "BdtEndpointCompare l r ignorePort =
     (let lf = ep_flag l AND BDT_ENDPOINT_COMPARE_FLAG; rf = ep_flag r AND BDT_ENDPOINT_COMPARE_FLAG
      in if lf < rf then -1
         else if lf > rf then 1
         else (let result = (if lf AND BDT_ENDPOINT_IP_VERSION_4 \<noteq> 0 then memcmp (address l) (address r) else memcmp (addressV6 l) (addressV6 r))
               in if result \<noteq> 0 then result
                  else if ignorePort then result
                  else if ep_port l = ep_port r then 0
                  else if ep_port l > ep_port r then 1 else -1))"

definition BdtEndpointArrayIsEqual :: "BdtEndpoint list \<Rightarrow> BdtEndpoint list \<Rightarrow> bool" where
  "BdtEndpointArrayIsEqual ls rs \<longleftrightarrow> length ls = length rs \<and> list_all (\<lambda>(l, r). BdtEndpointCompare l r False = 0) (zip ls rs)"

text \<open>A socket address; its port, which is in network order there, is given as the number.\<close>

datatype sockaddr = sockaddr_in "u8 list" u16 | sockaddr_in6 "u8 list" u16 | sockaddr_other

definition BdtEndpointToSockAddr :: "BdtEndpoint \<Rightarrow> u32 \<times> sockaddr option" where
  "BdtEndpointToSockAddr e =
     (if has_flag e BDT_ENDPOINT_IP_VERSION_4 then (0, Some (sockaddr_in (address e) (ep_port e)))
      else if has_flag e BDT_ENDPOINT_IP_VERSION_6 then (0, Some (sockaddr_in6 (addressV6 e) (ep_port e)))
      else (BFX_RESULT_INVALID_PARAM, None))"

text \<open>The result is 0 for an unknown family too.\<close>

definition SockAddrToBdtEndpoint :: "sockaddr \<Rightarrow> u8 \<Rightarrow> u32 \<times> BdtEndpoint" where
  "SockAddrToBdtEndpoint a protocol =
     (let p = protocol AND (BDT_ENDPOINT_PROTOCOL_UNK OR BDT_ENDPOINT_PROTOCOL_TCP OR BDT_ENDPOINT_PROTOCOL_UDP)
      in (0, case a of
            sockaddr_in bs port \<Rightarrow>
              \<lparr>ep_flag = BDT_ENDPOINT_IP_VERSION_4 OR p, ep_reserve = 0, ep_port = port, addressV6 = bs @ replicate 12 0\<rparr>
          | sockaddr_in6 bs port \<Rightarrow> \<lparr>ep_flag = BDT_ENDPOINT_IP_VERSION_6 OR p, ep_reserve = 0, ep_port = port, addressV6 = bs\<rparr>
          | sockaddr_other \<Rightarrow> \<lparr>ep_flag = p, ep_reserve = 0, ep_port = 0, addressV6 = replicate 16 0\<rparr>))"

end
