(* ===== verification/EndpointText.thy ===== *)
theory EndpointText
  imports Endpoint
begin

text \<open>
  An endpoint survives being written as text and read back, in both versions; the texts fit their buffer; and
  the texts that are read although they are none.
\<close>

section \<open>Numbers\<close>

lemma digit_char_value: "d < 16 \<Longrightarrow> of_char (digit_char d) = (if d < 10 then 48 + d else 87 + d)"
  by (simp add: digit_char_def)

lemma digits_less [simp]: "n < b \<Longrightarrow> digits b n = [digit_char n]"
  by (subst digits.simps) simp

lemma digits_more: "2 \<le> b \<Longrightarrow> b \<le> n \<Longrightarrow> digits b n = digits b (n div b) @ [digit_char (n mod b)]"
  by (subst digits.simps) simp

lemma digits_cases [consumes 1, case_names small large]:
  assumes "2 \<le> (b :: nat)" and "\<And>n. n < b \<Longrightarrow> P n" and "\<And>n. b \<le> n \<Longrightarrow> P (n div b) \<Longrightarrow> P n"
  shows "P n"
proof (induction n rule: less_induct)
  case (less n)
  show ?case
  proof (cases "n < b")
    case False
    then have "n div b < n" using assms(1) by simp
    then show ?thesis using False less.IH assms(3) by simp
  qed (rule assms(2))
qed

lemma digits_not_empty: "digits b n \<noteq> []"
  by (subst digits.simps) simp

lemma digits_length: "2 \<le> b \<Longrightarrow> n < b ^ Suc k \<Longrightarrow> length (digits b n) \<le> Suc k"
proof (induction k arbitrary: n)
  case (Suc k)
  have "n div b < b ^ Suc k" using Suc.prems by (simp add: less_mult_imp_div_less mult.commute)
  then show ?case using Suc.IH [of "n div b"] Suc.prems by (cases "n < b") (simp_all add: digits_more)
qed simp

lemma digits_chars:
  assumes "2 \<le> b" and "c \<in> set (digits b n)"
  shows "\<exists>d<b. c = digit_char d"
  using assms
proof (induction n rule: digits_cases)
  case (large n)
  have "n mod b < b" using assms(1) by simp
  moreover have "c \<in> set (digits b (n div b)) \<or> c = digit_char (n mod b)" using large assms(1) by (auto simp: digits_more)
  ultimately show ?case using large.IH assms(1) by blast
qed auto

text \<open>No digit is a separator, a sign or a blank; those of base ten are digits, the others letters.\<close>

lemma digit_kinds:
  assumes "d < 16"
  shows "d < 10 \<Longrightarrow> isdigit (digit_char d)" and "isalpha (digit_char d) \<or> isdigit (digit_char d)"
    and "\<not> isspace (digit_char d)" and "digit_char d \<notin> {CHR ''.'', CHR '':'', CHR '']'', CHR ''['', CHR ''-'', CHR ''+'', CHR 0x00}"
proof -
  have v: "of_char (digit_char d) = (if d < 10 then 48 + d else 87 + d)" using assms by (rule digit_char_value)
  show "d < 10 \<Longrightarrow> isdigit (digit_char d)" "isalpha (digit_char d) \<or> isdigit (digit_char d)" "\<not> isspace (digit_char d)"
    using assms v by (auto simp: isdigit_def isalpha_def isspace_def)
  show "digit_char d \<notin> {CHR ''.'', CHR '':'', CHR '']'', CHR ''['', CHR ''-'', CHR ''+'', CHR 0x00}"
  proof
    assume "digit_char d \<in> {CHR ''.'', CHR '':'', CHR '']'', CHR ''['', CHR ''-'', CHR ''+'', CHR 0x00}"
    then have "(of_char (digit_char d) :: nat) \<in> {46, 58, 93, 91, 45, 43, 0}" by auto
    then show False using v assms by (auto split: if_splits)
  qed
qed

lemma digit_values:
  assumes "d < 16"
  shows "digit_value (digit_char d) = of_nat d" and "d < 10 \<Longrightarrow> (of_char (digit_char d) :: int) = 48 + int d"
proof -
  have v: "of_char (digit_char d) = (if d < 10 then 48 + d else 87 + d)" using assms by (rule digit_char_value)
  have i: "(of_char (digit_char d) :: int) = int (of_char (digit_char d))" by (simp add: of_nat_of_char)
  show "digit_value (digit_char d) = of_nat d"
    using assms v by (auto simp: digit_value_def isalpha_def isupper_def)
  show "d < 10 \<Longrightarrow> (of_char (digit_char d) :: int) = 48 + int d" unfolding i v by simp
qed

section \<open>Reading decimal numbers\<close>

lemma atoi_digits_dec:
  "atoi_digits v (digits 10 n @ r) = atoi_digits (v * 10 ^ length (digits 10 n) + int n) r"
proof -
  have "(2 :: nat) \<le> 10" by simp
  then show ?thesis
  proof (induction n arbitrary: r rule: digits_cases)
    case (small n)
    then show ?case using digit_kinds(1) [of n] digit_values(2) [of n] by (simp add: mult.commute)
  next
    case (large n)
    have d: "n mod 10 < 10" by simp
    have n: "int n = 10 * int (n div 10) + int (n mod 10)" by presburger
    show ?case
      using large digit_kinds(1) [of "n mod 10"] digit_values(2) [of "n mod 10"]
      by (simp add: digits_more n algebra_simps)
  qed
qed

lemma atoi_dec:
  assumes "r = [] \<or> \<not> isdigit (hd r)"
  shows "atoi (dec n @ r) = int n"
proof -
  obtain c cs where cs: "dec n = c # cs" using digits_not_empty [of 10 n] by (cases "dec n") (simp_all add: dec_def)
  then obtain d where d: "d < 10" "c = digit_char d" using digits_chars [of 10 c n] by (auto simp: dec_def)
  have c: "\<not> isspace c" "c \<noteq> CHR ''-''" "c \<noteq> CHR ''+''" using digit_kinds [of d] d by simp_all
  have "atoi_digits 0 (dec n @ r) = atoi_digits (int n) r" using atoi_digits_dec [of 0 n r] by (simp add: dec_def)
  moreover have "atoi_digits (int n) r = int n" using assms by (cases r) simp_all
  ultimately show ?thesis using c by (simp add: atoi_def cs)
qed

section \<open>Version 4\<close>

lemma take_part_digits:
  assumes "\<forall>x\<in>set xs. x \<noteq> c" and "n + length xs \<le> 3"
  shows "take_part n c (xs @ c # rest) = Some (Inr (xs, rest))"
  using assms by (induction xs arbitrary: n) (auto simp: parse_bind_def)

lemma dec_length: "length (dec (unat (b :: u8))) \<le> 3"
proof -
  have "unat b < 10 ^ Suc 2" using unsigned_less [of b, where ?'a = nat] by simp
  then show ?thesis unfolding dec_def using digits_length [of 10 "unat b" 2] by simp
qed

lemma dec_chars:
  assumes "x \<in> set (dec n)"
  shows "x \<notin> {CHR ''.'', CHR '':''}"
proof -
  obtain d where "d < 10" "x = digit_char d" using digits_chars [of 10 x n] assms by (auto simp: dec_def)
  then show ?thesis using digit_kinds(4) [of d] by simp
qed

lemma take_part_dec:
  assumes "c \<in> {CHR ''.'', CHR '':''}"
  shows "take_part 0 c (dec (unat (b :: u8)) @ c # rest) = Some (Inr (dec (unat b), rest))"
  by (rule take_part_digits) (use assms dec_chars dec_length in auto)

lemma byte_read: "word_of_int (atoi (dec (unat (b :: u8)))) = b"
  using atoi_dec [of "[]" "unat b"] by simp

lemma parse_v4_dec:
  assumes "length bs = 4"
  shows "parse_v4 [CHR ''.'', CHR ''.'', CHR ''.'', CHR '':'']
      (dec (unat (bs ! 0)) @ ''.'' @ dec (unat (bs ! 1)) @ ''.'' @ dec (unat (bs ! 2)) @ ''.'' @ dec (unat (bs ! 3)) @ '':'' @ rest) =
    Some (Inr (bs, rest))"
proof -
  have "dec n \<noteq> []" for n by (simp add: dec_def digits_not_empty)
  moreover have "bs = [bs ! 0, bs ! 1, bs ! 2, bs ! 3]" using assms by (auto simp: list_eq_iff_nth_eq nth_Cons' less_Suc_eq numeral_eq_Suc)
  ultimately show ?thesis by (simp add: take_part_dec parse_bind_def byte_read)
qed

section \<open>Parts of version 6\<close>

lemma hex_length: "length (hex a) \<le> 4"
proof -
  have "unat a < 16 ^ Suc 3" using unsigned_less [of a, where ?'a = nat] by simp
  then show ?thesis unfolding hex_def using digits_length [of 16 "unat a" 3] by simp
qed

lemma hex_chars:
  assumes "x \<in> set (hex a)"
  shows "isalpha x \<or> isdigit x" and "x \<notin> {CHR '':'', CHR '']''}"
proof -
  obtain d where "d < 16" "x = digit_char d" using digits_chars [of 16 x "unat a"] assms by (auto simp: hex_def)
  then show "isalpha x \<or> isdigit x" and "x \<notin> {CHR '':'', CHR '']''}" using digit_kinds [of d] by simp_all
qed

text \<open>The characters that the parser takes for the digits of a part: all letters and digits.\<close>

definition part_text :: "string \<Rightarrow> bool" where
  "part_text ds \<longleftrightarrow> ds \<noteq> [] \<and> length ds \<le> 4 \<and> (\<forall>x\<in>set ds. isalpha x \<or> isdigit x)"

lemma hex_part_text: "part_text (hex a)"
  using hex_length hex_chars(1) by (simp add: part_text_def hex_def digits_not_empty)

lemma take_digits_part:
  assumes "part_text ds" and "c \<in> {CHR '':'', CHR '']''}"
  shows "take_digits (ds @ c # r) = map digit_value ds"
proof -
  have c: "\<not> (isalpha c \<or> isdigit c)" using assms(2) by (auto simp: isalpha_def isdigit_def)
  have "takeWhile (\<lambda>c. isalpha c \<or> isdigit c) (take 4 (ds @ c # r)) = ds"
  proof (cases "length ds = 4")
    case True
    then show ?thesis using assms(1) by (simp add: takeWhile_eq_all_conv part_text_def)
  next
    case False
    then obtain k where "4 - length ds = Suc k" using assms(1) by (cases "4 - length ds") (auto simp: part_text_def)
    then show ?thesis using c assms(1) by (simp add: takeWhile_append2 part_text_def)
  qed
  then show ?thesis by (simp add: take_digits_def)
qed

lemma digits_value_snoc: "digits_value (xs @ [x]) = 16 * digits_value xs + ucast x"
proof -
  have "push_bit (4 * (length (xs @ [x]) - 1 - i)) (ucast ((xs @ [x]) ! i)) =
      16 * push_bit (4 * (length xs - 1 - i)) (ucast (xs ! i) :: u16)" if "i < length xs" for i
  proof -
    have "4 * (length (xs @ [x]) - 1 - i) = 4 * (length xs - 1 - i) + 4" using that by simp
    then show ?thesis using that by (simp add: nth_append push_bit_eq_mult power_add mult.assoc mult.commute)
  qed
  then have "(\<Sum>i\<leftarrow>[0..<length xs]. push_bit (4 * (length (xs @ [x]) - 1 - i)) (ucast ((xs @ [x]) ! i)) :: u16) =
      (\<Sum>i\<leftarrow>[0..<length xs]. 16 * push_bit (4 * (length xs - 1 - i)) (ucast (xs ! i)))"
    by (intro arg_cong [where f = sum_list] map_cong) simp_all
  then show ?thesis by (simp add: digits_value_def sum_list_const_mult)
qed

lemma digit_value_word: "d < 16 \<Longrightarrow> (ucast (digit_value (digit_char d)) :: u16) = of_nat d"
  by (simp add: digit_values(1) word_unat_eq_iff unsigned_ucast_eq unsigned_of_nat take_bit_nat_eq_self)

lemma digits_value_hex: "digits_value (map digit_value (digits 16 n)) = of_nat n"
proof -
  have "(2 :: nat) \<le> 16" by simp
  then show ?thesis
  proof (induction n rule: digits_cases)
    case (small n)
    then show ?case using digits_value_snoc [of "[]"] digit_value_word [of n] by (simp add: digits_value_def)
  next
    case (large n)
    have "(of_nat n :: u16) = 16 * of_nat (n div 16) + of_nat (n mod 16)"
      by (metis mult_div_mod_eq of_nat_add of_nat_mult of_nat_numeral)
    moreover have "digits_value (map digit_value (digits 16 n)) = 16 * of_nat (n div 16) + of_nat (n mod 16)"
      using large digit_value_word [of "n mod 16"] by (simp add: digits_more digits_value_snoc)
    ultimately show ?case by (rule trans [OF _ sym, rotated])
  qed
qed

section \<open>The parser of version 6\<close>

definition read_so_far :: "u16 list \<Rightarrow> u16 list" where
  "read_so_far xs = xs @ replicate (8 - length xs) 0"

lemma read_digits:
  assumes ds: "part_text ds" and c: "c \<in> {CHR '':'', CHR '']''}" and "length xs < 8"
  defines "a \<equiv> digits_value (map digit_value ds)"
  shows "parse_v6 z (length xs) (read_so_far xs) (ds @ c # r) =
    (if c = CHR '']'' then Some (Inr (z, length xs + 1, read_so_far (xs @ [a]), r))
     else if length xs + 1 = 8 then Some (Inl BFX_RESULT_INVALID_FORMAT)
     else parse_v6 z (length xs + 1) (read_so_far (xs @ [a])) r)"
proof -
  obtain x ys where h: "ds = x # ys" using ds by (cases ds) (simp_all add: part_text_def)
  have x: "x \<noteq> CHR '':''" "x \<noteq> CHR '']''" using ds h by (auto simp: part_text_def isalpha_def isdigit_def)
  have digits: "digits_value (take_digits (ds @ c # r)) = a" "length (take_digits (ds @ c # r)) = length ds"
    using take_digits_part [OF ds c] by (simp_all add: a_def)
  have "(read_so_far xs)[length xs := read_so_far xs ! length xs + a] = read_so_far (xs @ [a])"
    using assms(3) by (cases "8 - length xs") (simp_all add: read_so_far_def nth_append list_update_append)
  then show ?thesis
    using c x digits by (subst parse_v6.simps) (auto simp: h Let_def)
qed

lemma read_part:
  assumes "c \<in> {CHR '':'', CHR '']''}" and "length xs < 8"
  shows "parse_v6 z (length xs) (read_so_far xs) (hex a @ c # r) =
    (if c = CHR '']'' then Some (Inr (z, length xs + 1, read_so_far (xs @ [a]), r))
     else if length xs + 1 = 8 then Some (Inl BFX_RESULT_INVALID_FORMAT)
     else parse_v6 z (length xs + 1) (read_so_far (xs @ [a])) r)"
  using read_digits [OF hex_part_text assms] digits_value_hex [of "unat a"] by (simp add: hex_def)

lemma read_parts:
  "length (xs @ ys) < 8 \<Longrightarrow>
   parse_v6 z (length xs) (read_so_far xs) (concat (map (\<lambda>a. hex a @ '':'') ys) @ r) =
   parse_v6 z (length (xs @ ys)) (read_so_far (xs @ ys)) r"
proof (induction ys arbitrary: xs)
  case (Cons a ys)
  then show ?case using read_part [of "CHR '':''" xs z a] Cons.IH [of "xs @ [a]"] by simp
qed simp

lemma read_joined:
  "ys \<noteq> [] \<Longrightarrow> length (xs @ ys) \<le> 8 \<Longrightarrow>
   parse_v6 z (length xs) (read_so_far xs) (joined ys @ CHR '']'' # r) = Some (Inr (z, length (xs @ ys), read_so_far (xs @ ys), r))"
proof (induction ys arbitrary: xs rule: joined.induct)
  case (2 a)
  then show ?case using read_part [of "CHR '']''" xs z a] by simp
next
  case (3 a b ys)
  then show ?case using read_part [of "CHR '':''" xs z a] 3(1) [of "xs @ [a]"] by simp
qed simp

lemma joined_parts: "as \<noteq> [] \<Longrightarrow> concat (map (\<lambda>a. CHR '':'' # hex a) as) = CHR '':'' # joined as"
  by (induction as rule: joined.induct) auto

lemma read_zeros: "parse_v6 None n as (CHR '':'' # r) = parse_v6 (Some n) n as r"
  by (subst parse_v6.simps) simp

lemma read_end: "parse_v6 z n as (CHR '']'' # r) = Some (Inr (z, n, as, r))"
  by (subst parse_v6.simps) simp

text \<open>The zeros left out and the rest, at the end or before the closing bracket.\<close>

lemma read_gap:
  assumes "length xs + length zs < 8"
  shows "parse_v6 None (length xs) (read_so_far xs)
      ((if zs = [] then '':'' else concat (map (\<lambda>a. '':'' @ hex a) zs)) @ CHR '']'' # r) =
    Some (Inr (Some (length xs), length (xs @ zs), read_so_far (xs @ zs), r))"
proof (cases "zs = []")
  case False
  then show ?thesis using read_joined [OF False, of xs "Some (length xs)" r] assms by (simp add: joined_parts read_zeros)
qed (simp add: read_zeros read_end)

lemma zero_run_Some:
  assumes "zero_run as = Some (s, e)"
  shows "s < e" and "e \<le> length as" and "as = take s as @ replicate (e - s) 0 @ drop e as"
proof -
  let ?s = "length (takeWhile (\<lambda>a. a \<noteq> 0) as)"
  let ?zs = "takeWhile (\<lambda>a. a = 0) (drop ?s as)"
  have se: "s = ?s" "e = ?s + length ?zs" "?s \<noteq> length as" using assms by (auto simp: zero_run_def Let_def split: if_splits)
  have "?s < length as" using se(3) length_takeWhile_le [of "\<lambda>a. a \<noteq> 0" as] by simp
  then have d: "drop ?s as = as ! ?s # drop (Suc ?s) as" "as ! ?s = 0"
    using nth_length_takeWhile [of "\<lambda>a. a \<noteq> 0" as] by (auto simp del: drop_eq_Nil simp: id_take_nth_drop Cons_nth_drop_Suc [symmetric])
  have "?zs \<noteq> []" using d by simp
  then show "s < e" using se(1,2) by simp
  have "length ?zs \<le> length (drop ?s as)" by (rule length_takeWhile_le)
  then show "e \<le> length as" using se(1,2) length_takeWhile_le [of "\<lambda>a. a \<noteq> 0" as] by simp
  have zs: "?zs = replicate (e - s) 0" using se(1,2) by (metis (mono_tags, lifting) add_diff_cancel_left' replicate_eqI set_takeWhileD)
  have "as = take ?s as @ ?zs @ dropWhile (\<lambda>a. a = 0) (drop ?s as)" by simp
  moreover have "dropWhile (\<lambda>a. a = 0) (drop ?s as) = drop e as" using se(1,2) by (simp add: dropWhile_eq_drop add.commute)
  ultimately show "as = take s as @ replicate (e - s) 0 @ drop e as" using se(1) zs by metis
qed

lemma hex_first: "\<exists>x xs. hex a = x # xs \<and> x \<noteq> CHR '':''"
proof (cases "hex a")
  case (Cons x xs)
  then show ?thesis using hex_chars(2) [of x a] by simp
qed (simp add: hex_def digits_not_empty)

lemma read_text:
  assumes "length as = 8"
  shows "\<exists>z n bs. parse_v6 None 0 (replicate 8 0)
      ((if zero_run as \<noteq> None \<and> fst (the (zero_run as)) = 0 then tl (v6_text as) else v6_text as) @ CHR '']'' # r) = Some (Inr (z, n, bs, r)) \<and>
    expand_v6 z n bs = Some (Inr (concat (map part_bytes as)))"
proof (cases "zero_run as")
  case None
  have "as \<noteq> []" using assms by auto
  then show ?thesis
    using read_joined [of as "[]" None r] assms None by (simp add: v6_text_def read_so_far_def expand_v6_def)
next
  case (Some se)
  obtain s e where se: "se = (s, e)" by fastforce
  have run: "s < e" "e \<le> 8" "as = take s as @ replicate (e - s) 0 @ drop e as"
    using zero_run_Some [of as s e] Some assms by (simp_all add: se)
  let ?xs = "take s as" and ?zs = "drop e as"
  let ?gap = "if ?zs = [] then '':'' else concat (map (\<lambda>a. '':'' @ hex a) ?zs)"
  have len: "length ?xs = s" "length ?zs = 8 - e" using run assms by simp_all
  have written: "v6_text as = (if s \<noteq> 0 then concat (map (\<lambda>a. hex a @ '':'') ?xs) else '':'') @ ?gap"
    using Some assms run(2) by (simp add: v6_text_def se)
  have start: "(if zero_run as \<noteq> None \<and> fst (the (zero_run as)) = 0 then tl (v6_text as) else v6_text as) =
      concat (map (\<lambda>a. hex a @ '':'') ?xs) @ ?gap"
    using Some by (cases "s = 0") (simp_all add: written se)
  have "parse_v6 None 0 (replicate 8 0) (concat (map (\<lambda>a. hex a @ '':'') ?xs) @ ?gap @ CHR '']'' # r) =
      parse_v6 None (length ?xs) (read_so_far ?xs) (?gap @ CHR '']'' # r)"
    using read_parts [of "[]" ?xs None "?gap @ CHR '']'' # r"] run len by (simp add: read_so_far_def)
  also have "\<dots> = Some (Inr (Some (length ?xs), length (?xs @ ?zs), read_so_far (?xs @ ?zs), r))"
    by (rule read_gap) (use run len in simp)
  finally have read: "parse_v6 None 0 (replicate 8 0)
      ((if zero_run as \<noteq> None \<and> fst (the (zero_run as)) = 0 then tl (v6_text as) else v6_text as) @ CHR '']'' # r) =
      Some (Inr (Some (length ?xs), length (?xs @ ?zs), read_so_far (?xs @ ?zs), r))"
    unfolding start append_assoc .
  have "take s (read_so_far (?xs @ ?zs)) @ replicate (8 - (s + (8 - e))) 0 @ take (s + (8 - e) - s) (drop s (read_so_far (?xs @ ?zs))) = take s as @ replicate (e - s) 0 @ drop e as"
    using run(1,2) len by (simp add: read_so_far_def)
  also have "\<dots> = as" by (rule run(3) [symmetric])
  finally have "take s (read_so_far (?xs @ ?zs)) @ replicate (8 - (s + (8 - e))) 0 @ take (s + (8 - e) - s) (drop s (read_so_far (?xs @ ?zs))) = as" .
  then have "expand_v6 (Some (length ?xs)) (length (?xs @ ?zs)) (read_so_far (?xs @ ?zs)) = Some (Inr (concat (map part_bytes as)))"
    using run(1,2) len assms by (simp add: expand_v6_def)
  then show ?thesis using read by blast
qed

lemma v6_text_start:
  assumes "length as = 8"
  shows "\<exists>x t. v6_text as @ CHR '']'' # r = x # t \<and> t \<noteq> [] \<and>
    (if zero_run as \<noteq> None \<and> fst (the (zero_run as)) = 0 then x = CHR '':'' \<and> hd t = CHR '':'' else x \<noteq> CHR '':'')"
proof (cases "zero_run as")
  case None
  obtain a b bs where as: "as = a # b # bs" using assms by (auto simp: numeral_eq_Suc length_Suc_conv)
  then show ?thesis using hex_first [of a] None by (auto simp: v6_text_def)
next
  case (Some se)
  obtain s e where se: "se = (s, e)" by fastforce
  obtain a bs where as: "as = a # bs" using assms by (cases as) auto
  have "drop e as \<noteq> [] \<longleftrightarrow> e \<noteq> 8" using zero_run_Some(2) [of as s e] Some se assms by auto
  then show ?thesis
    using hex_first [of a] Some joined_parts [of "drop e as"] as by (cases s) (auto simp: v6_text_def se)
qed

lemma parse_v6_text:
  assumes "length as = 8"
  shows "parse_v6_address (CHR ''['' # v6_text as @ CHR '']'' # CHR '':'' # r) = Some (Inr (concat (map part_bytes as), r))"
proof -
  obtain z n bs where read: "parse_v6 None 0 (replicate 8 0)
      ((if zero_run as \<noteq> None \<and> fst (the (zero_run as)) = 0 then tl (v6_text as) else v6_text as) @ CHR '']'' # CHR '':'' # r) =
        Some (Inr (z, n, bs, CHR '':'' # r))"
      "expand_v6 z n bs = Some (Inr (concat (map part_bytes as)))"
    using read_text [OF assms, of "CHR '':'' # r"] by blast
  obtain x u where u: "v6_text as @ CHR '']'' # CHR '':'' # r = x # u" "u \<noteq> []"
      "if zero_run as \<noteq> None \<and> fst (the (zero_run as)) = 0 then x = CHR '':'' \<and> hd u = CHR '':'' else x \<noteq> CHR '':''"
    using v6_text_start [OF assms, of "CHR '':'' # r"] by blast
  obtain y t where "u = y # t" using u(2) by (cases u) simp_all
  then have t: "v6_text as @ CHR '']'' # CHR '':'' # r = x # y # t"
      "if zero_run as \<noteq> None \<and> fst (the (zero_run as)) = 0 then x = CHR '':'' \<and> y = CHR '':'' else x \<noteq> CHR '':''"
    using u(1,3) by (auto split: if_splits)
  show ?thesis
  proof (cases "zero_run as \<noteq> None \<and> fst (the (zero_run as)) = 0")
    case True
    obtain w where "v6_text as = CHR '':'' # w" using True by (auto simp: v6_text_def split: option.splits)
    then have "tl (v6_text as) @ CHR '']'' # CHR '':'' # r = y # t" using t(1) by auto
    then show ?thesis using t True read by (simp add: parse_v6_address_def parse_bind_def)
  next
    case False
    have "x \<noteq> CHR '':''" using t(2) unfolding if_not_P [OF False] .
    then show ?thesis
      using read(1) [unfolded if_not_P [OF False] t(1)] read(2) by (simp add: parse_v6_address_def parse_bind_def t(1))
  qed
qed

section \<open>There and back\<close>

lemma parts_back:
  assumes "length bs = 16"
  shows "concat (map part_bytes (parts_of (e\<lparr>addressV6 := bs\<rparr>))) = bs"
proof -
  have pair: "part_bytes (push_bit 8 (ucast a) + ucast b) = [a, b]" for a b :: u8
  proof -
    have "(push_bit 8 (ucast a) + ucast b :: u16) = push_bit 8 (ucast a) OR ucast b"
      by (rule disjunctive_add) (auto simp: bit_push_bit_iff bit_ucast_iff dest: bit_imp_le_length)
    moreover have "(ucast (drop_bit 8 (push_bit 8 (ucast a) OR ucast b :: u16)) :: u8) = a"
      by (rule bit_word_eqI) (auto simp: bit_simps dest: bit_imp_le_length)
    moreover have "(ucast (push_bit 8 (ucast a) OR ucast b :: u16) :: u8) = b"
      by (rule bit_word_eqI) (auto simp: bit_simps dest: bit_imp_le_length)
    ultimately show ?thesis by (simp add: part_bytes_def)
  qed
  have "concat (map part_bytes (parts_of (e\<lparr>addressV6 := bs\<rparr>))) = concat (map (\<lambda>ix. [bs ! (2 * ix), bs ! (2 * ix + 1)]) [0..<8])"
    by (simp add: parts_of_def pair comp_def)
  also have "\<dots> = map ((!) bs) [0..<16]" by (simp add: upt_rec eval_nat_numeral)
  finally show ?thesis using assms by (metis map_nth)
qed

text \<open>The flags that the text shows.\<close>

definition shown_flags :: "BdtEndpoint \<Rightarrow> u8" where
  "shown_flags e =
     (if has_flag e BDT_ENDPOINT_IP_VERSION_4 then BDT_ENDPOINT_IP_VERSION_4 else BDT_ENDPOINT_IP_VERSION_6) OR
     (if has_flag e BDT_ENDPOINT_PROTOCOL_TCP then BDT_ENDPOINT_PROTOCOL_TCP
      else if has_flag e BDT_ENDPOINT_PROTOCOL_UDP then BDT_ENDPOINT_PROTOCOL_UDP else 0)"

lemma protocol_read: "protocol_of (protocol_text e) =
    (if has_flag e BDT_ENDPOINT_PROTOCOL_TCP then BDT_ENDPOINT_PROTOCOL_TCP
     else if has_flag e BDT_ENDPOINT_PROTOCOL_UDP then BDT_ENDPOINT_PROTOCOL_UDP else 0)" "length (protocol_text e) = 3"
  by (simp_all add: protocol_text_def protocol_of_def)

lemma port_read: "word_of_int (atoi (dec (unat (p :: u16)) @ [CHR 0x00])) = p"
  using atoi_dec [of "[CHR 0x00]" "unat p"] by (simp add: isdigit_def)

lemma from_string_prefix:
  assumes "length v = 2" and "length p = 3"
  shows "take 2 ((v @ p @ s) @ t) = v" and "take 3 (drop 2 ((v @ p @ s) @ t)) = p" and "drop 5 ((v @ p @ s) @ t) = s @ t"
    and "\<not> length ((v @ p @ s) @ t) < 5"
  using assms by simp_all

section \<open>The length of the text\<close>

lemma joined_length: "length (joined as) \<le> 5 * length as"
proof (induction as rule: joined.induct)
  case (3 a b as)
  then show ?case using hex_length [of a] by simp
next
  case (2 a)
  then show ?case using hex_length [of a] by simp
qed simp

lemma parts_length: "length (concat (map (\<lambda>a. f a) as)) \<le> 5 * length as" if "\<And>a. length (f a) \<le> 5" for f :: "u16 \<Rightarrow> string"
proof (induction as)
  case (Cons a as)
  then show ?case using that [of a] by simp
qed simp

lemma v6_text_length:
  assumes "length as = 8"
  shows "length (v6_text as) \<le> 40"
proof (cases "zero_run as")
  case None
  then show ?thesis using joined_length [of as] assms by (simp add: v6_text_def)
next
  case (Some se)
  obtain s e where se: "se = (s, e)" by fastforce
  have run: "s < e" "e \<le> 8" using zero_run_Some(1,2) [of as s e] Some assms by (simp_all add: se)
  have "length (concat (map (\<lambda>a. hex a @ '':'') (take s as))) \<le> 5 * s"
    using parts_length [of "\<lambda>a. hex a @ '':''" "take s as"] hex_length run assms by simp
  moreover have "length (concat (map (\<lambda>a. '':'' @ hex a) (drop e as))) \<le> 5 * (8 - e)"
    using parts_length [of "\<lambda>a. '':'' @ hex a" "drop e as"] hex_length run assms by simp
  moreover have "5 * s + 5 * (8 - e) \<le> 35" "5 * (8 - e) \<le> 35" using run by arith+
  ultimately show ?thesis using Some by (simp add: v6_text_def se)
qed

lemma port_length: "length (dec (unat (p :: u16))) \<le> 5"
proof -
  have "unat p < 10 ^ Suc 4" using unsigned_less [of p, where ?'a = nat] by simp
  then show ?thesis unfolding dec_def using digits_length [of 10 "unat p" 4] by simp
qed

lemma text_length: "length (BdtEndpointToString e) \<le> 53"
proof -
  have parts: "length (parts_of e) = 8" by (simp add: parts_of_def)
  have small: "length (dec (unat (addressV6 e ! i))) \<le> 3" for i by (rule dec_length)
  show ?thesis
    using small [of 0] small [of 1] small [of 2] small [of 3] port_length [of "ep_port e"] v6_text_length [OF parts] protocol_read(2) [of e]
    by (simp add: BdtEndpointToString_def version_text_def)
qed

lemma endpoint_text_back:
  assumes "length (addressV6 e) = 16" and "has_flag e BDT_ENDPOINT_IP_VERSION_4 \<or> has_flag e BDT_ENDPOINT_IP_VERSION_6"
  shows "BdtEndpointFromString (BdtEndpointToString e) =
    Some (Inr \<lparr>ep_flag = shown_flags e, ep_reserve = 0, ep_port = ep_port e,
      addressV6 = (if has_flag e BDT_ENDPOINT_IP_VERSION_4 then address e @ replicate 12 0 else addressV6 e)\<rparr>)"
proof (cases "has_flag e BDT_ENDPOINT_IP_VERSION_4")
  case True
  let ?a = "dec (unat (addressV6 e ! 0)) @ ''.'' @ dec (unat (addressV6 e ! 1)) @ ''.'' @ dec (unat (addressV6 e ! 2)) @ ''.'' @
    dec (unat (addressV6 e ! 3)) @ '':'' @ dec (unat (ep_port e))"
  have "BdtEndpointToString e = ''v4'' @ protocol_text e @ ?a" using True by (simp add: BdtEndpointToString_def version_text_def)
  moreover have "parse_v4 [CHR ''.'', CHR ''.'', CHR ''.'', CHR '':''] (?a @ [CHR 0x00]) =
      Some (Inr (address e, dec (unat (ep_port e)) @ [CHR 0x00]))"
    using parse_v4_dec [of "address e" "dec (unat (ep_port e)) @ [CHR 0x00]"] assms(1) by (simp add: address_def)
  ultimately show ?thesis
    using True from_string_prefix [of "''v4''" "protocol_text e" ?a "[CHR 0x00]"] protocol_read [of e] port_read
    by (simp add: BdtEndpointFromString_def version_of_def parse_bind_def shown_flags_def)
next
  case False
  let ?a = "CHR ''['' # v6_text (parts_of e) @ CHR '']'' # CHR '':'' # dec (unat (ep_port e))"
  have "BdtEndpointToString e = ''v6'' @ protocol_text e @ ?a"
    using False assms(2) by (simp add: BdtEndpointToString_def version_text_def)
  moreover have "parse_v6_address (?a @ [CHR 0x00]) = Some (Inr (addressV6 e, dec (unat (ep_port e)) @ [CHR 0x00]))"
    using parse_v6_text [of "parts_of e" "dec (unat (ep_port e)) @ [CHR 0x00]"] parts_back [OF assms(1), of e]
    by (simp add: parts_of_def)
  ultimately show ?thesis
    using False from_string_prefix [of "''v6''" "protocol_text e" ?a "[CHR 0x00]"] protocol_read [of e] port_read
    by (simp add: BdtEndpointFromString_def version_of_def parse_bind_def shown_flags_def)
qed

text \<open>
  C23. Every endpoint with an address, of version 4 or 6, whatever its bytes and its port, is written as a text that
  is read back as the same address, port, version and protocol; the flags that the text does not show are gone, and for version 4 the
  bytes behind the address are zero. The text fits the 53 characters of its buffer.
\<close>

theorem endpoint_text_roundtrip:
  assumes "length (addressV6 e) = 16" and "has_flag e BDT_ENDPOINT_IP_VERSION_4 \<or> has_flag e BDT_ENDPOINT_IP_VERSION_6"
  shows "BdtEndpointFromString (BdtEndpointToString e) =
    Some (Inr \<lparr>ep_flag = shown_flags e, ep_reserve = 0, ep_port = ep_port e,
      addressV6 = (if has_flag e BDT_ENDPOINT_IP_VERSION_4 then address e @ replicate 12 0 else addressV6 e)\<rparr>) \<and>
    length (BdtEndpointToString e) \<le> 53"
  using endpoint_text_back [OF assms] text_length by simp

theorem endpoint_text_roundtrip_witness:
  "\<exists>e. BdtEndpointToString e = ''v6udp[2001:db8::1]:8080'' \<and>
    BdtEndpointFromString (BdtEndpointToString e) =
      Some (Inr \<lparr>ep_flag = 20, ep_reserve = 0, ep_port = 8080, addressV6 = [32, 1, 13, 184, 0, 0, 0, 0, 0, 0, 0, 0, 0, 0, 0, 1]\<rparr>)"
proof -
  let ?e = "\<lparr>ep_flag = 0xD4, ep_reserve = 0, ep_port = 8080, addressV6 = [32, 1, 13, 184, 0, 0, 0, 0, 0, 0, 0, 0, 0, 0, 0, 1]\<rparr>"
  have parts: "parts_of ?e = [8193, 3512, 0, 0, 0, 0, 0, 1]" by code_simp
  have "version_text ?e = ''v6''" "protocol_text ?e = ''udp''" "zero_run [8193, 3512, 0, 0, 0, 0, 0, 1] = Some (2, 7)" by code_simp+
  then have "BdtEndpointToString ?e = ''v6udp[2001:db8::1]:8080''"
    unfolding BdtEndpointToString_def parts
    by (simp add: has_flag_def v6_text_def hex_def dec_def digits.simps digit_char_def char_of_def bit_0)
  moreover have "has_flag ?e BDT_ENDPOINT_IP_VERSION_6" "\<not> has_flag ?e BDT_ENDPOINT_IP_VERSION_4" "shown_flags ?e = 20" by code_simp+
  ultimately show ?thesis using endpoint_text_roundtrip [of ?e] by (intro exI [of _ ?e]) simp
qed

section \<open>Texts that are no endpoints\<close>

lemma no_version_accepted:
  assumes "4 \<le> length s" and "take 2 s \<noteq> ''v4''" and "take 2 s \<noteq> ''v6''"
  shows "\<exists>e. BdtEndpointFromString s = Some (Inr e) \<and> \<not> has_flag e BDT_ENDPOINT_IP_VERSION_4 \<and>
    \<not> has_flag e BDT_ENDPOINT_IP_VERSION_6 \<and> ep_port e = 0 \<and> addressV6 e = replicate 16 0"
proof -
  have t: "take 2 (s @ [CHR 0x00]) = take 2 s" "\<not> length (s @ [CHR 0x00]) < 5" using assms(1) by simp_all
  have "version_of (take 2 s) = 0" using assms(2,3) by (simp add: version_of_def)
  moreover have "protocol_of t AND BDT_ENDPOINT_IP_VERSION_4 = 0" "protocol_of t AND BDT_ENDPOINT_IP_VERSION_6 = 0" for t
    by (simp_all add: protocol_of_def)
  ultimately show ?thesis using t by (simp add: BdtEndpointFromString_def has_flag_def Let_def)
qed

lemma letters_accepted:
  assumes "length p = 3" and ds: "part_text ds"
  shows "\<exists>e. BdtEndpointFromString (''v6'' @ p @ ''['' @ ds @ ''::]:'' @ port) = Some (Inr e) \<and>
    addressV6 e = part_bytes (digits_value (map digit_value ds)) @ replicate 14 0"
proof -
  let ?a = "digits_value (map digit_value ds)" and ?r = "port @ [CHR 0x00]"
  obtain x ys where h: "ds = x # ys" using ds by (cases ds) (simp_all add: part_text_def)
  have x: "x \<noteq> CHR '':''" using ds h by (auto simp: part_text_def isalpha_def isdigit_def)
  have "parse_v6 None 0 (replicate 8 0) (ds @ CHR '':'' # '':]:'' @ ?r) = parse_v6 None 1 (read_so_far [?a]) ('':]:'' @ ?r)"
    using read_digits [OF ds, of "CHR '':''" "[]" None] by (simp add: read_so_far_def)
  also have "\<dots> = Some (Inr (Some 1, 1, read_so_far [?a], CHR '':'' # ?r))"
    by (simp add: parse_v6.simps)
  finally have read: "parse_v6 None 0 (replicate 8 0) (ds @ CHR '':'' # '':]:'' @ ?r) = \<dots>" .
  moreover have "expand_v6 (Some 1) 1 (read_so_far [?a]) = Some (Inr (part_bytes ?a @ replicate 14 0))"
    by (simp add: expand_v6_def read_so_far_def part_bytes_def numeral_eq_Suc)
  ultimately have "parse_v6_address (''['' @ ds @ ''::]:'' @ ?r) = Some (Inr (part_bytes ?a @ replicate 14 0, ?r))"
    using x by (simp add: parse_v6_address_def parse_bind_def h)
  then show ?thesis
    using from_string_prefix [of "''v6''" p "''['' @ ds @ ''::]:'' @ port" "[CHR 0x00]"] assms(1)
    by (simp add: BdtEndpointFromString_def version_of_def parse_bind_def Let_def)
qed

lemma signs_accepted:
  assumes "length p = 3" and "unat a < 100"
  shows "\<exists>e. BdtEndpointFromString (''v4'' @ p @ ''-'' @ dec (unat a) @ ''.'' @ dec (unat (b :: u8)) @ ''.'' @ dec (unat (c :: u8)) @
      ''.'' @ dec (unat (d :: u8)) @ '':'' @ port) = Some (Inr e) \<and> addressV6 e = [- a, b, c, d] @ replicate 12 0"
proof -
  let ?o = "CHR ''-'' # dec (unat a)" and ?r = "port @ [CHR 0x00]"
  have "length (dec (unat a)) \<le> 2" using digits_length [of 10 "unat a" 1] assms(2) by (simp add: dec_def)
  then have o: "take_part 0 (CHR ''.'') (?o @ CHR ''.'' # rest) = Some (Inr (?o, rest))" for rest
    by (intro take_part_digits) (use dec_chars in auto)
  have "atoi ?o = - int (unat a)"
    using atoi_digits_dec [of 0 "unat a" "[]"] by (simp add: atoi_def isspace_def dec_def)
  then have minus: "word_of_int (atoi ?o) = - a" by simp
  have "dec n \<noteq> []" for n by (simp add: dec_def digits_not_empty)
  then have "parse_v4 [CHR ''.'', CHR ''.'', CHR ''.'', CHR '':'']
      (?o @ ''.'' @ dec (unat b) @ ''.'' @ dec (unat c) @ ''.'' @ dec (unat d) @ '':'' @ ?r) = Some (Inr ([- a, b, c, d], ?r))"
    using o minus by (simp add: take_part_dec parse_bind_def byte_read)
  then show ?thesis
    using from_string_prefix [of "''v4''" p "?o @ ''.'' @ dec (unat b) @ ''.'' @ dec (unat c) @ ''.'' @ dec (unat d) @ '':'' @ port" "[CHR 0x00]"]
      assms(1)
    by (simp add: BdtEndpointFromString_def version_of_def parse_bind_def Let_def)
qed

text \<open>Octets that are ended by a point, and the rest of a text that ends too early.\<close>

definition octet_text :: "string \<Rightarrow> bool" where
  "octet_text t \<longleftrightarrow> t \<noteq> [] \<and> length t \<le> 3 \<and> CHR ''.'' \<notin> set t"

lemma take_part_short: "c \<notin> set ds \<Longrightarrow> n + length ds \<le> 3 \<Longrightarrow> take_part n c ds = None"
  by (induction ds arbitrary: n) (auto simp: parse_bind_def)

lemma parse_v4_short:
  "\<forall>t\<in>set ts. octet_text t \<Longrightarrow> c \<notin> set ds \<Longrightarrow> length ds \<le> 3 \<Longrightarrow>
   parse_v4 (replicate (length ts) (CHR ''.'') @ c # cs) (concat (map (\<lambda>t. t @ ''.'') ts) @ ds) = None"
proof (induction ts)
  case Nil
  then show ?case using take_part_short [of c ds 0] by (simp add: parse_bind_def)
next
  case (Cons t ts)
  have "take_part 0 (CHR ''.'') (t @ CHR ''.'' # concat (map (\<lambda>t. t @ ''.'') ts) @ ds) =
      Some (Inr (t, concat (map (\<lambda>t. t @ ''.'') ts) @ ds))"
    using Cons.prems(1) by (intro take_part_digits) (auto simp: octet_text_def)
  then show ?case using Cons by (simp add: parse_bind_def octet_text_def)
qed

lemma short_read_behind:
  assumes "length p = 3" and ts: "\<forall>t\<in>set ts. octet_text t" "length ts \<le> 3"
    and ds: "CHR ''.'' \<notin> set ds" "CHR '':'' \<notin> set ds" "length ds \<le> 2"
  shows "BdtEndpointFromString (''v4'' @ p @ concat (map (\<lambda>t. t @ ''.'') ts) @ ds) = None"
proof -
  have "length ts = 0 \<or> length ts = 1 \<or> length ts = 2 \<or> length ts = 3" using ts(2) by linarith
  then obtain c cs where "[CHR ''.'', CHR ''.'', CHR ''.'', CHR '':''] = replicate (length ts) (CHR ''.'') @ c # cs"
      "c \<in> {CHR ''.'', CHR '':''}"
    by (auto simp: numeral_eq_Suc)
  then have "parse_v4 [CHR ''.'', CHR ''.'', CHR ''.'', CHR '':''] (concat (map (\<lambda>t. t @ ''.'') ts) @ ds @ [CHR 0x00]) = None"
    using parse_v4_short [OF ts(1), of c "ds @ [CHR 0x00]" cs] ds by auto
  then show ?thesis
    using from_string_prefix [of "''v4''" p "concat (map (\<lambda>t. t @ ''.'') ts) @ ds" "[CHR 0x00]"] assms(1)
    by (simp add: BdtEndpointFromString_def version_of_def parse_bind_def Let_def)
qed

text \<open>
  C37. What \<open>BdtEndpointFromString\<close> accepts that is no endpoint. Every text of four or more characters that begins with neither
  version is read without an error, as an endpoint with no version, port or address. In version 6, one to four letters and digits are
  a part, any letter of the alphabet counting as a digit (g as 16 to z as 35), so that its value is what the
  shifted digits add up to. In version 4, the first octet may have a minus sign before its one or two digits, and is then minus their number. And every text of version 4
  that ends with at most two characters of one of its octets is read behind its end.
\<close>

theorem bad_texts_accepted:
  assumes "length p = 3"
  shows "(\<forall>s. 4 \<le> length s \<and> take 2 s \<noteq> ''v4'' \<and> take 2 s \<noteq> ''v6'' \<longrightarrow>
      (\<exists>e. BdtEndpointFromString s = Some (Inr e) \<and> \<not> has_flag e BDT_ENDPOINT_IP_VERSION_4 \<and>
         \<not> has_flag e BDT_ENDPOINT_IP_VERSION_6 \<and> ep_port e = 0 \<and> addressV6 e = replicate 16 0)) \<and>
    (\<forall>ds port. part_text ds \<longrightarrow>
      (\<exists>e. BdtEndpointFromString (''v6'' @ p @ ''['' @ ds @ ''::]:'' @ port) = Some (Inr e) \<and>
         addressV6 e = part_bytes (digits_value (map digit_value ds)) @ replicate 14 0)) \<and>
    (\<forall>a b c d port. unat a < 100 \<longrightarrow>
      (\<exists>e. BdtEndpointFromString (''v4'' @ p @ ''-'' @ dec (unat a) @ ''.'' @ dec (unat (b :: u8)) @ ''.'' @ dec (unat (c :: u8)) @
          ''.'' @ dec (unat (d :: u8)) @ '':'' @ port) = Some (Inr e) \<and> addressV6 e = [- a, b, c, d] @ replicate 12 0)) \<and>
    (\<forall>ts ds. (\<forall>t\<in>set ts. octet_text t) \<and> length ts \<le> 3 \<and> CHR ''.'' \<notin> set ds \<and> CHR '':'' \<notin> set ds \<and> length ds \<le> 2 \<longrightarrow>
      BdtEndpointFromString (''v4'' @ p @ concat (map (\<lambda>t. t @ ''.'') ts) @ ds) = None)"
  using no_version_accepted letters_accepted [OF assms] signs_accepted [OF assms] short_read_behind [OF assms] by simp

theorem bad_texts_accepted_witness:
  "(\<exists>e. BdtEndpointFromString ''127.0.0.1:80'' = Some (Inr e) \<and> ep_port e = 0) \<and>
   (\<exists>e. BdtEndpointFromString ''v6tcp[z::]:80'' = Some (Inr e) \<and> addressV6 e = [0, 35] @ replicate 14 0) \<and>
   BdtEndpointFromString ''v4tcp127.0.1'' = None"
proof -
  have "part_text ''z''" "part_bytes (digits_value (map digit_value ''z'')) = [0, 35]" by code_simp+
  moreover have "octet_text ''127'' \<and> octet_text ''0''" by code_simp
  ultimately show ?thesis
    using bad_texts_accepted [of "''tcp''", THEN conjunct1, THEN spec, of "''127.0.0.1:80''"]
      bad_texts_accepted [of "''tcp''", THEN conjunct2, THEN conjunct1, THEN spec, of "''z''", THEN spec, of "''80''"]
      bad_texts_accepted [of "''tcp''", THEN conjunct2, THEN conjunct2, THEN conjunct2, THEN spec, of "[''127'', ''0'']", THEN spec, of "''1''"]
    by auto
qed

end
