(* ===== verification/Identifiers.thy ===== *)
theory Identifiers
  imports Prelude
begin

text \<open>
  Identifiers of \<^verbatim>\<open>BDTCore/Global\<close>: sequence numbers of 20 bits of time above 12 bits that count
  (\<^verbatim>\<open>SequenceCreator.imp.inl\<close>), ids that are never 0 (\<^verbatim>\<open>IdCreator.imp.inl\<close>), and the area in front of the
  hash in a peerid (\<^verbatim>\<open>Peerid.imp.inl\<close>). A creator's loop of compare and swap is one step: the value
  it stores is the successor of the one it has replaced. A clock reading is an argument.
\<close>

unbundle bit_operations_syntax

section \<open>Sequence numbers\<close>

text \<open>The bit fields of \<open>Bdt_Sequence\<close>, \<open>increase\<close> in the low bits.\<close>

definition seq_time :: "u32 \<Rightarrow> u32" where
  "seq_time s = drop_bit 12 s"

definition seq_increase :: "u32 \<Rightarrow> u32" where
  "seq_increase s = take_bit 12 s"

definition Bdt_Sequence :: "u32 \<Rightarrow> u32 \<Rightarrow> u32" where
  "Bdt_Sequence time increase = push_bit 12 (take_bit 20 time) OR take_bit 12 increase"

definition TIME_NOW :: "u64 \<Rightarrow> u32" where
  "TIME_NOW now = ucast (drop_bit 20 now AND (push_bit 20 1 - 1))"

definition Bdt_SequenceInit :: "u64 \<Rightarrow> u64 \<Rightarrow> u32" where
  "Bdt_SequenceInit now random = Bdt_Sequence (TIME_NOW now) (ucast (random AND (push_bit 12 1 - 1)))"

text \<open>The creator's value is the last one it has given.\<close>

definition Bdt_SequenceNext :: "u64 \<Rightarrow> u32 \<Rightarrow> u32" where
  "Bdt_SequenceNext now lastValue = Bdt_Sequence (TIME_NOW now) (seq_increase lastValue + 1)"

definition Bdt_SequenceCompare :: "u32 \<Rightarrow> u32 \<Rightarrow> int" where
  "Bdt_SequenceCompare seq1 seq2 =
     (if seq1 = seq2 then 0
      else if seq1 > seq2 then (if seq1 - seq2 < 0x80000000 then 1 else -1)
      else if seq2 - seq1 < 0x80000000 then -1 else 1)"

definition Bdt_SequenceIsTimeout :: "u64 \<Rightarrow> u32 \<Rightarrow> u32 \<Rightarrow> bool" where
  "Bdt_SequenceIsTimeout now seq timeLimitS \<longleftrightarrow>
     (let n = TIME_NOW now; n = (if n < seq_time seq then n + push_bit 20 1 else n)
      in n - seq_time seq > timeLimitS)"

section \<open>Ids\<close>

definition Bdt_Uint32IdCreatorNext :: "u32 \<Rightarrow> u32" where
  "Bdt_Uint32IdCreatorNext curValue = (if curValue = 0x7fffffff then 1 else curValue + 1)"

section \<open>Peerids\<close>

record BdtPeerArea =
  continent :: u8
  country :: u8
  carrier :: u8
  city :: u16
  inner :: u8

text \<open>C computes with \<open>int\<close> and stores the low byte.\<close>

definition peerid_encode :: "BdtPeerArea \<Rightarrow> u8 list \<Rightarrow> u8 list" where
  "peerid_encode a hash =
     [ucast (push_bit 2 (ucast (continent a) :: u32) OR drop_bit 6 (ucast (country a))),
      ucast (push_bit 2 (ucast (country a) :: u32) OR drop_bit 2 (ucast (carrier a))),
      ucast (push_bit 6 (ucast (carrier a) :: u32) OR drop_bit 8 (ucast (city a))),
      ucast (drop_bit 8 (push_bit 8 (ucast (city a) :: u32))),
      inner a] @ take 27 hash"

section \<open>Order of sequence numbers\<close>

lemma unat_sequence: "unat (Bdt_Sequence t i) = (unat t mod 1048576) * 4096 + unat i mod 4096"
proof -
  have "Bdt_Sequence t i = push_bit 12 (take_bit 20 t) + take_bit 12 i"
    unfolding Bdt_Sequence_def by (rule disjunctive_add [symmetric]) (auto simp: bit_simps)
  moreover have t: "unat (push_bit 12 (take_bit 20 t)) = (unat t mod 1048576) * 4096"
    using mod_less_divisor [of 1048576 "unat t"] by (simp add: take_bit_eq_mod push_bit_eq_mult unat_word_ariths)
  moreover have i: "unat (take_bit 12 i) = unat i mod 4096" by (simp add: take_bit_eq_mod unat_mod)
  moreover have "(unat t mod 1048576) * 4096 + unat i mod 4096 < 2 ^ 32"
    using mod_less_divisor [of 1048576 "unat t"] mod_less_divisor [of 4096 "unat i"] by simp
  ultimately show ?thesis by (simp add: unat_word_ariths)
qed

lemma seq_fields: "unat s = unat (seq_time s) * 4096 + unat (seq_increase s)" "unat (seq_time s) < 1048576" "unat (seq_increase s) < 4096"
proof -
  have t: "unat (seq_time s) = unat s div 4096" by (simp add: seq_time_def drop_bit_eq_div unat_div)
  have i: "unat (seq_increase s) = unat s mod 4096" by (simp add: seq_increase_def take_bit_eq_mod unat_mod)
  show "unat s = unat (seq_time s) * 4096 + unat (seq_increase s)" unfolding t i by simp
  show "unat (seq_time s) < 1048576" "unat (seq_increase s) < 4096" unfolding t i using unat_lt32 [of s] by simp_all
qed

lemma compare_newer: "a \<noteq> b \<Longrightarrow> unat (a - b) < 2 ^ 31 \<Longrightarrow> Bdt_SequenceCompare a b = 1"
  and compare_older: "a \<noteq> b \<Longrightarrow> unat (b - a) < 2 ^ 31 \<Longrightarrow> Bdt_SequenceCompare a b = - 1"
proof -
  have sum: "unat (a - b) + unat (b - a) = 2 ^ 32" if "a \<noteq> b"
    using that unat_lt32 [of a] unat_lt32 [of b] by (auto simp: unat_sub_if' word_unat_eq_iff)
  show "a \<noteq> b \<Longrightarrow> unat (a - b) < 2 ^ 31 \<Longrightarrow> Bdt_SequenceCompare a b = 1"
    "a \<noteq> b \<Longrightarrow> unat (b - a) < 2 ^ 31 \<Longrightarrow> Bdt_SequenceCompare a b = - 1"
    using sum by (auto simp: Bdt_SequenceCompare_def word_less_unat)
qed

lemma next_value: "unat (Bdt_SequenceNext now s) = unat (TIME_NOW now) * 4096 + (unat (seq_increase s) + 1) mod 4096"
  and time_bound: "unat (TIME_NOW now) < 1048576"
proof -
  have "TIME_NOW now = ucast (take_bit 20 (drop_bit 20 now))" by (simp add: TIME_NOW_def take_bit_eq_mask mask_eq_exp_minus_1)
  then have "unat (TIME_NOW now) = take_bit 20 (unat (drop_bit 20 now))"
    by (simp add: unsigned_ucast_eq unsigned_take_bit_eq)
  then show "unat (TIME_NOW now) < 1048576" by (simp add: take_bit_eq_mod)
  moreover have "unat (seq_increase s + 1) = unat (seq_increase s) + 1"
    using seq_fields(3) [of s] by (subst unat_add_lem [THEN iffD1]) simp_all
  ultimately show "unat (Bdt_SequenceNext now s) = unat (TIME_NOW now) * 4096 + (unat (seq_increase s) + 1) mod 4096"
    by (simp add: Bdt_SequenceNext_def unat_sequence)
qed

text \<open>The ticks since the last value, the time being 20 bits that wrap.\<close>

definition ticks_since :: "u64 \<Rightarrow> u32 \<Rightarrow> nat" where
  "ticks_since now s = (unat (TIME_NOW now) + 1048576 - unat (seq_time s)) mod 1048576"

lemma next_later:
  assumes "0 < ticks_since now s" and "ticks_since now s < 524288"
  shows "Bdt_SequenceCompare (Bdt_SequenceNext now s) s = 1"
proof -
  let ?n = "Bdt_SequenceNext now s"
  define T where "T = unat (TIME_NOW now)"
  define T0 where "T0 = unat (seq_time s)"
  define I where "I = unat (seq_increase s)"
  define J where "J = (I + 1) mod 4096"
  have n: "unat ?n = T * 4096 + J" and l: "unat s = T0 * 4096 + I" and b: "T < 1048576" "T0 < 1048576" "I < 4096" "J < 4096"
    using next_value [of now s] time_bound [of now] seq_fields [of s] by (simp_all add: T_def T0_def I_def J_def)
  have d: "ticks_since now s = (if T0 \<le> T then T - T0 else T + 1048576 - T0)"
    using b(1,2) by (simp add: ticks_since_def mod_if flip: T_def T0_def)
  have "?n \<noteq> s"
  proof
    assume "?n = s"
    then have "T * 4096 + J = T0 * 4096 + I" using n l by simp
    moreover have "(T * 4096 + J) div 4096 = T" "(T0 * 4096 + I) div 4096 = T0" using b(3,4) by simp_all
    ultimately have "T = T0" by simp
    then show False using assms(1) d by simp
  qed
  moreover have "unat (?n - s) < 2 ^ 31"
  proof (cases "T0 \<le> T")
    case True
    then have "T0 + 1 \<le> T" "T + 1 \<le> T0 + 524288" using assms d by simp_all
    then have le: "unat s \<le> unat ?n" and lt: "unat ?n < unat s + 2 ^ 31" unfolding n l using b by simp_all
    have "unat (?n - s) = unat ?n - unat s" using le by (simp add: word_le_unat)
    then show ?thesis using le lt by linarith
  next
    case False
    then have "T + 1 \<le> T0" "T + 1048576 + 1 \<le> T0 + 524288" using assms d by simp_all
    then have "unat ?n < unat s" "unat ?n + 2 ^ 32 < unat s + 2 ^ 31" unfolding n l using b by simp_all
    then show ?thesis by (simp add: unat_sub_if')
  qed
  ultimately show ?thesis by (rule compare_newer)
qed

text \<open>
  C24. A new sequence number counts as newer than the last one when the clock has moved on by less than half of its range, and
  within one tick of the clock, a little more than a second, as long as the 12 bits that count do not wrap. When they
  wrap, the new number counts as older: after at most 4096 numbers in one tick the order is lost.
\<close>

theorem sequence_order:
  "(0 < ticks_since now s \<and> ticks_since now s < 524288 \<longrightarrow> Bdt_SequenceCompare (Bdt_SequenceNext now s) s = 1) \<and>
   (ticks_since now s = 0 \<longrightarrow>
      Bdt_SequenceCompare (Bdt_SequenceNext now s) s = (if seq_increase s = 4095 then - 1 else 1))"
proof (intro conjI impI)
  assume "0 < ticks_since now s \<and> ticks_since now s < 524288"
  then show "Bdt_SequenceCompare (Bdt_SequenceNext now s) s = 1" using next_later by simp
next
  assume "ticks_since now s = 0"
  then have same: "unat (TIME_NOW now) = unat (seq_time s)"
    using time_bound [of now] seq_fields(2) [of s] by (auto simp: ticks_since_def mod_if split: if_splits)
  let ?n = "Bdt_SequenceNext now s"
  have n: "unat ?n = unat (seq_time s) * 4096 + (unat (seq_increase s) + 1) mod 4096" using next_value [of now s] same by simp
  show "Bdt_SequenceCompare ?n s = (if seq_increase s = 4095 then - 1 else 1)"
  proof (cases "seq_increase s = 4095")
    case True
    then have "unat ?n = unat s - 4095" "4095 \<le> unat s" using n seq_fields(1) [of s] by simp_all
    then have "?n \<noteq> s" "unat (s - ?n) < 2 ^ 31" by (auto simp: unat_sub_if')
    then show ?thesis using compare_older True by simp
  next
    case False
    then have "unat (seq_increase s) \<noteq> 4095" by (auto simp: word_unat_eq_iff)
    then have "unat ?n = unat s + 1" using n seq_fields(1,3) [of s] by simp
    then have "?n \<noteq> s" "unat (?n - s) < 2 ^ 31" by (auto simp: unat_sub_if')
    then show ?thesis using compare_newer False by simp
  qed
qed

theorem sequence_order_witness:
  "Bdt_SequenceCompare (Bdt_SequenceNext 0x40500000 0x00404fff) 0x00404fff = 1 \<and>
   Bdt_SequenceCompare (Bdt_SequenceNext 0x40400000 0x00404fff) 0x00404fff = - 1"
proof -
  have a: "ticks_since 0x40500000 0x00404fff = 1" and b: "ticks_since 0x40400000 0x00404fff = 0" and c: "seq_increase 0x00404fff = 4095"
    by (simp_all add: ticks_since_def TIME_NOW_def seq_time_def seq_increase_def take_bit_eq_mod)
  show ?thesis
    using sequence_order [of "0x40500000" "0x00404fff"] sequence_order [of "0x40400000" "0x00404fff"] unfolding a b c by simp
qed

section \<open>Ids are not repeated\<close>

lemma id_steps:
  assumes "0 < unat c" and "unat c \<le> 2147483647"
  shows "unat ((Bdt_Uint32IdCreatorNext ^^ k) c) = (unat c - 1 + k) mod 2147483647 + 1"
proof (induction k)
  case 0
  then show ?case using assms by simp
next
  case (Suc k)
  let ?c = "(Bdt_Uint32IdCreatorNext ^^ k) c"
  let ?m = "(unat c - 1 + k) mod 2147483647"
  have m: "?m < 2147483647" by simp
  have s: "(unat c - 1 + Suc k) mod 2147483647 = (if ?m = 2147483646 then 0 else ?m + 1)"
    by (simp add: mod_Suc)
  show ?case
  proof (cases "?c = 0x7fffffff")
    case True
    then have "?m = 2147483646" using Suc by simp
    then show ?thesis using True s by (simp add: Bdt_Uint32IdCreatorNext_def [of 2147483647])
  next
    case False
    then have "?m \<noteq> 2147483646" using Suc by (auto simp: word_unat_eq_iff)
    moreover have "unat (?c + 1) = unat ?c + 1" using Suc m by (subst unat_add_lem [THEN iffD1]) simp_all
    moreover have "Bdt_Uint32IdCreatorNext ?c = ?c + 1" using False by (simp add: Bdt_Uint32IdCreatorNext_def [of ?c])
    ultimately show ?thesis using Suc s by simp
  qed
qed

lemma ids_distinct:
  assumes "0 < unat c" and "unat c \<le> 2147483647" and "j < k" and "k < j + 2147483647"
  shows "(Bdt_Uint32IdCreatorNext ^^ j) c \<noteq> (Bdt_Uint32IdCreatorNext ^^ k) c \<and> (Bdt_Uint32IdCreatorNext ^^ k) c \<noteq> 0"
proof -
  have "(unat c - 1 + j) mod 2147483647 \<noteq> (unat c - 1 + k) mod 2147483647"
  proof
    assume "(unat c - 1 + j) mod 2147483647 = (unat c - 1 + k) mod 2147483647"
    then have "2147483647 dvd k - j" using assms(3) mod_eq_dvd_iff_nat [of "unat c - 1 + j" "unat c - 1 + k" 2147483647] by simp
    then show False using assms(3,4) nat_dvd_not_less [of "k - j" 2147483647] by simp
  qed
  then show ?thesis using id_steps [OF assms(1,2), of j] id_steps [OF assms(1,2), of k] by (auto simp: word_unat_eq_iff)
qed

section \<open>The area in a peerid\<close>

text \<open>An area whose fields have their 6, 8, 4, 14 and 8 bits.\<close>

definition area_ok :: "BdtPeerArea \<Rightarrow> bool" where
  "area_ok a \<longleftrightarrow> take_bit 6 (continent a) = continent a \<and> take_bit 4 (carrier a) = carrier a \<and> take_bit 14 (city a) = city a"

definition peerid_area :: "u8 list \<Rightarrow> BdtPeerArea" where
  "peerid_area p =
     \<lparr>continent = drop_bit 2 (p ! 0), country = push_bit 6 (p ! 0) OR drop_bit 2 (p ! 1),
      carrier = take_bit 4 (push_bit 2 (p ! 1) OR drop_bit 6 (p ! 2)),
      city = push_bit 8 (take_bit 6 (ucast (p ! 2))) OR ucast (p ! 3), inner = p ! 4\<rparr>"

lemma no_bit: "take_bit k (x :: 'a::len word) = x \<Longrightarrow> k \<le> n \<Longrightarrow> \<not> bit x n"
  by (metis bit_take_bit_iff not_less)

lemma area_back:
  assumes "area_ok a"
  shows "peerid_area (peerid_encode a hash) = a"
proof -
  note none = no_bit [of 6 "continent a"] no_bit [of 4 "carrier a"] no_bit [of 14 "city a"]
  have ok: "take_bit 6 (continent a) = continent a" "take_bit 4 (carrier a) = carrier a" "take_bit 14 (city a) = city a"
    using assms by (simp_all add: area_ok_def)
  have c14: "bit (city a) n \<Longrightarrow> n < 14" for n using no_bit [OF ok(3), of n] by (meson not_le)
  have step: "2 \<le> n \<Longrightarrow> Suc (Suc (n - 2)) = n" for n :: nat by simp
  let ?p = "peerid_encode a hash"
  have p: "?p ! 0 = ucast (push_bit 2 (ucast (continent a) :: u32) OR drop_bit 6 (ucast (country a)))"
      "?p ! 1 = ucast (push_bit 2 (ucast (country a) :: u32) OR drop_bit 2 (ucast (carrier a)))"
      "?p ! 2 = ucast (push_bit 6 (ucast (carrier a) :: u32) OR drop_bit 8 (ucast (city a)))"
      "?p ! 3 = ucast (drop_bit 8 (push_bit 8 (ucast (city a) :: u32)))" "?p ! 4 = inner a"
    by (simp_all add: peerid_encode_def numeral_eq_Suc)
  have "drop_bit 2 (?p ! 0) = continent a" unfolding p
    by (rule bit_word_eqI) (use none(1) ok in \<open>auto simp: bit_simps dest: bit_imp_le_length intro!: not_le_imp_less\<close>)
  moreover have "push_bit 6 (?p ! 0) OR drop_bit 2 (?p ! 1) = country a" unfolding p
    by (rule bit_word_eqI) (use none(1,2) ok in \<open>auto simp: bit_simps dest: bit_imp_le_length\<close>)
  moreover have "take_bit 4 (push_bit 2 (?p ! 1) OR drop_bit 6 (?p ! 2)) = carrier a" unfolding p
    by (rule bit_word_eqI) (use none(2,3) ok in \<open>auto simp: bit_simps step not_less dest: bit_imp_le_length\<close>)
  moreover have "push_bit 8 (take_bit 6 (ucast (?p ! 2))) OR ucast (?p ! 3) = city a" unfolding p
    by (rule bit_word_eqI) (use none(3) ok in \<open>auto simp: bit_simps dest: bit_imp_le_length c14\<close>)
  ultimately show ?thesis by (simp add: peerid_area_def p(5))
qed

end
