(* ===== verification/Spec2Isabelle.thy ===== *)
theory Spec2Isabelle
  imports BfxList BufferStream SessionTypes SendQueueFacts RecvStream LedbatFacts TimerThreads PackageNet TcpSocket TcpFaults StreamFaults KeyWindow KeyFaults EndpointText Identifiers
begin

text \<open>
  A verification of the data plane of BDT, the peer-to-peer transport of \<^verbatim>\<open>src/c/src\<close>:
  reliable byte streams over packages that may be lost, repeated and reordered.

  \<^bold>\<open>The program.\<close> A \<open>BdtStack\<close> owns the network interfaces, the history of peers and
  tunnels, the tunnels to remote peers and the connections on them. An application connects to a
  peer; a tunnel is built (\<^verbatim>\<open>BDTCore/Tunnel\<close>), and the connection (\<^verbatim>\<open>BDTCore/Connection\<close>) runs
  either over one TCP socket or, as a package connection, over session data packages on the tunnel.
  A package connection cuts what the application writes into packages (its send queue), puts
  what arrives back in order (its receive queue), limits what is in flight (the congestion control),
  repeats what is lost (its timers and selective acknowledgements), and closes both directions with
  a handshake. Packages are written and parsed by the package encoder and decoder over a byte stream.

  \<^bold>\<open>The theories\<close>, each named with the code it models (paths below \<^verbatim>\<open>src/c/src\<close>):
  \<^item> \<open>Prelude\<close>: integers, result codes, facts on words and lists the others share.
  \<^item> \<open>BfxList\<close>: the intrusive doubly linked list of \<^verbatim>\<open>BuckyBase/Coll/list.c\<close> on a heap of
    pointers; every operation refines the operation on HOL lists, which the other theories use.
  \<^item> \<open>BufferStream\<close>: the byte stream of \<^verbatim>\<open>BuckyBase/Buffer/buffer_stream.c\<close>; reading gives back
    what was written (locale \<open>codec\<close>, interpreted for every width).
  \<^item> \<open>SessionData\<close>: \<open>EncodeSessionDataPackage\<close> and \<open>DecodeSessionDataPackage\<close> of
    \<^verbatim>\<open>BDTCore/Protocol/PackageEncoder.imp.inl\<close> and \<^verbatim>\<open>PackageDecoder.imp.inl\<close>; the round trip, the
    exact consumption of the decoder, and the packages on which the two disagree.
  \<^item> \<open>SendQueue\<close>, \<open>SendQueueFacts\<close>: \<^verbatim>\<open>BDTCore/Connection/PackageConnection/SendQueue.imp.inl\<close>; the
    invariant of the blocks in flight and lost, and the effect of filling a package, of an
    acknowledgement and of a timeout.
  \<^item> \<open>RecvQueue\<close>, \<open>RecvQueueFacts\<close>, \<open>RecvStream\<close>: \<^verbatim>\<open>RecvQueue.imp.inl\<close> of the same directory; the set of
    received positions, the acknowledgement built from it, and the bytes handed to the application.
  \<^item> \<open>Ledbat\<close>, \<open>LedbatFacts\<close>: the congestion control, \<^verbatim>\<open>LedbatCc.imp.inl\<close>; its samples and the
    bounds of its window.
  \<^item> \<open>TimerHelper\<close>, \<open>TimerThreads\<close>: \<^verbatim>\<open>BDTCore/Global/TimerHelper.imp.inl\<close> and its interleavings: no
    timer is leaked while its sequence number does not wrap.
  \<^item> \<open>PackageConnection\<close>: \<^verbatim>\<open>PackageConnection.imp.inl\<close>, every operation of the application, every package
    that arrives and every timer that fires. \<open>PackageSend\<close> analyses the send loop (when it ends, that it
    respects the window), \<open>PackageClose\<close> the close handshake, \<open>PackageRecv\<close> the buffers handed to the
    application and the retransmission timeout.
  \<^item> \<open>PackageNet\<close>: two connections and the network between them. The service of the protocol:
    each application reads a prefix of what the other has written (\<open>stream_service\<close>), and no byte
    that may still be needed has been forgotten (\<open>nothing_lost\<close>).

  \<^item> \<open>SessionTypes\<close>: what every session data package that the decoder accepts looks like.
  \<^item> \<open>TcpInterface\<close>: \<^verbatim>\<open>BDTCore/Interface/TcpInterface.imp.inl\<close> (the parser that cuts a TCP stream into
    boxes, the delivery of boxes to the owner, the boxing of what is sent, the states of the interface) and the
    padding of \<^verbatim>\<open>Global/Aes/AesMbedtls.imp.inl\<close>. \<open>TcpStream\<close>: the parser agrees with a reference
    splitter of byte streams, whatever the segments, and what is boxed on one side is what the other gets.
    \<open>TcpSocket\<close>: threads that share a socket, and its reference count, which is right as long as the closed
    state is not set or left by \<open>Bdt_TcpInterfaceSetState\<close>. \<open>TcpFaults\<close>: inputs on which the
    interface reads packages that are null or freed, or answers differently to other segments.
  \<^item> \<open>StreamConnection\<close>: \<^verbatim>\<open>BDTCore/Connection/StreamConnection.imp.inl\<close>, the connection over one encrypted
    TCP socket. \<open>StreamSend\<close> and \<open>StreamRecv\<close>: the invariants of its two directions and that every operation
    keeps them; \<open>StreamNet\<close>: every run of one connection, and two connections with TCP between them, from
    application to application; \<open>StreamFaults\<close>: a callback that does not come unless more is sent, and two
    sends that fill the record buffer at once.
  \<^item> \<open>KeyManager\<close>: \<^verbatim>\<open>BDTCore/History/KeyManager.imp.inl\<close>, the keys shared with other peers, found by peer and by
    hashes that change with the minute. \<open>KeyFacts\<close>: the tree of hashes always holds the hashes of the keys that are
    alive; \<open>KeyRuns\<close>: what that means for a search after any calls; \<open>KeyWindow\<close>: which minutes have a
    hash; \<open>KeyLinks\<close>: the doubly linked lists of keys on the heap; \<open>KeyFaults\<close>: in lists of any length, the keys
    that a renewal drops out of the list, and the node that the deletion of another key unlinks.
  \<^item> \<open>Endpoint\<close>, \<open>EndpointText\<close>: \<^verbatim>\<open>BDTCore/Global/Endpoint.imp.inl\<close>, addresses with their text form, which is read back
    as it was written; and the families of texts that are read although they are none. \<open>Identifiers\<close>: sequence numbers, ids and the area of a peerid
    (\<^verbatim>\<open>SequenceCreator.imp.inl\<close>, \<^verbatim>\<open>IdCreator.imp.inl\<close>, \<^verbatim>\<open>Peerid.imp.inl\<close>).

  \<^bold>\<open>Interfaces\<close> are locales, interpreted on the definitions of the model: \<open>codec\<close> (the widths of the
  byte stream), \<open>base_cc\<close> (the table \<open>BaseCc\<close> the connection calls, interpreted by \<open>Ledbat\<close>), \<open>sending\<close>
  (what a step of a connection keeps, interpreted for the close diagram and for the network), \<open>box_handler\<close> (what
  the owner of a TCP interface makes of a box, interpreted for packages and for stream data).

  \<^bold>\<open>Conventions.\<close> A C structure is a record, an enumeration a datatype, an integer a word of its
  width. \<open>None\<close> as the result of an operation is a failed \<open>assert\<close>, a bad memory access or, for the
  send loop, a loop that does not end; the properties show where it cannot occur. Memory a pointer
  leads to is the list of bytes from the pointer on. Critical sections are single steps; where a
  function takes its lock twice (\<open>Bdt_TimerHelperStart\<close>) the sections are separate steps.
  A clock reading, the rounding of \<open>double\<close>, the answers of the framework and the choice of the
  network are arguments.

  \<^bold>\<open>Bounds.\<close> \<open>PackageNet\<close> assumes that neither application writes more than \<open>2 ^ 32\<close> bytes, so that
  stream positions (64 bit, 48 bit on the wire) do not wrap; the queues themselves are analysed up
  to the bound of each operation, stated in its lemma. The send loop is a
  \<open>partial_function (option)\<close>, with the exact condition under which it ends; so is
  the loop of the key manager over the keys to renew, of which the theorems only use completed runs, because
  whether it ends depends on links that \<open>KeyFaults\<close> shows to go wrong. The records of a stream
  connection have less than 65520 bytes, so that the length of a box fits its two bytes.

  \<^bold>\<open>Not modelled.\<close> Third-party code (\<^verbatim>\<open>c/3rd\<close>: sqlite, mbedtls, libuv and others), vendored helpers
  (cJSON, sds, uthash, and SGLib but for the list macros of the key manager), the SN server, bindings, tools and tests; sockets, threads,
  files and logging of \<^verbatim>\<open>BuckyFramework\<close> and \<^verbatim>\<open>BuckyBase\<close>, which only call the system; the generated
  accessors of \<^verbatim>\<open>PackageImp.imp.inl\<close>; the construction of tunnels, the SN client and the history of
  tunnels, which are chains of callbacks into parts that are not modelled.
\<close>

end
